(* ===== verification/VM_Prelude.thy ===== *)
theory VM_Prelude
  imports Main "HOL-Library.Word" "HOL-Library.List_Lexorder"
begin

text \<open>
  Shared ground of the development: the machine types of the C++ code, little-endian
  integers as \<^verbatim>\<open>memcpy\<close> produces them on the x86 targets the code asserts, byte arrays
  addressed by offset (an \<^verbatim>\<open>mmap\<close>ed region or the contents of a file), binary search, and the
  lemma collections the component theories feed and use.
\<close>

unbundle bit_operations_syntax

named_theorems mem_simps \<open>reads and writes of byte arrays\<close>
named_theorems le_simps \<open>little-endian integers\<close>
named_theorems codec_simps \<open>field layouts and their decoders\<close>

type_synonym byte = "8 word"
type_synonym u32 = "32 word"
type_synonym u64 = "64 word"
type_synonym bytes = "byte list"

section \<open>Little-endian integers\<close>

fun to_le :: "nat \<Rightarrow> nat \<Rightarrow> bytes" where
  "to_le 0 v = []"
| "to_le (Suc n) v = word_of_nat v # to_le n (v div 256)"

fun of_le :: "bytes \<Rightarrow> nat" where
  "of_le [] = 0"
| "of_le (b # bs) = unat b + 256 * of_le bs"

lemma length_to_le [simp]: "length (to_le n v) = n"
  by (induction n arbitrary: v) auto

lemma to_le_eq_Nil [simp]: "to_le n v = [] \<longleftrightarrow> n = 0"
  by (cases n) auto

lemma unat_byte_of_nat: "unat (word_of_nat v :: byte) = v mod 256"
  by (simp add: unat_of_nat)

lemma mod_256_step: "(v :: nat) mod 256 + 256 * (v div 256 mod 256 ^ n) = v mod 256 ^ Suc n"
  using mod_mult2_eq [of v 256 "256 ^ n"] by simp

lemma unat_less_2p: "unat (w :: 'a::len word) < 2 ^ LENGTH('a)"
  by (rule unsigned_less)

lemma of_le_to_le [le_simps]: "of_le (to_le n v) = v mod 256 ^ n"
proof (induction n arbitrary: v)
  case 0
  show ?case by simp
next
  case (Suc n)
  have "of_le (to_le (Suc n) v) = v mod 256 + 256 * (v div 256 mod 256 ^ n)"
    using Suc.IH [of "v div 256"] by (simp add: unat_byte_of_nat)
  then show ?case by (simp only: mod_256_step)
qed

lemma unat_byte_less: "unat (b :: byte) < 256"
  using unat_less_2p [of b] by simp

lemma of_le_less: "of_le bs < 256 ^ length bs"
proof (induction bs)
  case Nil
  show ?case by simp
next
  case (Cons b bs)
  have "unat b + 256 * of_le bs < 256 * Suc (of_le bs)"
    using unat_byte_less [of b] by simp
  also have "\<dots> \<le> 256 * 256 ^ length bs"
    using Cons.IH by (intro mult_le_mono2) simp
  finally show ?case by simp
qed

lemma to_le_of_le [le_simps]: "to_le (length bs) (of_le bs) = bs"
proof (induction bs)
  case Nil
  show ?case by simp
next
  case (Cons b bs)
  have "unat (word_of_nat (unat b + 256 * of_le bs) :: byte) = unat b"
    using unat_byte_less [of b] by (simp only: unat_byte_of_nat) simp
  then have "word_of_nat (unat b + 256 * of_le bs) = b"
    by (simp only: word_unat_eq_iff)
  moreover have "(unat b + 256 * of_le bs) div 256 = of_le bs"
    using unat_byte_less [of b] by simp
  ultimately show ?case using Cons.IH by simp
qed

definition u32_le :: "u32 \<Rightarrow> bytes" where
  "u32_le w = to_le 4 (unat w)"

definition u64_le :: "u64 \<Rightarrow> bytes" where
  "u64_le w = to_le 8 (unat w)"

definition u32_of_le :: "bytes \<Rightarrow> u32" where
  "u32_of_le bs = word_of_nat (of_le bs)"

definition u64_of_le :: "bytes \<Rightarrow> u64" where
  "u64_of_le bs = word_of_nat (of_le bs)"

lemma length_u32_le [simp]: "length (u32_le w) = 4"
  by (simp add: u32_le_def)

lemma length_u64_le [simp]: "length (u64_le w) = 8"
  by (simp add: u64_le_def)

lemma u32_of_le_u32_le [simp, codec_simps]: "u32_of_le (u32_le w) = w"
  using unat_less_2p [of w] by (simp add: u32_of_le_def u32_le_def of_le_to_le)

lemma u64_of_le_u64_le [simp, codec_simps]: "u64_of_le (u64_le w) = w"
  using unat_less_2p [of w] by (simp add: u64_of_le_def u64_le_def of_le_to_le)

lemma u32_le_u32_of_le [codec_simps]: "length bs = 4 \<Longrightarrow> u32_le (u32_of_le bs) = bs"
  using of_le_less [of bs] to_le_of_le [of bs]
  by (simp add: u32_of_le_def u32_le_def unat_of_nat)

lemma u64_le_u64_of_le [codec_simps]: "length bs = 8 \<Longrightarrow> u64_le (u64_of_le bs) = bs"
  using of_le_less [of bs] to_le_of_le [of bs]
  by (simp add: u64_of_le_def u64_le_def unat_of_nat)

section \<open>Byte arrays by offset\<close>

definition mem_read :: "bytes \<Rightarrow> nat \<Rightarrow> nat \<Rightarrow> bytes" where
  "mem_read m off n = take n (drop off m)"

definition mem_write :: "bytes \<Rightarrow> nat \<Rightarrow> bytes \<Rightarrow> bytes" where
  "mem_write m off bs = take off m @ bs @ drop (off + length bs) m"

lemma length_mem_write [simp, mem_simps]:
  "off + length bs \<le> length m \<Longrightarrow> length (mem_write m off bs) = length m"
  by (simp add: mem_write_def)

lemma length_mem_read [simp, mem_simps]:
  "off + n \<le> length m \<Longrightarrow> length (mem_read m off n) = n"
  by (simp add: mem_read_def)

lemma mem_read_write_same [mem_simps]:
  "off + length bs \<le> length m \<Longrightarrow> n = length bs \<Longrightarrow> mem_read (mem_write m off bs) off n = bs"
  by (simp add: mem_read_def mem_write_def)

lemma nth_mem_write:
  assumes "off + length bs \<le> length m" "i < length m"
  shows "mem_write m off bs ! i = (if off \<le> i \<and> i < off + length bs then bs ! (i - off) else m ! i)"
  using assms by (auto simp: mem_write_def nth_append)

lemma mem_read_eqI:
  assumes "length m = length m'" "\<And>i. off \<le> i \<Longrightarrow> i < off + n \<Longrightarrow> i < length m \<Longrightarrow> m ! i = m' ! i"
  shows "mem_read m off n = mem_read m' off n"
  using assms by (auto simp: mem_read_def intro!: nth_equalityI)

lemma mem_read_write_disjoint [mem_simps]:
  assumes "off + length bs \<le> length m" "o' + n \<le> off \<or> off + length bs \<le> o'"
  shows "mem_read (mem_write m off bs) o' n = mem_read m o' n"
  by (rule mem_read_eqI) (use assms in \<open>auto simp: nth_mem_write\<close>)

lemma mem_read_append [mem_simps]:
  "mem_read m off (a + b) = mem_read m off a @ mem_read m (off + a) b"
  by (simp add: mem_read_def take_add add.commute)

lemma mem_read_inside_write [mem_simps]:
  assumes "off + length bs \<le> length m" "d + n \<le> length bs"
  shows "mem_read (mem_write m off bs) (off + d) n = mem_read bs d n"
  using assms by (simp add: mem_read_def mem_write_def add.commute [of off])

lemma mem_read_take: "k + n \<le> l \<Longrightarrow> mem_read (take l m) k n = mem_read m k n"
  by (simp add: mem_read_def drop_take min_def)

lemma mem_read_0_length [simp]: "mem_read bs 0 (length bs) = bs"
  by (simp add: mem_read_def)

lemma mem_read_Nil [simp]: "mem_read m off 0 = []"
  by (simp add: mem_read_def)

lemma mem_read_mid [mem_simps]:
  "length a = off \<Longrightarrow> length b = n \<Longrightarrow> mem_read (a @ b @ c) off n = b"
  by (simp add: mem_read_def)

section \<open>Binary search over a sorted range\<close>

text \<open>
  \<^verbatim>\<open>std::lower_bound\<close> and \<^verbatim>\<open>std::upper_bound\<close> return the partition point of a range that
  is partitioned by the comparison; on a sorted range that is the index of the first element for
  which the comparison stops holding.
\<close>

definition partition_point :: "('a \<Rightarrow> bool) \<Rightarrow> 'a list \<Rightarrow> nat" where
  "partition_point p xs = length (takeWhile p xs)"

lemma partition_point_le: "partition_point p xs \<le> length xs"
  by (simp add: partition_point_def length_takeWhile_le)

lemma partition_point_before: "i < partition_point p xs \<Longrightarrow> p (xs ! i)"
  unfolding partition_point_def
  by (metis nth_mem set_takeWhileD takeWhile_nth)

lemma partition_point_at: "partition_point p xs < length xs \<Longrightarrow> \<not> p (xs ! partition_point p xs)"
  unfolding partition_point_def by (rule nth_length_takeWhile)

lemma drop_partition_point: "drop (partition_point p xs) xs = dropWhile p xs"
  by (simp add: partition_point_def dropWhile_eq_drop)

section \<open>std::bit\_ceil\<close>

text \<open>The smallest power of two that is not below \<open>n\<close>, by doubling.\<close>

function bit_ceil_from :: "nat \<Rightarrow> nat \<Rightarrow> nat" where
  "bit_ceil_from p n = (if p = 0 \<or> n \<le> p then p else bit_ceil_from (2 * p) n)"
  by pat_completeness auto
termination
  by (relation "measure (\<lambda>(p, n). n - p)") auto

declare bit_ceil_from.simps [simp del]

definition bit_ceil :: "nat \<Rightarrow> nat" where
  "bit_ceil n = bit_ceil_from 1 n"

lemma bit_ceil_from_ge: "0 < p \<Longrightarrow> n \<le> bit_ceil_from p n"
  by (induction p n rule: bit_ceil_from.induct) (subst bit_ceil_from.simps, simp)

lemma bit_ceil_from_pow: "\<exists>k. bit_ceil_from (2 ^ j) n = 2 ^ k"
proof (induction "(2::nat) ^ j" n arbitrary: j rule: bit_ceil_from.induct)
  case (1 n)
  show ?case
  proof (cases "n \<le> 2 ^ j")
    case True
    then show ?thesis by (auto simp: bit_ceil_from.simps [of "2 ^ j" n])
  next
    case False
    then have "bit_ceil_from (2 ^ j) n = bit_ceil_from (2 ^ Suc j) n"
      by (simp add: bit_ceil_from.simps [of "2 ^ j" n])
    with "1" [of "Suc j"] False show ?thesis by simp
  qed
qed

lemma bit_ceil_ge: "n \<le> bit_ceil n"
  unfolding bit_ceil_def by (rule bit_ceil_from_ge) simp

lemma bit_ceil_pow: "\<exists>k. bit_ceil n = 2 ^ k"
  using bit_ceil_from_pow [of 0 n] by (simp add: bit_ceil_def)

section \<open>Generic list facts\<close>

lemma sorted_wrt_nthD: "sorted_wrt r xs \<Longrightarrow> i < j \<Longrightarrow> j < length xs \<Longrightarrow> r (xs ! i) (xs ! j)"
  by (simp add: sorted_wrt_iff_nth_less)

lemma mod_length_less: "i < length xs \<Longrightarrow> n mod length xs < length xs"
  by (rule mod_less_divisor) (rule le_less_trans [OF le0])

lemma filter_list_update_same:
  "i < length xs \<Longrightarrow> p (xs ! i) = p x \<Longrightarrow> length (filter p (xs[i := x])) = length (filter p xs)"
proof (induction xs arbitrary: i)
  case Nil
  then show ?case by simp
next
  case (Cons y ys)
  then show ?case by (cases i) auto
qed

end
