(* ===== verification/Bytes_Util.thy ===== *)
theory Bytes_Util
  imports VM_Prelude
begin

text \<open>
  \<^verbatim>\<open>core/bytes.hpp\<close> (byte-wise key order) and \<^verbatim>\<open>api/utils.hpp\<close> (alignment and the
  FNV-1a64 checksums every on-disk format shares). Shown here: the three-way comparison decides
  exactly the lexicographic order, \<open>align_up\<close> rounds to the next multiple when the sum does
  not wrap, and the incremental checksum is the checksum of the concatenation.
\<close>

section \<open>Byte order (core/bytes.hpp)\<close>

text \<open>\<^verbatim>\<open>std::memcmp\<close>: only the sign of the result is used.\<close>

fun memcmp :: "bytes \<Rightarrow> bytes \<Rightarrow> nat \<Rightarrow> int" where
  "memcmp (x # xs) (y # ys) (Suc n) = (if x = y then memcmp xs ys n else uint x - uint y)"
| "memcmp _ _ _ = 0"

definition bytes_compare_3way :: "bytes \<Rightarrow> bytes \<Rightarrow> int" where
  "bytes_compare_3way a b =
     (let min_len = min (length a) (length b);
          cmp = (if min_len = 0 then 0 else memcmp a b min_len)
      in if cmp \<noteq> 0 then cmp
         else if length a = length b then 0
         else if length a < length b then - 1 else 1)"

definition bytes_equal :: "bytes \<Rightarrow> bytes \<Rightarrow> bool" where
  "bytes_equal a b \<longleftrightarrow> length a = length b \<and> bytes_compare_3way a b = 0"

definition bytes_in_range :: "bytes \<Rightarrow> bytes \<Rightarrow> bytes \<Rightarrow> bool" where
  "bytes_in_range key lo hi \<longleftrightarrow> bytes_compare_3way key lo \<ge> 0 \<and> bytes_compare_3way key hi \<le> 0"

section \<open>Alignment (api/utils.hpp)\<close>

definition kDefaultAlignmentBytes :: u64 where
  "kDefaultAlignmentBytes = 8"

definition align_up :: "u64 \<Rightarrow> u64 \<Rightarrow> u64" where
  "align_up len alignment = (len + alignment - 1) AND NOT (alignment - 1)"

definition record_aligned_len :: "u64 \<Rightarrow> u64 \<Rightarrow> u64 \<Rightarrow> u64" where
  "record_aligned_len header_bytes key_bytes value_bytes =
     align_up (header_bytes + key_bytes + value_bytes) kDefaultAlignmentBytes"

section \<open>FNV-1a64 (api/utils.hpp)\<close>

definition kFnvOffsetBasis64 :: u64 where
  "kFnvOffsetBasis64 = 14695981039346656037"

definition kFnvPrime64 :: u64 where
  "kFnvPrime64 = 1099511628211"

fun fnv1a64_update :: "u64 \<Rightarrow> bytes \<Rightarrow> u64" where
  "fnv1a64_update hash [] = hash"
| "fnv1a64_update hash (b # bs) = fnv1a64_update ((hash XOR ucast b) * kFnvPrime64) bs"

text \<open>
  A header is given by its bytes with the checksum field zeroed, which is what the by-value copy
  of the C++ template hashes.
\<close>

definition checksum_header :: "bytes \<Rightarrow> u64" where
  "checksum_header header_zeroed = fnv1a64_update kFnvOffsetBasis64 header_zeroed"

definition checksum_header_plus_spans :: "bytes \<Rightarrow> bytes list \<Rightarrow> u64" where
  "checksum_header_plus_spans header_zeroed spans =
     foldl fnv1a64_update (checksum_header header_zeroed) spans"

definition fnv1a64_range :: "u64 \<Rightarrow> bytes \<Rightarrow> u64" where
  "fnv1a64_range hash data = fnv1a64_update hash data"

record FoldingChecksum =
  fc_state :: u64

definition FoldingChecksum_init :: FoldingChecksum where
  "FoldingChecksum_init = \<lparr>fc_state = kFnvOffsetBasis64\<rparr>"

definition fc_add :: "FoldingChecksum \<Rightarrow> bytes \<Rightarrow> FoldingChecksum" where
  "fc_add c data = c\<lparr>fc_state := fnv1a64_range (fc_state c) data\<rparr>"

definition fc_add_header :: "FoldingChecksum \<Rightarrow> bytes \<Rightarrow> FoldingChecksum" where
  "fc_add_header c header_zeroed = c\<lparr>fc_state := fnv1a64_update (fc_state c) header_zeroed\<rparr>"

section \<open>The comparison is the lexicographic order\<close>

lemma memcmp_zero_iff:
  "n \<le> length a \<Longrightarrow> n \<le> length b \<Longrightarrow> memcmp a b n = 0 \<longleftrightarrow> take n a = take n b"
proof (induction a b n rule: memcmp.induct)
  case (1 x xs y ys n)
  then show ?case by (auto simp: word_uint_eq_iff)
qed auto

lemma memcmp_neg_iff:
  "n \<le> length a \<Longrightarrow> n \<le> length b \<Longrightarrow> memcmp a b n < 0 \<longleftrightarrow> take n a < take n b"
proof (induction a b n rule: memcmp.induct)
  case (1 x xs y ys n)
  then show ?case by (auto simp: word_less_def)
qed auto

lemma list_less_by_prefix:
  fixes a b :: "'a::order list"
  assumes "n = min (length a) (length b)"
  shows "a < b \<longleftrightarrow> take n a < take n b \<or> take n a = take n b \<and> length a < length b"
  using assms
proof (induction n arbitrary: a b)
  case 0
  then show ?case by (cases a; cases b) auto
next
  case (Suc n)
  from Suc.prems obtain x xs y ys where ab: "a = x # xs" "b = y # ys" by (cases a; cases b) auto
  with Suc.prems have "n = min (length xs) (length ys)" by simp
  from Suc.IH [OF this] show ?case by (auto simp: ab)
qed

lemma take_min_eq_iff:
  "take (min (length a) (length b)) a = take (min (length a) (length b)) b \<and> length a = length b
     \<longleftrightarrow> a = b"
  by auto

text \<open>The two facts the rest of the development uses: sign of the comparison, order of the keys.\<close>

lemma bytes_compare_neg_iff: "bytes_compare_3way a b < 0 \<longleftrightarrow> a < b"
proof -
  let ?n = "min (length a) (length b)"
  have z: "memcmp a b ?n = 0 \<longleftrightarrow> take ?n a = take ?n b" by (rule memcmp_zero_iff) auto
  have l: "memcmp a b ?n < 0 \<longleftrightarrow> take ?n a < take ?n b" by (rule memcmp_neg_iff) auto
  show ?thesis
    unfolding list_less_by_prefix [OF refl, of a b]
    using z l by (auto simp: bytes_compare_3way_def Let_def)
qed

lemma bytes_compare_zero_iff: "bytes_compare_3way a b = 0 \<longleftrightarrow> a = b"
proof -
  let ?n = "min (length a) (length b)"
  have z: "memcmp a b ?n = 0 \<longleftrightarrow> take ?n a = take ?n b" by (rule memcmp_zero_iff) auto
  show ?thesis
    unfolding take_min_eq_iff [of a b, symmetric]
    using z by (auto simp: bytes_compare_3way_def Let_def)
qed

lemma bytes_equal_iff [simp]: "bytes_equal a b \<longleftrightarrow> a = b"
  by (auto simp: bytes_equal_def bytes_compare_zero_iff)

lemma bytes_in_range_iff: "bytes_in_range key lo hi \<longleftrightarrow> lo \<le> key \<and> key \<le> hi"
proof -
  have "bytes_compare_3way key lo \<ge> 0 \<longleftrightarrow> lo \<le> key"
    using bytes_compare_neg_iff [of key lo] by (auto simp: not_less [symmetric])
  moreover have "bytes_compare_3way key hi \<le> 0 \<longleftrightarrow> key \<le> hi"
    using bytes_compare_neg_iff [of key hi] bytes_compare_zero_iff [of key hi] by auto
  ultimately show ?thesis by (simp add: bytes_in_range_def)
qed

section \<open>Rounding up\<close>

lemma align_up_8_unat:
  assumes "unat len + 7 < 2 ^ 64"
  shows "unat (align_up len 8) = (unat len + 7) div 8 * 8"
proof -
  have sum: "unat (len + 7) = unat len + 7"
    using assms by (simp add: unat_word_ariths)
  have "(len + 8 - 1) AND NOT (8 - 1) = (len + 7) AND NOT (mask 3)"
    by (simp add: mask_numeral add.commute algebra_simps)
  also have "\<dots> = push_bit 3 (drop_bit 3 (len + 7))"
    by (rule bit_word_eqI) (auto simp: bit_simps)
  finally have eq: "align_up len 8 = push_bit 3 (drop_bit 3 (len + 7))"
    by (simp add: align_up_def)
  have "unat (drop_bit 3 (len + 7)) = (unat len + 7) div 8"
    by (simp add: drop_bit_eq_div unat_div_distrib sum)
  moreover have "(unat len + 7) div 8 * 8 < 2 ^ 64"
    using assms by (meson div_times_less_eq_dividend order_le_less_trans)
  ultimately show ?thesis
    by (simp add: eq push_bit_eq_mult unat_word_ariths)
qed

lemma align_up_8_bounds:
  assumes "unat len + 7 < 2 ^ 64"
  shows "unat len \<le> unat (align_up len 8) \<and> unat (align_up len 8) < unat len + 8
    \<and> unat (align_up len 8) mod 8 = 0"
  unfolding align_up_8_unat [OF assms] by presburger

section \<open>Checksums compose\<close>

lemma fnv1a64_append: "fnv1a64_update h (xs @ ys) = fnv1a64_update (fnv1a64_update h xs) ys"
  by (induction xs arbitrary: h) auto

lemma foldl_fnv_concat: "foldl fnv1a64_update h xss = fnv1a64_update h (concat xss)"
  by (induction xss arbitrary: h) (auto simp: fnv1a64_append)

lemma checksum_header_plus_spans_concat:
  "checksum_header_plus_spans hdr spans = fnv1a64_update kFnvOffsetBasis64 (hdr @ concat spans)"
  by (simp add: checksum_header_plus_spans_def checksum_header_def foldl_fnv_concat fnv1a64_append)

lemma fc_state_fc_add [simp]: "fc_state (fc_add c data) = fnv1a64_update (fc_state c) data"
  by (simp add: fc_add_def fnv1a64_range_def)

lemma fc_state_fc_add_header [simp]: "fc_state (fc_add_header c h) = fnv1a64_update (fc_state c) h"
  by (simp add: fc_add_header_def)

end
