(* ===== verification/T1_Keys.thy ===== *)
theory T1_Keys
  imports Bytes_Util
begin

text \<open>
  The \<^verbatim>\<open>t1_detail\<close> helpers of \<^verbatim>\<open>t1_index/t1_index.hpp\<close>: the 16-byte key prefix T1
  orders by, the 60-bit hash that completes the identity of an entry, and the four metadata bits
  that mark a payload as an inline value and carry its length. Shown here: the prefix is monotone
  in the byte order of keys, the metadata round-trips and never disturbs the identity, and the
  merge order is a strict total order up to identity.
\<close>

section \<open>Definitions\<close>

type_synonym store_key = bytes

definition kStoreKeyBytes :: nat where
  "kStoreKeyBytes = 16"

definition kInlineValueByteCount :: nat where
  "kInlineValueByteCount = 8"

definition kInlineFlagMask :: u64 where
  "kInlineFlagMask = push_bit 63 1"

definition kInlineSizeMask :: u64 where
  "kInlineSizeMask = 7"

definition kCleanHashMask :: u64 where
  "kCleanHashMask = NOT (push_bit 60 15)"

definition STORE_NOT_FOUND :: u64 where
  "STORE_NOT_FOUND = NOT 0"

definition prefix_from_bytes :: "bytes \<Rightarrow> store_key" where
  "prefix_from_bytes key =
     (let byte_count = min (length key) kStoreKeyBytes
      in take byte_count key @ replicate (kStoreKeyBytes - byte_count) 0)"

definition hash_full_key :: "bytes \<Rightarrow> u64" where
  "hash_full_key key = fnv1a64_update kFnvOffsetBasis64 key AND kCleanHashMask"

definition clean_hash :: "u64 \<Rightarrow> u64" where
  "clean_hash hash = hash AND kCleanHashMask"

definition is_inline :: "u64 \<Rightarrow> bool" where
  "is_inline hash \<longleftrightarrow> hash AND kInlineFlagMask \<noteq> 0"

definition decode_size :: "u64 \<Rightarrow> nat" where
  "decode_size hash =
     (let size_code = drop_bit 60 hash AND kInlineSizeMask
      in if size_code = 0 then kInlineValueByteCount else unat size_code)"

definition embed_metadata :: "u64 \<Rightarrow> byte \<Rightarrow> u64" where
  "embed_metadata hash sz =
     (hash AND kCleanHashMask) OR kInlineFlagMask OR push_bit 60 (ucast sz AND kInlineSizeMask)"

definition entry_identity_equal :: "store_key \<Rightarrow> u64 \<Rightarrow> store_key \<Rightarrow> u64 \<Rightarrow> bool" where
  "entry_identity_equal a_key a_hash b_key b_hash \<longleftrightarrow>
     a_key = b_key \<and> a_hash AND kCleanHashMask = b_hash AND kCleanHashMask"

definition entry_less :: "store_key \<Rightarrow> u64 \<Rightarrow> store_key \<Rightarrow> u64 \<Rightarrow> bool" where
  "entry_less a_key a_hash b_key b_hash =
     (if a_key \<noteq> b_key then a_key < b_key
      else a_hash AND kCleanHashMask < b_hash AND kCleanHashMask)"

definition range_disjoint :: "store_key \<Rightarrow> store_key \<Rightarrow> store_key \<Rightarrow> store_key \<Rightarrow> bool" where
  "range_disjoint region_min region_max lo hi \<longleftrightarrow> hi < region_min \<or> region_max < lo"

definition is_live :: "u64 \<Rightarrow> bool" where
  "is_live value \<longleftrightarrow> value \<noteq> STORE_NOT_FOUND"

definition prepare_key_and_hash :: "bytes \<Rightarrow> store_key \<times> u64" where
  "prepare_key_and_hash key = (prefix_from_bytes key, hash_full_key key)"

section \<open>Inline metadata\<close>

lemma kCleanHashMask_mask: "kCleanHashMask = mask 60"
  by (simp add: kCleanHashMask_def mask_numeral)

lemma kInlineSizeMask_mask: "kInlineSizeMask = mask 3"
  by (simp add: kInlineSizeMask_def mask_numeral)

lemma bit_clean_hash: "bit (clean_hash h) i \<longleftrightarrow> bit h i \<and> i < 60"
  by (auto simp: clean_hash_def kCleanHashMask_mask bit_simps)

lemma bit_kInlineFlagMask: "bit kInlineFlagMask i \<longleftrightarrow> i = 63"
  unfolding kInlineFlagMask_def bit_push_bit_iff by (auto simp: bit_1_iff)

lemma bit_embed_metadata:
  "bit (embed_metadata h n) i \<longleftrightarrow>
     bit h i \<and> i < 60 \<or> i = 63 \<or> 60 \<le> i \<and> i < 63 \<and> bit n (i - 60)"
proof -
  have "embed_metadata h n = clean_hash h OR kInlineFlagMask OR push_bit 60 (ucast n AND mask 3)"
    by (simp add: embed_metadata_def clean_hash_def kInlineSizeMask_mask)
  then have "bit (embed_metadata h n) i \<longleftrightarrow> (bit h i \<and> i < 60) \<or> i = 63
      \<or> (i < 64 \<and> 60 \<le> i \<and> bit n (i - 60) \<and> i - 60 < 3)"
    by (auto simp: bit_or_iff bit_clean_hash bit_kInlineFlagMask bit_push_bit_iff
        bit_and_iff bit_mask_iff bit_ucast_iff)
  also have "\<dots> \<longleftrightarrow> bit h i \<and> i < 60 \<or> i = 63 \<or> 60 \<le> i \<and> i < 63 \<and> bit n (i - 60)"
    by auto
  finally show ?thesis .
qed

lemma clean_hash_idem [simp]: "clean_hash (clean_hash h) = clean_hash h"
  by (rule bit_word_eqI) (simp add: bit_clean_hash)

lemma clean_hash_full [simp]: "clean_hash (hash_full_key key) = hash_full_key key"
  using clean_hash_idem unfolding hash_full_key_def clean_hash_def .

lemma clean_hash_embed [simp]: "clean_hash (embed_metadata h n) = clean_hash h"
  by (rule bit_word_eqI) (auto simp: bit_clean_hash bit_embed_metadata)

lemma is_inline_bit: "is_inline h \<longleftrightarrow> bit h 63"
proof
  assume "is_inline h"
  then obtain i where "bit (h AND kInlineFlagMask) i"
    unfolding is_inline_def by (metis bit_word_eqI bit_0_eq bot_apply bot_bool_def)
  then show "bit h 63" by (auto simp: bit_and_iff bit_kInlineFlagMask)
next
  assume "bit h 63"
  then have "bit (h AND kInlineFlagMask) 63" by (simp add: bit_and_iff bit_kInlineFlagMask)
  then show "is_inline h" unfolding is_inline_def by (metis bit_0_eq bot_apply bot_bool_def)
qed

lemma is_inline_embed [simp]: "is_inline (embed_metadata h n)"
  by (simp add: is_inline_bit bit_embed_metadata)

lemma not_is_inline_clean [simp]: "\<not> is_inline (clean_hash h)"
  by (simp add: is_inline_bit bit_clean_hash)

lemma not_is_inline_full [simp]: "\<not> is_inline (hash_full_key key)"
  by (metis clean_hash_full not_is_inline_clean)

lemma size_code_embed:
  "drop_bit 60 (embed_metadata h n) AND kInlineSizeMask = ucast n AND kInlineSizeMask"
  unfolding kInlineSizeMask_mask
  by (rule bit_word_eqI)
    (auto simp: bit_and_iff bit_mask_iff bit_drop_bit_eq bit_embed_metadata bit_ucast_iff)

lemma decode_size_embed [simp]:
  assumes "1 \<le> n" "n \<le> 8"
  shows "decode_size (embed_metadata h (word_of_nat n)) = n"
proof -
  have "n \<in> {1, 2, 3, 4, 5, 6, 7, 8}" using assms by auto
  then have "(let c = (ucast (word_of_nat n :: byte) :: u64) AND 7
      in if c = 0 then 8 else unat c) = n"
    by auto
  then show ?thesis
    unfolding decode_size_def size_code_embed
    unfolding kInlineSizeMask_def kInlineValueByteCount_def .
qed

section \<open>Prefix order\<close>

lemma length_prefix_from_bytes [simp]: "length (prefix_from_bytes key) = kStoreKeyBytes"
  by (simp add: prefix_from_bytes_def Let_def)

lemma prefix_from_bytes_take: "prefix_from_bytes key = take kStoreKeyBytes (key @ replicate kStoreKeyBytes 0)"
  by (simp add: prefix_from_bytes_def Let_def min_def)

lemma prefix_from_bytes_full: "length key = kStoreKeyBytes \<Longrightarrow> prefix_from_bytes key = key"
  by (simp add: prefix_from_bytes_def)

lemma replicate_zero_least:
  fixes xs :: bytes
  shows "length xs = n \<Longrightarrow> replicate n 0 \<le> xs"
proof (induction n arbitrary: xs)
  case (Suc n)
  then obtain y ys where xs: "xs = y # ys" "length ys = n" by (cases xs) auto
  have "0 \<le> y" by simp
  with Suc.IH [OF xs(2)] show ?case
    by (auto simp: xs order_le_less)
qed simp

lemma take_pad_mono:
  fixes a b :: bytes
  shows "a \<le> b \<Longrightarrow> take n (a @ replicate n 0) \<le> take n (b @ replicate n 0)"
proof (induction n arbitrary: a b)
  case (Suc n)
  show ?case
  proof (cases a)
    case Nil
    then show ?thesis by (simp add: replicate_zero_least del: replicate_Suc)
  next
    case (Cons x xs)
    then obtain y ys where b: "b = y # ys" using Suc.prems by (cases b) auto
    have "take n (xs @ replicate n 0) \<le> take n (ys @ replicate n 0)" if "x = y"
      using Suc.IH Suc.prems that by (simp add: Cons b)
    then show ?thesis using Suc.prems
      by (auto simp: Cons b replicate_append_same [symmetric])
  qed
qed simp

text \<open>A key in a byte range has its prefix in the range of prefixes.\<close>

lemma prefix_mono: "a \<le> b \<Longrightarrow> prefix_from_bytes a \<le> prefix_from_bytes b"
  unfolding prefix_from_bytes_take by (rule take_pad_mono)

section \<open>The merge order\<close>

lemma entry_less_iff:
  "entry_less k h k' h' \<longleftrightarrow> k < k' \<or> k = k' \<and> clean_hash h < clean_hash h'"
  by (auto simp: entry_less_def clean_hash_def)

lemma entry_identity_iff: "entry_identity_equal k h k' h' \<longleftrightarrow> (k, clean_hash h) = (k', clean_hash h')"
  by (simp add: entry_identity_equal_def clean_hash_def)

lemma entry_order_total:
  "entry_less k h k' h' \<or> entry_identity_equal k h k' h' \<or> entry_less k' h' k h"
  by (auto simp: entry_less_iff entry_identity_iff)

lemma entry_less_irrefl: "entry_identity_equal k h k' h' \<Longrightarrow> \<not> entry_less k h k' h'"
  by (auto simp: entry_less_iff entry_identity_iff)

lemma entry_less_trans:
  "entry_less k1 h1 k2 h2 \<Longrightarrow> entry_less k2 h2 k3 h3 \<Longrightarrow> entry_less k1 h1 k3 h3"
  by (auto simp: entry_less_iff)

end
