(* ===== verification/Bloom_Filter.thy ===== *)
theory Bloom_Filter
  imports VM_Prelude
begin

text \<open>
  \<^verbatim>\<open>optimizations/bloom_filter.hpp\<close>: the filter in front of a shard's sorted region. Shown
  here: every hash that was added is reported as possibly present, whatever the filter was sized
  for, so the filter never hides a stored key; an unsized filter excludes nothing.
\<close>

section \<open>Definitions\<close>

definition kBloomFilterWordBits :: nat where
  "kBloomFilterWordBits = 64"

definition kBloomBitsPerEntry :: nat where
  "kBloomBitsPerEntry = 8"

record BloomFilter =
  bf_words :: "u64 list"
  bf_mask_bits :: u64

definition bf_reset :: "nat \<Rightarrow> BloomFilter" where
  "bf_reset entry_count =
     (if entry_count = 0 then \<lparr>bf_words = [], bf_mask_bits = 0\<rparr>
      else let bits = bit_ceil (max kBloomFilterWordBits (entry_count * kBloomBitsPerEntry))
           in \<lparr>bf_words = replicate (bits div kBloomFilterWordBits) 0,
               bf_mask_bits = word_of_nat (bits - 1)\<rparr>)"

definition bf_mix :: "u64 \<Rightarrow> u64" where
  "bf_mix h0 =
     (let h1 = h0 XOR drop_bit 33 h0;
          h2 = h1 * 0xff51afd7ed558ccd;
          h3 = h2 XOR drop_bit 33 h2;
          h4 = h3 * 0xc4ceb9fe1a85ec53
      in h4 XOR drop_bit 33 h4)"

definition bf_bit_index :: "BloomFilter \<Rightarrow> u64 \<Rightarrow> nat" where
  "bf_bit_index bf hash = unat (hash AND bf_mask_bits bf)"

definition bf_set :: "nat \<Rightarrow> BloomFilter \<Rightarrow> BloomFilter" where
  "bf_set index bf =
     (let w = index div kBloomFilterWordBits
      in bf\<lparr>bf_words := (bf_words bf)[w := (bf_words bf ! w) OR push_bit (index mod kBloomFilterWordBits) 1]\<rparr>)"

definition bf_test :: "BloomFilter \<Rightarrow> nat \<Rightarrow> bool" where
  "bf_test bf index \<longleftrightarrow>
     (bf_words bf ! (index div kBloomFilterWordBits))
       AND push_bit (index mod kBloomFilterWordBits) 1 \<noteq> 0"

definition bf_add :: "BloomFilter \<Rightarrow> u64 \<Rightarrow> BloomFilter" where
  "bf_add bf hash =
     (if bf_words bf = [] then bf
      else bf_set (bf_bit_index bf (bf_mix (bf_mix hash)))
             (bf_set (bf_bit_index bf (bf_mix hash))
               (bf_set (bf_bit_index bf hash) bf)))"

definition bf_maybe_contains :: "BloomFilter \<Rightarrow> u64 \<Rightarrow> bool" where
  "bf_maybe_contains bf hash \<longleftrightarrow>
     bf_words bf = [] \<or>
     (bf_test bf (bf_bit_index bf hash) \<and> bf_test bf (bf_bit_index bf (bf_mix hash))
       \<and> bf_test bf (bf_bit_index bf (bf_mix (bf_mix hash))))"

text \<open>Every index the mask can produce addresses a word of the array.\<close>

definition bf_wf :: "BloomFilter \<Rightarrow> bool" where
  "bf_wf bf \<longleftrightarrow> bf_words bf = [] \<or> unat (bf_mask_bits bf) < 64 * length (bf_words bf)"

section \<open>Indices stay in range\<close>

lemma bit_ceil_ge_64_dvd:
  assumes "64 \<le> n"
  shows "64 dvd bit_ceil n"
proof -
  obtain k where k: "bit_ceil n = 2 ^ k" using bit_ceil_pow by blast
  have "(2::nat) ^ 6 \<le> 2 ^ k" using bit_ceil_ge [of n] assms by (simp add: k)
  then have "6 \<le> k" by (simp only: power_increasing_iff)
  then have "(2::nat) ^ 6 dvd 2 ^ k" by (rule le_imp_power_dvd)
  then show ?thesis by (simp add: k)
qed

lemma bf_reset_wf: "bf_wf (bf_reset n)"
proof (cases "n = 0")
  case True
  then show ?thesis by (simp add: bf_reset_def bf_wf_def)
next
  case False
  define bits where "bits = bit_ceil (max 64 (n * 8))"
  have ge: "64 \<le> bits" using bit_ceil_ge [of "max 64 (n * 8)"] by (simp add: bits_def)
  have dvd: "64 dvd bits" unfolding bits_def by (rule bit_ceil_ge_64_dvd) simp
  have "unat (word_of_nat (bits - 1) :: u64) \<le> bits - 1"
    by (simp add: unat_of_nat)
  also have "\<dots> < bits" using ge by simp
  also have "bits = 64 * (bits div 64)" using dvd by simp
  finally show ?thesis
    using False by (simp add: bf_reset_def bf_wf_def Let_def kBloomFilterWordBits_def
        kBloomBitsPerEntry_def del: of_nat_diff flip: bits_def)
qed

lemma bf_bit_index_less:
  assumes "bf_wf bf" "bf_words bf \<noteq> []"
  shows "bf_bit_index bf h div 64 < length (bf_words bf)"
proof -
  have "unat (h AND bf_mask_bits bf) \<le> unat (bf_mask_bits bf)"
    by (simp add: word_and_le1 flip: word_le_nat_alt)
  with assms have "bf_bit_index bf h < 64 * length (bf_words bf)"
    by (simp add: bf_wf_def bf_bit_index_def)
  then show ?thesis by (simp add: less_mult_imp_div_less mult.commute)
qed

lemma bf_set_shape [simp]:
  "length (bf_words (bf_set i bf)) = length (bf_words bf)"
  "bf_mask_bits (bf_set i bf) = bf_mask_bits bf"
  "bf_words (bf_set i bf) = [] \<longleftrightarrow> bf_words bf = []"
  "bf_bit_index (bf_set i bf) h = bf_bit_index bf h"
  by (auto simp: bf_set_def Let_def bf_bit_index_def)

lemma bf_add_shape [simp]:
  "length (bf_words (bf_add bf h)) = length (bf_words bf)"
  "bf_mask_bits (bf_add bf h) = bf_mask_bits bf"
  "bf_words (bf_add bf h) = [] \<longleftrightarrow> bf_words bf = []"
  "bf_bit_index (bf_add bf h) h' = bf_bit_index bf h'"
  by (auto simp: bf_add_def)

lemma bf_add_wf [simp]: "bf_wf (bf_add bf h) \<longleftrightarrow> bf_wf bf"
  by (simp add: bf_wf_def)

section \<open>Bits are only ever set\<close>

lemma bf_test_bit:
  "bf_test bf i \<longleftrightarrow> bit (bf_words bf ! (i div 64)) (i mod 64)"
  by (auto simp: bf_test_def kBloomFilterWordBits_def bit_iff_and_push_bit_not_eq_0)

lemma bf_test_set_same:
  "i div 64 < length (bf_words bf) \<Longrightarrow> bf_test (bf_set i bf) i"
  by (auto simp: bf_test_bit bf_set_def Let_def kBloomFilterWordBits_def bit_simps)

lemma bf_test_set_mono: "bf_test bf j \<Longrightarrow> bf_test (bf_set i bf) j"
  by (cases "i div 64 < length (bf_words bf)")
    (auto simp: bf_test_bit bf_set_def Let_def kBloomFilterWordBits_def bit_simps
      nth_list_update list_update_beyond)

lemma bf_add_contains:
  assumes "bf_wf bf"
  shows "bf_maybe_contains (bf_add bf h) h"
proof (cases "bf_words bf = []")
  case True
  then show ?thesis by (simp add: bf_maybe_contains_def)
next
  case False
  note inr = bf_bit_index_less [OF assms False]
  show ?thesis
    using False inr
    by (simp add: bf_maybe_contains_def) (simp add: bf_add_def bf_test_set_same bf_test_set_mono)
qed

lemma bf_add_mono:
  assumes "bf_maybe_contains bf h"
  shows "bf_maybe_contains (bf_add bf h') h"
  using assms by (auto simp: bf_maybe_contains_def) (auto simp: bf_add_def bf_test_set_mono)

lemma bf_fold_add_wf: "bf_wf bf \<Longrightarrow> bf_wf (foldl bf_add bf hs)"
  by (induction hs arbitrary: bf) auto

lemma bf_fold_mono: "bf_maybe_contains bf h \<Longrightarrow> bf_maybe_contains (foldl bf_add bf hs) h"
  by (induction hs arbitrary: bf) (auto simp: bf_add_mono)

lemma bf_complete:
  assumes "h \<in> set hs" "bf_wf bf"
  shows "bf_maybe_contains (foldl bf_add bf hs) h"
proof -
  from assms(1) obtain xs ys where hs: "hs = xs @ h # ys" by (meson split_list)
  have "bf_wf (foldl bf_add bf xs)" by (rule bf_fold_add_wf [OF assms(2)])
  then have "bf_maybe_contains (bf_add (foldl bf_add bf xs) h) h"
    by (rule bf_add_contains)
  then show ?thesis by (simp add: hs bf_fold_mono)
qed

text \<open>
  The Bloom filter has no false negatives. Whatever entry count the filter was sized for and
  whatever hashes were added to it in whatever order, each of them is reported as possibly
  contained, so the early exit of the sorted-region lookup never misses a stored key.
\<close>

lemma bloom_no_false_negative:
  assumes "h \<in> set hs"
  shows "bf_maybe_contains (foldl bf_add (bf_reset n) hs) h"
  by (rule bf_complete [OF assms bf_reset_wf])

lemma bloom_no_false_negative_witness:
  "bf_maybe_contains (foldl bf_add (bf_reset 3) [10, 20, 30]) 20"
  by (rule bloom_no_false_negative) simp

end
