(* ===== verification/Hash_Table.thy ===== *)
theory Hash_Table
  imports VM_Prelude
begin

text \<open>
  \<^verbatim>\<open>core/lock_free_hash_table.hpp\<close>: the fixed-capacity open-addressing table from a key to
  the index of its append slot (stored plus one, 0 is an empty bucket). The table holds no keys:
  both operations read them through a slot accessor. A successful \<^verbatim>\<open>compare_exchange\<close> is one
  atomic write, so an operation is modelled at the moment its CAS wins; the retry loop around a
  lost CAS only re-reads the same bucket. Shown here: the probe-chain invariant, lookup after
  publication, the retirement of the displaced slot, and that a table sized by the constructor
  never overflows.
\<close>

section \<open>Definitions\<close>

record 'k slot_view =
  sv_published :: bool
  sv_clean_hash :: u64
  sv_key :: 'k

record LockFreeHashTable =
  ht_buckets :: "nat list"

definition kEmpty :: nat where
  "kEmpty = 0"

definition kNotFound :: nat where
  "kNotFound = 0"

definition ht_new :: "nat \<Rightarrow> LockFreeHashTable" where
  "ht_new slot_capacity = \<lparr>ht_buckets = replicate (bit_ceil (slot_capacity * 2)) kEmpty\<rparr>"

definition bucket_index :: "nat \<Rightarrow> u64 \<Rightarrow> nat" where
  "bucket_index bucket_count hash = unat (hash AND word_of_nat (bucket_count - 1))"

definition next_pos :: "nat \<Rightarrow> nat \<Rightarrow> nat" where
  "next_pos bucket_count pos = (pos + 1) AND (bucket_count - 1)"

definition slot_matches :: "(nat \<Rightarrow> 'k slot_view) \<Rightarrow> 'k \<Rightarrow> u64 \<Rightarrow> nat \<Rightarrow> bool" where
  "slot_matches slot_at key hash i \<longleftrightarrow>
     sv_published (slot_at i) \<and> sv_clean_hash (slot_at i) = hash \<and> sv_key (slot_at i) = key"

text \<open>The probe loops; the second argument is the number of probes left.\<close>

fun find_probe :: "(nat \<Rightarrow> bool) \<Rightarrow> nat \<Rightarrow> nat list \<Rightarrow> nat \<Rightarrow> nat" where
  "find_probe m 0 bs pos = kNotFound"
| "find_probe m (Suc n) bs pos =
     (let observed = bs ! pos
      in if observed = kEmpty then kNotFound
         else if m (observed - 1) then observed
         else find_probe m n bs (next_pos (length bs) pos))"

definition find_slot_index :: "LockFreeHashTable \<Rightarrow> (nat \<Rightarrow> 'k slot_view) \<Rightarrow> 'k \<Rightarrow> u64 \<Rightarrow> nat" where
  "find_slot_index ht slot_at key hash =
     find_probe (slot_matches slot_at key hash) (length (ht_buckets ht)) (ht_buckets ht)
       (bucket_index (length (ht_buckets ht)) hash)"

fun publish_probe :: "(nat \<Rightarrow> bool) \<Rightarrow> nat \<Rightarrow> nat \<Rightarrow> nat list \<Rightarrow> nat \<Rightarrow> bool \<times> nat list \<times> nat option" where
  "publish_probe m spo 0 bs pos = (False, bs, None)"
| "publish_probe m spo (Suc n) bs pos =
     (let expected = bs ! pos
      in if expected = kEmpty then (True, bs[pos := spo], None)
         else if m (expected - 1) then (True, bs[pos := spo], Some (expected - 1))
         else publish_probe m spo n bs (next_pos (length bs) pos))"

text \<open>The last component is the slot handed to \<^verbatim>\<open>on_displaced\<close>.\<close>

definition publish_slot ::
  "LockFreeHashTable \<Rightarrow> (nat \<Rightarrow> 'k slot_view) \<Rightarrow> 'k \<Rightarrow> nat \<Rightarrow> u64 \<Rightarrow> bool \<times> LockFreeHashTable \<times> nat option" where
  "publish_slot ht slot_at key slot_plus_one hash =
     (case publish_probe (slot_matches slot_at key hash) slot_plus_one (length (ht_buckets ht))
             (ht_buckets ht) (bucket_index (length (ht_buckets ht)) hash) of
        (ok, bs, displaced) \<Rightarrow> (ok, ht\<lparr>ht_buckets := bs\<rparr>, displaced))"

section \<open>The probe-chain invariant\<close>

text \<open>
  \<open>ident\<close> names the identity of each published slot. Every occupied bucket holds a slot whose
  probe chain reaches that bucket over occupied buckets only, and no identity occupies two buckets.
\<close>

definition chain_at :: "nat list \<Rightarrow> nat \<Rightarrow> nat \<Rightarrow> bool" where
  "chain_at bs st p \<longleftrightarrow> (\<exists>d < length bs. p = (st + d) mod length bs
      \<and> (\<forall>e < d. bs ! ((st + e) mod length bs) \<noteq> kEmpty))"

definition probe_inv :: "('i \<Rightarrow> nat) \<Rightarrow> (nat \<Rightarrow> 'i option) \<Rightarrow> nat list \<Rightarrow> bool" where
  "probe_inv start ident bs \<longleftrightarrow>
     (\<forall>p < length bs. bs ! p \<noteq> kEmpty \<longrightarrow>
        (\<exists>x. ident (bs ! p - 1) = Some x \<and> chain_at bs (start x) p)) \<and>
     (\<forall>p < length bs. \<forall>q < length bs. bs ! p \<noteq> kEmpty \<longrightarrow> bs ! q \<noteq> kEmpty \<longrightarrow>
        ident (bs ! p - 1) = ident (bs ! q - 1) \<longrightarrow> p = q)"

text \<open>The slot the table answers with for an identity.\<close>

definition indexed :: "nat list \<Rightarrow> nat \<Rightarrow> bool" where
  "indexed bs i \<longleftrightarrow> Suc i \<in> set bs"

lemma next_pos_mod:
  assumes "count = 2 ^ k"
  shows "next_pos count pos = (pos + 1) mod count"
proof -
  have "next_pos count pos = (pos + 1) AND mask k"
    by (simp add: next_pos_def assms mask_eq_exp_minus_1)
  also have "\<dots> = take_bit k (pos + 1)" by (simp only: take_bit_eq_mask)
  finally show ?thesis by (simp add: take_bit_eq_mod assms)
qed

lemma bucket_index_less:
  assumes "0 < count"
  shows "bucket_index count h < count"
proof -
  have "unat (h AND word_of_nat (count - 1)) \<le> unat (word_of_nat (count - 1) :: u64)"
    by (simp add: word_and_le1 flip: word_le_nat_alt del: of_nat_diff)
  also have "\<dots> \<le> count - 1" by (simp add: unat_of_nat del: of_nat_diff)
  finally show ?thesis using assms by (simp add: bucket_index_def)
qed

lemma next_pos_shift:
  assumes "length bs = 2 ^ k"
  shows "next_pos (length bs) ((st + d) mod length bs) = (st + Suc d) mod length bs"
  by (simp add: next_pos_mod [OF assms] mod_simps)

section \<open>Where a probe stops\<close>

definition stops :: "(nat \<Rightarrow> bool) \<Rightarrow> nat list \<Rightarrow> nat \<Rightarrow> nat \<Rightarrow> bool" where
  "stops m bs st d \<longleftrightarrow>
     (let v = bs ! ((st + d) mod length bs) in v = kEmpty \<or> m (v - 1))"

lemma stops_cases:
  obtains (stop) e where "e < n" "stops m bs st e" "\<And>f. f < e \<Longrightarrow> \<not> stops m bs st f"
  | (run) "\<And>e. e < n \<Longrightarrow> \<not> stops m bs st e"
proof (cases "\<exists>e. e < n \<and> stops m bs st e")
  case True
  then obtain e where "e < n \<and> stops m bs st e" "\<And>f. f < e \<Longrightarrow> \<not> (f < n \<and> stops m bs st f)"
    using exists_least_iff [of "\<lambda>e. e < n \<and> stops m bs st e"] by blast
  then show ?thesis by (intro stop [of e]) auto
qed (use run in blast)

lemma find_probe_stop:
  assumes "length bs = 2 ^ k" "e < n" "stops m bs st (d + e)" "\<And>f. f < e \<Longrightarrow> \<not> stops m bs st (d + f)"
  shows "find_probe m n bs ((st + d) mod length bs) = bs ! ((st + d + e) mod length bs)"
  using assms(2-4)
proof (induction n arbitrary: d e)
  case (Suc n)
  show ?case
  proof (cases e)
    case 0
    with Suc.prems show ?thesis by (auto simp: stops_def Let_def kNotFound_def kEmpty_def)
  next
    case (Suc e')
    have "\<not> stops m bs st d" using Suc.prems(3) [of 0] Suc by simp
    have nf: "\<not> stops m bs st (Suc d + f)" if "f < e'" for f
      using Suc.prems(3) [of "Suc f"] Suc that by simp
    have "find_probe m n bs ((st + Suc d) mod length bs)
        = bs ! ((st + Suc d + e') mod length bs)"
      using Suc.prems Suc nf by (intro Suc.IH) auto
    with \<open>\<not> stops m bs st d\<close> show ?thesis
      using Suc by (simp add: stops_def Let_def next_pos_shift [OF assms(1)])
  qed
qed simp

lemma find_probe_run:
  assumes "length bs = 2 ^ k" "\<And>e. e < n \<Longrightarrow> \<not> stops m bs st (d + e)"
  shows "find_probe m n bs ((st + d) mod length bs) = kNotFound"
  using assms(2)
proof (induction n arbitrary: d)
  case (Suc n)
  have "\<not> stops m bs st d" using Suc.prems [of 0] by simp
  moreover have "find_probe m n bs ((st + Suc d) mod length bs) = kNotFound"
    using Suc.prems by (intro Suc.IH) (metis Suc_less_eq add_Suc add_Suc_right)
  ultimately show ?case by (simp add: stops_def Let_def next_pos_shift [OF assms(1)])
qed simp

lemma publish_probe_stop:
  assumes "length bs = 2 ^ k" "e < n" "stops m bs st (d + e)" "\<And>f. f < e \<Longrightarrow> \<not> stops m bs st (d + f)"
  shows "publish_probe m spo n bs ((st + d) mod length bs) =
    (True, bs[(st + d + e) mod length bs := spo],
      let v = bs ! ((st + d + e) mod length bs) in if v = kEmpty then None else Some (v - 1))"
  using assms(2-4)
proof (induction n arbitrary: d e)
  case (Suc n)
  show ?case
  proof (cases e)
    case 0
    with Suc.prems show ?thesis by (auto simp: stops_def Let_def)
  next
    case (Suc e')
    have "\<not> stops m bs st d" using Suc.prems(3) [of 0] Suc by simp
    have nf: "\<not> stops m bs st (Suc d + f)" if "f < e'" for f
      using Suc.prems(3) [of "Suc f"] Suc that by simp
    have "publish_probe m spo n bs ((st + Suc d) mod length bs) =
      (True, bs[(st + Suc d + e') mod length bs := spo],
       let v = bs ! ((st + Suc d + e') mod length bs) in if v = kEmpty then None else Some (v - 1))"
      using Suc.prems Suc nf by (intro Suc.IH) auto
    with \<open>\<not> stops m bs st d\<close> show ?thesis
      using Suc by (simp add: stops_def Let_def next_pos_shift [OF assms(1)])
  qed
qed simp

lemma publish_probe_run:
  assumes "length bs = 2 ^ k" "\<And>e. e < n \<Longrightarrow> \<not> stops m bs st (d + e)"
  shows "publish_probe m spo n bs ((st + d) mod length bs) = (False, bs, None)"
  using assms(2)
proof (induction n arbitrary: d)
  case (Suc n)
  have "\<not> stops m bs st d" using Suc.prems [of 0] by simp
  moreover have "publish_probe m spo n bs ((st + Suc d) mod length bs) = (False, bs, None)"
    using Suc.prems by (intro Suc.IH) (metis Suc_less_eq add_Suc add_Suc_right)
  ultimately show ?case by (simp add: stops_def Let_def next_pos_shift [OF assms(1)])
qed simp

section \<open>What lookup and publication do to an invariant table\<close>

lemma not_stops_iff:
  "\<not> stops m bs st d \<longleftrightarrow>
     bs ! ((st + d) mod length bs) \<noteq> kEmpty \<and> \<not> m (bs ! ((st + d) mod length bs) - 1)"
  by (auto simp: stops_def Let_def)

text \<open>A probe for \<open>x\<close> that stops at an empty bucket proves that no bucket holds \<open>x\<close>.\<close>

lemma chain_hit:
  assumes inv: "probe_inv start ident bs" and p: "p < length bs" "bs ! p \<noteq> kEmpty"
    and x: "ident (bs ! p - 1) = Some x"
  obtains d where "d < length bs" "p = (start x + d) mod length bs"
    "\<And>e. e < d \<Longrightarrow> bs ! ((start x + e) mod length bs) \<noteq> kEmpty"
proof -
  from inv p obtain y where y: "ident (bs ! p - 1) = Some y" "chain_at bs (start y) p"
    unfolding probe_inv_def by blast
  with x have "chain_at bs (start x) p" by simp
  then show ?thesis using that unfolding chain_at_def by blast
qed

lemma empty_stop_absent:
  assumes inv: "probe_inv start ident bs"
    and e: "e < length bs" "bs ! ((start x + e) mod length bs) = kEmpty"
    and before: "\<And>f. f < e \<Longrightarrow> \<not> stops (\<lambda>i. ident i = Some x) bs (start x) f"
    and p: "p < length bs" "bs ! p \<noteq> kEmpty"
  shows "ident (bs ! p - 1) \<noteq> Some x"
proof
  assume "ident (bs ! p - 1) = Some x"
  with chain_hit [OF inv p] obtain d where d: "d < length bs" "p = (start x + d) mod length bs"
      "\<And>f. f < d \<Longrightarrow> bs ! ((start x + f) mod length bs) \<noteq> kEmpty"
    by metis
  have "\<not> e < d" using d(3) e(2) by blast
  moreover have "d \<noteq> e" using d(2) e(2) p(2) by auto
  ultimately have "d < e" by simp
  from before [OF this] show False
    using \<open>ident (bs ! p - 1) = Some x\<close> d(2) by (simp add: not_stops_iff)
qed

lemma run_absent:
  assumes inv: "probe_inv start ident bs"
    and before: "\<And>f. f < length bs \<Longrightarrow> \<not> stops (\<lambda>i. ident i = Some x) bs (start x) f"
    and p: "p < length bs" "bs ! p \<noteq> kEmpty"
  shows "ident (bs ! p - 1) \<noteq> Some x"
proof
  assume "ident (bs ! p - 1) = Some x"
  with chain_hit [OF inv p] obtain d where "d < length bs" "p = (start x + d) mod length bs"
    by metis
  with before [of d] show False
    using \<open>ident (bs ! p - 1) = Some x\<close> by (simp add: not_stops_iff)
qed

lemma find_probe_spec:
  assumes inv: "probe_inv start ident bs" and len: "length bs = 2 ^ k" and st: "start x < length bs"
    and r: "r = find_probe (\<lambda>i. ident i = Some x) (length bs) bs (start x)"
  shows "(r \<noteq> kNotFound \<longrightarrow> r \<in> set bs \<and> ident (r - 1) = Some x) \<and>
    (r = kNotFound \<longrightarrow> (\<forall>p < length bs. bs ! p \<noteq> kEmpty \<longrightarrow> ident (bs ! p - 1) \<noteq> Some x))"
proof -
  let ?m = "\<lambda>i. ident i = Some x"
  show ?thesis
  proof (cases rule: stops_cases [of "length bs" ?m bs "start x"])
    case (stop e)
    have r': "r = bs ! ((start x + e) mod length bs)"
      using find_probe_stop [OF len stop(1), of ?m "start x" 0] stop(2,3) by (simp add: r st)
    have pos: "(start x + e) mod length bs < length bs"
      using st by (rule mod_length_less)
    show ?thesis
    proof (cases "r = kEmpty")
      case True
      then have "bs ! ((start x + e) mod length bs) = kEmpty" using r' by simp
      from empty_stop_absent [OF inv stop(1) this stop(3)] True show ?thesis
        by (auto simp: kNotFound_def kEmpty_def)
    next
      case False
      then show ?thesis using stop(2) r' pos
        by (auto simp: stops_def Let_def kNotFound_def kEmpty_def)
    qed
  next
    case run
    have "r = kNotFound"
      using find_probe_run [OF len, of "length bs" ?m "start x" 0] run by (simp add: r st)
    with run_absent [OF inv run] show ?thesis by auto
  qed
qed

lemma publish_probe_spec:
  assumes inv: "probe_inv start ident bs" and len: "length bs = 2 ^ k" and st: "start x < length bs"
    and s: "ident s = Some x" and fresh: "Suc s \<notin> set bs"
    and room: "kEmpty \<in> set bs"
  obtains p where "p < length bs"
    "publish_probe (\<lambda>i. ident i = Some x) (Suc s) (length bs) bs (start x) =
       (True, bs[p := Suc s], if bs ! p = kEmpty then None else Some (bs ! p - 1))"
    "bs ! p \<noteq> kEmpty \<Longrightarrow> ident (bs ! p - 1) = Some x"
    "\<And>q. q < length bs \<Longrightarrow> q \<noteq> p \<Longrightarrow> bs ! q \<noteq> kEmpty \<Longrightarrow> ident (bs ! q - 1) \<noteq> Some x"
    "chain_at bs (start x) p"
proof -
  let ?m = "\<lambda>i. ident i = Some x" and ?n = "length bs"
  from room obtain z where z: "z < ?n" "bs ! z = kEmpty" by (auto simp: in_set_conv_nth)
  have "\<exists>e < ?n. (start x + e) mod ?n = z"
  proof (intro exI conjI)
    show "(start x + (z + ?n - start x) mod ?n) mod ?n = z"
      using z st by (simp add: mod_simps)
    show "(z + ?n - start x) mod ?n < ?n" using z(1) by (rule mod_length_less)
  qed
  then obtain e0 where e0: "e0 < ?n" "stops ?m bs (start x) e0"
    using z by (auto simp: stops_def Let_def)
  show ?thesis
  proof (cases rule: stops_cases [of ?n ?m bs "start x"])
    case (stop e)
    define p where "p = (start x + e) mod ?n"
    have p: "p < ?n" unfolding p_def using z(1) by (rule mod_length_less)
    have pub: "publish_probe ?m (Suc s) ?n bs (start x)
        = (True, bs[p := Suc s], if bs ! p = kEmpty then None else Some (bs ! p - 1))"
      using publish_probe_stop [OF len stop(1), of ?m "start x" 0] stop(2,3)
      by (simp add: st p_def Let_def)
    have hit: "ident (bs ! p - 1) = Some x" if "bs ! p \<noteq> kEmpty"
      using stop(2) that by (auto simp: stops_def Let_def p_def)
    have uniq: "ident (bs ! q - 1) \<noteq> Some x" if q: "q < ?n" "q \<noteq> p" "bs ! q \<noteq> kEmpty" for q
    proof (cases "bs ! p = kEmpty")
      case True
      then show ?thesis
        using empty_stop_absent [OF inv stop(1) _ stop(3)] q by (simp add: p_def)
    next
      case False
      then show ?thesis using hit inv p q unfolding probe_inv_def by metis
    qed
    have "chain_at bs (start x) p"
      unfolding chain_at_def using stop(1,3) by (auto simp: p_def not_stops_iff)
    with p pub hit uniq show ?thesis by (rule that)
  next
    case run
    with e0 show ?thesis by blast
  qed
qed

lemma chain_at_update:
  assumes "chain_at bs st q" "v \<noteq> kEmpty"
  shows "chain_at (bs[p := v]) st q"
proof -
  from assms obtain d where d: "d < length bs" "q = (st + d) mod length bs"
    "\<And>e. e < d \<Longrightarrow> bs ! ((st + e) mod length bs) \<noteq> kEmpty"
    unfolding chain_at_def by blast
  have pos: "(st + e) mod length bs < length bs" for e
    using d(1) by (rule mod_length_less)
  have "(bs[p := v]) ! ((st + e) mod length bs) \<noteq> kEmpty" if "e < d" for e
    using d(3) [OF that] assms(2) pos [of e]
    by (cases "(st + e) mod length bs = p") auto
  with d(1,2) show ?thesis unfolding chain_at_def by auto
qed

lemma probe_inv_publish:
  assumes inv: "probe_inv start ident bs"
    and p: "p < length bs" and s: "ident s = Some x"
    and uniq: "\<And>q. q < length bs \<Longrightarrow> q \<noteq> p \<Longrightarrow> bs ! q \<noteq> kEmpty \<Longrightarrow> ident (bs ! q - 1) \<noteq> Some x"
    and chain: "chain_at bs (start x) p"
  shows "probe_inv start ident (bs[p := Suc s])"
proof -
  have v: "Suc s \<noteq> kEmpty" by (simp add: kEmpty_def)
  have occ: "\<exists>y. ident (bs[p := Suc s] ! q - 1) = Some y \<and> chain_at (bs[p := Suc s]) (start y) q"
    if q: "q < length bs" "bs[p := Suc s] ! q \<noteq> kEmpty" for q
  proof (cases "q = p")
    case True
    with p s chain v show ?thesis by (auto intro: chain_at_update)
  next
    case False
    with q have "bs ! q \<noteq> kEmpty" by simp
    with inv q(1) obtain y where "ident (bs ! q - 1) = Some y" "chain_at bs (start y) q"
      unfolding probe_inv_def by blast
    with False v show ?thesis by (auto intro: chain_at_update)
  qed
  have dist: "q = r" if qr: "q < length bs" "r < length bs" "bs[p := Suc s] ! q \<noteq> kEmpty"
      "bs[p := Suc s] ! r \<noteq> kEmpty"
      "ident (bs[p := Suc s] ! q - 1) = ident (bs[p := Suc s] ! r - 1)" for q r
  proof (cases "q = p \<or> r = p")
    case True
    then show ?thesis using qr uniq [of q] uniq [of r] s p by (cases "q = p"; cases "r = p") auto
  next
    case False
    with qr have "bs ! q \<noteq> kEmpty" "bs ! r \<noteq> kEmpty" "ident (bs ! q - 1) = ident (bs ! r - 1)"
      by simp_all
    with inv qr(1,2) show ?thesis unfolding probe_inv_def by blast
  qed
  show ?thesis
    unfolding probe_inv_def length_list_update
    using occ dist by blast
qed

section \<open>The interface: an index from identities to slots\<close>

text \<open>
  What the append region relies on. \<open>ident s n\<close> is the identity of slot \<open>n\<close> in the slot array
  \<open>s\<close>; \<open>stored t\<close> are the slots the table can answer with.
\<close>

locale slot_index =
  fixes ident :: "'s \<Rightarrow> nat \<Rightarrow> 'i option"
    and inv :: "'t \<Rightarrow> 's \<Rightarrow> bool"
    and stored :: "'t \<Rightarrow> nat set"
    and room :: "'t \<Rightarrow> nat"
    and lookup :: "'t \<Rightarrow> 's \<Rightarrow> 'i \<Rightarrow> nat option"
    and publish :: "'t \<Rightarrow> 's \<Rightarrow> 'i \<Rightarrow> nat \<Rightarrow> bool \<times> 't \<times> nat option"
  assumes stored_uniq: "inv t s \<Longrightarrow> m \<in> stored t \<Longrightarrow> n \<in> stored t \<Longrightarrow> ident s m = ident s n \<Longrightarrow> m = n"
    and stored_ident: "inv t s \<Longrightarrow> n \<in> stored t \<Longrightarrow> ident s n \<noteq> None"
    and inv_cong: "inv t s \<Longrightarrow> (\<And>n. n \<in> stored t \<Longrightarrow> ident s' n = ident s n) \<Longrightarrow> inv t s'"
    and lookup_Some: "inv t s \<Longrightarrow> lookup t s x = Some n \<Longrightarrow> n \<in> stored t \<and> ident s n = Some x"
    and lookup_None: "inv t s \<Longrightarrow> lookup t s x = None \<Longrightarrow> n \<in> stored t \<Longrightarrow> ident s n \<noteq> Some x"
    and publish_ok: "inv t s \<Longrightarrow> n \<notin> stored t \<Longrightarrow> ident s n = Some x \<Longrightarrow> card (stored t) < room t \<Longrightarrow>
      \<exists>t'. publish t s x n = (True, t', lookup t s x) \<and> inv t' s \<and> room t' = room t
        \<and> stored t' = insert n (stored t - set_option (lookup t s x))"
begin

lemma lookup_iff: "inv t s \<Longrightarrow> lookup t s x = Some n \<longleftrightarrow> n \<in> stored t \<and> ident s n = Some x"
  by (metis lookup_None lookup_Some not_Some_eq stored_uniq)

lemma lookup_cong:
  assumes "inv t s" "\<And>n. n \<in> stored t \<Longrightarrow> ident s' n = ident s n"
  shows "lookup t s' x = lookup t s x"
proof -
  have "lookup t s' x = Some n \<longleftrightarrow> lookup t s x = Some n" for n
    using assms inv_cong [OF assms] by (auto simp: lookup_iff)
  then show ?thesis by (metis option.exhaust)
qed

lemma lookup_publish:
  assumes "inv t s" "n \<notin> stored t" "ident s n = Some x" "card (stored t) < room t"
  shows "lookup (fst (snd (publish t s x n))) s y = (if y = x then Some n else lookup t s y)"
proof -
  from publish_ok [OF assms] obtain t' where t': "publish t s x n = (True, t', lookup t s x)" "inv t' s"
      "stored t' = insert n (stored t - set_option (lookup t s x))"
    by blast
  show ?thesis
  proof (cases "y = x")
    case True
    then show ?thesis using t' assms(3) by (simp add: lookup_iff)
  next
    case False
    have "m \<notin> set_option (lookup t s x)" if "ident s m = Some y" for m
      using that False assms(1) by (auto simp: lookup_iff)
    then have "lookup t' s y = Some m \<longleftrightarrow> lookup t s y = Some m" for m
      using t' assms False by (auto simp: lookup_iff)
    then show ?thesis using t' False by (metis fst_conv option.exhaust snd_conv)
  qed
qed

end

section \<open>The table provides the interface\<close>

type_synonym 'k slot_array = "nat \<Rightarrow> 'k slot_view"

definition ht_ident :: "'k slot_array \<Rightarrow> nat \<Rightarrow> ('k \<times> u64) option" where
  "ht_ident slot_at i =
     (if sv_published (slot_at i) then Some (sv_key (slot_at i), sv_clean_hash (slot_at i)) else None)"

definition ht_start :: "nat list \<Rightarrow> 'k \<times> u64 \<Rightarrow> nat" where
  "ht_start bs x = bucket_index (length bs) (snd x)"

definition ht_inv :: "LockFreeHashTable \<Rightarrow> 'k slot_array \<Rightarrow> bool" where
  "ht_inv ht slot_at \<longleftrightarrow> (\<exists>k. length (ht_buckets ht) = 2 ^ k) \<and>
     probe_inv (ht_start (ht_buckets ht)) (ht_ident slot_at) (ht_buckets ht)"

definition ht_stored :: "LockFreeHashTable \<Rightarrow> nat set" where
  "ht_stored ht = {n. Suc n \<in> set (ht_buckets ht)}"

definition ht_room :: "LockFreeHashTable \<Rightarrow> nat" where
  "ht_room ht = length (ht_buckets ht)"

definition ht_lookup :: "LockFreeHashTable \<Rightarrow> 'k slot_array \<Rightarrow> 'k \<times> u64 \<Rightarrow> nat option" where
  "ht_lookup ht slot_at x =
     (let r = find_slot_index ht slot_at (fst x) (snd x) in if r = kNotFound then None else Some (r - 1))"

definition ht_publish ::
  "LockFreeHashTable \<Rightarrow> 'k slot_array \<Rightarrow> 'k \<times> u64 \<Rightarrow> nat \<Rightarrow> bool \<times> LockFreeHashTable \<times> nat option" where
  "ht_publish ht slot_at x n = publish_slot ht slot_at (fst x) (Suc n) (snd x)"

lemma ht_start_update [simp]: "ht_start (bs[p := v]) = ht_start bs"
  by (simp add: ht_start_def fun_eq_iff)

lemma slot_matches_ident: "slot_matches slot_at key hash = (\<lambda>i. ht_ident slot_at i = Some (key, hash))"
  by (auto simp: slot_matches_def ht_ident_def fun_eq_iff)

lemma stored_iff: "n \<in> ht_stored ht \<longleftrightarrow>
  (\<exists>p < length (ht_buckets ht). ht_buckets ht ! p = Suc n)"
  by (auto simp: ht_stored_def in_set_conv_nth)

lemma stored_bucket:
  "p < length (ht_buckets ht) \<Longrightarrow> ht_buckets ht ! p \<noteq> kEmpty \<Longrightarrow> ht_buckets ht ! p - 1 \<in> ht_stored ht"
  by (auto simp: stored_iff kEmpty_def)

lemma ht_start_less:
  "ht_inv ht slot_at \<Longrightarrow> ht_start (ht_buckets ht) x < length (ht_buckets ht)"
  by (auto simp: ht_inv_def ht_start_def intro!: bucket_index_less)

lemma ht_lookup_spec:
  assumes "ht_inv ht s"
  shows "case ht_lookup ht s x of
      Some n \<Rightarrow> n \<in> ht_stored ht \<and> ht_ident s n = Some x
    | None \<Rightarrow> \<forall>n \<in> ht_stored ht. ht_ident s n \<noteq> Some x"
proof -
  let ?bs = "ht_buckets ht"
  from assms obtain k where len: "length ?bs = 2 ^ k" and inv: "probe_inv (ht_start ?bs) (ht_ident s) ?bs"
    by (auto simp: ht_inv_def)
  let ?r = "find_slot_index ht s (fst x) (snd x)"
  have r: "?r = find_probe (\<lambda>i. ht_ident s i = Some x) (length ?bs) ?bs (ht_start ?bs x)"
    by (simp add: find_slot_index_def slot_matches_ident ht_start_def)
  note spec = find_probe_spec [OF inv len ht_start_less [OF assms] r]
  show ?thesis
  proof (cases "?r = kNotFound")
    case True
    have "ht_ident s n \<noteq> Some x" if "n \<in> ht_stored ht" for n
    proof -
      from that obtain p where "p < length ?bs" "?bs ! p = Suc n" by (auto simp: stored_iff)
      with spec True show ?thesis by (metis diff_Suc_1 kEmpty_def nat.distinct(1))
    qed
    with True show ?thesis by (simp add: ht_lookup_def)
  next
    case False
    with spec show ?thesis by (auto simp: ht_lookup_def ht_stored_def kNotFound_def)
  qed
qed

lemma card_ht_stored_room:
  assumes "kEmpty \<notin> set (ht_buckets ht)" "distinct (ht_buckets ht)"
  shows "card (ht_stored ht) = ht_room ht"
proof -
  have "Suc ` ht_stored ht = set (ht_buckets ht)"
    using assms(1) by (auto simp: ht_stored_def image_iff kEmpty_def) (metis not0_implies_Suc)
  then have "card (ht_stored ht) = card (set (ht_buckets ht))"
    by (metis card_image inj_Suc)
  then show ?thesis using assms(2) by (simp add: ht_room_def distinct_card)
qed

lemma ht_inv_distinct:
  assumes "ht_inv ht s" "kEmpty \<notin> set (ht_buckets ht)"
  shows "distinct (ht_buckets ht)"
  unfolding distinct_conv_nth
proof (intro allI impI)
  fix i j
  assume ij: "i < length (ht_buckets ht)" "j < length (ht_buckets ht)" "i \<noteq> j"
  then have "ht_buckets ht ! i \<noteq> kEmpty" "ht_buckets ht ! j \<noteq> kEmpty"
    using assms(2) by (metis nth_mem)+
  with assms(1) ij show "ht_buckets ht ! i \<noteq> ht_buckets ht ! j"
    unfolding ht_inv_def probe_inv_def by metis
qed

lemma ht_publish_ok:
  assumes inv: "ht_inv ht s" and n: "n \<notin> ht_stored ht" "ht_ident s n = Some x"
    and room: "card (ht_stored ht) < ht_room ht"
  shows "\<exists>ht'. ht_publish ht s x n = (True, ht', ht_lookup ht s x) \<and> ht_inv ht' s
    \<and> ht_room ht' = ht_room ht
    \<and> ht_stored ht' = insert n (ht_stored ht - set_option (ht_lookup ht s x))"
proof -
  let ?bs = "ht_buckets ht"
  from inv obtain k where len: "length ?bs = 2 ^ k" and pinv: "probe_inv (ht_start ?bs) (ht_ident s) ?bs"
    by (auto simp: ht_inv_def)
  have empty: "kEmpty \<in> set ?bs"
    using room card_ht_stored_room ht_inv_distinct [OF inv] by fastforce
  have fresh: "Suc n \<notin> set ?bs" using n(1) by (simp add: ht_stored_def)
  obtain p where p: "p < length ?bs"
    and pub: "publish_probe (\<lambda>i. ht_ident s i = Some x) (Suc n) (length ?bs) ?bs (ht_start ?bs x) =
       (True, ?bs[p := Suc n], if ?bs ! p = kEmpty then None else Some (?bs ! p - 1))"
    and hit: "?bs ! p \<noteq> kEmpty \<Longrightarrow> ht_ident s (?bs ! p - 1) = Some x"
    and uniq: "\<And>q. q < length ?bs \<Longrightarrow> q \<noteq> p \<Longrightarrow> ?bs ! q \<noteq> kEmpty \<Longrightarrow> ht_ident s (?bs ! q - 1) \<noteq> Some x"
    and chain: "chain_at ?bs (ht_start ?bs x) p"
    by (rule publish_probe_spec [OF pinv len ht_start_less [OF inv] n(2) fresh empty]) blast
  have disp: "ht_lookup ht s x = (if ?bs ! p = kEmpty then None else Some (?bs ! p - 1))"
  proof (cases "ht_lookup ht s x")
    case None
    then show ?thesis using ht_lookup_spec [OF inv, of x] hit stored_bucket [OF p] by auto
  next
    case (Some m)
    with ht_lookup_spec [OF inv, of x] obtain q where q: "q < length ?bs" "?bs ! q = Suc m" "ht_ident s m = Some x"
      by (auto simp: stored_iff)
    with uniq [of q] have "q = p" by (auto simp: kEmpty_def)
    with Some q show ?thesis by (simp add: kEmpty_def)
  qed
  let ?ht = "ht\<lparr>ht_buckets := ?bs[p := Suc n]\<rparr>"
  have eq: "ht_publish ht s x n = (True, ?ht, ht_lookup ht s x)"
    using pub by (simp add: ht_publish_def publish_slot_def slot_matches_ident ht_start_def disp)
  have inv': "ht_inv ?ht s"
    using len probe_inv_publish [OF pinv p n(2) uniq chain]
    by (simp add: ht_inv_def)
  have keep: "m \<in> ht_stored ?ht \<longleftrightarrow> m = n \<or> m \<in> ht_stored ht \<and> ht_lookup ht s x \<noteq> Some m" for m
  proof -
    have "m \<in> ht_stored ?ht \<longleftrightarrow> m = n \<or> (\<exists>q < length ?bs. q \<noteq> p \<and> ?bs ! q = Suc m)"
      using p by (auto simp: stored_iff nth_list_update)
    also have "\<dots> \<longleftrightarrow> m = n \<or> m \<in> ht_stored ht \<and> ht_lookup ht s x \<noteq> Some m"
    proof -
      have "?bs ! q \<noteq> Suc m" if "q < length ?bs" "q \<noteq> p" "ht_lookup ht s x = Some m" for q
        using uniq [OF that(1,2)] that(3) ht_lookup_spec [OF inv, of x] by (auto simp: kEmpty_def)
      then have "(\<exists>q < length ?bs. q \<noteq> p \<and> ?bs ! q = Suc m) \<longleftrightarrow>
          m \<in> ht_stored ht \<and> ht_lookup ht s x \<noteq> Some m"
        unfolding stored_iff by (metis disp diff_Suc_1 kEmpty_def nat.distinct(1))
      then show ?thesis by simp
    qed
    finally show ?thesis .
  qed
  have "ht_stored ?ht = insert n (ht_stored ht - set_option (ht_lookup ht s x))"
    by (rule set_eqI) (simp only: keep insert_iff Diff_iff elem_set)
  with eq inv' show ?thesis by (auto simp: ht_room_def)
qed

lemma ht_inv_uniq:
  assumes "ht_inv ht s" "m \<in> ht_stored ht" "n \<in> ht_stored ht" "ht_ident s m = ht_ident s n"
  shows "m = n"
proof -
  from assms(2,3) obtain p q where pq: "p < length (ht_buckets ht)" "ht_buckets ht ! p = Suc m"
      "q < length (ht_buckets ht)" "ht_buckets ht ! q = Suc n"
    by (auto simp: stored_iff)
  have "ht_buckets ht ! p \<noteq> kEmpty" "ht_buckets ht ! q \<noteq> kEmpty"
      "ht_ident s (ht_buckets ht ! p - 1) = ht_ident s (ht_buckets ht ! q - 1)"
    using pq assms(4) by (simp_all add: kEmpty_def)
  with assms(1) pq(1,3) have "p = q" unfolding ht_inv_def probe_inv_def by blast
  with pq show ?thesis by simp
qed

lemma ht_inv_ident:
  assumes "ht_inv ht s" "n \<in> ht_stored ht"
  shows "ht_ident s n \<noteq> None"
proof -
  from assms(2) obtain p where p: "p < length (ht_buckets ht)" "ht_buckets ht ! p = Suc n"
    by (auto simp: stored_iff)
  then have "ht_buckets ht ! p \<noteq> kEmpty" by (simp add: kEmpty_def)
  with assms(1) p(1) obtain x where "ht_ident s (ht_buckets ht ! p - 1) = Some x"
    unfolding ht_inv_def probe_inv_def by blast
  with p(2) show ?thesis by simp
qed

lemma ht_inv_cong:
  assumes inv: "ht_inv ht s" and eq: "\<And>n. n \<in> ht_stored ht \<Longrightarrow> ht_ident s' n = ht_ident s n"
  shows "ht_inv ht s'"
proof -
  have b: "ht_ident s' (ht_buckets ht ! p - 1) = ht_ident s (ht_buckets ht ! p - 1)"
    if "p < length (ht_buckets ht)" "ht_buckets ht ! p \<noteq> kEmpty" for p
    using eq stored_bucket that by blast
  show ?thesis using inv unfolding ht_inv_def probe_inv_def by (simp add: b [simplified])
qed

interpretation append_index: slot_index ht_ident ht_inv ht_stored ht_room ht_lookup ht_publish
proof
  fix ht and s s' :: "'k slot_array" and x :: "'k \<times> u64" and m n :: nat
  assume inv: "ht_inv ht s"
  show "m = n" if "m \<in> ht_stored ht" "n \<in> ht_stored ht" "ht_ident s m = ht_ident s n"
    using ht_inv_uniq [OF inv that] .
  show "ht_ident s n \<noteq> None" if "n \<in> ht_stored ht"
    using ht_inv_ident [OF inv that] .
  show "ht_inv ht s'" if "\<And>n. n \<in> ht_stored ht \<Longrightarrow> ht_ident s' n = ht_ident s n"
    using ht_inv_cong [OF inv that] .
  show "n \<in> ht_stored ht \<and> ht_ident s n = Some x" if "ht_lookup ht s x = Some n"
    using ht_lookup_spec [OF inv, of x] that by simp
  show "ht_ident s n \<noteq> Some x" if "ht_lookup ht s x = None" "n \<in> ht_stored ht"
    using ht_lookup_spec [OF inv, of x] that by simp
  show "\<exists>ht'. ht_publish ht s x n = (True, ht', ht_lookup ht s x) \<and> ht_inv ht' s
      \<and> ht_room ht' = ht_room ht
      \<and> ht_stored ht' = insert n (ht_stored ht - set_option (ht_lookup ht s x))"
    if "n \<notin> ht_stored ht" "ht_ident s n = Some x" "card (ht_stored ht) < ht_room ht"
    using ht_publish_ok [OF inv that] .
qed

section \<open>Tables sized by the constructor\<close>

lemma ht_inv_new: "ht_inv (ht_new cap) s"
  using bit_ceil_pow [of "cap * 2"]
  by (auto simp: ht_inv_def ht_new_def probe_inv_def kEmpty_def)

lemma ht_stored_new [simp]: "ht_stored (ht_new cap) = {}"
  by (auto simp: ht_stored_def ht_new_def kEmpty_def)

lemma ht_room_new: "2 * cap \<le> ht_room (ht_new cap)"
  using bit_ceil_ge [of "cap * 2"] by (simp add: ht_room_def ht_new_def)

lemma ht_has_room:
  assumes "ht_stored ht \<subseteq> {..<cap}" "n < cap" "2 * cap \<le> ht_room ht"
  shows "card (ht_stored ht) < ht_room ht"
proof -
  have "card (ht_stored ht) \<le> cap" using card_mono [OF _ assms(1)] by simp
  with assms show ?thesis by linarith
qed

lemma find_slot_index_lookup:
  "find_slot_index ht s key hash = (case ht_lookup ht s (key, hash) of None \<Rightarrow> kNotFound | Some n \<Rightarrow> Suc n)"
  by (auto simp: ht_lookup_def Let_def kNotFound_def)

text \<open>
  C22: a table built for \<open>cap\<close> slots never runs out of buckets while it is fed slots below
  \<open>cap\<close>: publishing a freshly published slot succeeds, hands exactly the slot that answered for
  the key before to \<open>on_displaced\<close>, and afterwards a lookup of the key finds the new slot and a
  lookup of every other key is unchanged.
\<close>

theorem publish_slot_correct:
  assumes "ht_inv ht s" "ht_stored ht \<subseteq> {..<cap}" "2 * cap \<le> length (ht_buckets ht)"
    and "n < cap" "n \<notin> ht_stored ht"
    and "s n = \<lparr>sv_published = True, sv_clean_hash = hash, sv_key = key\<rparr>"
  shows "\<exists>ht'. publish_slot ht s key (Suc n) hash = (True, ht', ht_lookup ht s (key, hash))
    \<and> ht_inv ht' s \<and> ht_stored ht' \<subseteq> {..<cap} \<and> length (ht_buckets ht') = length (ht_buckets ht)
    \<and> (\<forall>k h. find_slot_index ht' s k h =
          (if k = key \<and> h = hash then Suc n else find_slot_index ht s k h))"
proof -
  have x: "ht_ident s n = Some (key, hash)" using assms(6) by (simp add: ht_ident_def)
  have room: "card (ht_stored ht) < ht_room ht"
    using ht_has_room assms(2,3,4) by (simp add: ht_room_def)
  from append_index.publish_ok [OF assms(1,5) x room] obtain ht' where ht':
      "ht_publish ht s (key, hash) n = (True, ht', ht_lookup ht s (key, hash))" "ht_inv ht' s"
      "ht_room ht' = ht_room ht"
      "ht_stored ht' = insert n (ht_stored ht - set_option (ht_lookup ht s (key, hash)))"
    by blast
  have "ht_lookup ht' s y = (if y = (key, hash) then Some n else ht_lookup ht s y)" for y
    using append_index.lookup_publish [OF assms(1,5) x room, of y] ht'(1) by simp
  then show ?thesis
    using ht' assms(2,4)
    by (auto simp: ht_publish_def ht_room_def find_slot_index_lookup)
qed

definition demo_slots :: "nat slot_array" where
  "demo_slots n = \<lparr>sv_published = (n = 0), sv_clean_hash = 5, sv_key = 7\<rparr>"

theorem publish_slot_correct_witness:
  "\<exists>ht'. publish_slot (ht_new 4) demo_slots 7 (Suc 0) 5
      = (True, ht', ht_lookup (ht_new 4) demo_slots (7, 5))
    \<and> ht_inv ht' demo_slots \<and> ht_stored ht' \<subseteq> {..<4}
    \<and> length (ht_buckets ht') = length (ht_buckets (ht_new 4))
    \<and> (\<forall>k h. find_slot_index ht' demo_slots k h =
          (if k = 7 \<and> h = 5 then Suc 0 else find_slot_index (ht_new 4) demo_slots k h))"
  by (rule publish_slot_correct)
    (use ht_inv_new ht_room_new [of 4] in \<open>simp_all add: demo_slots_def ht_room_def\<close>)

end
