(* ===== verification/T1_Index.thy ===== *)
theory T1_Index
  imports T1_Keys Bloom_Filter Hash_Table
begin

text \<open>
  \<^verbatim>\<open>t1_index/t1_index.hpp\<close>: the two-region index of one shard. Regions are heap objects the
  code reaches through atomic pointers and shares between them (a generation is active and
  immutable at once while \<^verbatim>\<open>reorganize\<close> freezes it), so the model keeps a store of append
  generations and one of sorted regions, addressed by number. Each operation is one atomic step:
  writers of a key are serialised by the caller's stripe lock, and what concurrent readers see of a
  slot that is being rewritten is the subject of the theory of the seqlock. Shown here: the
  invariant of a region and of the index, that every lookup agrees with the region contents, and
  that \<^verbatim>\<open>put\<close> always returns and updates exactly its own key.
\<close>

section \<open>Data\<close>

record SortedSlot =
  ss_key :: store_key
  ss_hash :: u64
  ss_payload :: u64
  ss_version :: u64

record AppendSlot =
  as_key :: store_key
  as_hash :: u64
  as_payload :: u64
  as_published :: bool
  as_version :: u64

record EntrySnapshot =
  es_key :: store_key
  es_payload :: u64
  es_hash :: u64

record SortedRegion =
  sr_slots :: "SortedSlot list"
  sr_bloom :: "BloomFilter option"

record AppendRegion =
  ar_capacity :: nat
  ar_slots :: "AppendSlot list"
  ar_tail :: nat
  ar_bounds :: "(store_key \<times> store_key) option"

record AppendGeneration =
  ag_region :: AppendRegion
  ag_index :: LockFreeHashTable

record T1Index =
  t1_append_cap :: nat
  t1_use_bloom :: bool
  t1_gens :: "nat \<Rightarrow> AppendGeneration"
  t1_next_gen :: nat
  t1_active :: nat
  t1_immutable :: "nat option"
  t1_sorteds :: "nat \<Rightarrow> SortedRegion"
  t1_next_sorted :: nat
  t1_sorted :: nat
  t1_frozen :: "nat option"
  t1_reorg_in_progress :: bool
  t1_reorg_epoch :: u64
  t1_live_count :: int
  t1_peak_count :: int

record LookupResult =
  lr_payload_bits :: u64
  lr_raw_hash :: u64

datatype PutResult = Applied | AppendRegionFull

record ResolvedSlot =
  rs_append :: "(nat \<times> nat) option"
  rs_sorted :: "(nat \<times> nat) option"

section \<open>Append regions\<close>

definition empty_append_slot :: AppendSlot where
  "empty_append_slot =
     \<lparr>as_key = replicate kStoreKeyBytes 0, as_hash = 0, as_payload = 0, as_published = False,
      as_version = 0\<rparr>"

definition ar_new :: "nat \<Rightarrow> AppendRegion" where
  "ar_new capacity =
     \<lparr>ar_capacity = capacity, ar_slots = replicate capacity empty_append_slot, ar_tail = 0,
      ar_bounds = None\<rparr>"

definition ar_size :: "AppendRegion \<Rightarrow> nat" where
  "ar_size r = ar_tail r"

definition ar_reserve :: "AppendRegion \<Rightarrow> nat \<times> AppendRegion" where
  "ar_reserve r =
     (if ar_tail r \<ge> ar_capacity r then (ar_capacity r, r)
      else (ar_tail r, r\<lparr>ar_tail := ar_tail r + 1\<rparr>))"

definition ar_update_bounds :: "AppendRegion \<Rightarrow> store_key \<Rightarrow> AppendRegion" where
  "ar_update_bounds r key =
     r\<lparr>ar_bounds := (case ar_bounds r of
        None \<Rightarrow> Some (key, key)
      | Some (mn, mx) \<Rightarrow> Some (if key < mn then key else mn, if mx < key then key else mx))\<rparr>"

definition ar_publish :: "AppendRegion \<Rightarrow> nat \<Rightarrow> store_key \<Rightarrow> u64 \<Rightarrow> u64 \<Rightarrow> AppendRegion" where
  "ar_publish r index key hash value =
     (let filled = r\<lparr>ar_slots := (ar_slots r)[index := (ar_slots r ! index)
            \<lparr>as_key := key, as_hash := hash, as_payload := value\<rparr>]\<rparr>;
          bounded = ar_update_bounds filled key
      in bounded\<lparr>ar_slots := (ar_slots bounded)[index := (ar_slots bounded ! index)
            \<lparr>as_published := True\<rparr>]\<rparr>)"

definition append_slot_view :: "AppendSlot \<Rightarrow> store_key slot_view" where
  "append_slot_view s =
     \<lparr>sv_published = as_published s, sv_clean_hash = clean_hash (as_hash s), sv_key = as_key s\<rparr>"

definition ar_view :: "AppendRegion \<Rightarrow> store_key slot_array" where
  "ar_view r = (\<lambda>i. append_slot_view (ar_slots r ! i))"

definition ar_find_with_index ::
  "AppendRegion \<Rightarrow> LockFreeHashTable \<Rightarrow> store_key \<Rightarrow> u64 \<Rightarrow> nat option" where
  "ar_find_with_index r index key hash =
     (let slot_plus_one = find_slot_index index (ar_view r) key hash
      in if slot_plus_one = kNotFound then None
         else let slot = ar_slots r ! (slot_plus_one - 1)
              in if \<not> as_published slot then None
                 else if as_key slot = key \<and> clean_hash (as_hash slot) = hash
                      then Some (slot_plus_one - 1) else None)"

text \<open>
  The pair a reader obtains from a slot nobody is writing to (an even version): what
  \<^verbatim>\<open>load_slot_consistent\<close> returns once it stops spinning.
\<close>

definition as_load_consistent :: "AppendSlot \<Rightarrow> u64 \<times> u64" where
  "as_load_consistent s = (as_hash s, as_payload s)"

definition ss_load_consistent :: "SortedSlot \<Rightarrow> u64 \<times> u64" where
  "ss_load_consistent s = (ss_hash s, ss_payload s)"

definition ar_collect_live_entries :: "AppendRegion \<Rightarrow> nat \<Rightarrow> EntrySnapshot list" where
  "ar_collect_live_entries r count =
     concat (map (\<lambda>s. if \<not> as_published s then []
        else let (hash, value) = as_load_consistent s
             in if \<not> is_live value then []
                else [\<lparr>es_key = as_key s, es_payload = value, es_hash = hash\<rparr>])
       (take count (ar_slots r)))"

section \<open>Sorted regions\<close>

definition SortedRegion_empty :: "bool \<Rightarrow> SortedRegion" where
  "SortedRegion_empty use_bloom =
     \<lparr>sr_slots = [], sr_bloom = (if use_bloom then Some (bf_reset 0) else None)\<rparr>"

definition SortedRegion_of :: "bool \<Rightarrow> EntrySnapshot list \<Rightarrow> SortedRegion" where
  "SortedRegion_of use_bloom entries =
     \<lparr>sr_slots = map (\<lambda>e. \<lparr>ss_key = es_key e, ss_hash = es_hash e, ss_payload = es_payload e,
                             ss_version = 0\<rparr>) entries,
      sr_bloom = (if use_bloom
        then Some (foldl bf_add (bf_reset (length entries)) (map (\<lambda>e. clean_hash (es_hash e)) entries))
        else None)\<rparr>"

fun find_sorted_from :: "SortedSlot list \<Rightarrow> nat \<Rightarrow> store_key \<Rightarrow> u64 \<Rightarrow> nat option" where
  "find_sorted_from [] i key hash = None"
| "find_sorted_from (s # ss) i key hash =
     (if ss_key s = key
      then if clean_hash (ss_hash s) = hash then Some i else find_sorted_from ss (Suc i) key hash
      else None)"

definition bloom_excludes :: "SortedRegion \<Rightarrow> u64 \<Rightarrow> bool" where
  "bloom_excludes sr hash = (case sr_bloom sr of None \<Rightarrow> False | Some bf \<Rightarrow> \<not> bf_maybe_contains bf hash)"

definition find_sorted :: "SortedRegion \<Rightarrow> store_key \<Rightarrow> u64 \<Rightarrow> nat option" where
  "find_sorted sr key hash =
     (if bloom_excludes sr hash then None
      else if length (sr_slots sr) = 0 then None
      else let found = partition_point (\<lambda>s. ss_key s < key) (sr_slots sr)
           in find_sorted_from (drop found (sr_slots sr)) found key hash)"

fun walk_sorted_from :: "SortedSlot list \<Rightarrow> store_key \<Rightarrow> (SortedSlot \<times> u64 \<times> u64) list" where
  "walk_sorted_from [] upper_bound = []"
| "walk_sorted_from (s # ss) upper_bound =
     (if upper_bound < ss_key s then []
      else let (hash, payload) = ss_load_consistent s
           in if payload \<noteq> STORE_NOT_FOUND
              then (s, hash, payload) # walk_sorted_from ss upper_bound
              else walk_sorted_from ss upper_bound)"

text \<open>The calls of the sink, in order.\<close>

definition walk_sorted_region ::
  "SortedRegion \<Rightarrow> store_key \<Rightarrow> store_key \<Rightarrow> (SortedSlot \<times> u64 \<times> u64) list" where
  "walk_sorted_region sr lower_bound upper_bound =
     (if length (sr_slots sr) = 0 then []
      else walk_sorted_from
             (drop (partition_point (\<lambda>s. ss_key s < lower_bound) (sr_slots sr)) (sr_slots sr))
             upper_bound)"

section \<open>The index\<close>

abbreviation active_gen :: "T1Index \<Rightarrow> AppendGeneration" where
  "active_gen t \<equiv> t1_gens t (t1_active t)"

abbreviation sorted_cur :: "T1Index \<Rightarrow> SortedRegion" where
  "sorted_cur t \<equiv> t1_sorteds t (t1_sorted t)"

definition note_append_region_created :: "T1Index \<Rightarrow> T1Index" where
  "note_append_region_created t =
     (let live = t1_live_count t + 1
      in t\<lparr>t1_live_count := live, t1_peak_count := (if live > t1_peak_count t then live else t1_peak_count t)\<rparr>)"

definition note_append_region_destroyed :: "T1Index \<Rightarrow> T1Index" where
  "note_append_region_destroyed t = t\<lparr>t1_live_count := t1_live_count t - 1\<rparr>"

definition ag_new :: "nat \<Rightarrow> AppendGeneration" where
  "ag_new cap = \<lparr>ag_region = ar_new cap, ag_index = ht_new cap\<rparr>"

definition T1Index_new :: "bool \<Rightarrow> nat \<Rightarrow> T1Index" where
  "T1Index_new use_bloom append_cap =
     note_append_region_created
       \<lparr>t1_append_cap = append_cap, t1_use_bloom = use_bloom,
        t1_gens = (\<lambda>_. ag_new append_cap), t1_next_gen = 1, t1_active = 0, t1_immutable = None,
        t1_sorteds = (\<lambda>_. SortedRegion_empty use_bloom), t1_next_sorted = 1, t1_sorted = 0,
        t1_frozen = None, t1_reorg_in_progress = False, t1_reorg_epoch = 1,
        t1_live_count = 0, t1_peak_count = 0\<rparr>"

definition find_gen :: "T1Index \<Rightarrow> nat \<Rightarrow> store_key \<Rightarrow> u64 \<Rightarrow> nat option" where
  "find_gen t g key hash =
     ar_find_with_index (ag_region (t1_gens t g)) (ag_index (t1_gens t g)) key hash"

definition gen_result :: "T1Index \<Rightarrow> nat \<Rightarrow> nat \<Rightarrow> LookupResult" where
  "gen_result t g i =
     (let (slot_hash, slot_payload) = as_load_consistent (ar_slots (ag_region (t1_gens t g)) ! i)
      in \<lparr>lr_payload_bits = slot_payload, lr_raw_hash = slot_hash\<rparr>)"

definition sorted_result :: "T1Index \<Rightarrow> nat \<Rightarrow> LookupResult" where
  "sorted_result t i =
     (let (slot_hash, slot_payload) = ss_load_consistent (sr_slots (sorted_cur t) ! i)
      in \<lparr>lr_payload_bits = slot_payload, lr_raw_hash = slot_hash\<rparr>)"

definition lookup_sorted_step :: "T1Index \<Rightarrow> store_key \<Rightarrow> u64 \<Rightarrow> LookupResult" where
  "lookup_sorted_step t prefix hash =
     (case find_sorted (sorted_cur t) prefix hash of
        Some i \<Rightarrow> sorted_result t i
      | None \<Rightarrow> \<lparr>lr_payload_bits = STORE_NOT_FOUND, lr_raw_hash = 0\<rparr>)"

definition lookup_by_prefix_hash :: "T1Index \<Rightarrow> store_key \<Rightarrow> u64 \<Rightarrow> LookupResult" where
  "lookup_by_prefix_hash t prefix hash =
     (case find_gen t (t1_active t) prefix hash of
        Some i \<Rightarrow> gen_result t (t1_active t) i
      | None \<Rightarrow>
         (case t1_immutable t of
            None \<Rightarrow> lookup_sorted_step t prefix hash
          | Some g \<Rightarrow>
             (case find_gen t g prefix hash of
                Some i \<Rightarrow> gen_result t g i
              | None \<Rightarrow> lookup_sorted_step t prefix hash)))"

definition get_with_hash :: "T1Index \<Rightarrow> bytes \<Rightarrow> LookupResult" where
  "get_with_hash t key = (let (prefix, hash) = prepare_key_and_hash key in lookup_by_prefix_hash t prefix hash)"

definition t1_get :: "T1Index \<Rightarrow> bytes \<Rightarrow> u64" where
  "t1_get t key = lr_payload_bits (get_with_hash t key)"

definition append_size :: "T1Index \<Rightarrow> nat" where
  "append_size t = ar_size (ag_region (active_gen t))"

definition append_capacity :: "T1Index \<Rightarrow> nat" where
  "append_capacity t = t1_append_cap t"

definition dump_sorted_region :: "T1Index \<Rightarrow> EntrySnapshot list" where
  "dump_sorted_region t =
     map (\<lambda>(slot, hash, payload). \<lparr>es_key = ss_key slot, es_payload = payload, es_hash = hash\<rparr>)
       (walk_sorted_region (sorted_cur t) (replicate kStoreKeyBytes 0) (replicate kStoreKeyBytes 0xFF))"

definition load_sorted_region_from_checkpoint :: "T1Index \<Rightarrow> EntrySnapshot list \<Rightarrow> T1Index" where
  "load_sorted_region_from_checkpoint t entries =
     t\<lparr>t1_sorteds := (t1_sorteds t)(t1_next_sorted t := SortedRegion_of (t1_use_bloom t) entries),
       t1_sorted := t1_next_sorted t, t1_next_sorted := t1_next_sorted t + 1\<rparr>"

section \<open>Resolved slots\<close>

definition rs_none :: ResolvedSlot where
  "rs_none = \<lparr>rs_append = None, rs_sorted = None\<rparr>"

definition rs_found :: "ResolvedSlot \<Rightarrow> bool" where
  "rs_found rs \<longleftrightarrow> rs_append rs \<noteq> None \<or> rs_sorted rs \<noteq> None"

definition same_slot_as :: "ResolvedSlot \<Rightarrow> ResolvedSlot \<Rightarrow> bool" where
  "same_slot_as a b \<longleftrightarrow> rs_append a = rs_append b \<and> rs_sorted a = rs_sorted b"

definition upd_append_slot :: "T1Index \<Rightarrow> nat \<Rightarrow> nat \<Rightarrow> (AppendSlot \<Rightarrow> AppendSlot) \<Rightarrow> T1Index" where
  "upd_append_slot t g i f =
     (let gen = t1_gens t g; r = ag_region gen
      in t\<lparr>t1_gens := (t1_gens t)(g := gen\<lparr>ag_region := r\<lparr>ar_slots := (ar_slots r)[i := f (ar_slots r ! i)]\<rparr>\<rparr>)\<rparr>)"

definition upd_sorted_slot :: "T1Index \<Rightarrow> nat \<Rightarrow> nat \<Rightarrow> (SortedSlot \<Rightarrow> SortedSlot) \<Rightarrow> T1Index" where
  "upd_sorted_slot t s i f =
     (let sr = t1_sorteds t s
      in t\<lparr>t1_sorteds := (t1_sorteds t)(s := sr\<lparr>sr_slots := (sr_slots sr)[i := f (sr_slots sr ! i)]\<rparr>)\<rparr>)"

definition append_slot_of :: "T1Index \<Rightarrow> nat \<Rightarrow> nat \<Rightarrow> AppendSlot" where
  "append_slot_of t g i = ar_slots (ag_region (t1_gens t g)) ! i"

definition sorted_slot_of :: "T1Index \<Rightarrow> nat \<Rightarrow> nat \<Rightarrow> SortedSlot" where
  "sorted_slot_of t s i = sr_slots (t1_sorteds t s) ! i"

text \<open>
  The members of \<^verbatim>\<open>ResolvedSlot\<close> dispatch on \<^verbatim>\<open>append != nullptr\<close>; on a handle that
  is not found they would dereference a null pointer, which the callers exclude (\<open>rs_found\<close>).
\<close>

definition rs_load :: "T1Index \<Rightarrow> ResolvedSlot \<Rightarrow> u64" where
  "rs_load t rs =
     (case rs_append rs of
        Some (g, i) \<Rightarrow> as_payload (append_slot_of t g i)
      | None \<Rightarrow> (case rs_sorted rs of Some (s, i) \<Rightarrow> ss_payload (sorted_slot_of t s i) | None \<Rightarrow> STORE_NOT_FOUND))"

definition rs_upd ::
  "T1Index \<Rightarrow> ResolvedSlot \<Rightarrow> (AppendSlot \<Rightarrow> AppendSlot) \<Rightarrow> (SortedSlot \<Rightarrow> SortedSlot) \<Rightarrow> T1Index" where
  "rs_upd t rs f f' =
     (case rs_append rs of
        Some (g, i) \<Rightarrow> upd_append_slot t g i f
      | None \<Rightarrow> (case rs_sorted rs of Some (s, i) \<Rightarrow> upd_sorted_slot t s i f' | None \<Rightarrow> t))"

definition rs_try_store :: "T1Index \<Rightarrow> ResolvedSlot \<Rightarrow> u64 \<Rightarrow> u64 \<Rightarrow> bool \<times> T1Index" where
  "rs_try_store t rs expected_current value =
     (if rs_load t rs = expected_current
      then (True, rs_upd t rs (\<lambda>s. s\<lparr>as_payload := value\<rparr>) (\<lambda>s. s\<lparr>ss_payload := value\<rparr>))
      else (False, t))"

definition rs_store_hash :: "T1Index \<Rightarrow> ResolvedSlot \<Rightarrow> u64 \<Rightarrow> T1Index" where
  "rs_store_hash t rs hash = rs_upd t rs (\<lambda>s. s\<lparr>as_hash := hash\<rparr>) (\<lambda>s. s\<lparr>ss_hash := hash\<rparr>)"

definition rs_begin_write :: "T1Index \<Rightarrow> ResolvedSlot \<Rightarrow> T1Index" where
  "rs_begin_write t rs =
     rs_upd t rs (\<lambda>s. s\<lparr>as_version := as_version s + 1\<rparr>) (\<lambda>s. s\<lparr>ss_version := ss_version s + 1\<rparr>)"

definition rs_end_write :: "T1Index \<Rightarrow> ResolvedSlot \<Rightarrow> T1Index" where
  "rs_end_write t rs =
     rs_upd t rs (\<lambda>s. s\<lparr>as_version := as_version s + 1\<rparr>) (\<lambda>s. s\<lparr>ss_version := ss_version s + 1\<rparr>)"

definition resolve_sorted :: "T1Index \<Rightarrow> store_key \<Rightarrow> u64 \<Rightarrow> ResolvedSlot" where
  "resolve_sorted t key hash =
     (case t1_frozen t of
        Some s \<Rightarrow> rs_none
      | None \<Rightarrow>
         (case find_sorted (sorted_cur t) key hash of
            Some i \<Rightarrow> \<lparr>rs_append = None, rs_sorted = Some (t1_sorted t, i)\<rparr>
          | None \<Rightarrow> rs_none))"

definition resolve :: "T1Index \<Rightarrow> store_key \<Rightarrow> u64 \<Rightarrow> ResolvedSlot" where
  "resolve t key hash =
     (case find_gen t (t1_active t) key hash of
        Some i \<Rightarrow> \<lparr>rs_append = Some (t1_active t, i), rs_sorted = None\<rparr>
      | None \<Rightarrow>
         (case t1_immutable t of
            None \<Rightarrow> resolve_sorted t key hash
          | Some g \<Rightarrow>
             (case find_gen t g key hash of
                Some i \<Rightarrow> rs_none
              | None \<Rightarrow> resolve_sorted t key hash)))"

section \<open>put\<close>

definition publish_append_index :: "T1Index \<Rightarrow> nat \<Rightarrow> nat \<Rightarrow> store_key \<Rightarrow> u64 \<Rightarrow> T1Index" where
  "publish_append_index t g index key hash =
     (let gen = t1_gens t g
      in case publish_slot (ag_index gen) (ar_view (ag_region gen)) key (index + 1) hash of
           (ok, ht, displaced) \<Rightarrow>
             let t' = t\<lparr>t1_gens := (t1_gens t)(g := gen\<lparr>ag_index := ht\<rparr>)\<rparr>
             in case displaced of
                  None \<Rightarrow> t'
                | Some d \<Rightarrow> upd_append_slot t' g d (\<lambda>s. s\<lparr>as_payload := STORE_NOT_FOUND\<rparr>))"

definition upd_region :: "T1Index \<Rightarrow> nat \<Rightarrow> AppendRegion \<Rightarrow> T1Index" where
  "upd_region t g r = t\<lparr>t1_gens := (t1_gens t)(g := (t1_gens t g)\<lparr>ag_region := r\<rparr>)\<rparr>"

text \<open>One turn of the retry loop: \<open>Inl t\<close> is \<^verbatim>\<open>continue\<close>, \<open>Inr\<close> a return.\<close>

definition put_in_place ::
  "T1Index \<Rightarrow> ResolvedSlot \<Rightarrow> store_key \<Rightarrow> u64 \<Rightarrow> u64 \<Rightarrow> u64 \<Rightarrow> T1Index + PutResult \<times> T1Index" where
  "put_in_place t slot prefix hash stored_hash value =
     (let t1 = rs_begin_write t slot;
          current = rs_load t1 slot
      in case rs_try_store t1 slot current value of
           (False, t2) \<Rightarrow> Inl (rs_end_write t2 slot)
         | (True, t2) \<Rightarrow>
             let after = resolve t2 prefix hash
             in if same_slot_as after slot
                then Inr (Applied, rs_end_write (rs_store_hash t2 slot stored_hash) slot)
                else if rs_found after
                then Inl (rs_end_write (snd (rs_try_store t2 slot value STORE_NOT_FOUND)) slot)
                else Inl (rs_end_write t2 slot))"

definition put_append ::
  "T1Index \<Rightarrow> store_key \<Rightarrow> u64 \<Rightarrow> u64 \<Rightarrow> u64 \<Rightarrow> PutResult \<times> T1Index" where
  "put_append t prefix hash stored_hash value =
     (let g = t1_active t
      in case ar_reserve (ag_region (t1_gens t g)) of
           (index, r) \<Rightarrow>
             if index \<ge> t1_append_cap t then (AppendRegionFull, upd_region t g r)
             else (Applied, publish_append_index
                     (upd_region t g (ar_publish r index prefix stored_hash value)) g index prefix hash))"

definition put_turn ::
  "T1Index \<Rightarrow> store_key \<Rightarrow> u64 \<Rightarrow> u64 \<Rightarrow> u64 \<Rightarrow> T1Index + PutResult \<times> T1Index" where
  "put_turn t prefix hash stored_hash value =
     (let slot = resolve t prefix hash
      in if rs_found slot then put_in_place t slot prefix hash stored_hash value
         else Inr (put_append t prefix hash stored_hash value))"

partial_function (option) put_with_stored_hash ::
  "T1Index \<Rightarrow> store_key \<Rightarrow> u64 \<Rightarrow> u64 \<Rightarrow> u64 \<Rightarrow> (PutResult \<times> T1Index) option" where
  "put_with_stored_hash t prefix hash stored_hash value =
     (case put_turn t prefix hash stored_hash value of
        Inl t' \<Rightarrow> put_with_stored_hash t' prefix hash stored_hash value
      | Inr res \<Rightarrow> Some res)"

definition t1_put :: "T1Index \<Rightarrow> bytes \<Rightarrow> u64 \<Rightarrow> bool \<Rightarrow> byte \<Rightarrow> (PutResult \<times> T1Index) option" where
  "t1_put t key value inl inline_size =
     (let (prefix, hash) = prepare_key_and_hash key;
          stored_hash = (if inl then embed_metadata hash inline_size else hash)
      in put_with_stored_hash t prefix hash stored_hash value)"

section \<open>What the regions hold\<close>

type_synonym ident = "store_key \<times> u64"

definition as_ident :: "AppendSlot \<Rightarrow> ident" where
  "as_ident s = (as_key s, clean_hash (as_hash s))"

definition ss_ident :: "SortedSlot \<Rightarrow> ident" where
  "ss_ident s = (ss_key s, clean_hash (ss_hash s))"

definition as_result :: "AppendSlot \<Rightarrow> LookupResult" where
  "as_result s = \<lparr>lr_payload_bits = as_payload s, lr_raw_hash = as_hash s\<rparr>"

definition ss_result :: "SortedSlot \<Rightarrow> LookupResult" where
  "ss_result s = \<lparr>lr_payload_bits = ss_payload s, lr_raw_hash = ss_hash s\<rparr>"

definition in_bounds :: "AppendRegion \<Rightarrow> store_key \<Rightarrow> bool" where
  "in_bounds r k = (case ar_bounds r of None \<Rightarrow> False | Some (mn, mx) \<Rightarrow> mn \<le> k \<and> k \<le> mx)"

text \<open>
  A generation between two operations: the slots below the tail are published and covered by the
  bounds, the index answers only with them, and a slot the index cannot reach is a tombstone.
\<close>

definition gen_wf :: "nat \<Rightarrow> AppendGeneration \<Rightarrow> bool" where
  "gen_wf cap g \<longleftrightarrow>
     (let r = ag_region g; ht = ag_index g
      in ar_capacity r = cap \<and> length (ar_slots r) = cap \<and> ar_tail r \<le> cap
       \<and> (\<forall>i < cap. as_published (ar_slots r ! i) \<longleftrightarrow> i < ar_tail r)
       \<and> (\<forall>i < ar_tail r. in_bounds r (as_key (ar_slots r ! i)))
       \<and> ht_inv ht (ar_view r) \<and> ht_stored ht \<subseteq> {..<ar_tail r} \<and> 2 * cap \<le> length (ht_buckets ht)
       \<and> (\<forall>i < ar_tail r. i \<notin> ht_stored ht \<longrightarrow> as_payload (ar_slots r ! i) = STORE_NOT_FOUND))"

definition sorted_wf :: "SortedRegion \<Rightarrow> bool" where
  "sorted_wf sr \<longleftrightarrow>
     sorted_wrt (\<lambda>a b. entry_less (ss_key a) (ss_hash a) (ss_key b) (ss_hash b)) (sr_slots sr)
     \<and> (\<forall>s \<in> set (sr_slots sr). \<not> bloom_excludes sr (clean_hash (ss_hash s)))"

definition t1_inv :: "T1Index \<Rightarrow> bool" where
  "t1_inv t \<longleftrightarrow>
     gen_wf (t1_append_cap t) (active_gen t) \<and> t1_active t < t1_next_gen t
     \<and> (case t1_immutable t of None \<Rightarrow> True
        | Some g \<Rightarrow> gen_wf (t1_append_cap t) (t1_gens t g) \<and> g < t1_next_gen t)
     \<and> sorted_wf (sorted_cur t) \<and> t1_sorted t < t1_next_sorted t"

text \<open>The abstraction: one finite map per region, newer regions shadow older ones.\<close>

definition gen_map :: "AppendGeneration \<Rightarrow> ident \<rightharpoonup> LookupResult" where
  "gen_map g x = map_option (\<lambda>i. as_result (ar_slots (ag_region g) ! i))
     (ht_lookup (ag_index g) (ar_view (ag_region g)) x)"

definition sorted_map :: "SortedRegion \<Rightarrow> ident \<rightharpoonup> LookupResult" where
  "sorted_map sr x = map_option (\<lambda>i. ss_result (sr_slots sr ! i)) (find_sorted sr (fst x) (snd x))"

definition imm_map :: "T1Index \<Rightarrow> ident \<rightharpoonup> LookupResult" where
  "imm_map t = (case t1_immutable t of None \<Rightarrow> Map.empty | Some g \<Rightarrow> gen_map (t1_gens t g))"

definition t1_map :: "T1Index \<Rightarrow> ident \<rightharpoonup> LookupResult" where
  "t1_map t = sorted_map (sorted_cur t) ++ imm_map t ++ gen_map (active_gen t)"

definition not_found_result :: LookupResult where
  "not_found_result = \<lparr>lr_payload_bits = STORE_NOT_FOUND, lr_raw_hash = 0\<rparr>"

section \<open>Searching a sorted region\<close>

lemma find_sorted_from_Some:
  "find_sorted_from ss i key hash = Some j \<Longrightarrow>
     \<exists>d < length ss. j = i + d \<and> ss_ident (ss ! d) = (key, hash)"
proof (induction ss arbitrary: i)
  case (Cons s ss)
  show ?case
  proof (cases "ss_ident s = (key, hash)")
    case True
    then show ?thesis using Cons.prems by (auto simp: ss_ident_def)
  next
    case False
    then have "find_sorted_from ss (Suc i) key hash = Some j"
      using Cons.prems by (auto simp: ss_ident_def split: if_splits)
    from Cons.IH [OF this] obtain d where "d < length ss" "j = Suc i + d" "ss_ident (ss ! d) = (key, hash)"
      by blast
    then show ?thesis by (intro exI [of _ "Suc d"]) simp
  qed
qed simp

lemma find_sorted_from_None:
  assumes "find_sorted_from ss i key hash = None" "sorted_wrt (\<lambda>a b. ss_key a \<le> ss_key b) ss"
    "\<And>s. s \<in> set ss \<Longrightarrow> key \<le> ss_key s" "s \<in> set ss"
  shows "ss_ident s \<noteq> (key, hash)"
  using assms
proof (induction ss arbitrary: i)
  case (Cons a ss)
  show ?case
  proof (cases "ss_key a = key")
    case True
    with Cons show ?thesis by (auto simp: ss_ident_def split: if_splits)
  next
    case False
    with Cons.prems(3) [of a] have "key < ss_key a" by simp
    then have "key < ss_key s" using Cons.prems(2,4) by auto
    then show ?thesis by (auto simp: ss_ident_def)
  qed
qed simp

lemma sorted_wf_keys: "sorted_wf sr \<Longrightarrow> sorted_wrt (\<lambda>a b. ss_key a \<le> ss_key b) (sr_slots sr)"
  unfolding sorted_wf_def by (auto simp: entry_less_iff elim!: sorted_wrt_mono_rel [rotated])

lemma sorted_dropWhile_ge:
  assumes "sorted_wrt (\<lambda>a b. ss_key a \<le> ss_key b) ss" "s \<in> set (dropWhile (\<lambda>s. ss_key s < key) ss)"
  shows "key \<le> ss_key s"
  using assms by (induction ss) (auto split: if_splits)

lemma sorted_wf_uniq:
  assumes "sorted_wf sr" "i < length (sr_slots sr)" "j < length (sr_slots sr)"
    "ss_ident (sr_slots sr ! i) = ss_ident (sr_slots sr ! j)"
  shows "i = j"
proof -
  have "False" if "m < n" "n < length (sr_slots sr)"
      "ss_ident (sr_slots sr ! m) = ss_ident (sr_slots sr ! n)" for m n
    using assms(1) sorted_wrt_nthD [OF _ that(1,2)] that(3)
    by (fastforce simp: sorted_wf_def ss_ident_def entry_less_iff)
  with assms(2-4) show ?thesis by (metis nat_neq_iff)
qed

lemma find_sorted_iff:
  assumes wf: "sorted_wf sr"
  shows "find_sorted sr key hash = Some i \<longleftrightarrow>
    i < length (sr_slots sr) \<and> ss_ident (sr_slots sr ! i) = (key, hash)"
proof -
  let ?ss = "sr_slots sr" and ?p = "partition_point (\<lambda>s. ss_key s < key) (sr_slots sr)"
  note srt = sorted_wf_keys [OF wf]
  have ge: "key \<le> ss_key s" if "s \<in> set (drop ?p ?ss)" for s
    using sorted_dropWhile_ge [OF srt] that by (simp add: drop_partition_point)
  have sound: "j < length ?ss \<and> ss_ident (?ss ! j) = (key, hash)" if "find_sorted sr key hash = Some j" for j
  proof -
    from that have "find_sorted_from (drop ?p ?ss) ?p key hash = Some j"
      by (auto simp: find_sorted_def Let_def split: if_splits)
    from find_sorted_from_Some [OF this] show ?thesis by auto
  qed
  have complete: "find_sorted sr key hash \<noteq> None" if j: "j < length ?ss" "ss_ident (?ss ! j) = (key, hash)" for j
  proof
    assume none: "find_sorted sr key hash = None"
    have "\<not> bloom_excludes sr hash"
      using wf j by (auto simp: sorted_wf_def ss_ident_def)
    with none j have fn: "find_sorted_from (drop ?p ?ss) ?p key hash = None"
      by (auto simp: find_sorted_def Let_def split: if_splits)
    have "\<not> j < ?p" using partition_point_before [of j "\<lambda>s. ss_key s < key" ?ss] j
      by (auto simp: ss_ident_def)
    then have "drop ?p ?ss ! (j - ?p) = ?ss ! j" "j - ?p < length (drop ?p ?ss)"
      using j(1) by auto
    then have "?ss ! j \<in> set (drop ?p ?ss)" by (metis nth_mem)
    with find_sorted_from_None [OF fn sorted_wrt_drop [OF srt] ge] j show False by blast
  qed
  show ?thesis using sound complete sorted_wf_uniq [OF wf] by (metis not_Some_eq)
qed

section \<open>Searching an append generation\<close>

lemma ht_ident_view:
  "ht_ident (ar_view r) i = (if as_published (ar_slots r ! i) then Some (as_ident (ar_slots r ! i)) else None)"
  by (simp add: ht_ident_def ar_view_def append_slot_view_def as_ident_def)

lemma gen_wfD:
  assumes "gen_wf cap g"
  shows "ht_inv (ag_index g) (ar_view (ag_region g))" "ht_stored (ag_index g) \<subseteq> {..<ar_tail (ag_region g)}"
    "ar_tail (ag_region g) \<le> cap" "length (ar_slots (ag_region g)) = cap" "ar_capacity (ag_region g) = cap"
    "2 * cap \<le> length (ht_buckets (ag_index g))"
  using assms by (simp_all add: gen_wf_def Let_def)

lemma gen_wf_slots:
  assumes "gen_wf cap g"
  shows "i < cap \<Longrightarrow> as_published (ar_slots (ag_region g) ! i) \<longleftrightarrow> i < ar_tail (ag_region g)"
    "i < ar_tail (ag_region g) \<Longrightarrow> in_bounds (ag_region g) (as_key (ar_slots (ag_region g) ! i))"
    "i < ar_tail (ag_region g) \<Longrightarrow> i \<notin> ht_stored (ag_index g)
      \<Longrightarrow> as_payload (ar_slots (ag_region g) ! i) = STORE_NOT_FOUND"
  using assms by (simp_all add: gen_wf_def Let_def)

lemma gen_wfI:
  assumes "ht_inv (ag_index g) (ar_view (ag_region g))" "ht_stored (ag_index g) \<subseteq> {..<ar_tail (ag_region g)}"
    "ar_tail (ag_region g) \<le> cap" "length (ar_slots (ag_region g)) = cap" "ar_capacity (ag_region g) = cap"
    "2 * cap \<le> length (ht_buckets (ag_index g))"
    "\<And>i. i < cap \<Longrightarrow> as_published (ar_slots (ag_region g) ! i) \<longleftrightarrow> i < ar_tail (ag_region g)"
    "\<And>i. i < ar_tail (ag_region g) \<Longrightarrow> i < cap \<Longrightarrow> in_bounds (ag_region g) (as_key (ar_slots (ag_region g) ! i))"
    "\<And>i. i < ar_tail (ag_region g) \<Longrightarrow> i < cap \<Longrightarrow> i \<notin> ht_stored (ag_index g)
      \<Longrightarrow> as_payload (ar_slots (ag_region g) ! i) = STORE_NOT_FOUND"
  shows "gen_wf cap g"
proof -
  have "i < cap" if "i < ar_tail (ag_region g)" for i using that assms(3) by simp
  with assms show ?thesis unfolding gen_wf_def Let_def by blast
qed

lemma find_gen_lookup:
  assumes "ht_inv ht (ar_view r)"
  shows "ar_find_with_index r ht key hash = ht_lookup ht (ar_view r) (key, hash)"
proof (cases "ht_lookup ht (ar_view r) (key, hash)")
  case None
  then show ?thesis by (simp add: ar_find_with_index_def find_slot_index_lookup kNotFound_def)
next
  case (Some n)
  with append_index.lookup_Some [OF assms] have "ht_ident (ar_view r) n = Some (key, hash)" by blast
  then have "as_published (ar_slots r ! n)" "as_ident (ar_slots r ! n) = (key, hash)"
    by (simp_all add: ht_ident_view split: if_splits)
  with Some show ?thesis
    by (simp add: ar_find_with_index_def find_slot_index_lookup kNotFound_def as_ident_def)
qed

lemma ht_lookup_gen_iff:
  assumes "gen_wf cap g"
  shows "ht_lookup (ag_index g) (ar_view (ag_region g)) x = Some i \<longleftrightarrow>
    i \<in> ht_stored (ag_index g) \<and> as_ident (ar_slots (ag_region g) ! i) = x"
proof -
  have "as_published (ar_slots (ag_region g) ! i)" if "i \<in> ht_stored (ag_index g)"
    using assms that by (auto simp: gen_wf_def Let_def subset_iff)
  then show ?thesis
    using append_index.lookup_iff [OF gen_wfD(1) [OF assms]] by (auto simp: ht_ident_view)
qed

lemma gen_wf_new: "gen_wf cap (ag_new cap)"
  using ht_room_new [of cap]
  by (auto simp: gen_wf_def ag_new_def ar_new_def ht_inv_new empty_append_slot_def ht_room_def)

lemma gen_map_new [simp]: "gen_map (ag_new cap) = Map.empty"
proof
  fix x
  have "ht_lookup (ht_new cap) (ar_view (ar_new cap)) x = None"
    using append_index.lookup_Some [OF ht_inv_new] by (metis empty_iff ht_stored_new not_Some_eq)
  then show "gen_map (ag_new cap) x = None" by (simp add: gen_map_def ag_new_def)
qed

section \<open>The lookup is the map\<close>

lemma lookup_t1_map:
  assumes "t1_inv t"
  shows "lookup_by_prefix_hash t key hash = (case t1_map t (key, hash) of Some r \<Rightarrow> r | None \<Rightarrow> not_found_result)"
proof -
  have gen: "gen_map (t1_gens t g) (key, hash) = map_option (gen_result t g) (find_gen t g key hash)"
    if "gen_wf (t1_append_cap t) (t1_gens t g)" for g
    unfolding gen_map_def find_gen_def find_gen_lookup [OF gen_wfD(1) [OF that]]
    by (intro map_option_cong) (simp_all add: gen_result_def as_result_def as_load_consistent_def)
  have act: "gen_map (active_gen t) (key, hash)
      = map_option (gen_result t (t1_active t)) (find_gen t (t1_active t) key hash)"
    using gen assms by (simp add: t1_inv_def)
  have imm: "gen_map (t1_gens t g) (key, hash) = map_option (gen_result t g) (find_gen t g key hash)"
    if "t1_immutable t = Some g" for g
    using gen assms that by (simp add: t1_inv_def)
  have srt: "sorted_map (sorted_cur t) (key, hash)
      = map_option (sorted_result t) (find_sorted (sorted_cur t) key hash)"
    unfolding sorted_map_def fst_conv snd_conv
    by (intro map_option_cong) (simp_all add: sorted_result_def ss_result_def ss_load_consistent_def)
  show ?thesis
    using act imm srt
    by (auto simp: lookup_by_prefix_hash_def lookup_sorted_step_def t1_map_def imm_map_def
        map_add_def not_found_result_def split: option.splits)
qed

section \<open>Rewriting a slot in place\<close>

definition gen_upd :: "AppendGeneration \<Rightarrow> nat \<Rightarrow> (AppendSlot \<Rightarrow> AppendSlot) \<Rightarrow> AppendGeneration" where
  "gen_upd g i f = g\<lparr>ag_region := (ag_region g)\<lparr>ar_slots := (ar_slots (ag_region g))
     [i := f (ar_slots (ag_region g) ! i)]\<rparr>\<rparr>"

definition sorted_upd :: "SortedRegion \<Rightarrow> nat \<Rightarrow> (SortedSlot \<Rightarrow> SortedSlot) \<Rightarrow> SortedRegion" where
  "sorted_upd sr i f = sr\<lparr>sr_slots := (sr_slots sr)[i := f (sr_slots sr ! i)]\<rparr>"

definition keeps_as_ident :: "AppendSlot \<Rightarrow> (AppendSlot \<Rightarrow> AppendSlot) \<Rightarrow> bool" where
  "keeps_as_ident s f \<longleftrightarrow> as_ident (f s) = as_ident s \<and> as_published (f s) = as_published s"

definition keeps_ss_ident :: "SortedSlot \<Rightarrow> (SortedSlot \<Rightarrow> SortedSlot) \<Rightarrow> bool" where
  "keeps_ss_ident s f \<longleftrightarrow> ss_ident (f s) = ss_ident s"

lemma ar_view_list_update:
  assumes "append_slot_view (f (ar_slots r ! i)) = append_slot_view (ar_slots r ! i)"
  shows "ar_view (r\<lparr>ar_slots := (ar_slots r)[i := f (ar_slots r ! i)]\<rparr>) = ar_view r"
proof
  fix j
  show "ar_view (r\<lparr>ar_slots := (ar_slots r)[i := f (ar_slots r ! i)]\<rparr>) j = ar_view r j"
    using assms by (cases "i = j"; cases "i < length (ar_slots r)") (auto simp: ar_view_def list_update_beyond)
qed

lemma keeps_view: "keeps_as_ident s f \<Longrightarrow> append_slot_view (f s) = append_slot_view s"
  by (simp add: keeps_as_ident_def append_slot_view_def as_ident_def)

lemma ar_view_gen_upd [simp]:
  "keeps_as_ident (ar_slots (ag_region g) ! i) f \<Longrightarrow> ar_view (ag_region (gen_upd g i f)) = ar_view (ag_region g)"
  unfolding gen_upd_def using ar_view_list_update [of f "ag_region g" i] keeps_view by simp

lemma ag_index_gen_upd [simp]: "ag_index (gen_upd g i f) = ag_index g"
  by (simp add: gen_upd_def)

lemma gen_wf_upd:
  assumes "gen_wf cap g" "keeps_as_ident (ar_slots (ag_region g) ! i) f" "i \<in> ht_stored (ag_index g)"
  shows "gen_wf cap (gen_upd g i f)"
proof -
  let ?r = "ag_region g" and ?g = "gen_upd g i f"
  have f: "as_key (f (ar_slots ?r ! i)) = as_key (ar_slots ?r ! i)"
    "as_published (f (ar_slots ?r ! i)) = as_published (ar_slots ?r ! i)"
    using assms(2) by (simp_all add: keeps_as_ident_def as_ident_def)
  have nth: "j < cap \<Longrightarrow> ar_slots (ag_region ?g) ! j
      = (if j = i then f (ar_slots ?r ! i) else ar_slots ?r ! j)" for j
    using gen_wfD(4) [OF assms(1)] by (auto simp: gen_upd_def)
  have same: "ar_tail (ag_region ?g) = ar_tail ?r" "ar_capacity (ag_region ?g) = ar_capacity ?r"
      "length (ar_slots (ag_region ?g)) = length (ar_slots ?r)" "in_bounds (ag_region ?g) = in_bounds ?r"
    by (simp_all add: gen_upd_def in_bounds_def fun_eq_iff)
  note old = gen_wfD [OF assms(1)] gen_wf_slots [OF assms(1)]
  show ?thesis
  proof (rule gen_wfI)
    show "ht_inv (ag_index ?g) (ar_view (ag_region ?g))" using old(1) assms(2) by simp
  qed (use old assms(3) in \<open>auto simp: same nth f\<close>)
qed

lemma gen_map_upd:
  assumes wf: "gen_wf cap g" and keep: "keeps_as_ident (ar_slots (ag_region g) ! i) f"
    and i: "i \<in> ht_stored (ag_index g)" and x: "as_ident (ar_slots (ag_region g) ! i) = x"
  shows "gen_map (gen_upd g i f) = (gen_map g)(x \<mapsto> as_result (f (ar_slots (ag_region g) ! i)))"
proof
  fix y
  have len: "i < length (ar_slots (ag_region g))"
    using i gen_wfD(2-4) [OF wf] by auto
  have hit: "ht_lookup (ag_index g) (ar_view (ag_region g)) y = Some j \<Longrightarrow>
      as_ident (ar_slots (ag_region g) ! j) = y" for j
    using ht_lookup_gen_iff [OF wf] by blast
  show "gen_map (gen_upd g i f) y = ((gen_map g)(x \<mapsto> as_result (f (ar_slots (ag_region g) ! i)))) y"
  proof (cases "y = x")
    case True
    have "ht_lookup (ag_index g) (ar_view (ag_region g)) x = Some i"
      using ht_lookup_gen_iff [OF wf] i x by blast
    with True keep len show ?thesis by (simp add: gen_map_def) (simp add: gen_upd_def)
  next
    case False
    then have "ht_lookup (ag_index g) (ar_view (ag_region g)) y = Some j \<Longrightarrow> j \<noteq> i" for j
      using hit x by blast
    with False keep show ?thesis
      by (auto simp: gen_map_def) (auto simp: gen_upd_def map_option_case split: option.splits)
  qed
qed

lemma sorted_wf_ident:
  "sorted_wf sr \<longleftrightarrow>
     (\<forall>i j. i < j \<longrightarrow> j < length (sr_slots sr) \<longrightarrow>
        (case (ss_ident (sr_slots sr ! i), ss_ident (sr_slots sr ! j)) of
           ((k, h), (k', h')) \<Rightarrow> k < k' \<or> k = k' \<and> h < h'))
     \<and> (\<forall>i < length (sr_slots sr). \<not> bloom_excludes sr (snd (ss_ident (sr_slots sr ! i))))"
  unfolding sorted_wf_def sorted_wrt_iff_nth_less
  by (auto simp: entry_less_iff ss_ident_def all_set_conv_all_nth)

lemma ss_ident_sorted_upd:
  "keeps_ss_ident (sr_slots sr ! i) f \<Longrightarrow> j < length (sr_slots sr)
    \<Longrightarrow> ss_ident (sr_slots (sorted_upd sr i f) ! j) = ss_ident (sr_slots sr ! j)"
  by (cases "j = i") (auto simp: sorted_upd_def keeps_ss_ident_def)

lemma length_sorted_upd [simp]: "length (sr_slots (sorted_upd sr i f)) = length (sr_slots sr)"
  by (simp add: sorted_upd_def)

lemma sorted_wf_upd:
  assumes "sorted_wf sr" "keeps_ss_ident (sr_slots sr ! i) f"
  shows "sorted_wf (sorted_upd sr i f)"
proof -
  have "bloom_excludes (sorted_upd sr i f) = bloom_excludes sr"
    by (simp add: sorted_upd_def bloom_excludes_def fun_eq_iff)
  moreover have "ss_ident (sr_slots (sorted_upd sr i f) ! j) = ss_ident (sr_slots sr ! j)"
    if "j < length (sr_slots sr)" for j
    using that by (rule ss_ident_sorted_upd [OF assms(2)])
  ultimately show ?thesis using assms(1) unfolding sorted_wf_ident by simp
qed

lemma sorted_map_upd:
  assumes wf: "sorted_wf sr" and keep: "keeps_ss_ident (sr_slots sr ! i) f"
    and i: "i < length (sr_slots sr)" and x: "ss_ident (sr_slots sr ! i) = x"
  shows "sorted_map (sorted_upd sr i f) = (sorted_map sr)(x \<mapsto> ss_result (f (sr_slots sr ! i)))"
proof
  fix y
  have same: "find_sorted (sorted_upd sr i f) (fst y) (snd y) = find_sorted sr (fst y) (snd y)"
  proof -
    have "find_sorted (sorted_upd sr i f) (fst y) (snd y) = Some j \<longleftrightarrow>
        find_sorted sr (fst y) (snd y) = Some j" for j
      using find_sorted_iff [OF wf] find_sorted_iff [OF sorted_wf_upd [OF wf keep]]
        ss_ident_sorted_upd [OF keep] by auto
    then show ?thesis by (metis option.exhaust)
  qed
  show "sorted_map (sorted_upd sr i f) y = ((sorted_map sr)(x \<mapsto> ss_result (f (sr_slots sr ! i)))) y"
  proof (cases "y = x")
    case True
    have "find_sorted sr (fst x) (snd x) = Some i" using find_sorted_iff [OF wf] i x by simp
    with True i show ?thesis using same by (simp add: sorted_map_def) (simp add: sorted_upd_def)
  next
    case False
    have "j \<noteq> i" if "find_sorted sr (fst y) (snd y) = Some j" for j
      using find_sorted_iff [OF wf, of "fst y" "snd y" j] that x False by auto
    then show ?thesis using False same
      by (cases "find_sorted sr (fst y) (snd y)") (auto simp: sorted_map_def sorted_upd_def)
  qed
qed

section \<open>Publishing a new slot\<close>

lemma nth_ar_publish:
  assumes "index < length (ar_slots r)"
  shows "ar_slots (ar_publish r index key hash value) ! j =
    (if j = index then (ar_slots r ! index)
        \<lparr>as_key := key, as_hash := hash, as_payload := value, as_published := True\<rparr>
     else ar_slots r ! j)"
  using assms by (simp add: ar_publish_def ar_update_bounds_def Let_def)

lemma ar_publish_frame [simp]:
  "length (ar_slots (ar_publish r index key hash value)) = length (ar_slots r)"
  "ar_tail (ar_publish r index key hash value) = ar_tail r"
  "ar_capacity (ar_publish r index key hash value) = ar_capacity r"
  by (simp_all add: ar_publish_def ar_update_bounds_def Let_def)

lemma in_bounds_publish:
  "in_bounds (ar_publish r index key hash value) k \<longleftrightarrow>
     (case ar_bounds r of None \<Rightarrow> k = key
      | Some (mn, mx) \<Rightarrow> min mn key \<le> k \<and> k \<le> max mx key)"
  by (auto simp: in_bounds_def ar_publish_def ar_update_bounds_def Let_def min_def max_def
      split: option.splits)

lemma gen_append_correct:
  assumes wf: "gen_wf cap g" and room: "ar_tail (ag_region g) < cap" and st: "clean_hash stored = hash"
    and absent: "ht_lookup (ag_index g) (ar_view (ag_region g)) (key, hash) = None"
    and r: "r = ar_publish (snd (ar_reserve (ag_region g))) (ar_tail (ag_region g)) key stored value"
  shows "\<exists>ht. ht_publish (ag_index g) (ar_view r) (key, hash) (ar_tail (ag_region g)) = (True, ht, None)
    \<and> gen_wf cap \<lparr>ag_region = r, ag_index = ht\<rparr>
    \<and> gen_map \<lparr>ag_region = r, ag_index = ht\<rparr>
        = (gen_map g)((key, hash) \<mapsto> \<lparr>lr_payload_bits = value, lr_raw_hash = stored\<rparr>)"
proof -
  let ?n = "ar_tail (ag_region g)" and ?ht = "ag_index g" and ?x = "(key, hash)"
  note old = gen_wfD [OF wf] gen_wf_slots [OF wf]
  have len: "?n < length (ar_slots (snd (ar_reserve (ag_region g))))"
    using room old by (simp add: ar_reserve_def)
  have nth: "ar_slots r ! j = (if j = ?n then (ar_slots (ag_region g) ! ?n)
      \<lparr>as_key := key, as_hash := stored, as_payload := value, as_published := True\<rparr>
      else ar_slots (ag_region g) ! j)" for j
    unfolding r nth_ar_publish [OF len] using room old by (simp add: ar_reserve_def)
  have frame: "ar_tail r = Suc ?n" "ar_capacity r = cap" "length (ar_slots r) = cap"
    unfolding r using room old by (simp_all add: ar_reserve_def)
  have stored_lt: "j \<in> ht_stored ?ht \<Longrightarrow> j < ?n" for j using old(2) by auto
  have fresh: "?n \<notin> ht_stored ?ht" using stored_lt by blast
  have ident: "ht_ident (ar_view r) j = ht_ident (ar_view (ag_region g)) j" if "j \<in> ht_stored ?ht" for j
    using stored_lt [OF that] by (simp add: ht_ident_view nth)
  note inv = append_index.inv_cong [OF old(1) ident]
  have lookup: "ht_lookup ?ht (ar_view r) y = ht_lookup ?ht (ar_view (ag_region g)) y" for y
    by (rule append_index.lookup_cong [OF old(1) ident])
  have new: "ht_ident (ar_view r) ?n = Some ?x" by (simp add: ht_ident_view nth as_ident_def st)
  have space: "card (ht_stored ?ht) < ht_room ?ht"
  proof (rule ht_has_room)
    show "ht_stored ?ht \<subseteq> {..<cap}" using old(2) room by auto
  qed (use room old in \<open>auto simp: ht_room_def\<close>)
  from append_index.publish_ok [OF inv fresh new space] obtain ht where
    pub: "ht_publish ?ht (ar_view r) ?x ?n = (True, ht, None)" and inv': "ht_inv ht (ar_view r)"
    and room': "ht_room ht = ht_room ?ht" and stored': "ht_stored ht = insert ?n (ht_stored ?ht)"
    by (auto simp: lookup absent)
  have look': "ht_lookup ht (ar_view r) y = (if y = ?x then Some ?n else ht_lookup ?ht (ar_view (ag_region g)) y)" for y
    using append_index.lookup_publish [OF inv fresh new space, of y] pub by (simp add: lookup)
  have "gen_wf cap \<lparr>ag_region = r, ag_index = ht\<rparr>"
  proof (rule gen_wfI; simp only: AppendGeneration.simps frame)
    fix i assume i: "i < Suc ?n" "i < cap"
    show "in_bounds r (as_key (ar_slots r ! i))"
      using old(8) [of i] i unfolding r in_bounds_publish nth [unfolded r]
      by (auto simp: ar_reserve_def in_bounds_def less_Suc_eq min_def max_def split: option.splits)
  qed (use inv' stored' room' room old stored_lt in \<open>auto simp: nth less_Suc_eq ht_room_def\<close>)
  moreover have "gen_map \<lparr>ag_region = r, ag_index = ht\<rparr>
      = (gen_map g)(?x \<mapsto> \<lparr>lr_payload_bits = value, lr_raw_hash = stored\<rparr>)"
  proof
    fix y
    show "gen_map \<lparr>ag_region = r, ag_index = ht\<rparr> y
        = ((gen_map g)(?x \<mapsto> \<lparr>lr_payload_bits = value, lr_raw_hash = stored\<rparr>)) y"
      using append_index.lookup_Some [OF old(1), of y] stored_lt
      by (cases "ht_lookup ?ht (ar_view (ag_region g)) y") (auto simp: gen_map_def look' nth as_result_def)
  qed
  ultimately show ?thesis using pub by blast
qed

section \<open>put\<close>

lemma t1_upd_active:
  assumes "t1_inv t" "gen_wf (t1_append_cap t) g" "gen_map g = (gen_map (active_gen t))(x \<mapsto> r)"
  shows "t1_inv (t\<lparr>t1_gens := (t1_gens t)(t1_active t := g)\<rparr>)"
    and "t1_map (t\<lparr>t1_gens := (t1_gens t)(t1_active t := g)\<rparr>) = (t1_map t)(x \<mapsto> r)"
proof -
  show "t1_inv (t\<lparr>t1_gens := (t1_gens t)(t1_active t := g)\<rparr>)"
    using assms(1,2) by (auto simp: t1_inv_def split: option.splits)
  have "imm_map (t\<lparr>t1_gens := (t1_gens t)(t1_active t := g)\<rparr>) =
      (if t1_immutable t = Some (t1_active t) then (imm_map t)(x \<mapsto> r) else imm_map t)"
    using assms(3) by (auto simp: imm_map_def split: option.splits)
  then show "t1_map (t\<lparr>t1_gens := (t1_gens t)(t1_active t := g)\<rparr>) = (t1_map t)(x \<mapsto> r)"
    using assms(3) by (auto simp: t1_map_def map_add_def fun_eq_iff split: option.splits)
qed

lemma t1_upd_sorted:
  assumes "t1_inv t" "sorted_wf sr" "sorted_map sr = (sorted_map (sorted_cur t))(x \<mapsto> r)"
    "gen_map (active_gen t) x = None" "imm_map t x = None"
  shows "t1_inv (t\<lparr>t1_sorteds := (t1_sorteds t)(t1_sorted t := sr)\<rparr>)"
    and "t1_map (t\<lparr>t1_sorteds := (t1_sorteds t)(t1_sorted t := sr)\<rparr>) = (t1_map t)(x \<mapsto> r)"
proof -
  show "t1_inv (t\<lparr>t1_sorteds := (t1_sorteds t)(t1_sorted t := sr)\<rparr>)"
    using assms(1,2) by (auto simp: t1_inv_def split: option.splits)
  have "imm_map (t\<lparr>t1_sorteds := (t1_sorteds t)(t1_sorted t := sr)\<rparr>) = imm_map t"
    by (simp add: imm_map_def split: option.splits)
  then show "t1_map (t\<lparr>t1_sorteds := (t1_sorteds t)(t1_sorted t := sr)\<rparr>) = (t1_map t)(x \<mapsto> r)"
    using assms(3-5) by (auto simp: t1_map_def map_add_def fun_eq_iff split: option.splits)
qed

text \<open>The net effect of the bracketed in-place store on a slot.\<close>

definition as_rewrite :: "u64 \<Rightarrow> u64 \<Rightarrow> AppendSlot \<Rightarrow> AppendSlot" where
  "as_rewrite value stored s =
     s\<lparr>as_payload := value, as_hash := stored, as_version := as_version s + 1 + 1\<rparr>"

definition ss_rewrite :: "u64 \<Rightarrow> u64 \<Rightarrow> SortedSlot \<Rightarrow> SortedSlot" where
  "ss_rewrite value stored s =
     s\<lparr>ss_payload := value, ss_hash := stored, ss_version := ss_version s + 1 + 1\<rparr>"

lemma upd_append_slot_gen_upd:
  "upd_append_slot t g i f = t\<lparr>t1_gens := (t1_gens t)(g := gen_upd (t1_gens t g) i f)\<rparr>"
  by (simp add: upd_append_slot_def gen_upd_def Let_def)

lemma upd_sorted_slot_sorted_upd:
  "upd_sorted_slot t s i f = t\<lparr>t1_sorteds := (t1_sorteds t)(s := sorted_upd (t1_sorteds t s) i f)\<rparr>"
  by (simp add: upd_sorted_slot_def sorted_upd_def Let_def)

lemma gen_upd_twice:
  "i < length (ar_slots (ag_region g)) \<Longrightarrow> gen_upd (gen_upd g i f) i f' = gen_upd g i (\<lambda>s. f' (f s))"
  by (simp add: gen_upd_def)

lemma sorted_upd_twice:
  "i < length (sr_slots sr) \<Longrightarrow> sorted_upd (sorted_upd sr i f) i f' = sorted_upd sr i (\<lambda>s. f' (f s))"
  by (simp add: sorted_upd_def)

lemma length_gen_upd [simp]: "length (ar_slots (ag_region (gen_upd g i f))) = length (ar_slots (ag_region g))"
  by (simp add: gen_upd_def)

lemma find_gen_upd:
  assumes "keeps_as_ident (ar_slots (ag_region (t1_gens t g)) ! i) f"
  shows "find_gen (t\<lparr>t1_gens := (t1_gens t)(g := gen_upd (t1_gens t g) i f)\<rparr>) = find_gen t"
proof -
  let ?r = "ag_region (t1_gens t g)"
  have pub: "as_published (ar_slots (ag_region (gen_upd (t1_gens t g) i f)) ! j) = as_published (ar_slots ?r ! j)"
    and key: "as_key (ar_slots (ag_region (gen_upd (t1_gens t g) i f)) ! j) = as_key (ar_slots ?r ! j)"
    and hash: "clean_hash (as_hash (ar_slots (ag_region (gen_upd (t1_gens t g) i f)) ! j))
      = clean_hash (as_hash (ar_slots ?r ! j))" for j
    using assms by (cases "j = i"; cases "i < length (ar_slots ?r)";
        auto simp: gen_upd_def keeps_as_ident_def as_ident_def list_update_beyond)+
  show ?thesis
    using assms by (auto simp: fun_eq_iff find_gen_def ar_find_with_index_def Let_def pub key hash)
qed

lemma put_turn_append_slot:
  assumes inv: "t1_inv t" and found: "find_gen t (t1_active t) key hash = Some i" and st: "clean_hash stored = hash"
    and g_def: "g = gen_upd (active_gen t) i (as_rewrite value stored)"
  shows "put_turn t key hash stored value = Inr (Applied, t\<lparr>t1_gens := (t1_gens t)(t1_active t := g)\<rparr>)"
    and "gen_wf (t1_append_cap t) g"
    and "gen_map g = (gen_map (active_gen t))((key, hash) \<mapsto> \<lparr>lr_payload_bits = value, lr_raw_hash = stored\<rparr>)"
proof -
  let ?g = "active_gen t"
  have wf: "gen_wf (t1_append_cap t) ?g" using inv by (simp add: t1_inv_def)
  have look: "ht_lookup (ag_index ?g) (ar_view (ag_region ?g)) (key, hash) = Some i"
    using found by (simp add: find_gen_def find_gen_lookup [OF gen_wfD(1) [OF wf]])
  then have i: "i \<in> ht_stored (ag_index ?g)" "as_ident (ar_slots (ag_region ?g) ! i) = (key, hash)"
    using ht_lookup_gen_iff [OF wf] by blast+
  then have len: "i < length (ar_slots (ag_region ?g))" using gen_wfD(2-4) [OF wf] by auto
  have keep: "keeps_as_ident (ar_slots (ag_region ?g) ! i) (as_rewrite value stored)"
    using i(2) st by (simp add: keeps_as_ident_def as_ident_def as_rewrite_def)
  show "gen_wf (t1_append_cap t) g" unfolding g_def by (rule gen_wf_upd [OF wf keep i(1)])
  show "gen_map g = (gen_map ?g)((key, hash) \<mapsto> \<lparr>lr_payload_bits = value, lr_raw_hash = stored\<rparr>)"
    unfolding g_def gen_map_upd [OF wf keep i] by (simp add: as_result_def as_rewrite_def)
  let ?slot = "\<lparr>rs_append = Some (t1_active t, i), rs_sorted = None\<rparr>"
  have res: "resolve t key hash = ?slot" using found by (simp add: resolve_def)
  define w where "w s = s\<lparr>as_version := as_version s + 1, as_payload := value\<rparr>" for s :: AppendSlot
  define t2 where "t2 = t\<lparr>t1_gens := (t1_gens t)(t1_active t := gen_upd ?g i w)\<rparr>"
  have "keeps_as_ident (ar_slots (ag_region ?g) ! i) w"
    by (simp add: keeps_as_ident_def as_ident_def w_def)
  then have "find_gen t2 = find_gen t" unfolding t2_def by (rule find_gen_upd)
  then have after: "resolve t2 key hash = ?slot" using found by (simp add: resolve_def t2_def)
  have cas: "rs_try_store (rs_begin_write t ?slot) ?slot (rs_load (rs_begin_write t ?slot) ?slot) value = (True, t2)"
    by (simp add: rs_try_store_def rs_begin_write_def rs_upd_def upd_append_slot_gen_upd
        gen_upd_twice [OF len] t2_def w_def [abs_def])
  have fin: "rs_end_write (rs_store_hash t2 ?slot stored) ?slot
      = t\<lparr>t1_gens := (t1_gens t)(t1_active t := g)\<rparr>"
    by (simp add: rs_end_write_def rs_store_hash_def rs_upd_def upd_append_slot_gen_upd t2_def
        gen_upd_twice [OF len] g_def w_def [abs_def] as_rewrite_def [abs_def])
  show "put_turn t key hash stored value = Inr (Applied, t\<lparr>t1_gens := (t1_gens t)(t1_active t := g)\<rparr>)"
    by (simp add: put_turn_def res rs_found_def put_in_place_def cas after same_slot_as_def fin del: One_nat_def)
qed

lemma put_turn_sorted_slot:
  assumes inv: "t1_inv t" and found: "find_sorted (sorted_cur t) key hash = Some i" and st: "clean_hash stored = hash"
    and res: "resolve t key hash = \<lparr>rs_append = None, rs_sorted = Some (t1_sorted t, i)\<rparr>"
    and sr_def: "sr = sorted_upd (sorted_cur t) i (ss_rewrite value stored)"
  shows "put_turn t key hash stored value = Inr (Applied, t\<lparr>t1_sorteds := (t1_sorteds t)(t1_sorted t := sr)\<rparr>)"
    and "sorted_wf sr"
    and "sorted_map sr = (sorted_map (sorted_cur t))((key, hash) \<mapsto> \<lparr>lr_payload_bits = value, lr_raw_hash = stored\<rparr>)"
proof -
  let ?sr = "sorted_cur t" and ?slot = "\<lparr>rs_append = None, rs_sorted = Some (t1_sorted t, i)\<rparr>"
  have wf: "sorted_wf ?sr" using inv by (simp add: t1_inv_def)
  then have i: "i < length (sr_slots ?sr)" "ss_ident (sr_slots ?sr ! i) = (key, hash)"
    using found find_sorted_iff by blast+
  have keep: "keeps_ss_ident (sr_slots ?sr ! i) (ss_rewrite value stored)"
    using i(2) st by (simp add: keeps_ss_ident_def ss_ident_def ss_rewrite_def)
  show "sorted_wf sr" unfolding sr_def by (rule sorted_wf_upd [OF wf keep])
  show "sorted_map sr = (sorted_map ?sr)((key, hash) \<mapsto> \<lparr>lr_payload_bits = value, lr_raw_hash = stored\<rparr>)"
    unfolding sr_def sorted_map_upd [OF wf keep i] by (simp add: ss_result_def ss_rewrite_def)
  define w where "w s = s\<lparr>ss_version := ss_version s + 1, ss_payload := value\<rparr>" for s :: SortedSlot
  define t2 where "t2 = t\<lparr>t1_sorteds := (t1_sorteds t)(t1_sorted t := sorted_upd ?sr i w)\<rparr>"
  have keep2: "keeps_ss_ident (sr_slots ?sr ! i) w" by (simp add: keeps_ss_ident_def ss_ident_def w_def)
  have "find_sorted (sorted_upd ?sr i w) key hash = Some i"
    using find_sorted_iff [OF sorted_wf_upd [OF wf keep2]] i ss_ident_sorted_upd [OF keep2] by simp
  then have after: "resolve t2 key hash = ?slot"
    using res found by (auto simp: resolve_def resolve_sorted_def t2_def find_gen_def rs_none_def split: option.splits)
  have cas: "rs_try_store (rs_begin_write t ?slot) ?slot (rs_load (rs_begin_write t ?slot) ?slot) value = (True, t2)"
    by (simp add: rs_try_store_def rs_begin_write_def rs_upd_def upd_sorted_slot_sorted_upd
        sorted_upd_twice [OF i(1)] t2_def w_def [abs_def])
  have fin: "rs_end_write (rs_store_hash t2 ?slot stored) ?slot
      = t\<lparr>t1_sorteds := (t1_sorteds t)(t1_sorted t := sr)\<rparr>"
    by (simp add: rs_end_write_def rs_store_hash_def rs_upd_def upd_sorted_slot_sorted_upd t2_def
        sorted_upd_twice [OF i(1)] sr_def w_def [abs_def] ss_rewrite_def [abs_def])
  show "put_turn t key hash stored value = Inr (Applied, t\<lparr>t1_sorteds := (t1_sorteds t)(t1_sorted t := sr)\<rparr>)"
    by (simp add: put_turn_def res rs_found_def put_in_place_def cas after same_slot_as_def fin)
qed

lemma generation_record: "g\<lparr>ag_region := r, ag_index := ht\<rparr> = \<lparr>ag_region = r, ag_index = ht\<rparr>"
  by (cases g) simp

lemma put_append_correct:
  assumes inv: "t1_inv t" and absent: "find_gen t (t1_active t) key hash = None" and st: "clean_hash stored = hash"
    and g: "g = active_gen t"
  shows "if ar_tail (ag_region g) < t1_append_cap t
    then \<exists>g'. put_append t key hash stored value = (Applied, t\<lparr>t1_gens := (t1_gens t)(t1_active t := g')\<rparr>)
      \<and> gen_wf (t1_append_cap t) g'
      \<and> gen_map g' = (gen_map g)((key, hash) \<mapsto> \<lparr>lr_payload_bits = value, lr_raw_hash = stored\<rparr>)
    else put_append t key hash stored value = (AppendRegionFull, t)"
proof -
  have wf: "gen_wf (t1_append_cap t) g" using inv by (simp add: t1_inv_def g)
  note cap = gen_wfD(5) [OF wf]
  show ?thesis
  proof (cases "ar_tail (ag_region g) < t1_append_cap t")
    case True
    have none: "ht_lookup (ag_index g) (ar_view (ag_region g)) (key, hash) = None"
      using absent by (simp add: find_gen_def g find_gen_lookup [OF gen_wfD(1) [OF wf [unfolded g]]])
    let ?r = "ar_publish (snd (ar_reserve (ag_region g))) (ar_tail (ag_region g)) key stored value"
    from gen_append_correct [OF wf True st none refl] obtain ht where
      pub: "ht_publish (ag_index g) (ar_view ?r) (key, hash) (ar_tail (ag_region g)) = (True, ht, None)"
      and wf': "gen_wf (t1_append_cap t) \<lparr>ag_region = ?r, ag_index = ht\<rparr>"
      and map': "gen_map \<lparr>ag_region = ?r, ag_index = ht\<rparr>
        = (gen_map g)((key, hash) \<mapsto> \<lparr>lr_payload_bits = value, lr_raw_hash = stored\<rparr>)"
      by blast
    have "put_append t key hash stored value
        = (Applied, t\<lparr>t1_gens := (t1_gens t)(t1_active t := \<lparr>ag_region = ?r, ag_index = ht\<rparr>)\<rparr>)"
      using True pub cap
      by (simp add: put_append_def ar_reserve_def g upd_region_def publish_append_index_def ht_publish_def
          Let_def generation_record)
    with wf' map' True show ?thesis by auto
  next
    case False
    then have "put_append t key hash stored value = (AppendRegionFull, t)"
      using cap by (simp add: put_append_def ar_reserve_def g upd_region_def Let_def)
    with False show ?thesis by simp
  qed
qed

lemma imm_map_find:
  assumes "t1_inv t"
  shows "imm_map t (key, hash) = None \<longleftrightarrow> (\<forall>g. t1_immutable t = Some g \<longrightarrow> find_gen t g key hash = None)"
  using assms
  by (auto simp: imm_map_def gen_map_def find_gen_def t1_inv_def find_gen_lookup gen_wfD(1) split: option.splits)

lemma active_map_find:
  "t1_inv t \<Longrightarrow> gen_map (active_gen t) (key, hash) = None \<longleftrightarrow> find_gen t (t1_active t) key hash = None"
  by (auto simp: gen_map_def find_gen_def t1_inv_def find_gen_lookup [OF gen_wfD(1)])

text \<open>
  What one \<^verbatim>\<open>put\<close> may touch: the contents of the active generation, or, when nothing newer
  holds the key and the sorted region is not frozen, its slot in the sorted region.
\<close>

definition put_frame :: "T1Index \<Rightarrow> ident \<Rightarrow> LookupResult \<Rightarrow> T1Index \<Rightarrow> bool" where
  "put_frame t x r t' \<longleftrightarrow>
     (\<exists>g. t' = t\<lparr>t1_gens := (t1_gens t)(t1_active t := g)\<rparr> \<and> gen_map g = (gen_map (active_gen t))(x \<mapsto> r)
        \<and> (gen_map (active_gen t) x \<noteq> None \<or> imm_map t x \<noteq> None \<or> t1_frozen t \<noteq> None
            \<or> sorted_map (sorted_cur t) x = None)) \<or>
     (\<exists>sr. t' = t\<lparr>t1_sorteds := (t1_sorteds t)(t1_sorted t := sr)\<rparr> \<and> t1_frozen t = None
        \<and> gen_map (active_gen t) x = None \<and> imm_map t x = None
        \<and> sorted_map sr = (sorted_map (sorted_cur t))(x \<mapsto> r))"

definition put_outcome :: "T1Index \<Rightarrow> ident \<Rightarrow> LookupResult \<Rightarrow> PutResult \<Rightarrow> T1Index \<Rightarrow> bool" where
  "put_outcome t x r res t' \<longleftrightarrow> t1_inv t' \<and>
     (case res of Applied \<Rightarrow> t1_map t' = (t1_map t)(x \<mapsto> r) \<and> put_frame t x r t'
      | AppendRegionFull \<Rightarrow> t' = t \<and> t1_append_cap t \<le> append_size t)"

lemma put_turn_outcome:
  assumes inv: "t1_inv t" and st: "clean_hash stored = hash"
  shows "\<exists>res t'. put_turn t key hash stored value = Inr (res, t')
    \<and> put_outcome t (key, hash) \<lparr>lr_payload_bits = value, lr_raw_hash = stored\<rparr> res t'"
proof (cases "find_gen t (t1_active t) key hash")
  case (Some i)
  note p = put_turn_append_slot [OF inv Some st refl, of "value"]
  have "gen_map (active_gen t) (key, hash) \<noteq> None" using Some by (simp add: active_map_find [OF inv])
  with p t1_upd_active [OF inv p(2,3)] show ?thesis
    by (auto simp: put_outcome_def put_frame_def)
next
  case None
  show ?thesis
  proof (cases "rs_found (resolve t key hash)")
    case True
    then obtain i where i: "find_sorted (sorted_cur t) key hash = Some i"
        "resolve t key hash = \<lparr>rs_append = None, rs_sorted = Some (t1_sorted t, i)\<rparr>"
        "imm_map t (key, hash) = None" "t1_frozen t = None"
      using None by (auto simp: resolve_def resolve_sorted_def rs_none_def rs_found_def imm_map_find [OF inv]
          split: option.splits)
    note p = put_turn_sorted_slot [OF inv i(1) st i(2) refl, of "value"]
    have "gen_map (active_gen t) (key, hash) = None" using None by (simp add: active_map_find [OF inv])
    with p t1_upd_sorted [OF inv p(2,3) this i(3)] i(3,4) show ?thesis
      by (auto simp: put_outcome_def put_frame_def)
  next
    case False
    then have turn: "put_turn t key hash stored value = Inr (put_append t key hash stored value)"
      by (simp add: put_turn_def)
    have "imm_map t (key, hash) \<noteq> None \<or> t1_frozen t \<noteq> None \<or> sorted_map (sorted_cur t) (key, hash) = None"
      using False None by (auto simp: resolve_def resolve_sorted_def rs_none_def rs_found_def
          imm_map_find [OF inv] sorted_map_def split: option.splits)
    then show ?thesis
      using put_append_correct [OF inv None st refl, of "value"] turn inv t1_upd_active [OF inv]
      by (auto simp: put_outcome_def put_frame_def append_size_def ar_size_def split: if_splits)
  qed
qed

lemma put_correct:
  assumes "t1_inv t" "clean_hash stored = hash"
  shows "\<exists>res t'. put_with_stored_hash t key hash stored value = Some (res, t')
    \<and> put_outcome t (key, hash) \<lparr>lr_payload_bits = value, lr_raw_hash = stored\<rparr> res t'"
  using put_turn_outcome [OF assms, of key "value"] by (subst put_with_stored_hash.simps) auto

lemma get_with_hash_t1_map:
  "t1_inv t \<Longrightarrow> get_with_hash t key =
     (case t1_map t (prepare_key_and_hash key) of Some r \<Rightarrow> r | None \<Rightarrow> not_found_result)"
  by (simp add: get_with_hash_def prepare_key_and_hash_def lookup_t1_map)

text \<open>
  Writing a key to a shard's index always returns. If the append region is full the index is
  unchanged; otherwise a later lookup of the key yields exactly the stored payload and stored hash
  (with its inline metadata), and a lookup of every key with another prefix or hash is unchanged,
  whichever region answered for the key before and whether or not a reorganisation has frozen it.
\<close>

lemma t1_put_get:
  assumes "t1_inv t" and "stored = (if inl then embed_metadata (hash_full_key key) n else hash_full_key key)"
  shows "\<exists>res t'. t1_put t key value inl n = Some (res, t') \<and> t1_inv t'
    \<and> (res = AppendRegionFull \<longrightarrow> t' = t)
    \<and> (res = Applied \<longrightarrow> (\<forall>key'. get_with_hash t' key' =
          (if prepare_key_and_hash key' = prepare_key_and_hash key
           then \<lparr>lr_payload_bits = value, lr_raw_hash = stored\<rparr> else get_with_hash t key')))"
proof -
  have "clean_hash stored = hash_full_key key" by (simp add: assms(2))
  from put_correct [OF assms(1) this, of "prefix_from_bytes key" "value"] obtain res t' where
    res: "put_with_stored_hash t (prefix_from_bytes key) (hash_full_key key) stored value = Some (res, t')"
    and out: "put_outcome t (prepare_key_and_hash key) \<lparr>lr_payload_bits = value, lr_raw_hash = stored\<rparr> res t'"
    by (auto simp: prepare_key_and_hash_def)
  from res have "t1_put t key value inl n = Some (res, t')"
    by (simp add: t1_put_def prepare_key_and_hash_def assms(2))
  moreover have "t1_inv t'" "res = AppendRegionFull \<longrightarrow> t' = t" using out by (auto simp: put_outcome_def)
  moreover have "get_with_hash t' key' =
      (if prepare_key_and_hash key' = prepare_key_and_hash key
       then \<lparr>lr_payload_bits = value, lr_raw_hash = stored\<rparr> else get_with_hash t key')"
    if "res = Applied" for key'
    using out that assms(1) by (auto simp: put_outcome_def get_with_hash_t1_map)
  ultimately show ?thesis by blast
qed

lemma t1_inv_new: "t1_inv (T1Index_new b cap)"
  using gen_wf_new [of cap]
  by (simp add: t1_inv_def T1Index_new_def note_append_region_created_def Let_def sorted_wf_def
      SortedRegion_empty_def)

lemma t1_map_new [simp]: "t1_map (T1Index_new b cap) = Map.empty"
  by (rule ext) (simp add: t1_map_def T1Index_new_def note_append_region_created_def Let_def imm_map_def
      sorted_map_def find_sorted_def SortedRegion_empty_def)

lemma t1_put_get_witness:
  "\<exists>res t'. t1_put (T1Index_new True 4) [1, 2] 77 True 1 = Some (res, t') \<and> t1_inv t'
    \<and> (res = AppendRegionFull \<longrightarrow> t' = T1Index_new True 4)
    \<and> (res = Applied \<longrightarrow> (\<forall>key'. get_with_hash t' key' =
          (if prepare_key_and_hash key' = prepare_key_and_hash [1, 2]
           then \<lparr>lr_payload_bits = 77, lr_raw_hash = embed_metadata (hash_full_key [1, 2]) 1\<rparr>
           else get_with_hash (T1Index_new True 4) key')))"
  by (rule t1_put_get [OF t1_inv_new]) simp

end
