(* ===== verification/T1_Reorg.thy ===== *)
theory T1_Reorg
  imports T1_Index "HOL-Library.Product_Lexorder"
begin

text \<open>
  \<^verbatim>\<open>T1Index::reorganize\<close>: merging the append region into a new sorted region while readers
  and writers go on. The routine is split at its atomic pointer stores, so a whole \<^verbatim>\<open>put\<close> may run
  between any two of them; no put is inside another's, so there is nothing for \<^verbatim>\<open>wait_until_epoch\<close> to
  wait for. Shown here: the merge keeps the newer copy of every entry, each stage leaves what readers
  see unchanged, a reorganisation that runs alone preserves every lookup; and the one way a deletion
  can be lost, when its tombstone hides a live copy in the sorted region.
\<close>

section \<open>The merge\<close>

definition es_ident :: "EntrySnapshot \<Rightarrow> ident" where
  "es_ident e = (es_key e, clean_hash (es_hash e))"

definition es_result :: "EntrySnapshot \<Rightarrow> LookupResult" where
  "es_result e = \<lparr>lr_payload_bits = es_payload e, lr_raw_hash = es_hash e\<rparr>"

definition snapshot_of :: "SortedSlot \<Rightarrow> EntrySnapshot" where
  "snapshot_of s = (let (s_hash, s_payload) = ss_load_consistent s
     in \<lparr>es_key = ss_key s, es_payload = s_payload, es_hash = s_hash\<rparr>)"

definition T1MergePolicy_less :: "EntrySnapshot \<Rightarrow> EntrySnapshot \<Rightarrow> bool" where
  "T1MergePolicy_less lhs rhs = entry_less (es_key lhs) (es_hash lhs) (es_key rhs) (es_hash rhs)"

definition T1MergePolicy_identity_equal :: "EntrySnapshot \<Rightarrow> EntrySnapshot \<Rightarrow> bool" where
  "T1MergePolicy_identity_equal lhs rhs =
     entry_identity_equal (es_key lhs) (es_hash lhs) (es_key rhs) (es_hash rhs)"

definition skip_dead :: "SortedSlot list \<Rightarrow> SortedSlot list" where
  "skip_dead = dropWhile (\<lambda>s. \<not> is_live (ss_payload s))"

lemma length_skip_dead: "length (skip_dead ss) \<le> length ss"
  by (simp add: skip_dead_def length_dropWhile_le)

function merge_loop :: "SortedSlot list \<Rightarrow> EntrySnapshot list \<Rightarrow> EntrySnapshot list" where
  "merge_loop [] ms = ms"
| "merge_loop (s # ss) [] = snapshot_of s # merge_loop (skip_dead ss) []"
| "merge_loop (s # ss) (m # ms) =
     (let (s_hash, s_payload) = ss_load_consistent s
      in if entry_identity_equal (ss_key s) s_hash (es_key m) (es_hash m)
         then m # merge_loop (skip_dead ss) ms
         else if entry_less (ss_key s) s_hash (es_key m) (es_hash m)
         then \<lparr>es_key = ss_key s, es_payload = s_payload, es_hash = s_hash\<rparr> # merge_loop (skip_dead ss) (m # ms)
         else m # merge_loop (s # ss) ms)"
  by pat_completeness auto
termination
  by (relation "measure (\<lambda>(ss, ms). length ss + length ms)") (auto simp: less_Suc_eq_le length_skip_dead intro: le_trans [OF length_skip_dead] add_mono)

text \<open>
  \<^verbatim>\<open>std::sort\<close> with \<^verbatim>\<open>T1MergePolicy::less\<close>: the live entries of a region have pairwise
  distinct identities, so the sorted order is unique.
\<close>

definition reorg_merge :: "SortedRegion \<Rightarrow> AppendRegion \<Rightarrow> EntrySnapshot list" where
  "reorg_merge srt old_active =
     (let imm_n = ar_size old_active;
          imm_entries = sort_key es_ident (ar_collect_live_entries old_active imm_n)
      in merge_loop (skip_dead (sr_slots srt)) imm_entries)"

fun has_adjacent_duplicate :: "EntrySnapshot list \<Rightarrow> bool" where
  "has_adjacent_duplicate (a # b # es) =
     (T1MergePolicy_identity_equal a b \<or> has_adjacent_duplicate (b # es))"
| "has_adjacent_duplicate _ = False"

definition assert_no_duplicates :: "EntrySnapshot list \<Rightarrow> bool" where
  "assert_no_duplicates entries \<longleftrightarrow> \<not> has_adjacent_duplicate entries"

section \<open>The stages\<close>

text \<open>
  The program counter of the reorganising thread, with its live local variables: the fresh
  generation, the retired generation, the sorted region that was read, the merge output.
\<close>

datatype reorg_pc =
    Idle
  | Prepared nat
  | FrozenAppend nat nat
  | Swapped nat
  | FrozenSorted nat nat
  | Merged nat nat "EntrySnapshot list"
  | Published nat nat
  | UnfrozenSorted nat nat
  | UnfrozenAppend nat nat

definition reorg_prepare :: "T1Index \<Rightarrow> (nat \<times> T1Index) option" where
  "reorg_prepare t =
     (if t1_reorg_in_progress t then None
      else Some (t1_next_gen t, note_append_region_created
        (t\<lparr>t1_reorg_in_progress := True,
           t1_gens := (t1_gens t)(t1_next_gen t := ag_new (t1_append_cap t)),
           t1_next_gen := t1_next_gen t + 1\<rparr>)))"

definition reorg_publish :: "T1Index \<Rightarrow> EntrySnapshot list \<Rightarrow> T1Index" where
  "reorg_publish t merged =
     t\<lparr>t1_sorteds := (t1_sorteds t)(t1_next_sorted t := SortedRegion_of (t1_use_bloom t) merged),
       t1_sorted := t1_next_sorted t, t1_next_sorted := t1_next_sorted t + 1\<rparr>"

fun reorg_step ::
  "(EntrySnapshot list \<Rightarrow> EntrySnapshot list) \<Rightarrow> T1Index \<times> reorg_pc \<Rightarrow> (T1Index \<times> reorg_pc) option" where
  "reorg_step offset_mapper (t, Idle) =
     map_option (\<lambda>(next_active_gen, t'). (t', Prepared next_active_gen)) (reorg_prepare t)"
| "reorg_step offset_mapper (t, Prepared next_active_gen) =
     Some (t\<lparr>t1_immutable := Some (t1_active t)\<rparr>, FrozenAppend next_active_gen (t1_active t))"
| "reorg_step offset_mapper (t, FrozenAppend next_active_gen old_active_gen) =
     Some (t\<lparr>t1_active := next_active_gen, t1_reorg_epoch := t1_reorg_epoch t + 1\<rparr>, Swapped old_active_gen)"
| "reorg_step offset_mapper (t, Swapped old_active_gen) =
     Some (t\<lparr>t1_frozen := Some (t1_sorted t)\<rparr>, FrozenSorted old_active_gen (t1_sorted t))"
| "reorg_step offset_mapper (t, FrozenSorted old_active_gen srt) =
     Some (t, Merged old_active_gen srt
       (offset_mapper (reorg_merge (t1_sorteds t srt) (ag_region (t1_gens t old_active_gen)))))"
| "reorg_step offset_mapper (t, Merged old_active_gen srt merged) =
     Some (reorg_publish t merged, Published old_active_gen srt)"
| "reorg_step offset_mapper (t, Published old_active_gen srt) =
     Some (t\<lparr>t1_frozen := None\<rparr>, UnfrozenSorted old_active_gen srt)"
| "reorg_step offset_mapper (t, UnfrozenSorted old_active_gen srt) =
     Some (t\<lparr>t1_immutable := None, t1_reorg_epoch := t1_reorg_epoch t + 1\<rparr>, UnfrozenAppend old_active_gen srt)"
| "reorg_step offset_mapper (t, UnfrozenAppend old_active_gen srt) =
     Some ((note_append_region_destroyed t)\<lparr>t1_reorg_in_progress := False\<rparr>, Idle)"

fun reorg_run :: "(EntrySnapshot list \<Rightarrow> EntrySnapshot list) \<Rightarrow> nat \<Rightarrow> T1Index \<times> reorg_pc \<Rightarrow> T1Index \<times> reorg_pc" where
  "reorg_run m 0 c = c"
| "reorg_run m (Suc n) c = (case reorg_step m c of None \<Rightarrow> c | Some c' \<Rightarrow> reorg_run m n c')"

text \<open>
  The call with nobody else running: nine stages, or an immediate return when another
  reorganisation holds the flag. The second component is what \<^verbatim>\<open>chk_writer\<close> is given.
\<close>

definition reorganize ::
  "(EntrySnapshot list \<Rightarrow> EntrySnapshot list) \<Rightarrow> T1Index \<Rightarrow> T1Index \<times> EntrySnapshot list option" where
  "reorganize offset_mapper t =
     (if t1_reorg_in_progress t then (t, None)
      else (fst (reorg_run offset_mapper 9 (t, Idle)),
            Some (offset_mapper (reorg_merge (sorted_cur t) (ag_region (active_gen t))))))"

section \<open>Merging keyed lists\<close>

fun merge_newer :: "('a \<Rightarrow> 'k::linorder) \<Rightarrow> 'a list \<Rightarrow> 'a list \<Rightarrow> 'a list" where
  "merge_newer key xs [] = xs"
| "merge_newer key [] ys = ys"
| "merge_newer key (x # xs) (y # ys) =
     (if key x = key y then y # merge_newer key xs ys
      else if key x < key y then x # merge_newer key xs (y # ys)
      else y # merge_newer key (x # xs) ys)"

definition keyed_map :: "('a \<Rightarrow> 'k) \<Rightarrow> ('a \<Rightarrow> 'v) \<Rightarrow> 'a list \<Rightarrow> 'k \<rightharpoonup> 'v" where
  "keyed_map key val xs = map_of (map (\<lambda>e. (key e, val e)) xs)"

lemma keyed_map_simps [simp]:
  "keyed_map key val [] = Map.empty"
  "keyed_map key val (x # xs) = (keyed_map key val xs)(key x \<mapsto> val x)"
  by (simp_all add: keyed_map_def)

lemma keyed_map_None: "keyed_map key val xs k = None \<longleftrightarrow> k \<notin> key ` set xs"
  by (induction xs) auto

lemma keyed_map_Some:
  "distinct (map key xs) \<Longrightarrow> keyed_map key val xs k = Some v \<longleftrightarrow> (\<exists>e \<in> set xs. key e = k \<and> val e = v)"
  by (auto simp: keyed_map_def map_of_eq_Some_iff comp_def)

lemma keyed_map_perm:
  assumes "distinct (map key xs)" "set ys = set xs" "distinct (map key ys)"
  shows "keyed_map key val ys = keyed_map key val xs"
proof
  fix k
  show "keyed_map key val ys k = keyed_map key val xs k"
    using assms keyed_map_Some [of key xs val k] keyed_map_Some [of key ys val k]
    by (metis option.exhaust)
qed

lemma merge_newer_keys: "key ` set (merge_newer key xs ys) = key ` set xs \<union> key ` set ys"
  by (induction key xs ys rule: merge_newer.induct) auto

lemma merge_newer_sorted:
  "sorted_wrt (<) (map key xs) \<Longrightarrow> sorted_wrt (<) (map key ys) \<Longrightarrow> sorted_wrt (<) (map key (merge_newer key xs ys))"
proof (induction key xs ys rule: merge_newer.induct)
  case (3 key x xs y ys)
  have hd: "\<forall>z \<in> set xs. key x < key z" "\<forall>z \<in> set ys. key y < key z" using "3.prems" by auto
  have keys: "(\<forall>z \<in> set (merge_newer key as bs). k < key z) \<longleftrightarrow>
      (\<forall>z \<in> set as. k < key z) \<and> (\<forall>z \<in> set bs. k < key z)" for k as bs
  proof -
    have "(\<forall>w \<in> key ` set (merge_newer key as bs). k < w) \<longleftrightarrow>
        (\<forall>w \<in> key ` set as. k < w) \<and> (\<forall>w \<in> key ` set bs. k < w)"
      unfolding merge_newer_keys by (rule ball_Un)
    then show ?thesis by simp
  qed
  consider (eq) "key x = key y" | (lt) "key x < key y" | (gt) "key y < key x" by fastforce
  then show ?case
  proof cases
    case eq
    then show ?thesis using "3.IH"(1) "3.prems" hd by (simp add: keys)
  next
    case lt
    then have "\<forall>z \<in> set ys. key x < key z" using hd(2) by (metis order.strict_trans)
    then show ?thesis using "3.IH"(2) "3.prems" hd lt less_imp_neq [OF lt] by (simp add: keys)
  next
    case gt
    then have "\<forall>z \<in> set xs. key y < key z" using hd(1) by (metis order.strict_trans)
    then show ?thesis using "3.IH"(3) "3.prems" hd gt less_imp_neq [OF gt] not_less_iff_gr_or_eq [of "key x" "key y"]
      by (simp add: keys)
  qed
qed auto

lemma merge_newer_map:
  "sorted_wrt (<) (map key xs) \<Longrightarrow> sorted_wrt (<) (map key ys) \<Longrightarrow>
   keyed_map key val (merge_newer key xs ys) = keyed_map key val xs ++ keyed_map key val ys"
proof (induction key xs ys rule: merge_newer.induct)
  case (3 key x xs y ys)
  show ?case
  proof (cases "key x = key y")
    case True
    with 3 show ?thesis by (auto simp: fun_eq_iff map_add_def)
  next
    case False
    show ?thesis
    proof (cases "key x < key y")
      case True
      have "keyed_map key val (y # ys) (key x) = None"
        using True "3.prems" by (auto simp: keyed_map_None image_iff)
      with True False 3 show ?thesis by (auto simp: fun_eq_iff map_add_def split: option.splits)
    next
      case l: False
      with False have "key y < key x" by simp
      with 3 False l show ?thesis by (auto simp: fun_eq_iff map_add_def)
    qed
  qed
qed auto

section \<open>The merge loop merges\<close>

lemma entry_less_ident: "entry_less k h k' h' \<longleftrightarrow> (k, clean_hash h) < (k', clean_hash h')"
  by (auto simp: entry_less_iff less_prod_def)

lemma T1MergePolicy_less_ident: "T1MergePolicy_less a b \<longleftrightarrow> es_ident a < es_ident b"
  by (simp add: T1MergePolicy_less_def entry_less_ident es_ident_def)

lemma snapshot_ident [simp]: "es_ident (snapshot_of s) = ss_ident s"
  by (simp add: es_ident_def snapshot_of_def ss_load_consistent_def ss_ident_def)

lemma snapshot_result [simp]: "es_result (snapshot_of s) = ss_result s"
  by (simp add: es_result_def snapshot_of_def ss_load_consistent_def ss_result_def)

lemma filter_skip_dead: "filter (\<lambda>s. is_live (ss_payload s)) (skip_dead ss) = filter (\<lambda>s. is_live (ss_payload s)) ss"
  by (induction ss) (auto simp: skip_dead_def)

lemma skip_dead_head: "skip_dead ss = s # ss' \<Longrightarrow> is_live (ss_payload s)"
  by (metis dropWhile_eq_Cons_conv skip_dead_def)

lemma merge_loop_merge_newer:
  "(\<And>s ss'. ss = s # ss' \<Longrightarrow> is_live (ss_payload s)) \<Longrightarrow>
   merge_loop ss ms = merge_newer es_ident (map snapshot_of (filter (\<lambda>s. is_live (ss_payload s)) ss)) ms"
proof (induction ss ms rule: merge_loop.induct)
  case (1 ms)
  then show ?case by (cases ms) auto
next
  case (2 s ss)
  then show ?case using skip_dead_head by (auto simp: filter_skip_dead)
next
  case (3 s ss m ms)
  have live: "is_live (ss_payload s)" using "3.prems" by blast
  have snap: "\<lparr>es_key = ss_key s, es_payload = ss_payload s, es_hash = ss_hash s\<rparr> = snapshot_of s"
    by (simp add: snapshot_of_def ss_load_consistent_def)
  have eq: "entry_identity_equal (ss_key s) (ss_hash s) (es_key m) (es_hash m) \<longleftrightarrow> ss_ident s = es_ident m"
    and lt: "entry_less (ss_key s) (ss_hash s) (es_key m) (es_hash m) \<longleftrightarrow> ss_ident s < es_ident m"
    by (simp_all add: entry_identity_iff entry_less_ident ss_ident_def es_ident_def)
  consider "ss_ident s = es_ident m" | "ss_ident s < es_ident m" | "es_ident m < ss_ident s" by fastforce
  then show ?case
    using "3.IH" skip_dead_head live
    by cases (auto simp: ss_load_consistent_def eq lt snap filter_skip_dead)
qed

lemma merge_loop_correct:
  "merge_loop (skip_dead ss) ms =
     merge_newer es_ident (map snapshot_of (filter (\<lambda>s. is_live (ss_payload s)) ss)) ms"
  using merge_loop_merge_newer [of "skip_dead ss" ms] skip_dead_head by (simp add: filter_skip_dead)

section \<open>What the merge reads\<close>

definition live_only :: "('k \<rightharpoonup> LookupResult) \<Rightarrow> 'k \<rightharpoonup> LookupResult" where
  "live_only m x = (case m x of None \<Rightarrow> None | Some r \<Rightarrow> if is_live (lr_payload_bits r) then Some r else None)"

lemma live_only_Some: "live_only m x = Some r \<longleftrightarrow> m x = Some r \<and> is_live (lr_payload_bits r)"
  by (auto simp: live_only_def split: option.splits)

lemma live_only_upd: "live_only (m(x \<mapsto> r)) = (live_only m)(x := if is_live (lr_payload_bits r) then Some r else None)"
  by (auto simp: live_only_def fun_eq_iff)

lemma Bex_set_nth: "(\<exists>x \<in> set xs. P x) \<longleftrightarrow> (\<exists>i < length xs. P (xs ! i))"
  by (metis in_set_conv_nth)

lemma option_eqI: "(\<And>v. a = Some v \<longleftrightarrow> b = Some v) \<Longrightarrow> a = b"
  by (metis option.exhaust)

definition append_snapshot :: "AppendSlot \<Rightarrow> EntrySnapshot" where
  "append_snapshot s = \<lparr>es_key = as_key s, es_payload = as_payload s, es_hash = as_hash s\<rparr>"

lemma append_snapshot_simps [simp]:
  "es_ident (append_snapshot s) = as_ident s" "es_result (append_snapshot s) = as_result s"
  by (simp_all add: append_snapshot_def es_ident_def as_ident_def es_result_def as_result_def)

lemma collect_filter:
  "ar_collect_live_entries r n =
     map append_snapshot (filter (\<lambda>s. as_published s \<and> is_live (as_payload s)) (take n (ar_slots r)))"
proof -
  have "concat (map (\<lambda>s. if \<not> as_published s then []
        else let (hash, value) = as_load_consistent s
             in if \<not> is_live value then []
                else [\<lparr>es_key = as_key s, es_payload = value, es_hash = hash\<rparr>]) ss)
      = map append_snapshot (filter (\<lambda>s. as_published s \<and> is_live (as_payload s)) ss)" for ss
    by (induction ss) (auto simp: as_load_consistent_def append_snapshot_def)
  then show ?thesis by (simp add: ar_collect_live_entries_def)
qed

lemma distinct_filter_if:
  "sorted_wrt (\<lambda>a b. P a \<longrightarrow> P b \<longrightarrow> f a \<noteq> f b) xs \<Longrightarrow> distinct (map f (filter P xs))"
  by (induction xs) auto

lemma gen_live_stored:
  assumes "gen_wf cap g" "i < ar_tail (ag_region g)" "is_live (as_payload (ar_slots (ag_region g) ! i))"
  shows "i \<in> ht_stored (ag_index g)"
  using gen_wf_slots(3) [OF assms(1,2)] assms(3) by (auto simp: is_live_def)

lemma gen_stored_uniq:
  assumes "gen_wf cap g" "i \<in> ht_stored (ag_index g)" "j \<in> ht_stored (ag_index g)"
    "as_ident (ar_slots (ag_region g) ! i) = as_ident (ar_slots (ag_region g) ! j)"
  shows "i = j"
proof (rule append_index.stored_uniq [OF gen_wfD(1) [OF assms(1)] assms(2,3)])
  have "i < ar_tail (ag_region g)" "j < ar_tail (ag_region g)" using gen_wfD(2) [OF assms(1)] assms(2,3) by auto
  then have "as_published (ar_slots (ag_region g) ! i)" "as_published (ar_slots (ag_region g) ! j)"
    using gen_wf_slots(1) [OF assms(1)] gen_wfD(3) [OF assms(1)] by auto
  with assms(4) show "ht_ident (ar_view (ag_region g)) i = ht_ident (ar_view (ag_region g)) j"
    by (simp add: ht_ident_view)
qed

lemma collect_distinct:
  assumes wf: "gen_wf cap g" and n: "n = ar_tail (ag_region g)"
  shows "distinct (map es_ident (ar_collect_live_entries (ag_region g) n))"
proof -
  let ?ss = "take n (ar_slots (ag_region g))" and ?P = "\<lambda>s. as_published s \<and> is_live (as_payload s)"
  have "sorted_wrt (\<lambda>a b. ?P a \<longrightarrow> ?P b \<longrightarrow> as_ident a \<noteq> as_ident b) ?ss"
    unfolding sorted_wrt_iff_nth_less
  proof (intro allI impI)
    fix i j
    assume ij: "i < j" "j < length ?ss" "?P (?ss ! i)" "?P (?ss ! j)"
    then have "i \<in> ht_stored (ag_index g)" "j \<in> ht_stored (ag_index g)"
      using gen_live_stored [OF wf] n by auto
    with gen_stored_uniq [OF wf this] ij show "as_ident (?ss ! i) \<noteq> as_ident (?ss ! j)" by auto
  qed
  from distinct_filter_if [OF this] show ?thesis by (simp add: collect_filter comp_def)
qed

lemma collect_map:
  assumes wf: "gen_wf cap g" and n: "n = ar_tail (ag_region g)"
  shows "keyed_map es_ident es_result (ar_collect_live_entries (ag_region g) n) = live_only (gen_map g)"
proof (rule ext, rule option_eqI)
  fix x v
  let ?ss = "ar_slots (ag_region g)"
  have len: "n \<le> length ?ss" using gen_wfD(3,4) [OF wf] n by simp
  have "keyed_map es_ident es_result (ar_collect_live_entries (ag_region g) n) x = Some v
      \<longleftrightarrow> (\<exists>s \<in> set (take n ?ss). as_published s \<and> is_live (as_payload s) \<and> as_ident s = x \<and> as_result s = v)"
    unfolding keyed_map_Some [OF collect_distinct [OF wf n]] by (auto simp: collect_filter)
  also have "\<dots> \<longleftrightarrow> (\<exists>i < n. as_published (?ss ! i) \<and> is_live (as_payload (?ss ! i)) \<and> as_ident (?ss ! i) = x
      \<and> as_result (?ss ! i) = v)"
    using len by (simp add: Bex_set_nth min_absorb2 cong: conj_cong)
  also have "\<dots> \<longleftrightarrow> (\<exists>i. i \<in> ht_stored (ag_index g) \<and> is_live (as_payload (?ss ! i)) \<and> as_ident (?ss ! i) = x
      \<and> as_result (?ss ! i) = v)"
    using gen_live_stored [OF wf] gen_wfD(2,3) [OF wf] gen_wf_slots(1) [OF wf] n
    by (metis lessThan_iff order_less_le_trans subset_iff)
  also have "\<dots> \<longleftrightarrow> live_only (gen_map g) x = Some v"
    by (auto simp: live_only_Some gen_map_def ht_lookup_gen_iff [OF wf] as_result_def)
  finally show "keyed_map es_ident es_result (ar_collect_live_entries (ag_region g) n) x = Some v
      \<longleftrightarrow> live_only (gen_map g) x = Some v" .
qed

lemma sorted_wf_strict: "sorted_wf sr \<Longrightarrow> sorted_wrt (<) (map ss_ident (sr_slots sr))"
  by (simp add: sorted_wf_def sorted_wrt_map entry_less_ident ss_ident_def)

lemma strict_distinct: "sorted_wrt (<) (map f xs) \<Longrightarrow> distinct (map f xs)"
  for f :: "'a \<Rightarrow> 'b::linorder"
  by (simp add: strict_sorted_iff)

lemma sorted_map_keyed:
  assumes "sorted_wf sr"
  shows "sorted_map sr = keyed_map ss_ident ss_result (sr_slots sr)"
proof (rule ext, rule option_eqI)
  fix x v
  show "sorted_map sr x = Some v \<longleftrightarrow> keyed_map ss_ident ss_result (sr_slots sr) x = Some v"
    unfolding keyed_map_Some [OF strict_distinct [OF sorted_wf_strict [OF assms]]] Bex_set_nth
    by (auto simp: sorted_map_def find_sorted_iff [OF assms])
qed

lemma keyed_map_live:
  assumes "distinct (map ss_ident ss)"
  shows "keyed_map es_ident es_result (map snapshot_of (filter (\<lambda>s. is_live (ss_payload s)) ss))
    = live_only (keyed_map ss_ident ss_result ss)"
proof (rule ext, rule option_eqI)
  fix x v
  have d: "distinct (map es_ident (map snapshot_of (filter (\<lambda>s. is_live (ss_payload s)) ss)))"
    using assms by (simp add: comp_def distinct_map_filter)
  show "keyed_map es_ident es_result (map snapshot_of (filter (\<lambda>s. is_live (ss_payload s)) ss)) x = Some v
      \<longleftrightarrow> live_only (keyed_map ss_ident ss_result ss) x = Some v"
    unfolding keyed_map_Some [OF d] live_only_Some keyed_map_Some [OF assms]
    by (auto simp: ss_result_def)
qed

lemma reorg_merge_correct:
  assumes "sorted_wf sr" "gen_wf cap g"
  shows "sorted_wrt (<) (map es_ident (reorg_merge sr (ag_region g)))"
    and "keyed_map es_ident es_result (reorg_merge sr (ag_region g))
      = live_only (sorted_map sr) ++ live_only (gen_map g)"
proof -
  let ?imm = "ar_collect_live_entries (ag_region g) (ar_tail (ag_region g))"
  let ?old = "map snapshot_of (filter (\<lambda>s. is_live (ss_payload s)) (sr_slots sr))"
  have eq: "reorg_merge sr (ag_region g) = merge_newer es_ident ?old (sort_key es_ident ?imm)"
    by (simp add: reorg_merge_def ar_size_def merge_loop_correct)
  note d = collect_distinct [OF assms(2) refl]
  have d': "distinct (map es_ident (sort_key es_ident ?imm))"
    using d by (metis distinct_map distinct_sort set_sort)
  have s1: "sorted_wrt (<) (map es_ident ?old)"
    using sorted_wf_strict [OF assms(1)] by (simp add: comp_def sorted_wrt_map sorted_wrt_filter)
  have s2: "sorted_wrt (<) (map es_ident (sort_key es_ident ?imm))"
    using d' by (simp add: strict_sorted_iff)
  show "sorted_wrt (<) (map es_ident (reorg_merge sr (ag_region g)))"
    unfolding eq by (rule merge_newer_sorted [OF s1 s2])
  have "keyed_map es_ident es_result (sort_key es_ident ?imm) = live_only (gen_map g)"
    using keyed_map_perm [OF d _ d', of es_result] collect_map [OF assms(2) refl] by simp
  moreover have "keyed_map es_ident es_result ?old = live_only (sorted_map sr)"
    unfolding sorted_map_keyed [OF assms(1)]
    by (rule keyed_map_live [OF strict_distinct [OF sorted_wf_strict [OF assms(1)]]])
  ultimately show "keyed_map es_ident es_result (reorg_merge sr (ag_region g))
      = live_only (sorted_map sr) ++ live_only (gen_map g)"
    unfolding eq merge_newer_map [OF s1 s2] by simp
qed

lemma SortedRegion_of_correct:
  assumes "sorted_wrt (<) (map es_ident es)"
  shows "sorted_wf (SortedRegion_of b es)" and "sorted_map (SortedRegion_of b es) = keyed_map es_ident es_result es"
proof -
  let ?slot = "\<lambda>e. \<lparr>ss_key = es_key e, ss_hash = es_hash e, ss_payload = es_payload e, ss_version = 0\<rparr>"
  have "\<not> bloom_excludes (SortedRegion_of b es) (clean_hash (es_hash e))" if "e \<in> set es" for e
    using that by (auto simp: bloom_excludes_def SortedRegion_of_def intro!: bf_complete bf_reset_wf)
  with assms show wf: "sorted_wf (SortedRegion_of b es)"
    unfolding sorted_wf_def by (auto simp: SortedRegion_of_def sorted_wrt_map entry_less_ident es_ident_def)
  have "keyed_map ss_ident ss_result (map ?slot es) = keyed_map es_ident es_result es"
    by (simp add: keyed_map_def comp_def ss_ident_def ss_result_def es_ident_def es_result_def)
  then show "sorted_map (SortedRegion_of b es) = keyed_map es_ident es_result es"
    unfolding sorted_map_keyed [OF wf] by (simp add: SortedRegion_of_def)
qed

lemma strict_no_duplicates:
  "sorted_wrt (<) (map es_ident es) \<Longrightarrow> assert_no_duplicates es"
proof -
  have "\<not> has_adjacent_duplicate es" if "sorted_wrt (<) (map es_ident es)"
    using that by (induction es rule: has_adjacent_duplicate.induct)
      (auto simp: T1MergePolicy_identity_equal_def entry_identity_iff es_ident_def)
  then show "sorted_wrt (<) (map es_ident es) \<Longrightarrow> assert_no_duplicates es"
    by (simp add: assert_no_duplicates_def)
qed

section \<open>Every stage keeps what readers see\<close>

definition tombstoned :: "(ident \<rightharpoonup> LookupResult) \<Rightarrow> ident \<Rightarrow> bool" where
  "tombstoned m x \<longleftrightarrow> (\<exists>r. m x = Some r \<and> \<not> is_live (lr_payload_bits r))"

text \<open>No tombstone of a newer region hides a live entry of an older one.\<close>

definition mask_free :: "T1Index \<Rightarrow> bool" where
  "mask_free t \<longleftrightarrow>
     (\<forall>x. tombstoned (gen_map (active_gen t)) x \<longrightarrow>
        live_only (sorted_map (sorted_cur t)) x = None \<and> live_only (imm_map t) x = None) \<and>
     (\<forall>x. tombstoned (imm_map t) x \<longrightarrow> live_only (sorted_map (sorted_cur t)) x = None)"

fun pc_inv :: "T1Index \<Rightarrow> reorg_pc \<Rightarrow> bool" where
  "pc_inv t Idle \<longleftrightarrow> t1_immutable t = None \<and> t1_frozen t = None \<and> \<not> t1_reorg_in_progress t"
| "pc_inv t (Prepared n) \<longleftrightarrow> t1_immutable t = None \<and> t1_frozen t = None
     \<and> n < t1_next_gen t \<and> n \<noteq> t1_active t \<and> t1_gens t n = ag_new (t1_append_cap t)"
| "pc_inv t (FrozenAppend n old) \<longleftrightarrow> t1_immutable t = Some old \<and> old = t1_active t \<and> t1_frozen t = None
     \<and> n < t1_next_gen t \<and> n \<noteq> t1_active t \<and> t1_gens t n = ag_new (t1_append_cap t)"
| "pc_inv t (Swapped old) \<longleftrightarrow> t1_immutable t = Some old \<and> old \<noteq> t1_active t \<and> t1_frozen t = None"
| "pc_inv t (FrozenSorted old s) \<longleftrightarrow> t1_immutable t = Some old \<and> old \<noteq> t1_active t
     \<and> s = t1_sorted t \<and> t1_frozen t = Some s"
| "pc_inv t (Merged old s m) \<longleftrightarrow> t1_immutable t = Some old \<and> old \<noteq> t1_active t
     \<and> s = t1_sorted t \<and> t1_frozen t = Some s \<and> sorted_wrt (<) (map es_ident m)
     \<and> keyed_map es_ident es_result m = live_only (sorted_map (sorted_cur t)) ++ live_only (imm_map t)"
| "pc_inv t (Published old s) \<longleftrightarrow> t1_immutable t = Some old \<and> old \<noteq> t1_active t \<and> t1_frozen t \<noteq> None
     \<and> (\<forall>x. x \<in> dom (imm_map t) \<longrightarrow> live_only (sorted_map (sorted_cur t)) x = live_only (imm_map t) x)"
| "pc_inv t (UnfrozenSorted old s) \<longleftrightarrow> t1_immutable t = Some old \<and> old \<noteq> t1_active t \<and> t1_frozen t = None
     \<and> (\<forall>x. x \<in> dom (imm_map t) \<longrightarrow> live_only (sorted_map (sorted_cur t)) x = live_only (imm_map t) x)"
| "pc_inv t (UnfrozenAppend old s) \<longleftrightarrow> t1_immutable t = None \<and> t1_frozen t = None"

definition cfg_inv :: "T1Index \<times> reorg_pc \<Rightarrow> bool" where
  "cfg_inv c \<longleftrightarrow> t1_inv (fst c) \<and> mask_free (fst c) \<and> pc_inv (fst c) (snd c)"

definition live_view :: "T1Index \<Rightarrow> ident \<rightharpoonup> LookupResult" where
  "live_view t = live_only (t1_map t)"

lemma live_only_add:
  "live_only (m ++ n) x = (if x \<in> dom n then live_only n x else live_only m x)"
  by (auto simp: live_only_def map_add_def dom_def split: option.splits)

lemma live_only_idem [simp]: "live_only (live_only m) = live_only m"
  by (auto simp: live_only_def fun_eq_iff split: option.splits)

lemma live_only_tombstoned: "tombstoned m x \<Longrightarrow> live_only m x = None"
  by (auto simp: tombstoned_def live_only_def)

lemma live_only_dom: "live_only m x \<noteq> None \<Longrightarrow> x \<in> dom m"
  by (auto simp: live_only_def split: option.splits)

lemma tombstoned_or_live: "x \<in> dom m \<Longrightarrow> tombstoned m x \<or> (\<exists>r. live_only m x = Some r)"
  by (auto simp: tombstoned_def live_only_def)

lemmas t1_state_simps = imm_map_def note_append_region_created_def note_append_region_destroyed_def Let_def

lemma prepare_step:
  assumes "cfg_inv (t, Idle)" "reorg_prepare t = Some (n, t')"
  shows "cfg_inv (t', Prepared n) \<and> live_view t' = live_view t"
proof -
  from assms(1) have inv: "t1_inv t" "mask_free t" "t1_immutable t = None" "t1_frozen t = None"
      "t1_active t < t1_next_gen t"
    by (auto simp: cfg_inv_def t1_inv_def)
  from assms have t': "n = t1_next_gen t" "t' = note_append_region_created
        (t\<lparr>t1_reorg_in_progress := True,
           t1_gens := (t1_gens t)(t1_next_gen t := ag_new (t1_append_cap t)),
           t1_next_gen := t1_next_gen t + 1\<rparr>)"
    by (auto simp: reorg_prepare_def cfg_inv_def)
  have same: "active_gen t' = active_gen t" "sorted_cur t' = sorted_cur t" "imm_map t' = imm_map t"
    using inv by (auto simp: t' t1_state_simps)
  have "t1_inv t'" using inv by (auto simp: t' t1_inv_def t1_state_simps gen_wf_new)
  moreover have "pc_inv t' (Prepared n)" using inv by (simp add: t' t1_state_simps)
  ultimately show ?thesis
    using inv same by (simp add: cfg_inv_def mask_free_def live_view_def t1_map_def)
qed

lemma freeze_append_step:
  assumes "cfg_inv (t, Prepared n)" "t' = t\<lparr>t1_immutable := Some (t1_active t)\<rparr>"
  shows "cfg_inv (t', FrozenAppend n (t1_active t)) \<and> live_view t' = live_view t"
proof -
  from assms(1) have inv: "t1_inv t" "mask_free t" "pc_inv t (Prepared n)" by (auto simp: cfg_inv_def)
  have imm: "imm_map t' = gen_map (active_gen t)" "imm_map t = Map.empty"
    using inv(3) by (auto simp: assms(2) imm_map_def)
  have same: "active_gen t' = active_gen t" "sorted_cur t' = sorted_cur t" by (simp_all add: assms(2))
  have "t1_inv t'" using inv(1) by (auto simp: assms(2) t1_inv_def)
  moreover have "mask_free t'"
    using inv(2) live_only_tombstoned by (auto simp: mask_free_def imm same)
  moreover have "live_view t' = live_view t"
    by (rule ext) (simp add: live_view_def t1_map_def imm same live_only_add)
  ultimately show ?thesis using inv(3) by (simp add: cfg_inv_def assms(2))
qed

lemma swap_active_step:
  assumes "cfg_inv (t, FrozenAppend n old)"
    "t' = t\<lparr>t1_active := n, t1_reorg_epoch := t1_reorg_epoch t + 1\<rparr>"
  shows "cfg_inv (t', Swapped old) \<and> live_view t' = live_view t"
proof -
  from assms(1) have inv: "t1_inv t" "mask_free t" "pc_inv t (FrozenAppend n old)" by (auto simp: cfg_inv_def)
  have imm: "imm_map t' = imm_map t" "imm_map t = gen_map (active_gen t)"
    using inv(3) by (auto simp: assms(2) imm_map_def)
  have same: "gen_map (active_gen t') = Map.empty" "sorted_cur t' = sorted_cur t"
    using inv(3) by (auto simp: assms(2))
  have "t1_inv t'" using inv(1,3) by (auto simp: assms(2) t1_inv_def gen_wf_new)
  moreover have "mask_free t'" using inv(2) by (auto simp: mask_free_def imm same tombstoned_def)
  moreover have "live_view t' = live_view t"
    by (rule ext) (simp add: live_view_def t1_map_def imm same live_only_add)
  ultimately show ?thesis using inv(3) by (auto simp: cfg_inv_def assms(2))
qed

lemma freeze_sorted_step:
  assumes "cfg_inv (t, Swapped old)" "t' = t\<lparr>t1_frozen := Some (t1_sorted t)\<rparr>"
  shows "cfg_inv (t', FrozenSorted old (t1_sorted t)) \<and> live_view t' = live_view t"
  using assms
  by (auto simp: cfg_inv_def t1_inv_def mask_free_def live_view_def t1_map_def imm_map_def)

lemma merge_step:
  assumes "cfg_inv (t, FrozenSorted old s)"
  shows "cfg_inv (t, Merged old s (reorg_merge (t1_sorteds t s) (ag_region (t1_gens t old))))"
proof -
  from assms have inv: "t1_inv t" "pc_inv t (FrozenSorted old s)" by (auto simp: cfg_inv_def)
  then have "sorted_wf (t1_sorteds t s)" "gen_wf (t1_append_cap t) (t1_gens t old)"
      "imm_map t = gen_map (t1_gens t old)"
    by (auto simp: t1_inv_def imm_map_def)
  with reorg_merge_correct [OF this(1,2)] assms show ?thesis by (simp add: cfg_inv_def)
qed

lemma publish_step:
  assumes "cfg_inv (t, Merged old s m)" "t' = reorg_publish t m"
  shows "cfg_inv (t', Published old s) \<and> live_view t' = live_view t"
proof -
  from assms(1) have inv: "t1_inv t" "mask_free t" "pc_inv t (Merged old s m)" by (auto simp: cfg_inv_def)
  let ?S = "sorted_map (sorted_cur t)" and ?I = "imm_map t"
  note new = SortedRegion_of_correct [of m "t1_use_bloom t"]
  have S': "sorted_map (sorted_cur t') = live_only ?S ++ live_only ?I"
    using new(2) inv(3) by (simp add: assms(2) reorg_publish_def)
  have same: "active_gen t' = active_gen t" "imm_map t' = ?I"
    by (auto simp: assms(2) reorg_publish_def imm_map_def split: option.splits)
  have mask: "tombstoned ?I x \<Longrightarrow> live_only ?S x = None" for x
    using inv(2) unfolding mask_free_def by blast
  have liveS': "live_only (sorted_map (sorted_cur t')) x =
      (if x \<in> dom ?I then live_only ?I x else live_only ?S x)" for x
  proof (cases "live_only ?I x = None")
    case True
    then have "x \<in> dom ?I \<Longrightarrow> live_only ?S x = None" using mask [of x] tombstoned_or_live [of x ?I] by auto
    then show ?thesis unfolding S' live_only_add using True by (auto simp: domIff)
  next
    case False
    then show ?thesis unfolding S' live_only_add using live_only_dom [of ?I x] by (auto simp: domIff)
  qed
  have "t1_inv t'"
    using inv(1,3) new(1) by (auto simp: assms(2) reorg_publish_def t1_inv_def split: option.splits)
  moreover have "mask_free t'"
    using inv(2) live_only_tombstoned [of ?I] by (auto simp: mask_free_def same liveS')
  moreover have "live_view t' = live_view t"
    by (rule ext) (simp add: live_view_def t1_map_def same live_only_add liveS')
  moreover have "pc_inv t' (Published old s)"
    using inv(3) by (auto simp: same liveS') (auto simp: assms(2) reorg_publish_def)
  ultimately show ?thesis by (simp add: cfg_inv_def)
qed

lemma unfreeze_sorted_step:
  assumes "cfg_inv (t, Published old s)" "t' = t\<lparr>t1_frozen := None\<rparr>"
  shows "cfg_inv (t', UnfrozenSorted old s) \<and> live_view t' = live_view t"
  using assms by (auto simp: cfg_inv_def t1_inv_def mask_free_def live_view_def t1_map_def imm_map_def)

lemma unfreeze_append_step:
  assumes "cfg_inv (t, UnfrozenSorted old s)"
    "t' = t\<lparr>t1_immutable := None, t1_reorg_epoch := t1_reorg_epoch t + 1\<rparr>"
  shows "cfg_inv (t', UnfrozenAppend old s) \<and> live_view t' = live_view t"
proof -
  from assms(1) have inv: "t1_inv t" "mask_free t" "pc_inv t (UnfrozenSorted old s)" by (auto simp: cfg_inv_def)
  have same: "active_gen t' = active_gen t" "sorted_cur t' = sorted_cur t" "imm_map t' = Map.empty"
    by (simp_all add: assms(2) imm_map_def)
  have "live_view t' = live_view t"
    using inv(3) by (intro ext) (auto simp: live_view_def t1_map_def same live_only_add)
  moreover have "mask_free t'" using inv(2) by (auto simp: mask_free_def same tombstoned_def live_only_def)
  ultimately show ?thesis using inv by (auto simp: cfg_inv_def assms(2) t1_inv_def)
qed

lemma finish_step:
  assumes "cfg_inv (t, UnfrozenAppend old s)"
    "t' = (note_append_region_destroyed t)\<lparr>t1_reorg_in_progress := False\<rparr>"
  shows "cfg_inv (t', Idle) \<and> live_view t' = live_view t"
  using assms
  by (auto simp: cfg_inv_def t1_inv_def mask_free_def live_view_def t1_map_def t1_state_simps)

lemma reorg_step_inv:
  assumes "cfg_inv c" "reorg_step (\<lambda>m. m) c = Some c'"
  shows "cfg_inv c' \<and> live_view (fst c') = live_view (fst c)"
proof -
  obtain t pc where c: "c = (t, pc)" by force
  show ?thesis
    using assms unfolding c
    by (cases pc)
      (auto dest: prepare_step freeze_append_step [OF _ refl] swap_active_step [OF _ refl]
        freeze_sorted_step [OF _ refl] merge_step publish_step [OF _ refl]
        unfreeze_sorted_step [OF _ refl] unfreeze_append_step [OF _ refl] finish_step [OF _ refl])
qed

section \<open>Writers interleaved with the stages\<close>

text \<open>
  The guard a deletion needs, and which the code does not have: no region older than the one that
  receives the tombstone holds a live copy of the key.
\<close>

definition delete_ok :: "T1Index \<Rightarrow> ident \<Rightarrow> bool" where
  "delete_ok t x \<longleftrightarrow>
     live_only (sorted_map (sorted_cur t)) x = None
       \<and> (live_only (imm_map t) x = None \<or> t1_immutable t = Some (t1_active t))
     \<or> gen_map (active_gen t) x = None \<and> imm_map t x = None \<and> t1_frozen t = None"

type_synonym put_event = "ident \<times> LookupResult"

inductive t1_step :: "T1Index \<times> reorg_pc \<Rightarrow> put_event option \<Rightarrow> T1Index \<times> reorg_pc \<Rightarrow> bool" where
  put_applied: "put_with_stored_hash t key (clean_hash stored) stored value = Some (Applied, t') \<Longrightarrow>
    is_live value \<or> delete_ok t (key, clean_hash stored) \<Longrightarrow>
    t1_step (t, pc) (Some ((key, clean_hash stored), \<lparr>lr_payload_bits = value, lr_raw_hash = stored\<rparr>)) (t', pc)"
| put_full: "put_with_stored_hash t key (clean_hash stored) stored value = Some (AppendRegionFull, t') \<Longrightarrow>
    t1_step (t, pc) None (t', pc)"
| stage: "reorg_step (\<lambda>m. m) c = Some c' \<Longrightarrow> t1_step c None c'"

inductive t1_run :: "T1Index \<times> reorg_pc \<Rightarrow> put_event list \<Rightarrow> T1Index \<times> reorg_pc \<Rightarrow> bool" where
  run_nil: "t1_run c [] c"
| run_put: "t1_run c evs c' \<Longrightarrow> t1_step c' (Some e) c'' \<Longrightarrow> t1_run c (evs @ [e]) c''"
| run_silent: "t1_run c evs c' \<Longrightarrow> t1_step c' None c'' \<Longrightarrow> t1_run c evs c''"

inductive_cases t1_step_putE: "t1_step c (Some e) c'"
inductive_cases t1_step_silentE: "t1_step c None c'"

lemma tombstoned_upd: "tombstoned (m(x \<mapsto> r)) y \<longleftrightarrow> (if y = x then \<not> is_live (lr_payload_bits r) else tombstoned m y)"
  by (auto simp: tombstoned_def)

lemma mask_freeI:
  assumes "\<And>x. tombstoned (gen_map (active_gen t)) x \<Longrightarrow> live_only (sorted_map (sorted_cur t)) x = None"
    and "\<And>x. tombstoned (gen_map (active_gen t)) x \<Longrightarrow> live_only (imm_map t) x = None"
    and "\<And>x. tombstoned (imm_map t) x \<Longrightarrow> live_only (sorted_map (sorted_cur t)) x = None"
  shows "mask_free t"
  using assms unfolding mask_free_def by blast

lemma mask_freeD:
  assumes "mask_free t"
  shows "tombstoned (gen_map (active_gen t)) x \<Longrightarrow> live_only (sorted_map (sorted_cur t)) x = None"
    and "tombstoned (gen_map (active_gen t)) x \<Longrightarrow> live_only (imm_map t) x = None"
    and "tombstoned (imm_map t) x \<Longrightarrow> live_only (sorted_map (sorted_cur t)) x = None"
  using assms unfolding mask_free_def by blast+

lemma put_frame_active:
  assumes frame: "t' = t\<lparr>t1_gens := (t1_gens t)(t1_active t := g)\<rparr>"
    and map: "gen_map g = (gen_map (active_gen t))(x \<mapsto> r)"
    and inv: "mask_free t" "pc_inv t pc"
    and dead: "\<not> is_live (lr_payload_bits r) \<Longrightarrow> live_only (sorted_map (sorted_cur t)) x = None
      \<and> (live_only (imm_map t) x = None \<or> t1_immutable t = Some (t1_active t))"
  shows "mask_free t' \<and> pc_inv t' pc"
proof -
  have S: "sorted_cur t' = sorted_cur t" by (simp add: frame)
  have A: "gen_map (active_gen t') = (gen_map (active_gen t))(x \<mapsto> r)" by (simp add: frame map)
  have I: "imm_map t' = (if t1_immutable t = Some (t1_active t) then (imm_map t)(x \<mapsto> r) else imm_map t)"
    by (auto simp: frame imm_map_def map split: option.splits)
  have pc: "pc_inv t' pc"
    using inv(2) by (cases pc) (auto simp: S I, auto simp: frame)
  have "mask_free t'"
    unfolding mask_free_def S A I tombstoned_upd
    using mask_freeD [OF inv(1)] dead live_only_tombstoned [of "(imm_map t)(x \<mapsto> r)"]
    by (auto simp: tombstoned_upd live_only_upd split: if_splits)
  with pc show ?thesis by blast
qed

lemma put_frame_sorted:
  assumes frame: "t' = t\<lparr>t1_sorteds := (t1_sorteds t)(t1_sorted t := sr)\<rparr>" "t1_frozen t = None"
    and absent: "gen_map (active_gen t) x = None" "imm_map t x = None"
    and map: "sorted_map sr = (sorted_map (sorted_cur t))(x \<mapsto> r)"
    and inv: "mask_free t" "pc_inv t pc"
  shows "mask_free t' \<and> pc_inv t' pc"
proof -
  have A: "active_gen t' = active_gen t" "imm_map t' = imm_map t"
    by (auto simp: frame imm_map_def split: option.splits)
  have S: "sorted_map (sorted_cur t') = (sorted_map (sorted_cur t))(x \<mapsto> r)" by (simp add: frame map)
  have "mask_free t'"
    by (rule mask_freeI; unfold A S live_only_upd)
      (use mask_freeD [OF inv(1)] absent in \<open>auto simp: tombstoned_def\<close>)
  moreover have "pc_inv t' pc"
    using inv(2) frame(2) absent
    by (cases pc) (auto simp: A S live_only_upd, auto simp: frame)
  ultimately show ?thesis by blast
qed

lemma put_step_inv:
  assumes inv: "cfg_inv (t, pc)" and put: "put_with_stored_hash t key (clean_hash stored) stored value = Some (res, t')"
    and x: "x = (key, clean_hash stored)" and r: "r = \<lparr>lr_payload_bits = value, lr_raw_hash = stored\<rparr>"
    and ok: "res = Applied \<Longrightarrow> is_live value \<or> delete_ok t x"
  shows "cfg_inv (t', pc) \<and> live_view t' =
    (if res = Applied then (live_view t)(x := if is_live value then Some r else None) else live_view t)"
proof -
  have t: "t1_inv t" "mask_free t" "pc_inv t pc" using inv by (auto simp: cfg_inv_def)
  have out: "put_outcome t x r res t'"
    using put_correct [OF t(1) refl, of key stored "value"] put by (simp add: x r)
  show ?thesis
  proof (cases res)
    case AppendRegionFull
    with out inv show ?thesis by (simp add: put_outcome_def)
  next
    case Applied
    with out have out': "t1_inv t'" "t1_map t' = (t1_map t)(x \<mapsto> r)" "put_frame t x r t'"
      by (simp_all add: put_outcome_def)
    from out'(3) consider
      (act) g where "t' = t\<lparr>t1_gens := (t1_gens t)(t1_active t := g)\<rparr>" "gen_map g = (gen_map (active_gen t))(x \<mapsto> r)"
        "gen_map (active_gen t) x \<noteq> None \<or> imm_map t x \<noteq> None \<or> t1_frozen t \<noteq> None
          \<or> sorted_map (sorted_cur t) x = None"
    | (srt) sr where "t' = t\<lparr>t1_sorteds := (t1_sorteds t)(t1_sorted t := sr)\<rparr>" "t1_frozen t = None"
        "gen_map (active_gen t) x = None" "imm_map t x = None"
        "sorted_map sr = (sorted_map (sorted_cur t))(x \<mapsto> r)"
      unfolding put_frame_def by blast
    then have "mask_free t' \<and> pc_inv t' pc"
    proof cases
      case act
      show ?thesis
      proof (rule put_frame_active [OF act(1,2) t(2,3)])
        assume "\<not> is_live (lr_payload_bits r)"
        with ok Applied have "delete_ok t x" by (simp add: r)
        with act(3) show "live_only (sorted_map (sorted_cur t)) x = None
            \<and> (live_only (imm_map t) x = None \<or> t1_immutable t = Some (t1_active t))"
          by (auto simp: delete_ok_def live_only_def)
      qed
    next
      case srt
      then show ?thesis by (rule put_frame_sorted [OF _ _ _ _ _ t(2,3)])
    qed
    with Applied out' show ?thesis by (simp add: cfg_inv_def live_view_def live_only_upd r)
  qed
qed

text \<open>The specification: the writes applied to an initially empty map, in order.\<close>

fun apply_events :: "put_event list \<Rightarrow> ident \<rightharpoonup> LookupResult" where
  "apply_events [] = Map.empty"
| "apply_events ((x, r) # evs) = (Map.empty(x \<mapsto> r)) ++ apply_events evs"

lemma apply_events_snoc: "apply_events (evs @ [(x, r)]) = (apply_events evs)(x \<mapsto> r)"
  by (induction evs rule: apply_events.induct) (auto simp: map_add_def fun_eq_iff)

lemma cfg_inv_new: "cfg_inv (T1Index_new b cap, Idle)"
proof -
  let ?t = "T1Index_new b cap"
  have "imm_map ?t = Map.empty" "sorted_map (sorted_cur ?t) = Map.empty" "gen_map (active_gen ?t) = Map.empty"
    by (auto simp: T1Index_new_def t1_state_simps sorted_map_def find_sorted_def SortedRegion_empty_def)
  then have "mask_free ?t" by (simp add: mask_free_def live_only_def)
  then show ?thesis
    using t1_inv_new [of b cap] by (simp add: cfg_inv_def T1Index_new_def t1_state_simps)
qed

lemma t1_run_inv:
  assumes "t1_run c evs c'" "cfg_inv c"
  shows "cfg_inv c' \<and> (live_view (fst c) = Map.empty \<longrightarrow> live_view (fst c') = live_only (apply_events evs))"
  using assms
proof (induction rule: t1_run.induct)
  case (run_nil c)
  then show ?case by (auto simp: live_only_def fun_eq_iff)
next
  case (run_put c evs c' e c'')
  from run_put.hyps(2) obtain t pc key stored v t' where c: "c' = (t, pc)" "c'' = (t', pc)"
      "e = ((key, clean_hash stored), \<lparr>lr_payload_bits = v, lr_raw_hash = stored\<rparr>)"
      "put_with_stored_hash t key (clean_hash stored) stored v = Some (Applied, t')"
      "is_live v \<or> delete_ok t (key, clean_hash stored)"
    by (auto elim!: t1_step_putE)
  let ?x = "(key, clean_hash stored)" and ?r = "\<lparr>lr_payload_bits = v, lr_raw_hash = stored\<rparr>"
  have "cfg_inv (t, pc)" using run_put c by simp
  from put_step_inv [OF this c(4) refl refl] c(5)
  have step: "cfg_inv (t', pc)" "live_view t' = (live_view t)(?x := if is_live v then Some ?r else None)"
    by simp_all
  have "live_only (apply_events (evs @ [e])) = (live_only (apply_events evs))(?x := if is_live v then Some ?r else None)"
    unfolding c(3) apply_events_snoc live_only_upd by simp
  with step run_put c(1,2) show ?case by simp
next
  case (run_silent c evs c' c'')
  from run_silent.hyps(2) consider
    (full) t key stored v t' pc where "c' = (t, pc)" "c'' = (t', pc)"
      "put_with_stored_hash t key (clean_hash stored) stored v = Some (AppendRegionFull, t')"
  | (stg) "reorg_step (\<lambda>m. m) c' = Some c''"
    by (elim t1_step_silentE) auto
  then show ?case
  proof cases
    case full
    with run_silent put_step_inv [OF _ full(3) refl refl, of pc] show ?thesis by auto
  next
    case stg
    with run_silent reorg_step_inv [OF _ stg] show ?thesis by auto
  qed
qed

text \<open>
  No update is lost when whole writes fall between the stages of reorganisations of a fresh index,
  where a deletion is only issued when no older region holds a live copy of the key: a lookup returns the payload and hash of the last write to that key that returned \<open>Applied\<close>, and
  \<open>STORE_NOT_FOUND\<close> when there is none or it was a deletion.
\<close>

lemma stages_keep_updates:
  assumes "t1_run (T1Index_new b cap, Idle) evs (t, pc)"
  shows "case apply_events evs (key, hash) of
      None \<Rightarrow> lr_payload_bits (lookup_by_prefix_hash t key hash) = STORE_NOT_FOUND
    | Some r \<Rightarrow> if is_live (lr_payload_bits r) then lookup_by_prefix_hash t key hash = r
        else lr_payload_bits (lookup_by_prefix_hash t key hash) = STORE_NOT_FOUND"
proof -
  have "live_view (T1Index_new b cap) = Map.empty" by (simp add: live_view_def live_only_def fun_eq_iff)
  then have inv: "t1_inv t" and view: "live_only (t1_map t) = live_only (apply_events evs)"
    using t1_run_inv [OF assms cfg_inv_new] by (simp_all add: cfg_inv_def live_view_def)
  from view have "live_only (t1_map t) (key, hash) = live_only (apply_events evs) (key, hash)" by simp
  then show ?thesis
    unfolding lookup_t1_map [OF inv]
    by (auto simp: live_only_def not_found_result_def is_live_def split: option.splits if_splits)
qed

definition demo_key :: store_key where
  "demo_key = prefix_from_bytes [1]"

definition put_demo :: "u64 \<Rightarrow> T1Index \<Rightarrow> T1Index" where
  "put_demo v t = snd (the (put_with_stored_hash t demo_key 5 5 v))"

declare put_with_stored_hash.simps [code]

section \<open>The whole call\<close>

lemma reorg_run_inv:
  "cfg_inv c \<Longrightarrow> cfg_inv (reorg_run (\<lambda>m. m) n c) \<and> live_view (fst (reorg_run (\<lambda>m. m) n c)) = live_view (fst c)"
proof (induction n arbitrary: c)
  case (Suc n)
  show ?case
  proof (cases "reorg_step (\<lambda>m. m) c")
    case (Some c')
    with reorg_step_inv [OF Suc.prems Some] Suc.IH [of c'] show ?thesis by simp
  qed (use Suc.prems in simp)
qed simp

lemma reorg_run_nine:
  assumes "\<not> t1_reorg_in_progress t" "t1_active t < t1_next_gen t"
  shows "snd (reorg_run m 9 (t, Idle)) = Idle"
    and "append_size (fst (reorg_run m 9 (t, Idle))) = 0"
  using assms
  by (simp_all add: eval_nat_numeral reorg_prepare_def note_append_region_created_def
      note_append_region_destroyed_def Let_def reorg_publish_def append_size_def ar_size_def ag_new_def ar_new_def)

lemma reorganize_effect:
  assumes "cfg_inv (t, Idle)"
  shows "\<exists>t' merged. reorganize (\<lambda>m. m) t = (t', Some merged)
    \<and> cfg_inv (t', Idle) \<and> append_size t' = 0 \<and> live_view t' = live_view t
    \<and> sorted_wrt T1MergePolicy_less merged \<and> assert_no_duplicates merged
    \<and> keyed_map es_ident es_result merged = live_view t"
proof -
  have inv: "t1_inv t" "mask_free t" "t1_immutable t = None" "\<not> t1_reorg_in_progress t"
    using assms by (auto simp: cfg_inv_def)
  then have wf: "sorted_wf (sorted_cur t)" "gen_wf (t1_append_cap t) (active_gen t)" "t1_active t < t1_next_gen t"
    by (auto simp: t1_inv_def)
  let ?m = "reorg_merge (sorted_cur t) (ag_region (active_gen t))" and ?c = "reorg_run (\<lambda>m. m) 9 (t, Idle)"
  note m = reorg_merge_correct [OF wf(1,2)]
  have "live_only (sorted_map (sorted_cur t)) ++ live_only (gen_map (active_gen t)) = live_view t"
  proof
    fix x
    have "imm_map t = Map.empty" using inv(3) by (simp add: imm_map_def)
    then have v: "live_view t x = (if x \<in> dom (gen_map (active_gen t)) then live_only (gen_map (active_gen t)) x
        else live_only (sorted_map (sorted_cur t)) x)"
      by (simp add: live_view_def t1_map_def live_only_add)
    show "(live_only (sorted_map (sorted_cur t)) ++ live_only (gen_map (active_gen t))) x = live_view t x"
    proof (cases "live_only (gen_map (active_gen t)) x")
      case None
      with mask_freeD(1) [OF inv(2), of x] tombstoned_or_live [of x "gen_map (active_gen t)"] show ?thesis
        unfolding v by (auto simp: map_add_def)
    next
      case (Some r)
      with live_only_dom [of "gen_map (active_gen t)" x] show ?thesis
        unfolding v by (auto simp: map_add_def)
    qed
  qed
  moreover have "?c = (fst ?c, Idle)" using reorg_run_nine(1) [OF inv(4) wf(3)] by (metis prod.collapse)
  moreover have "sorted_wrt T1MergePolicy_less ?m"
    using m(1) by (simp add: sorted_wrt_map T1MergePolicy_less_ident [abs_def])
  ultimately show ?thesis
    using reorg_run_inv [OF assms, of 9] reorg_run_nine(2) [OF inv(4) wf(3), of "\<lambda>m. m"] m
      strict_no_duplicates [OF m(1)] inv(4)
    by (auto simp: reorganize_def)
qed

text \<open>
  C16: a reorganisation that runs alone on a well-formed index in which no tombstone of the append
  region hides a live copy in the sorted region (\<open>mask_free\<close>). It leaves every lookup as it was and
  the index well formed and mask-free, empties the append region, and hands the checkpoint writer
  exactly the live entries, strictly ordered by prefix and clean hash and without duplicates; a
  second caller that finds one in progress changes nothing.
\<close>

theorem reorganize_correct:
  assumes "t1_inv t" "mask_free t" "t1_immutable t = None" "t1_frozen t = None" "\<not> t1_reorg_in_progress t"
  shows "\<exists>t' merged. reorganize (\<lambda>m. m) t = (t', Some merged)
    \<and> t1_inv t' \<and> mask_free t' \<and> t1_immutable t' = None \<and> t1_frozen t' = None \<and> \<not> t1_reorg_in_progress t'
    \<and> append_size t' = 0 \<and> (\<forall>key hash. is_live (lr_payload_bits (lookup_by_prefix_hash t key hash)) \<longrightarrow>
        lookup_by_prefix_hash t' key hash = lookup_by_prefix_hash t key hash)
    \<and> (\<forall>key hash. \<not> is_live (lr_payload_bits (lookup_by_prefix_hash t key hash)) \<longrightarrow>
        lr_payload_bits (lookup_by_prefix_hash t' key hash) = STORE_NOT_FOUND)
    \<and> sorted_wrt T1MergePolicy_less merged \<and> assert_no_duplicates merged
    \<and> keyed_map es_ident es_result merged = live_view t
    \<and> reorganize (\<lambda>m. m) (t\<lparr>t1_reorg_in_progress := True\<rparr>) = (t\<lparr>t1_reorg_in_progress := True\<rparr>, None)"
proof -
  have "cfg_inv (t, Idle)" using assms by (simp add: cfg_inv_def)
  from reorganize_effect [OF this] obtain t' merged where r: "reorganize (\<lambda>m. m) t = (t', Some merged)"
    "cfg_inv (t', Idle)" "append_size t' = 0" "live_view t' = live_view t"
    "sorted_wrt T1MergePolicy_less merged" "assert_no_duplicates merged" "keyed_map es_ident es_result merged = live_view t"
    by blast
  have i': "t1_inv t'" using r(2) by (simp add: cfg_inv_def)
  have l: "(is_live (lr_payload_bits (lookup_by_prefix_hash t key hash)) \<longrightarrow> lookup_by_prefix_hash t' key hash = lookup_by_prefix_hash t key hash)
    \<and> (\<not> is_live (lr_payload_bits (lookup_by_prefix_hash t key hash)) \<longrightarrow> lr_payload_bits (lookup_by_prefix_hash t' key hash) = STORE_NOT_FOUND)" for key hash
    using fun_cong [OF r(4), of "(key, hash)"] unfolding lookup_t1_map [OF assms(1)] lookup_t1_map [OF i']
    by (auto simp: live_view_def live_only_def not_found_result_def is_live_def split: option.splits if_splits)
  show ?thesis using r l by (intro exI [of _ t'] exI [of _ merged]) (auto simp: cfg_inv_def reorganize_def)
qed

text \<open>A key in the sorted region, rewritten, and the next reorganisation.\<close>

lemma put_demo_inv:
  assumes "cfg_inv (t, Idle)" "map_option fst (put_with_stored_hash t demo_key 5 5 v) = Some Applied" "is_live v"
  shows "cfg_inv (put_demo v t, Idle)"
proof -
  have "clean_hash 5 = 5" by code_simp
  moreover obtain t' where "put_with_stored_hash t demo_key 5 5 v = Some (Applied, t')" using assms(2) by auto
  ultimately show ?thesis
    using put_step_inv [OF assms(1) _ refl refl, of demo_key 5 v Applied t'] assms(3) by (simp add: put_demo_def)
qed

theorem reorganize_correct_witness:
  "\<exists>t1 t2 m1 m2. reorganize (\<lambda>m. m) (put_demo 9 (T1Index_new True 4)) = (t1, Some m1)
    \<and> lookup_by_prefix_hash t1 demo_key 5 = \<lparr>lr_payload_bits = 9, lr_raw_hash = 5\<rparr> \<and> m1 \<noteq> []
    \<and> reorganize (\<lambda>m. m) t1 = (t2, Some m2) \<and> lookup_by_prefix_hash t2 demo_key 5 = \<lparr>lr_payload_bits = 9, lr_raw_hash = 5\<rparr>"
proof -
  let ?t = "put_demo 9 (T1Index_new True 4)"
  have e: "map_option fst (put_with_stored_hash (T1Index_new True 4) demo_key 5 5 9) = Some Applied" "is_live 9"
    "lookup_by_prefix_hash ?t demo_key 5 = \<lparr>lr_payload_bits = 9, lr_raw_hash = 5\<rparr>" by code_simp+
  have c: "cfg_inv (?t, Idle)" by (rule put_demo_inv [OF cfg_inv_new e(1,2)])
  have i: "t1_inv ?t" "mask_free ?t" "t1_immutable ?t = None" "t1_frozen ?t = None" "\<not> t1_reorg_in_progress ?t"
    using c by (simp_all add: cfg_inv_def)
  obtain t1 m1 where r1: "reorganize (\<lambda>m. m) ?t = (t1, Some m1)" "t1_inv t1" "mask_free t1" "t1_immutable t1 = None" "t1_frozen t1 = None"
    "\<not> t1_reorg_in_progress t1" "lookup_by_prefix_hash t1 demo_key 5 = \<lparr>lr_payload_bits = 9, lr_raw_hash = 5\<rparr>" "keyed_map es_ident es_result m1 = live_view ?t"
    using reorganize_correct [OF i] e(2,3) by force
  obtain t2 m2 where r2: "reorganize (\<lambda>m. m) t1 = (t2, Some m2)" "lookup_by_prefix_hash t2 demo_key 5 = \<lparr>lr_payload_bits = 9, lr_raw_hash = 5\<rparr>"
    using reorganize_correct [OF r1(2-6)] r1(7) e(2) by force
  have nn: "live_view ?t (demo_key, 5) \<noteq> None"
    using e(2,3) unfolding lookup_t1_map [OF i(1)]
    by (auto simp: live_view_def live_only_def not_found_result_def is_live_def split: option.splits)
  have "m1 \<noteq> []"
  proof
    assume "m1 = []"
    then have "live_view ?t = Map.empty" using r1(8) by simp
    then show False using nn by simp
  qed
  then show ?thesis using r1(1,7) r2 by blast
qed

section \<open>A deletion that does not survive the next merge\<close>

lemma reorg_run_add: "reorg_run f (m + n) c = reorg_run f n (reorg_run f m c)"
proof (induction m arbitrary: c)
  case (Suc m)
  show ?case
  proof (cases "reorg_step f c")
    case None
    then have "reorg_run f n c = c" by (cases n) simp_all
    then show ?thesis using None by simp
  qed (simp add: Suc.IH)
qed simp

text \<open>A reorganisation up to the freeze of the sorted region, and from there to its end, whatever tombstones there are.\<close>

definition frozen_for :: "T1Index \<Rightarrow> T1Index \<Rightarrow> bool" where
  "frozen_for t tf \<longleftrightarrow> t1_inv tf \<and> t1_immutable tf = Some (t1_active t) \<and> t1_frozen tf = Some (t1_sorted t) \<and> t1_sorted tf = t1_sorted t
     \<and> t1_active tf \<noteq> t1_active t \<and> sorted_cur tf = sorted_cur t \<and> imm_map tf = gen_map (active_gen t) \<and> t1_append_cap tf = t1_append_cap t"

lemma reorg_freeze:
  assumes inv: "t1_inv t" "t1_immutable t = None" "\<not> t1_reorg_in_progress t"
  shows "snd (reorg_run (\<lambda>m. m) 4 (t, Idle)) = FrozenSorted (t1_active t) (t1_sorted t)"
    "frozen_for t (fst (reorg_run (\<lambda>m. m) 4 (t, Idle)))" "active_gen (fst (reorg_run (\<lambda>m. m) 4 (t, Idle))) = ag_new (t1_append_cap t)"
proof -
  have n: "t1_active t < t1_next_gen t" using inv(1) by (simp add: t1_inv_def)
  then show "snd (reorg_run (\<lambda>m. m) 4 (t, Idle)) = FrozenSorted (t1_active t) (t1_sorted t)"
    "frozen_for t (fst (reorg_run (\<lambda>m. m) 4 (t, Idle)))" "active_gen (fst (reorg_run (\<lambda>m. m) 4 (t, Idle))) = ag_new (t1_append_cap t)"
    using inv gen_wf_new [of "t1_append_cap t"]
    by (auto simp: eval_nat_numeral reorg_prepare_def frozen_for_def t1_state_simps t1_inv_def)
qed

lemma reorg_complete:
  assumes inv: "frozen_for t tf"
  defines "t' \<equiv> fst (reorg_run (\<lambda>m. m) 5 (tf, FrozenSorted (t1_active t) (t1_sorted t)))"
  shows "t1_inv t'" "t1_immutable t' = None" "\<not> t1_reorg_in_progress t'" "active_gen t' = active_gen tf"
    "sorted_map (sorted_cur t') = live_only (sorted_map (sorted_cur t)) ++ live_only (gen_map (active_gen t))"
proof -
  let ?m = "reorg_merge (sorted_cur tf) (ag_region (t1_gens tf (t1_active t)))"
  have i: "t1_inv tf" "t1_immutable tf = Some (t1_active t)" "t1_sorted tf = t1_sorted t" "imm_map tf = gen_map (active_gen t)" "sorted_cur tf = sorted_cur t"
    using inv unfolding frozen_for_def by blast+
  have wf: "sorted_wf (sorted_cur tf)" "gen_wf (t1_append_cap tf) (t1_gens tf (t1_active t))" "imm_map tf = gen_map (t1_gens tf (t1_active t))"
    using i(1,2) by (auto simp: t1_inv_def imm_map_def)
  note m = reorg_merge_correct [OF wf(1,2)]
  note s = SortedRegion_of_correct [OF m(1), of "t1_use_bloom tf"]
  have t': "t' = (note_append_region_destroyed ((reorg_publish tf ?m)\<lparr>t1_frozen := None, t1_immutable := None,
      t1_reorg_epoch := t1_reorg_epoch tf + 1\<rparr>))\<lparr>t1_reorg_in_progress := False\<rparr>"
    by (simp add: t'_def eval_nat_numeral i(3) reorg_publish_def)
  show "t1_inv t'" using i(1) s(1) by (auto simp: t' reorg_publish_def t1_state_simps t1_inv_def)
  show "t1_immutable t' = None" "\<not> t1_reorg_in_progress t'" "active_gen t' = active_gen tf"
    by (simp_all add: t' reorg_publish_def t1_state_simps)
  show "sorted_map (sorted_cur t') = live_only (sorted_map (sorted_cur t)) ++ live_only (gen_map (active_gen t))"
    using s(2) m(2) wf(3) i(4,5) by (simp add: t' reorg_publish_def t1_state_simps)
qed

lemma reorganize_maps:
  assumes "t1_inv t" "t1_immutable t = None" "\<not> t1_reorg_in_progress t"
  shows "t1_inv (fst (reorganize (\<lambda>m. m) t))"
    "t1_map (fst (reorganize (\<lambda>m. m) t)) = live_only (sorted_map (sorted_cur t)) ++ live_only (gen_map (active_gen t))"
proof -
  note f = reorg_freeze [OF assms]
  obtain tf where tf: "reorg_run (\<lambda>m. m) 4 (t, Idle) = (tf, FrozenSorted (t1_active t) (t1_sorted t))"
    using f(1) by (metis prod.collapse)
  have e: "fst (reorganize (\<lambda>m. m) t) = fst (reorg_run (\<lambda>m. m) 5 (tf, FrozenSorted (t1_active t) (t1_sorted t)))"
    using assms(3) reorg_run_add [of "\<lambda>m. m" 4 5 "(t, Idle)"] by (simp add: reorganize_def tf)
  have "frozen_for t tf" "active_gen tf = ag_new (t1_append_cap t)" using f(2,3) by (simp_all add: tf)
  note c = reorg_complete [OF this(1)]
  show "t1_inv (fst (reorganize (\<lambda>m. m) t))" unfolding e by (rule c(1))
  show "t1_map (fst (reorganize (\<lambda>m. m) t)) = live_only (sorted_map (sorted_cur t)) ++ live_only (gen_map (active_gen t))"
    unfolding e t1_map_def c(5) using c(2,4) \<open>active_gen tf = ag_new (t1_append_cap t)\<close> by (simp add: imm_map_def)
qed

text \<open>
  C30: a deletion that falls into the window of a reorganisation is undone by the next one. Take any
  well-formed idle index with room for one append and any key it holds live, with entry \<open>r\<close>; let a
  reorganisation run until it has frozen the sorted region, then delete the key, then let the
  reorganisation end. The deletion was applied and the key is absent, but one more complete
  reorganisation brings \<open>r\<close> back: the tombstone sits in the append region above the live copy the
  first merge has carried into the sorted region, and the second merge drops tombstones.
\<close>

theorem deletion_resurrected:
  assumes "t1_inv t" "mask_free t" "t1_immutable t = None" "t1_frozen t = None" "\<not> t1_reorg_in_progress t" "0 < t1_append_cap t"
    and "lookup_by_prefix_hash t key (clean_hash stored) = r" "is_live (lr_payload_bits r)"
    and "reorg_run (\<lambda>m. m) 4 (t, Idle) = (tf, pc)"
  shows "\<exists>td. put_with_stored_hash tf key (clean_hash stored) stored STORE_NOT_FOUND = Some (Applied, td)
    \<and> (let t' = fst (reorg_run (\<lambda>m. m) 5 (td, pc))
       in lr_payload_bits (lookup_by_prefix_hash t' key (clean_hash stored)) = STORE_NOT_FOUND
          \<and> lookup_by_prefix_hash (fst (reorganize (\<lambda>m. m) t')) key (clean_hash stored) = r)"
proof -
  let ?x = "(key, clean_hash stored)" and ?d = "\<lparr>lr_payload_bits = STORE_NOT_FOUND, lr_raw_hash = stored\<rparr>"
  note f = reorg_freeze [OF assms(1,3,5), unfolded assms(9), simplified]
  have fi: "t1_inv tf" "t1_frozen tf = Some (t1_sorted t)" "t1_append_cap tf = t1_append_cap t" using f(2) by (simp_all add: frozen_for_def)
  have lv: "live_view t ?x = Some r"
    using assms(7,8) unfolding lookup_t1_map [OF assms(1)]
    by (auto simp: live_view_def live_only_def not_found_result_def is_live_def split: option.splits)
  have merged: "(live_only (sorted_map (sorted_cur t)) ++ live_only (gen_map (active_gen t))) ?x = Some r"
  proof -
    have "imm_map t = Map.empty" using assms(3) by (simp add: imm_map_def)
    then have "live_view t ?x = (if ?x \<in> dom (gen_map (active_gen t)) then live_only (gen_map (active_gen t)) ?x else live_only (sorted_map (sorted_cur t)) ?x)"
      by (simp add: live_view_def t1_map_def live_only_add)
    then show ?thesis using lv live_only_dom [of "gen_map (active_gen t)" ?x] by (auto simp: map_add_def split: option.splits if_splits)
  qed
  obtain res td where put: "put_with_stored_hash tf key (clean_hash stored) stored STORE_NOT_FOUND = Some (res, td)" and out: "put_outcome tf ?x ?d res td"
    using put_correct [OF fi(1) refl] by blast
  have ap: "res = Applied" using out assms(6) f(3) fi(3) by (cases res) (auto simp: put_outcome_def append_size_def ar_size_def ag_new_def ar_new_def)
  have o: "t1_inv td" "put_frame tf ?x ?d td" using out ap by (simp_all add: put_outcome_def)
  obtain g where g: "td = tf\<lparr>t1_gens := (t1_gens tf)(t1_active tf := g)\<rparr>" "gen_map g = (gen_map (active_gen tf))(?x \<mapsto> ?d)"
    using o(2) fi(2) unfolding put_frame_def by auto
  have fd: "frozen_for t td" using f(2) o(1) unfolding frozen_for_def g(1) by (auto simp: imm_map_def)
  note c = reorg_complete [OF fd]
  let ?t' = "fst (reorg_run (\<lambda>m. m) 5 (td, FrozenSorted (t1_active t) (t1_sorted t)))"
  have gm: "gen_map (active_gen ?t') ?x = Some ?d" using c(4) g by simp
  have sm: "sorted_map (sorted_cur ?t') ?x = Some r" using c(5) merged by simp
  note r = reorganize_maps [OF c(1-3)]
  have "(live_only (sorted_map (sorted_cur ?t')) ++ live_only (gen_map (active_gen ?t'))) ?x = Some r"
    using gm sm assms(8) by (simp add: map_add_def live_only_def is_live_def)
  then have "lookup_by_prefix_hash (fst (reorganize (\<lambda>m. m) ?t')) key (clean_hash stored) = r" by (simp add: lookup_t1_map [OF r(1)] r(2))
  moreover have "lr_payload_bits (lookup_by_prefix_hash ?t' key (clean_hash stored)) = STORE_NOT_FOUND"
    using gm by (simp add: lookup_t1_map [OF c(1)] t1_map_def)
  ultimately show ?thesis using put ap f(1) by (simp add: Let_def)
qed

theorem deletion_resurrected_witness:
  "\<exists>tf pc td t'. reorg_run (\<lambda>m. m) 4 (put_demo 9 (T1Index_new True 4), Idle) = (tf, pc)
    \<and> put_with_stored_hash tf demo_key 5 5 STORE_NOT_FOUND = Some (Applied, td) \<and> t' = fst (reorg_run (\<lambda>m. m) 5 (td, pc))
    \<and> lr_payload_bits (lookup_by_prefix_hash t' demo_key 5) = STORE_NOT_FOUND
    \<and> lookup_by_prefix_hash (fst (reorganize (\<lambda>m. m) t')) demo_key 5 = \<lparr>lr_payload_bits = 9, lr_raw_hash = 5\<rparr>"
proof -
  let ?t = "put_demo 9 (T1Index_new True 4)"
  have e: "map_option fst (put_with_stored_hash (T1Index_new True 4) demo_key 5 5 9) = Some Applied" "is_live 9" "clean_hash 5 = 5"
    "lookup_by_prefix_hash ?t demo_key 5 = \<lparr>lr_payload_bits = 9, lr_raw_hash = 5\<rparr>" "t1_append_cap ?t = 4" by code_simp+
  have c: "cfg_inv (?t, Idle)" by (rule put_demo_inv [OF cfg_inv_new e(1,2)])
  obtain tf pc where r: "reorg_run (\<lambda>m. m) 4 (?t, Idle) = (tf, pc)" by (cases "reorg_run (\<lambda>m. m) 4 (?t, Idle)")
  have "\<exists>td. put_with_stored_hash tf demo_key (clean_hash 5) 5 STORE_NOT_FOUND = Some (Applied, td)
    \<and> (let t' = fst (reorg_run (\<lambda>m. m) 5 (td, pc))
       in lr_payload_bits (lookup_by_prefix_hash t' demo_key (clean_hash 5)) = STORE_NOT_FOUND
          \<and> lookup_by_prefix_hash (fst (reorganize (\<lambda>m. m) t')) demo_key (clean_hash 5) = \<lparr>lr_payload_bits = 9, lr_raw_hash = 5\<rparr>)"
    by (rule deletion_resurrected [OF _ _ _ _ _ _ _ _ r]) (use c e in \<open>simp_all add: cfg_inv_def\<close>)
  then show ?thesis using r unfolding e(3) Let_def by blast
qed

end
