(* ===== verification/T1_Scan.thy ===== *)
theory T1_Scan
  imports T1_Reorg
begin

text \<open>
  \<^verbatim>\<open>T1Index::scan\<close>: the range scan of one shard, with the fast path that streams the sorted
  region when no append region can hold a key of the range, and the slow path that collects,
  sorts, merges and deduplicates candidates of up to three regions. Shown here: on an index where
  no two entries share a 16-byte prefix both paths deliver exactly the live entries of the range in
  key order; and the two paths disagree on entries that do share a prefix.
\<close>

section \<open>Definitions\<close>

record ScanCandidate =
  sc_key :: store_key
  sc_payload :: u64
  sc_hash :: u64
  sc_gen :: int

type_synonym scan_hit = "store_key \<times> u64 \<times> u64"

definition scan_region_disjoint :: "AppendRegion \<Rightarrow> store_key \<Rightarrow> store_key \<Rightarrow> bool" where
  "scan_region_disjoint r lo hi =
     (case ar_bounds r of None \<Rightarrow> True | Some (mn, mx) \<Rightarrow> range_disjoint mn mx lo hi)"

definition extract_append :: "AppendRegion \<Rightarrow> int \<Rightarrow> store_key \<Rightarrow> store_key \<Rightarrow> ScanCandidate list" where
  "extract_append r gen lo hi =
     (if ar_size r = 0 then []
      else if (case ar_bounds r of None \<Rightarrow> False | Some (mn, mx) \<Rightarrow> range_disjoint mn mx lo hi) then []
      else concat (map (\<lambda>s. if \<not> as_published s then []
             else let (slot_hash, value) = as_load_consistent s
                  in if value = STORE_NOT_FOUND then []
                     else if \<not> as_key s < lo \<and> \<not> hi < as_key s
                     then [\<lparr>sc_key = as_key s, sc_payload = value, sc_hash = slot_hash, sc_gen = gen\<rparr>] else [])
           (take (ar_size r) (ar_slots r))))"

definition candidate_less :: "ScanCandidate \<Rightarrow> ScanCandidate \<Rightarrow> bool" where
  "candidate_less a b = (if sc_key a \<noteq> sc_key b then sc_key a < sc_key b else sc_gen a > sc_gen b)"

definition candidate_rank :: "ScanCandidate \<Rightarrow> store_key \<times> int" where
  "candidate_rank c = (sc_key c, - sc_gen c)"

fun merge_candidates :: "ScanCandidate list \<Rightarrow> ScanCandidate list \<Rightarrow> ScanCandidate list" where
  "merge_candidates [] ys = ys"
| "merge_candidates xs [] = xs"
| "merge_candidates (x # xs) (y # ys) =
     (if candidate_less y x then y # merge_candidates (x # xs) ys
      else x # merge_candidates xs (y # ys))"

fun dedup_candidates :: "store_key option \<Rightarrow> ScanCandidate list \<Rightarrow> scan_hit list" where
  "dedup_candidates prev [] = []"
| "dedup_candidates prev (c # cs) =
     (if prev = None \<or> prev \<noteq> Some (sc_key c)
      then (if sc_payload c \<noteq> STORE_NOT_FOUND then [(sc_key c, sc_payload c, sc_hash c)] else [])
             @ dedup_candidates (Some (sc_key c)) cs
      else dedup_candidates prev cs)"

definition sorted_hits :: "T1Index \<Rightarrow> store_key \<Rightarrow> store_key \<Rightarrow> scan_hit list" where
  "sorted_hits t lo hi = map (\<lambda>(slot, hash, payload). (ss_key slot, payload, hash)) (walk_sorted_region (sorted_cur t) lo hi)"

text \<open>The calls of the callback, in order; the C++ function returns their number.\<close>

definition t1_scan_prefixes :: "T1Index \<Rightarrow> store_key \<Rightarrow> store_key \<Rightarrow> scan_hit list" where
  "t1_scan_prefixes t lower_bound upper_bound =
     (let active = ag_region (active_gen t);
          imm = map_option (\<lambda>g. ag_region (t1_gens t g)) (t1_immutable t)
      in if scan_region_disjoint active lower_bound upper_bound
            \<and> (case imm of None \<Rightarrow> True | Some r \<Rightarrow> scan_region_disjoint r lower_bound upper_bound)
         then sorted_hits t lower_bound upper_bound
         else let sorted_cands = map (\<lambda>(slot, hash, payload).
                    \<lparr>sc_key = ss_key slot, sc_payload = payload, sc_hash = hash, sc_gen = 0\<rparr>)
                    (walk_sorted_region (sorted_cur t) lower_bound upper_bound);
                  append_cands = extract_append active 2 lower_bound upper_bound
                    @ (case imm of None \<Rightarrow> [] | Some r \<Rightarrow> extract_append r 1 lower_bound upper_bound);
                  merged = merge_candidates sorted_cands (sort_key candidate_rank append_cands)
              in dedup_candidates None merged)"

definition t1_scan :: "T1Index \<Rightarrow> bytes \<Rightarrow> bytes \<Rightarrow> scan_hit list" where
  "t1_scan t lo_bytes hi_bytes = t1_scan_prefixes t (prefix_from_bytes lo_bytes) (prefix_from_bytes hi_bytes)"

section \<open>Walking the sorted region\<close>

definition in_range :: "store_key \<Rightarrow> store_key \<Rightarrow> store_key \<Rightarrow> bool" where
  "in_range lo hi k \<longleftrightarrow> lo \<le> k \<and> k \<le> hi"

lemma walk_from_filter:
  "sorted_wrt (\<lambda>a b. ss_key a \<le> ss_key b) ss \<Longrightarrow>
   walk_sorted_from ss hi = map (\<lambda>s. (s, ss_hash s, ss_payload s))
     (filter (\<lambda>s. is_live (ss_payload s) \<and> ss_key s \<le> hi) ss)"
proof (induction ss)
  case (Cons a ss)
  have "filter (\<lambda>s. is_live (ss_payload s) \<and> ss_key s \<le> hi) ss = []" if "hi < ss_key a"
    using Cons.prems that by (auto simp: filter_empty_conv)
  with Cons show ?case by (auto simp: ss_load_consistent_def is_live_def not_le)
qed simp

lemma filter_dropWhile_key:
  "sorted_wrt (\<lambda>a b. ss_key a \<le> ss_key b) ss \<Longrightarrow>
   filter P (dropWhile (\<lambda>s. ss_key s < lo) ss) = filter (\<lambda>s. P s \<and> lo \<le> ss_key s) ss"
proof (induction ss)
  case (Cons a ss)
  have "filter P ss = filter (\<lambda>s. P s \<and> lo \<le> ss_key s) ss" if "lo \<le> ss_key a"
    using Cons.prems that by (intro filter_cong) auto
  with Cons show ?case by auto
qed simp

lemma walk_sorted_region_filter:
  assumes "sorted_wf sr"
  shows "walk_sorted_region sr lo hi = map (\<lambda>s. (s, ss_hash s, ss_payload s))
     (filter (\<lambda>s. is_live (ss_payload s) \<and> in_range lo hi (ss_key s)) (sr_slots sr))"
proof -
  note srt = sorted_wf_keys [OF assms]
  have "sorted_wrt (\<lambda>a b. ss_key a \<le> ss_key b) (dropWhile (\<lambda>s. ss_key s < lo) (sr_slots sr))"
    using sorted_wrt_drop [OF srt] by (metis drop_partition_point)
  from walk_from_filter [OF this, of hi] show ?thesis
    by (auto simp: walk_sorted_region_def drop_partition_point filter_dropWhile_key [OF srt] in_range_def
        conj_ac)
qed

lemma sorted_hits_set:
  assumes "sorted_wf (sorted_cur t)"
  shows "(k, p, h) \<in> set (sorted_hits t lo hi) \<longleftrightarrow> in_range lo hi k \<and>
    live_only (sorted_map (sorted_cur t)) (k, clean_hash h) = Some \<lparr>lr_payload_bits = p, lr_raw_hash = h\<rparr>"
  unfolding live_only_Some sorted_map_keyed [OF assms]
    keyed_map_Some [OF strict_distinct [OF sorted_wf_strict [OF assms]]]
  by (auto simp: sorted_hits_def walk_sorted_region_filter [OF assms] ss_ident_def ss_result_def)

section \<open>Extracting an append region\<close>

definition entry_candidate :: "int \<Rightarrow> EntrySnapshot \<Rightarrow> ScanCandidate" where
  "entry_candidate gen e = \<lparr>sc_key = es_key e, sc_payload = es_payload e, sc_hash = es_hash e, sc_gen = gen\<rparr>"

lemma collect_iff:
  assumes "gen_wf cap g"
  shows "e \<in> set (ar_collect_live_entries (ag_region g) (ar_size (ag_region g))) \<longleftrightarrow>
    live_only (gen_map g) (es_ident e) = Some (es_result e)"
proof -
  note d = collect_distinct [OF assms, of "ar_size (ag_region g)"]
  have "es_ident e = es_ident e' \<and> es_result e = es_result e' \<Longrightarrow> e = e'" for e e' :: EntrySnapshot
    by (cases e; cases e') (auto simp: es_ident_def es_result_def)
  then show ?thesis
    using collect_map [OF assms, of "ar_size (ag_region g)"] keyed_map_Some [OF d, of es_result "es_ident e" "es_result e"]
    by (metis ar_size_def)
qed

lemma out_of_bounds_absent:
  assumes wf: "gen_wf cap g" and b: "case ar_bounds (ag_region g) of None \<Rightarrow> True
      | Some (mn, mx) \<Rightarrow> range_disjoint mn mx lo hi" and k: "in_range lo hi k"
  shows "gen_map g (k, h) = None"
proof (rule ccontr)
  assume "gen_map g (k, h) \<noteq> None"
  then obtain i where "i \<in> ht_stored (ag_index g)" "as_key (ar_slots (ag_region g) ! i) = k"
    by (auto simp: gen_map_def ht_lookup_gen_iff [OF wf] as_ident_def)
  with gen_wf_slots(2) [OF wf, of i] gen_wfD(2) [OF wf] have "in_bounds (ag_region g) k" by auto
  with b k show False
    by (auto simp: in_bounds_def range_disjoint_def in_range_def split: option.splits)
qed

lemma extract_append_set:
  assumes wf: "gen_wf cap g"
  shows "\<lparr>sc_key = k, sc_payload = p, sc_hash = h, sc_gen = n\<rparr> \<in> set (extract_append (ag_region g) gen lo hi) \<longleftrightarrow>
    n = gen \<and> in_range lo hi k \<and>
    live_only (gen_map g) (k, clean_hash h) = Some \<lparr>lr_payload_bits = p, lr_raw_hash = h\<rparr>"
proof -
  let ?r = "ag_region g" and ?c = "\<lparr>sc_key = k, sc_payload = p, sc_hash = h, sc_gen = n\<rparr>"
  let ?e = "\<lparr>es_key = k, es_payload = p, es_hash = h\<rparr>"
  let ?skip = "ar_size ?r = 0 \<or> (case ar_bounds ?r of None \<Rightarrow> False | Some (mn, mx) \<Rightarrow> range_disjoint mn mx lo hi)"
  have body: "concat (map (\<lambda>s. if \<not> as_published s then []
             else let (slot_hash, value) = as_load_consistent s
                  in if value = STORE_NOT_FOUND then []
                     else if \<not> as_key s < lo \<and> \<not> hi < as_key s
                     then [\<lparr>sc_key = as_key s, sc_payload = value, sc_hash = slot_hash, sc_gen = gen\<rparr>] else []) ss)
      = map (entry_candidate gen) (filter (\<lambda>e. in_range lo hi (es_key e))
          (map append_snapshot (filter (\<lambda>s. as_published s \<and> is_live (as_payload s)) ss)))" for ss
    by (induction ss) (auto simp: as_load_consistent_def entry_candidate_def append_snapshot_def is_live_def
        in_range_def not_less)
  have e: "live_only (gen_map g) (k, clean_hash h) = Some \<lparr>lr_payload_bits = p, lr_raw_hash = h\<rparr>
      \<longleftrightarrow> ?e \<in> set (ar_collect_live_entries ?r (ar_size ?r))"
    unfolding collect_iff [OF wf] by (simp add: es_ident_def es_result_def)
  show ?thesis
  proof (cases ?skip)
    case True
    have "live_only (gen_map g) (k, clean_hash h) = None" if "in_range lo hi k"
    proof (cases "ar_size ?r = 0")
      case True
      then have "gen_map g x = None" for x
        using gen_wfD(2) [OF wf] ht_lookup_gen_iff [OF wf, of x] by (fastforce simp: gen_map_def ar_size_def)
      then show ?thesis by (simp add: live_only_def)
    next
      case False
      with \<open>?skip\<close> out_of_bounds_absent [OF wf _ that] show ?thesis
        by (auto simp: live_only_def split: option.splits)
    qed
    with True show ?thesis by (auto simp: extract_append_def)
  next
    case False
    then have "extract_append ?r gen lo hi = map (entry_candidate gen) (filter (\<lambda>e. in_range lo hi (es_key e))
        (ar_collect_live_entries ?r (ar_size ?r)))"
      unfolding extract_append_def body collect_filter by (auto split: option.splits)
    moreover have "?c \<in> entry_candidate gen ` S \<longleftrightarrow> n = gen \<and> ?e \<in> S" for S
    proof
      assume "?c \<in> entry_candidate gen ` S"
      then obtain e where "e \<in> S" "?c = entry_candidate gen e" by blast
      then show "n = gen \<and> ?e \<in> S" by (cases e) (simp add: entry_candidate_def)
    next
      assume "n = gen \<and> ?e \<in> S"
      then show "?c \<in> entry_candidate gen ` S"
        by (intro image_eqI [of _ _ ?e]) (simp_all add: entry_candidate_def)
    qed
    ultimately show ?thesis unfolding e by auto
  qed
qed

section \<open>Merging and deduplicating candidates\<close>

lemma candidate_less_rank: "candidate_less a b \<longleftrightarrow> candidate_rank a < candidate_rank b"
  by (auto simp: candidate_less_def candidate_rank_def less_prod_def)

lemma merge_candidates_set [simp]: "set (merge_candidates xs ys) = set xs \<union> set ys"
  by (induction xs ys rule: merge_candidates.induct) auto

lemma merge_candidates_sorted:
  "sorted (map candidate_rank xs) \<Longrightarrow> sorted (map candidate_rank ys) \<Longrightarrow>
   sorted (map candidate_rank (merge_candidates xs ys))"
  by (induction xs ys rule: merge_candidates.induct) (fastforce simp: candidate_less_rank not_less)+

definition hit_of :: "ScanCandidate \<Rightarrow> scan_hit" where
  "hit_of c = (sc_key c, sc_payload c, sc_hash c)"

definition newest :: "ScanCandidate set \<Rightarrow> ScanCandidate \<Rightarrow> bool" where
  "newest C c \<longleftrightarrow> c \<in> C \<and> (\<forall>c' \<in> C. sc_key c' = sc_key c \<longrightarrow> sc_gen c' \<le> sc_gen c)"

lemma rank_le_key: "candidate_rank a \<le> candidate_rank b \<Longrightarrow> sc_key a \<le> sc_key b"
  by (auto simp: candidate_rank_def less_eq_prod_def)

lemma rank_le_gen: "candidate_rank a \<le> candidate_rank b \<Longrightarrow> sc_key a = sc_key b \<Longrightarrow> sc_gen b \<le> sc_gen a"
  by (auto simp: candidate_rank_def less_eq_prod_def)

lemma dedup_candidates_set:
  assumes "sorted (map candidate_rank cs)" "\<And>c. c \<in> set cs \<Longrightarrow> is_live (sc_payload c)"
    "\<And>c c'. c \<in> set cs \<Longrightarrow> c' \<in> set cs \<Longrightarrow> sc_key c = sc_key c' \<Longrightarrow> sc_gen c = sc_gen c' \<Longrightarrow> c = c'"
    "\<And>c k. c \<in> set cs \<Longrightarrow> prev = Some k \<Longrightarrow> k \<le> sc_key c"
  shows "set (dedup_candidates prev cs) = hit_of ` {c. newest (set cs) c \<and> prev \<noteq> Some (sc_key c)}"
  using assms
proof (induction cs arbitrary: prev)
  case Nil
  show ?case by (simp add: newest_def)
next
  case (Cons c cs)
  have rank: "\<And>d. d \<in> set cs \<Longrightarrow> candidate_rank c \<le> candidate_rank d" using Cons.prems(1) by auto
  have le: "\<And>d. d \<in> set cs \<Longrightarrow> sc_key c \<le> sc_key d"
    "\<And>d. d \<in> set cs \<Longrightarrow> sc_key d = sc_key c \<Longrightarrow> sc_gen d \<le> sc_gen c"
    using rank rank_le_key rank_le_gen by metis+
  have IH: "set (dedup_candidates p cs) = hit_of ` {d. newest (set cs) d \<and> p \<noteq> Some (sc_key d)}"
    if "\<And>d k. d \<in> set cs \<Longrightarrow> p = Some k \<Longrightarrow> k \<le> sc_key d" for p
    using Cons.prems that by (intro Cons.IH) auto
  have other: "newest (set (c # cs)) d \<longleftrightarrow> newest (set cs) d" if "sc_key d \<noteq> sc_key c" for d
    using that by (auto simp: newest_def)
  have same: "newest (set (c # cs)) d \<longleftrightarrow> d = c" if "sc_key d = sc_key c" for d
    using that Cons.prems(3) [of d c] le(2) by (fastforce simp: newest_def)
  show ?case
  proof (cases "prev = Some (sc_key c)")
    case True
    then have "set (dedup_candidates prev (c # cs)) = hit_of ` {d. newest (set cs) d \<and> prev \<noteq> Some (sc_key d)}"
      using IH [of prev] Cons.prems(4) by simp
    also have "{d. newest (set cs) d \<and> prev \<noteq> Some (sc_key d)}
        = {d. newest (set (c # cs)) d \<and> prev \<noteq> Some (sc_key d)}"
      using other True by (auto simp: newest_def)
    finally show ?thesis .
  next
    case False
    have fresh: "prev \<noteq> Some (sc_key d)" if "newest (set cs) d" for d
      using Cons.prems(4) [of c] le(1) [of d] False that by (cases prev) (auto simp: newest_def order.antisym)
    have "d \<in> {d. newest (set (c # cs)) d \<and> prev \<noteq> Some (sc_key d)}
        \<longleftrightarrow> d \<in> insert c {d. newest (set cs) d \<and> Some (sc_key c) \<noteq> Some (sc_key d)}" for d
      using fresh [of d] False other [of d] same [of d] by (cases "sc_key d = sc_key c") (auto simp del: set_simps)
    then have "{d. newest (set (c # cs)) d \<and> prev \<noteq> Some (sc_key d)}
        = insert c {d. newest (set cs) d \<and> Some (sc_key c) \<noteq> Some (sc_key d)}"
      by (intro set_eqI)
    moreover have "set (dedup_candidates prev (c # cs)) = insert (hit_of c) (set (dedup_candidates (Some (sc_key c)) cs))"
      using False Cons.prems(2) by (auto simp: hit_of_def is_live_def)
    moreover have "set (dedup_candidates (Some (sc_key c)) cs)
        = hit_of ` {d. newest (set cs) d \<and> Some (sc_key c) \<noteq> Some (sc_key d)}"
      by (rule IH) (use le(1) in auto)
    ultimately show ?thesis by simp
  qed
qed

lemma dedup_candidates_sorted:
  assumes "sorted (map candidate_rank cs)" "\<And>c k. c \<in> set cs \<Longrightarrow> prev = Some k \<Longrightarrow> k \<le> sc_key c"
  shows "sorted_wrt (<) (map fst (dedup_candidates prev cs))
    \<and> (\<forall>x \<in> set (dedup_candidates prev cs). \<forall>k. prev = Some k \<longrightarrow> k < fst x)"
  using assms
proof (induction cs arbitrary: prev)
  case (Cons c cs)
  have le: "\<And>d. d \<in> set cs \<Longrightarrow> sc_key c \<le> sc_key d"
    using Cons.prems(1) rank_le_key by auto
  show ?case
  proof (cases "prev = Some (sc_key c)")
    case True
    then show ?thesis using Cons.IH [of prev] Cons.prems by simp
  next
    case False
    have lt: "\<And>k. prev = Some k \<Longrightarrow> k < sc_key c" using Cons.prems(2) [of c] False by fastforce
    show ?thesis
      using Cons.IH [of "Some (sc_key c)"] Cons.prems(1) le lt False
      by (auto simp: image_iff) (metis fst_conv order.strict_trans)+
  qed
qed simp

section \<open>The scan delivers the live entries of the range\<close>

text \<open>No two entries of the index share a prefix.\<close>

definition prefix_unique :: "T1Index \<Rightarrow> bool" where
  "prefix_unique t \<longleftrightarrow> (\<forall>x \<in> dom (t1_map t). \<forall>y \<in> dom (t1_map t). fst x = fst y \<longrightarrow> x = y)"

definition scan_exact :: "T1Index \<Rightarrow> store_key \<Rightarrow> store_key \<Rightarrow> scan_hit list \<Rightarrow> bool" where
  "scan_exact t lo hi hits \<longleftrightarrow> sorted_wrt (<) (map fst hits) \<and>
     (\<forall>k p h. (k, p, h) \<in> set hits \<longleftrightarrow> in_range lo hi k \<and>
        live_view t (k, clean_hash h) = Some \<lparr>lr_payload_bits = p, lr_raw_hash = h\<rparr>)"

lemma t1_map_dom: "dom (t1_map t) = dom (sorted_map (sorted_cur t)) \<union> dom (imm_map t) \<union> dom (gen_map (active_gen t))"
  by (auto simp: t1_map_def)

lemma live_view_cases:
  "live_view t x = (if x \<in> dom (gen_map (active_gen t)) then live_only (gen_map (active_gen t)) x
     else if x \<in> dom (imm_map t) then live_only (imm_map t) x
     else live_only (sorted_map (sorted_cur t)) x)"
  by (simp add: live_view_def t1_map_def live_only_add)

lemma prefix_uniqueD:
  "prefix_unique t \<Longrightarrow> x \<in> dom (sorted_map (sorted_cur t)) \<union> dom (imm_map t) \<union> dom (gen_map (active_gen t)) \<Longrightarrow>
   y \<in> dom (sorted_map (sorted_cur t)) \<union> dom (imm_map t) \<union> dom (gen_map (active_gen t)) \<Longrightarrow> fst x = fst y \<Longrightarrow> x = y"
  unfolding prefix_unique_def t1_map_dom by blast

lemma sorted_hits_sorted:
  assumes "sorted_wf (sorted_cur t)" "prefix_unique t"
  shows "sorted_wrt (<) (map fst (sorted_hits t lo hi))"
proof -
  let ?ss = "sr_slots (sorted_cur t)"
  have "sorted_wrt (\<lambda>a b. ss_key a < ss_key b) ?ss"
    unfolding sorted_wrt_iff_nth_less
  proof (intro allI impI)
    fix i j
    assume ij: "i < j" "j < length ?ss"
    have le: "ss_key (?ss ! i) \<le> ss_key (?ss ! j)" using sorted_wrt_nthD [OF sorted_wf_keys [OF assms(1)] ij] .
    have d: "ss_ident (?ss ! n) \<in> dom (sorted_map (sorted_cur t))" if "n < length ?ss" for n
      using that by (auto simp: sorted_map_keyed [OF assms(1)] keyed_map_None domIff)
    have "ss_ident (?ss ! i) \<noteq> ss_ident (?ss ! j)"
      using sorted_wf_uniq [OF assms(1), of i j] ij by auto
    moreover have "ss_ident (?ss ! i) \<in> dom (sorted_map (sorted_cur t))" "ss_ident (?ss ! j) \<in> dom (sorted_map (sorted_cur t))"
      using d ij by auto
    ultimately have "fst (ss_ident (?ss ! i)) \<noteq> fst (ss_ident (?ss ! j))"
      using prefix_uniqueD [OF assms(2)] by blast
    then have "ss_key (?ss ! i) \<noteq> ss_key (?ss ! j)" by (simp add: ss_ident_def)
    with le show "ss_key (?ss ! i) < ss_key (?ss ! j)" by simp
  qed
  then show ?thesis
    by (simp add: sorted_hits_def walk_sorted_region_filter [OF assms(1)] sorted_wrt_map sorted_wrt_filter)
qed

lemma scan_fast_path:
  assumes inv: "t1_inv t" "prefix_unique t"
    and a: "scan_region_disjoint (ag_region (active_gen t)) lo hi"
    and i: "\<And>g. t1_immutable t = Some g \<Longrightarrow> scan_region_disjoint (ag_region (t1_gens t g)) lo hi"
  shows "scan_exact t lo hi (sorted_hits t lo hi)"
proof -
  have wf: "sorted_wf (sorted_cur t)" "gen_wf (t1_append_cap t) (active_gen t)" using inv by (auto simp: t1_inv_def)
  have "gen_map (active_gen t) (k, h) = None" if "in_range lo hi k" for k h
    using out_of_bounds_absent [OF wf(2) _ that] a by (simp add: scan_region_disjoint_def)
  moreover have "imm_map t (k, h) = None" if k: "in_range lo hi k" for k h
  proof (cases "t1_immutable t")
    case (Some g)
    then have "gen_wf (t1_append_cap t) (t1_gens t g)" using inv by (auto simp: t1_inv_def)
    from out_of_bounds_absent [OF this _ k] i [OF Some] Some show ?thesis
      by (simp add: scan_region_disjoint_def imm_map_def)
  qed (simp add: imm_map_def)
  ultimately show ?thesis
    unfolding scan_exact_def sorted_hits_set [OF wf(1)] live_view_cases
    using sorted_hits_sorted [OF wf(1) inv(2)] by (auto simp: domIff)
qed

definition cand :: "store_key \<Rightarrow> u64 \<Rightarrow> u64 \<Rightarrow> int \<Rightarrow> ScanCandidate" where
  "cand k p h n = \<lparr>sc_key = k, sc_payload = p, sc_hash = h, sc_gen = n\<rparr>"

lemma cand_cases: obtains k p h n where "c = cand k p h n"
  by (cases c) (auto simp: cand_def)

lemma cand_simps [simp]:
  "sc_key (cand k p h n) = k" "sc_payload (cand k p h n) = p" "sc_hash (cand k p h n) = h" "sc_gen (cand k p h n) = n"
  "hit_of (cand k p h n) = (k, p, h)"
  by (simp_all add: cand_def hit_of_def)

definition region_map :: "T1Index \<Rightarrow> int \<Rightarrow> ident \<rightharpoonup> LookupResult" where
  "region_map t n = (if n = 0 then sorted_map (sorted_cur t) else if n = 1 then imm_map t
     else if n = 2 then gen_map (active_gen t) else Map.empty)"

lemma region_map_hash:
  assumes "t1_inv t" "region_map t n x = Some r"
  shows "clean_hash (lr_raw_hash r) = snd x"
proof -
  have gen: "gen_wf cap g \<Longrightarrow> gen_map g x = Some r \<Longrightarrow> clean_hash (lr_raw_hash r) = snd x" for cap g
    by (auto simp: gen_map_def ht_lookup_gen_iff as_ident_def as_result_def)
  have srt: "sorted_wf sr \<Longrightarrow> sorted_map sr x = Some r \<Longrightarrow> clean_hash (lr_raw_hash r) = snd x" for sr
  proof -
    assume wf: "sorted_wf sr" and "sorted_map sr x = Some r"
    then obtain i where i: "find_sorted sr (fst x) (snd x) = Some i" "r = ss_result (sr_slots sr ! i)"
      by (auto simp: sorted_map_def)
    from i(1) have "ss_ident (sr_slots sr ! i) = (fst x, snd x)" using find_sorted_iff [OF wf] by blast
    with i(2) show "clean_hash (lr_raw_hash r) = snd x" by (auto simp: ss_ident_def ss_result_def)
  qed
  show ?thesis
    using assms gen srt
    by (auto simp: region_map_def t1_inv_def imm_map_def split: if_splits option.splits)
qed

lemma region_map_dom:
  "x \<in> dom (region_map t n) \<Longrightarrow>
     x \<in> dom (sorted_map (sorted_cur t)) \<union> dom (imm_map t) \<union> dom (gen_map (active_gen t))"
  by (auto simp: region_map_def split: if_splits)

lemma live_view_region:
  assumes "mask_free t"
  shows "live_view t x = Some r \<longleftrightarrow>
    (\<exists>n. live_only (region_map t n) x = Some r \<and> (\<forall>m > n. live_only (region_map t m) x = None))"
proof
  assume lv: "live_view t x = Some r"
  have A: "x \<in> dom (gen_map (active_gen t)) \<Longrightarrow> live_only (region_map t 2) x = Some r"
    and I: "x \<notin> dom (gen_map (active_gen t)) \<Longrightarrow> x \<in> dom (imm_map t) \<Longrightarrow> live_only (region_map t 1) x = Some r"
    and S: "x \<notin> dom (gen_map (active_gen t)) \<Longrightarrow> x \<notin> dom (imm_map t) \<Longrightarrow> live_only (region_map t 0) x = Some r"
    using lv by (auto simp: live_view_cases region_map_def)
  have none: "live_only (region_map t m) x = None"
    if "m > n" "n = 2 \<or> n = 1 \<and> x \<notin> dom (gen_map (active_gen t))
      \<or> n = 0 \<and> x \<notin> dom (gen_map (active_gen t)) \<and> x \<notin> dom (imm_map t)" for m n
    using that by (auto simp: region_map_def live_only_def domIff)
  show "\<exists>n. live_only (region_map t n) x = Some r \<and> (\<forall>m > n. live_only (region_map t m) x = None)"
    using A I S none [of 2] none [of 1] none [of 0] by metis
next
  assume "\<exists>n. live_only (region_map t n) x = Some r \<and> (\<forall>m > n. live_only (region_map t m) x = None)"
  then obtain n where n: "live_only (region_map t n) x = Some r" "\<And>m. m > n \<Longrightarrow> live_only (region_map t m) x = None"
    by blast
  have A: "live_only (gen_map (active_gen t)) x = None" if "n < 2"
    using n(2) [of 2] that by (simp add: region_map_def)
  have I: "live_only (imm_map t) x = None" if "n < 1"
    using n(2) [of 1] that by (simp add: region_map_def)
  have tA: "n < 2 \<Longrightarrow> x \<in> dom (gen_map (active_gen t)) \<Longrightarrow> tombstoned (gen_map (active_gen t)) x"
    and tI: "n < 1 \<Longrightarrow> x \<in> dom (imm_map t) \<Longrightarrow> tombstoned (imm_map t) x"
    using A I tombstoned_or_live [of x "gen_map (active_gen t)"] tombstoned_or_live [of x "imm_map t"] by auto
  consider "n = 0" "live_only (sorted_map (sorted_cur t)) x = Some r" | "n = 1" "live_only (imm_map t) x = Some r"
    | "n = 2" "live_only (gen_map (active_gen t)) x = Some r"
    using n(1) by (auto simp: region_map_def live_only_def split: if_splits)
  then show "live_view t x = Some r"
  proof cases
    case 1
    with tA tI mask_freeD [OF assms, of x] show ?thesis by (auto simp: live_view_cases)
  next
    case 2
    with tA mask_freeD [OF assms, of x] live_only_dom [of "imm_map t" x] show ?thesis
      by (auto simp: live_view_cases)
  next
    case 3
    with live_only_dom [of "gen_map (active_gen t)" x] show ?thesis by (auto simp: live_view_cases)
  qed
qed

lemma newest_live_view:
  assumes inv: "t1_inv t" and mask: "mask_free t" and uniq: "prefix_unique t"
    and C: "\<And>k p h n. cand k p h n \<in> C \<longleftrightarrow> in_range lo hi k \<and>
      live_only (region_map t n) (k, clean_hash h) = Some \<lparr>lr_payload_bits = p, lr_raw_hash = h\<rparr>"
  shows "(\<exists>n. newest C (cand k p h n)) \<longleftrightarrow> in_range lo hi k \<and>
      live_view t (k, clean_hash h) = Some \<lparr>lr_payload_bits = p, lr_raw_hash = h\<rparr>"
proof -
  let ?x = "(k, clean_hash h)" and ?r = "\<lparr>lr_payload_bits = p, lr_raw_hash = h\<rparr>"
  have gen_le: "(\<forall>c' \<in> C. sc_key c' = k \<longrightarrow> sc_gen c' \<le> n) \<longleftrightarrow> (\<forall>m > n. live_only (region_map t m) ?x = None)"
    if c: "in_range lo hi k" "live_only (region_map t n) ?x = Some ?r" for n
  proof (intro iffI allI ballI impI)
    fix m
    assume le: "\<forall>c' \<in> C. sc_key c' = k \<longrightarrow> sc_gen c' \<le> n" and "n < m"
    show "live_only (region_map t m) ?x = None"
    proof (rule ccontr)
      assume "live_only (region_map t m) ?x \<noteq> None"
      then obtain r where r: "live_only (region_map t m) ?x = Some r" by blast
      then have "clean_hash (lr_raw_hash r) = clean_hash h"
        using region_map_hash [OF inv, of m ?x r] by (simp add: live_only_Some)
      with r c(1) have "cand k (lr_payload_bits r) (lr_raw_hash r) m \<in> C" by (simp add: C)
      with le \<open>n < m\<close> show False by fastforce
    qed
  next
    fix c'
    assume older: "\<forall>m > n. live_only (region_map t m) ?x = None" and c': "c' \<in> C" "sc_key c' = k"
    obtain k' p' h' n' where eq: "c' = cand k' p' h' n'" by (rule cand_cases)
    with c' have l: "live_only (region_map t n') (k, clean_hash h') = Some \<lparr>lr_payload_bits = p', lr_raw_hash = h'\<rparr>"
      by (simp add: C)
    have "(k, clean_hash h') = ?x"
      by (rule prefix_uniqueD [OF uniq region_map_dom [of _ t n'] region_map_dom [of _ t n]])
        (use l c(2) in \<open>auto simp: live_only_Some\<close>)
    with l older show "sc_gen c' \<le> n" by (auto simp: eq not_less [symmetric])
  qed
  show ?thesis
    unfolding newest_def cand_simps C live_view_region [OF mask] using gen_le by blast
qed

lemma scan_slow_path:
  assumes inv: "t1_inv t" and mask: "mask_free t" and uniq: "prefix_unique t"
    and cs: "sorted (map candidate_rank cs)"
    and C: "\<And>k p h n. cand k p h n \<in> set cs \<longleftrightarrow> in_range lo hi k \<and>
      live_only (region_map t n) (k, clean_hash h) = Some \<lparr>lr_payload_bits = p, lr_raw_hash = h\<rparr>"
  shows "scan_exact t lo hi (dedup_candidates None cs)"
proof -
  have live: "is_live (sc_payload c)" if "c \<in> set cs" for c
    using that by (cases c rule: cand_cases) (auto simp: C live_only_Some)
  have same: "c = c'" if "c \<in> set cs" "c' \<in> set cs" "sc_key c = sc_key c'" "sc_gen c = sc_gen c'" for c c'
  proof -
    obtain k p h n k' p' h' n' where eq: "c = cand k p h n" "c' = cand k' p' h' n'" by (metis cand_cases)
    with that C [of k p h n] C [of k' p' h' n']
    have l: "live_only (region_map t n) (k, clean_hash h) = Some \<lparr>lr_payload_bits = p, lr_raw_hash = h\<rparr>"
        "live_only (region_map t n) (k, clean_hash h') = Some \<lparr>lr_payload_bits = p', lr_raw_hash = h'\<rparr>"
      by auto
    have "(k, clean_hash h) = (k, clean_hash h')"
      by (rule prefix_uniqueD [OF uniq region_map_dom [of _ t n] region_map_dom [of _ t n]])
        (use l in \<open>auto simp: live_only_Some\<close>)
    then have h: "clean_hash h = clean_hash h'" by simp
    have "p = p' \<and> h = h'" using l unfolding h by simp
    moreover have "k = k'" "n = n'" using that(3,4) by (simp_all add: eq)
    ultimately show ?thesis by (simp add: eq)
  qed
  have "set (dedup_candidates None cs) = hit_of ` {c. newest (set cs) c \<and> None \<noteq> Some (sc_key c)}"
  proof (rule dedup_candidates_set)
    show "c = c'" if "c \<in> set cs" "c' \<in> set cs" "sc_key c = sc_key c'" "sc_gen c = sc_gen c'" for c c'
      by (rule same [OF that])
  qed (use cs live in simp_all)
  then have set: "set (dedup_candidates None cs) = hit_of ` {c. newest (set cs) c}" by simp
  have "(k, p, h) \<in> set (dedup_candidates None cs) \<longleftrightarrow> (\<exists>n. newest (set cs) (cand k p h n))" for k p h
    unfolding set by (auto simp: image_iff) (metis cand_cases cand_simps(5) prod.inject)
  with newest_live_view [OF inv mask uniq C] dedup_candidates_sorted [OF cs, of None] show ?thesis
    unfolding scan_exact_def by auto
qed

definition scan_candidates :: "T1Index \<Rightarrow> store_key \<Rightarrow> store_key \<Rightarrow> ScanCandidate list" where
  "scan_candidates t lo hi =
     merge_candidates (map (\<lambda>(k, p, h). cand k p h 0) (sorted_hits t lo hi))
       (sort_key candidate_rank (extract_append (ag_region (active_gen t)) 2 lo hi
          @ (case t1_immutable t of None \<Rightarrow> [] | Some g \<Rightarrow> extract_append (ag_region (t1_gens t g)) 1 lo hi)))"

lemma scan_candidates_set:
  assumes "t1_inv t"
  shows "cand k p h n \<in> set (scan_candidates t lo hi) \<longleftrightarrow> in_range lo hi k \<and>
    live_only (region_map t n) (k, clean_hash h) = Some \<lparr>lr_payload_bits = p, lr_raw_hash = h\<rparr>"
proof -
  have wf: "sorted_wf (sorted_cur t)" "gen_wf (t1_append_cap t) (active_gen t)"
    and immwf: "\<And>g. t1_immutable t = Some g \<Longrightarrow> gen_wf (t1_append_cap t) (t1_gens t g)"
    using assms by (auto simp: t1_inv_def)
  have "cand k p h n \<in> set (map (\<lambda>(k, p, h). cand k p h 0) (sorted_hits t lo hi)) \<longleftrightarrow>
      n = 0 \<and> (k, p, h) \<in> set (sorted_hits t lo hi)"
    by (force simp: cand_def image_iff)
  then have "cand k p h n \<in> set (scan_candidates t lo hi) \<longleftrightarrow>
      n = 0 \<and> (k, p, h) \<in> set (sorted_hits t lo hi)
      \<or> cand k p h n \<in> set (extract_append (ag_region (active_gen t)) 2 lo hi)
      \<or> (\<exists>g. t1_immutable t = Some g \<and> cand k p h n \<in> set (extract_append (ag_region (t1_gens t g)) 1 lo hi))"
    by (auto simp: scan_candidates_def split: option.splits)
  also have "\<dots> \<longleftrightarrow> in_range lo hi k \<and>
      live_only (region_map t n) (k, clean_hash h) = Some \<lparr>lr_payload_bits = p, lr_raw_hash = h\<rparr>"
    unfolding sorted_hits_set [OF wf(1)] cand_def extract_append_set [OF wf(2)]
    using extract_append_set [OF immwf]
    by (auto simp: region_map_def imm_map_def live_only_def split: option.splits)
  finally show ?thesis .
qed

lemma scan_candidates_sorted:
  assumes "sorted_wf (sorted_cur t)"
  shows "sorted (map candidate_rank (scan_candidates t lo hi))"
proof -
  have "sorted_wrt (\<lambda>a b. ss_key a \<le> ss_key b) (sr_slots (sorted_cur t))" by (rule sorted_wf_keys [OF assms])
  then have "sorted (map candidate_rank (map (\<lambda>(k, p, h). cand k p h 0) (sorted_hits t lo hi)))"
    by (simp add: sorted_hits_def walk_sorted_region_filter [OF assms] sorted_wrt_map comp_def candidate_rank_def
        less_eq_prod_def order_le_less sorted_wrt_filter)
  then show ?thesis unfolding scan_candidates_def by (rule merge_candidates_sorted) simp
qed

lemma t1_scan_prefixes_cases:
  "t1_scan_prefixes t lo hi =
     (if scan_region_disjoint (ag_region (active_gen t)) lo hi
         \<and> (\<forall>g. t1_immutable t = Some g \<longrightarrow> scan_region_disjoint (ag_region (t1_gens t g)) lo hi)
      then sorted_hits t lo hi else dedup_candidates None (scan_candidates t lo hi))"
  by (auto simp: t1_scan_prefixes_def scan_candidates_def sorted_hits_def cand_def Let_def comp_def
      case_prod_unfold split: option.splits)

lemma t1_scan_exact:
  assumes "t1_inv t" "mask_free t" "prefix_unique t"
  shows "scan_exact t lo hi (t1_scan_prefixes t lo hi)"
  unfolding t1_scan_prefixes_cases
  using scan_fast_path [OF assms(1,3)] scan_slow_path [OF assms scan_candidates_sorted scan_candidates_set [OF assms(1)]]
    assms(1)
  by (auto simp: t1_inv_def)

text \<open>
  A range scan of a shard without prefix collisions and without tombstones that hide live
  entries delivers each live entry whose prefix lies between the prefixes of the two bounds exactly
  once, with its current payload and hash, in strictly ascending key order, on the fast and on the
  slow path; in particular every live key of the byte range itself is delivered.
\<close>

lemma t1_scan_correct:
  assumes "t1_inv t" "mask_free t" "prefix_unique t"
  shows "sorted_wrt (<) (map fst (t1_scan t lo hi))
    \<and> (\<forall>k p h. (k, p, h) \<in> set (t1_scan t lo hi) \<longleftrightarrow>
          prefix_from_bytes lo \<le> k \<and> k \<le> prefix_from_bytes hi
          \<and> live_view t (k, clean_hash h) = Some \<lparr>lr_payload_bits = p, lr_raw_hash = h\<rparr>)
    \<and> (\<forall>key. lo \<le> key \<longrightarrow> key \<le> hi \<longrightarrow> is_live (t1_get t key) \<longrightarrow>
          (prefix_from_bytes key, t1_get t key, lr_raw_hash (get_with_hash t key)) \<in> set (t1_scan t lo hi))"
proof -
  let ?lo = "prefix_from_bytes lo" and ?hi = "prefix_from_bytes hi"
  note ex = t1_scan_exact [OF assms, of ?lo ?hi, unfolded scan_exact_def in_range_def]
  have "(prefix_from_bytes key, t1_get t key, lr_raw_hash (get_with_hash t key)) \<in> set (t1_scan t lo hi)"
    if key: "lo \<le> key" "key \<le> hi" "is_live (t1_get t key)" for key
  proof -
    let ?x = "prepare_key_and_hash key"
    from key(3) obtain r where r: "t1_map t ?x = Some r" "get_with_hash t key = r"
      by (auto simp: t1_get_def get_with_hash_t1_map [OF assms(1)] not_found_result_def is_live_def split: option.splits)
    then have lv: "live_view t ?x = Some r" using key(3) by (simp add: live_view_def live_only_Some t1_get_def)
    then obtain n where "region_map t n ?x = Some r"
      using live_view_region [OF assms(2)] by (auto simp: live_only_Some)
    then have "clean_hash (lr_raw_hash r) = hash_full_key key"
      using region_map_hash [OF assms(1)] by (fastforce simp: prepare_key_and_hash_def)
    with lv r ex key(1,2) show ?thesis
      by (simp add: t1_scan_def t1_get_def prepare_key_and_hash_def prefix_mono)
  qed
  with ex show ?thesis by (simp add: t1_scan_def)
qed

section \<open>Loading a checkpointed region\<close>

lemma load_sorted_region_correct:
  assumes "t1_inv t" "sorted_wrt (<) (map es_ident es)" "t1_immutable t = None" "gen_map (active_gen t) = Map.empty"
  shows "t1_inv (load_sorted_region_from_checkpoint t es)"
    and "mask_free (load_sorted_region_from_checkpoint t es)"
    and "t1_map (load_sorted_region_from_checkpoint t es) = keyed_map es_ident es_result es"
proof -
  let ?t = "load_sorted_region_from_checkpoint t es"
  note new = SortedRegion_of_correct [OF assms(2), of "t1_use_bloom t"]
  show "t1_inv ?t" using assms new(1) by (auto simp: load_sorted_region_from_checkpoint_def t1_inv_def)
  have maps: "gen_map (active_gen ?t) = Map.empty" "imm_map ?t = Map.empty"
      "sorted_map (sorted_cur ?t) = keyed_map es_ident es_result es"
    using assms new(2) by (auto simp: load_sorted_region_from_checkpoint_def imm_map_def)
  show "mask_free ?t" by (rule mask_freeI) (simp_all add: maps tombstoned_def)
  show "t1_map ?t = keyed_map es_ident es_result es" by (simp add: t1_map_def maps)
qed

text \<open>
  The clean-shard shortcut of the checkpoint: with an empty append region the dump is the merge.
\<close>

lemma key_bounds:
  fixes k :: store_key
  assumes "length k = kStoreKeyBytes"
  shows "in_range (replicate kStoreKeyBytes 0) (replicate kStoreKeyBytes 0xFF) k"
proof -
  have le: "length xs = n \<Longrightarrow> xs \<le> replicate n 0xFF" for xs :: bytes and n
  proof (induction xs arbitrary: n)
    case (Cons x xs)
    have "x \<le> 0xFF" using word_le_nat_alt unat_byte_less [of x] by (simp add: word_le_nat_alt)
    with Cons show ?case by (cases n) (auto simp: order_le_less)
  qed simp
  from le [OF assms] replicate_zero_least [OF assms] show ?thesis by (simp add: in_range_def)
qed

lemma dump_sorted_region_merge:
  assumes "t1_inv t" "ar_tail (ag_region (active_gen t)) = 0"
    and keys: "\<And>s. s \<in> set (sr_slots (sorted_cur t)) \<Longrightarrow> length (ss_key s) = kStoreKeyBytes"
  shows "dump_sorted_region t = reorg_merge (sorted_cur t) (ag_region (active_gen t))"
proof -
  have wf: "sorted_wf (sorted_cur t)" using assms(1) by (simp add: t1_inv_def)
  have "dump_sorted_region t = map snapshot_of (filter (\<lambda>s. is_live (ss_payload s)) (sr_slots (sorted_cur t)))"
    unfolding dump_sorted_region_def walk_sorted_region_filter [OF wf] map_map
    by (intro arg_cong2 [where f = map] filter_cong)
      (use key_bounds keys in \<open>auto simp: snapshot_of_def ss_load_consistent_def fun_eq_iff\<close>)
  also have "\<dots> = merge_newer es_ident \<dots> []" by simp
  finally show ?thesis
    using assms(2) by (simp add: reorg_merge_def ar_size_def ar_collect_live_entries_def merge_loop_correct)
qed

definition one_entry_index :: T1Index where
  "one_entry_index = load_sorted_region_from_checkpoint (T1Index_new False 1)
     [\<lparr>es_key = demo_key, es_payload = 9, es_hash = 5\<rparr>]"

lemma t1_scan_correct_witness:
  "sorted_wrt (<) (map fst (t1_scan one_entry_index [0] [2]))
    \<and> (demo_key, 9, 5) \<in> set (t1_scan one_entry_index [0] [2])"
proof -
  have "t1_immutable (T1Index_new False 1) = None" "gen_map (active_gen (T1Index_new False 1)) = Map.empty"
    by (simp_all add: T1Index_new_def t1_state_simps)
  note load = load_sorted_region_correct [OF t1_inv_new _ this,
      of "[\<lparr>es_key = demo_key, es_payload = 9, es_hash = 5\<rparr>]", folded one_entry_index_def]
  have "prefix_unique one_entry_index" by (auto simp: prefix_unique_def load split: if_splits)
  with t1_scan_correct [of one_entry_index "[0]" "[2]"] load(1,2)
  have scan: "sorted_wrt (<) (map fst (t1_scan one_entry_index [0] [2]))"
      "\<forall>k p h. (k, p, h) \<in> set (t1_scan one_entry_index [0] [2]) \<longleftrightarrow>
          prefix_from_bytes [0] \<le> k \<and> k \<le> prefix_from_bytes [2]
          \<and> live_view one_entry_index (k, clean_hash h) = Some \<lparr>lr_payload_bits = p, lr_raw_hash = h\<rparr>"
    by simp_all
  have c: "clean_hash 5 = 5" "is_live 9" "prefix_from_bytes [0] \<le> demo_key" "demo_key \<le> prefix_from_bytes [2]"
    by code_simp+
  then have "live_view one_entry_index (demo_key, clean_hash 5) = Some \<lparr>lr_payload_bits = 9, lr_raw_hash = 5\<rparr>"
    by (simp add: live_view_def live_only_def load es_ident_def es_result_def)
  with scan c show ?thesis by blast
qed

section \<open>Prefix collisions\<close>

definition takes_fast_path :: "T1Index \<Rightarrow> bytes \<Rightarrow> bytes \<Rightarrow> bool" where
  "takes_fast_path t lo hi \<longleftrightarrow> scan_region_disjoint (ag_region (active_gen t)) (prefix_from_bytes lo) (prefix_from_bytes hi)
     \<and> (case t1_immutable t of None \<Rightarrow> True
        | Some g \<Rightarrow> scan_region_disjoint (ag_region (t1_gens t g)) (prefix_from_bytes lo) (prefix_from_bytes hi))"

lemma fast_path_absent:
  assumes inv: "t1_inv t" and fast: "takes_fast_path t lo hi" and k: "in_range (prefix_from_bytes lo) (prefix_from_bytes hi) k"
  shows "gen_map (active_gen t) (k, h) = None" "imm_map t (k, h) = None"
proof -
  have "gen_wf (t1_append_cap t) (active_gen t)" using inv by (simp add: t1_inv_def)
  from out_of_bounds_absent [OF this _ k] fast show "gen_map (active_gen t) (k, h) = None"
    by (simp add: takes_fast_path_def scan_region_disjoint_def)
  show "imm_map t (k, h) = None"
  proof (cases "t1_immutable t")
    case (Some g)
    then have "gen_wf (t1_append_cap t) (t1_gens t g)" using inv by (auto simp: t1_inv_def)
    from out_of_bounds_absent [OF this _ k] fast Some show ?thesis
      by (simp add: takes_fast_path_def scan_region_disjoint_def imm_map_def)
  qed (simp add: imm_map_def)
qed

lemma lookup_region:
  assumes inv: "t1_inv t" and l: "lookup_by_prefix_hash t k h = r" "is_live (lr_payload_bits r)"
  shows "t1_map t (k, h) = Some r" "clean_hash (lr_raw_hash r) = h"
proof -
  show m: "t1_map t (k, h) = Some r"
    using l unfolding lookup_t1_map [OF inv] by (auto simp: not_found_result_def is_live_def split: option.splits)
  then have "\<exists>n. region_map t n (k, h) = Some r"
    by (auto simp: t1_map_def map_add_Some_iff region_map_def split: if_splits
        intro: exI [of _ "0 :: int"] exI [of _ "1 :: int"] exI [of _ "2 :: int"])
  then show "clean_hash (lr_raw_hash r) = h" using region_map_hash [OF inv] by auto
qed

text \<open>
  C31: the two scan paths disagree on distinct keys that share their first sixteen bytes. In any
  well-formed index let two entries with the same prefix and different hashes both be live, and let
  the scanned range cover the prefix. When no append region reaches into the range the scan streams
  the sorted region and delivers both. As soon as an append region does, the candidates are
  deduplicated by prefix alone and at most one entry with that prefix is delivered, so one of two
  keys that a lookup finds is missing from the scan.
\<close>

theorem scan_drops_prefix_collision:
  assumes "t1_inv t" "prefix_from_bytes lo \<le> k" "k \<le> prefix_from_bytes hi" "h1 \<noteq> h2"
    and "lookup_by_prefix_hash t k h1 = r1" "is_live (lr_payload_bits r1)" "lookup_by_prefix_hash t k h2 = r2" "is_live (lr_payload_bits r2)"
  defines "hit r \<equiv> (k, lr_payload_bits r, lr_raw_hash r)"
  shows "if takes_fast_path t lo hi then hit r1 \<in> set (t1_scan t lo hi) \<and> hit r2 \<in> set (t1_scan t lo hi)
    else \<not> (hit r1 \<in> set (t1_scan t lo hi) \<and> hit r2 \<in> set (t1_scan t lo hi))"
proof -
  let ?lo = "prefix_from_bytes lo" and ?hi = "prefix_from_bytes hi"
  have k: "in_range ?lo ?hi k" using assms(2,3) by (simp add: in_range_def)
  have wf: "sorted_wf (sorted_cur t)" using assms(1) by (simp add: t1_inv_def)
  note m1 = lookup_region [OF assms(1,5,6)] and m2 = lookup_region [OF assms(1,7,8)]
  show ?thesis
  proof (cases "takes_fast_path t lo hi")
    case True
    have "t1_scan t lo hi = sorted_hits t ?lo ?hi"
      using True by (auto simp: t1_scan_def t1_scan_prefixes_cases takes_fast_path_def)
    moreover have "hit r \<in> set (sorted_hits t ?lo ?hi)" if "t1_map t (k, h) = Some r" "clean_hash (lr_raw_hash r) = h" "is_live (lr_payload_bits r)" for h r
    proof -
      have "sorted_map (sorted_cur t) (k, h) = Some r"
        using that(1) fast_path_absent [OF assms(1) True k, of h] by (simp add: t1_map_def map_add_def)
      then show ?thesis using k that(2,3) unfolding hit_def sorted_hits_set [OF wf] by (simp add: live_only_def)
    qed
    ultimately show ?thesis using True m1 m2 assms(6,8) by simp
  next
    case False
    have s: "t1_scan t lo hi = dedup_candidates None (scan_candidates t ?lo ?hi)"
      using False by (auto simp: t1_scan_def t1_scan_prefixes_cases takes_fast_path_def split: option.splits)
    have "sorted_wrt (<) (map fst (t1_scan t lo hi))"
      unfolding s using dedup_candidates_sorted [OF scan_candidates_sorted [OF wf]] by blast
    then have "distinct (map fst (t1_scan t lo hi))" by (simp add: strict_sorted_iff)
    moreover have "hit r1 \<noteq> hit r2" using m1(2) m2(2) assms(4) by (auto simp: hit_def)
    moreover have "fst (hit r1) = fst (hit r2)" by (simp add: hit_def)
    ultimately have "\<not> (hit r1 \<in> set (t1_scan t lo hi) \<and> hit r2 \<in> set (t1_scan t lo hi))"
      unfolding distinct_map by (meson inj_onD)
    then show ?thesis using False by simp
  qed
qed

text \<open>Two entries with one prefix in the sorted region, and a third key written to the append region.\<close>

definition colliding_index :: T1Index where
  "colliding_index = load_sorted_region_from_checkpoint (T1Index_new False 1)
     [\<lparr>es_key = demo_key, es_payload = 9, es_hash = 5\<rparr>, \<lparr>es_key = demo_key, es_payload = 8, es_hash = 6\<rparr>]"

theorem scan_drops_prefix_collision_witness:
  "\<exists>t'. put_with_stored_hash colliding_index (prefix_from_bytes [2]) 7 7 3 = Some (Applied, t')
     \<and> (demo_key, 9, 5) \<in> set (t1_scan colliding_index [0] [3]) \<and> (demo_key, 8, 6) \<in> set (t1_scan colliding_index [0] [3])
     \<and> lr_payload_bits (lookup_by_prefix_hash t' demo_key 5) = 9 \<and> lr_payload_bits (lookup_by_prefix_hash t' demo_key 6) = 8
     \<and> \<not> ((demo_key, 9, 5) \<in> set (t1_scan t' [0] [3]) \<and> (demo_key, 8, 6) \<in> set (t1_scan t' [0] [3]))"
proof -
  let ?t = colliding_index
  let ?t' = "snd (the (put_with_stored_hash ?t (prefix_from_bytes [2]) 7 7 3))"
  have e: "map_option fst (put_with_stored_hash ?t (prefix_from_bytes [2]) 7 7 3) = Some Applied"
    "lookup_by_prefix_hash ?t demo_key 5 = \<lparr>lr_payload_bits = 9, lr_raw_hash = 5\<rparr>" "lookup_by_prefix_hash ?t demo_key 6 = \<lparr>lr_payload_bits = 8, lr_raw_hash = 6\<rparr>"
    "lookup_by_prefix_hash ?t' demo_key 5 = \<lparr>lr_payload_bits = 9, lr_raw_hash = 5\<rparr>" "lookup_by_prefix_hash ?t' demo_key 6 = \<lparr>lr_payload_bits = 8, lr_raw_hash = 6\<rparr>"
    "takes_fast_path ?t [0] [3]" "\<not> takes_fast_path ?t' [0] [3]" "is_live 9" "is_live 8" "clean_hash 7 = 7" "clean_hash 5 = 5" "clean_hash 6 = 6"
    "prefix_from_bytes [0] \<le> demo_key" "demo_key \<le> prefix_from_bytes [3]" by code_simp+
  have p: "put_with_stored_hash ?t (prefix_from_bytes [2]) 7 7 3 = Some (Applied, ?t')" using e(1) by (cases "put_with_stored_hash ?t (prefix_from_bytes [2]) 7 7 3") auto
  have "t1_immutable (T1Index_new False 1) = None" "gen_map (active_gen (T1Index_new False 1)) = Map.empty"
    by (simp_all add: T1Index_new_def t1_state_simps)
  from load_sorted_region_correct(1) [OF t1_inv_new _ this] e(11,12) have i: "t1_inv ?t"
    by (simp add: colliding_index_def es_ident_def less_prod_def)
  have i': "t1_inv ?t'" using put_correct [OF i e(10), of "prefix_from_bytes [2]" 3] p
    by (auto simp: put_outcome_def simp del: option.sel)
  have n: "(5::u64) \<noteq> 6" by simp
  have s: "(demo_key, 9, 5) \<in> set (t1_scan ?t [0] [3]) \<and> (demo_key, 8, 6) \<in> set (t1_scan ?t [0] [3])"
    using scan_drops_prefix_collision [OF i e(13,14) n e(2) _ e(3)] e(6,8,9) by simp
  have s': "\<not> ((demo_key, 9, 5) \<in> set (t1_scan ?t' [0] [3]) \<and> (demo_key, 8, 6) \<in> set (t1_scan ?t' [0] [3]))"
    using scan_drops_prefix_collision [OF i' e(13,14) n e(4) _ e(5)] e(7-9) by simp
  show ?thesis by (rule exI [of _ ?t']) (use p s s' e(4,5) in simp)
qed

end
