(* ===== verification/Key_Codec.thy ===== *)
theory Key_Codec
  imports Bytes_Util
begin

text \<open>
  \<^verbatim>\<open>api/serializer.hpp\<close>: integral keys are stored big-endian with the sign bit flipped,
  integral values little-endian in eight bytes. Shown here: the key encoding is injective and
  turns the numeric order (unsigned and two's complement) into the byte order the index and the
  range scan use, and both encodings decode back.
\<close>

section \<open>Definitions\<close>

definition kEncodedValueBytes :: nat where
  "kEncodedValueBytes = 8"

text \<open>The bytes of a native little-endian object, and those after \<^verbatim>\<open>std::byteswap\<close>.\<close>

definition object_bytes :: "'a::len word \<Rightarrow> bytes" where
  "object_bytes w = to_le (LENGTH('a) div 8) (unat w)"

definition byteswapped_bytes :: "'a::len word \<Rightarrow> bytes" where
  "byteswapped_bytes w = rev (object_bytes w)"

text \<open>
  \<open>is_signed\<close> is \<^verbatim>\<open>std::is_signed_v<BareInt>\<close>; the argument is the value converted to
  the unsigned type of the same width.
\<close>

definition encode_integral_key :: "bool \<Rightarrow> 'a::len word \<Rightarrow> bytes" where
  "encode_integral_key is_signed value =
     (let sign_bit = push_bit (LENGTH('a) - 1) 1;
          encoded = (if is_signed then value XOR sign_bit else value)
      in byteswapped_bytes encoded)"

definition encode_integral_value :: "u64 \<Rightarrow> bytes" where
  "encode_integral_value value = to_le kEncodedValueBytes (unat value)"

section \<open>Big-endian bytes and the lexicographic order\<close>

lemma length_object_bytes: "length (object_bytes (w :: 'a::len word)) = LENGTH('a) div 8"
  by (simp add: object_bytes_def)

lemma rev_to_le_Suc: "rev (to_le (Suc n) v) = rev (to_le n (v div 256)) @ [word_of_nat v]"
  by simp

lemma append_same_length_less:
  fixes a b :: "'a::order list"
  assumes "length a = length b"
  shows "a @ [x] < b @ [y] \<longleftrightarrow> a < b \<or> a = b \<and> x < y"
  using assms
proof (induction a arbitrary: b)
  case Nil
  then show ?case by simp
next
  case (Cons c a)
  then obtain d b' where "b = d # b'" "length a = length b'" by (cases b) auto
  with Cons.IH show ?case by auto
qed

lemma to_le_inj: "u < 256 ^ n \<Longrightarrow> v < 256 ^ n \<Longrightarrow> to_le n u = to_le n v \<Longrightarrow> u = v"
  by (metis mod_less of_le_to_le)

lemma nat_less_by_base:
  "(u :: nat) < v \<longleftrightarrow> u div 256 < v div 256 \<or> u div 256 = v div 256 \<and> u mod 256 < v mod 256"
proof -
  define a b c d where "a = u div 256" "b = u mod 256" "c = v div 256" "d = v mod 256"
  have "u = a * 256 + b" "v = c * 256 + d" "b < 256" "d < 256"
    by (simp_all add: a_b_c_d_def)
  then show ?thesis
    unfolding a_b_c_d_def [symmetric] by linarith
qed

lemma byte_of_nat_less: "(word_of_nat u :: byte) < word_of_nat v \<longleftrightarrow> u mod 256 < v mod 256"
  by (simp add: word_less_nat_alt unat_byte_of_nat)

lemma big_endian_less:
  "u < 256 ^ n \<Longrightarrow> v < 256 ^ n \<Longrightarrow> rev (to_le n u) < rev (to_le n v) \<longleftrightarrow> u < v"
proof (induction n arbitrary: u v)
  case 0
  then show ?case by simp
next
  case (Suc n)
  have small: "u div 256 < 256 ^ n" "v div 256 < 256 ^ n"
    using Suc.prems by (auto simp: less_mult_imp_div_less mult.commute)
  have "rev (to_le n (u div 256)) = rev (to_le n (v div 256)) \<longleftrightarrow> u div 256 = v div 256"
    using to_le_inj [OF small] by auto
  then show ?case
    unfolding rev_to_le_Suc
    using Suc.IH [OF small]
    by (simp only: append_same_length_less length_rev length_to_le byte_of_nat_less)
      (use nat_less_by_base [of u v] in blast)
qed

section \<open>Order and round trip of the key encoding\<close>

lemma unat_less_byte_pow:
  assumes "LENGTH('a::len) = 8 * n"
  shows "unat (w :: 'a word) < 256 ^ n"
  using unat_less_2p [of w] by (simp add: assms power_mult)

lemma byteswapped_less:
  fixes v w :: "'a::len word"
  assumes "LENGTH('a) = 8 * n"
  shows "byteswapped_bytes v < byteswapped_bytes w \<longleftrightarrow> v < w"
  using big_endian_less [OF unat_less_byte_pow [OF assms, of v] unat_less_byte_pow [OF assms, of w]]
  by (simp add: byteswapped_bytes_def object_bytes_def assms word_less_nat_alt)

lemma byteswapped_decode:
  fixes w :: "'a::len word"
  assumes "LENGTH('a) = 8 * n"
  shows "word_of_nat (of_le (rev (byteswapped_bytes w))) = w"
  using unat_less_byte_pow [OF assms, of w]
  by (simp add: byteswapped_bytes_def object_bytes_def assms of_le_to_le)

text \<open>Flipping the sign bit adds half the range, modulo the width.\<close>

lemma two_pow_double: "(2 :: 'a::len word) ^ (LENGTH('a) - Suc 0) + 2 ^ (LENGTH('a) - Suc 0) = 0"
proof -
  have "(2 :: 'a word) ^ (LENGTH('a) - Suc 0) + 2 ^ (LENGTH('a) - Suc 0)
      = 2 ^ Suc (LENGTH('a) - Suc 0)" by (simp only: power_Suc mult_2)
  also have "Suc (LENGTH('a) - Suc 0) = LENGTH('a)" by simp
  finally show ?thesis by simp
qed

lemma xor_sign_bit_eq_add:
  fixes v :: "'a::len word"
  shows "v XOR 2 ^ (LENGTH('a) - Suc 0) = v + 2 ^ (LENGTH('a) - Suc 0)"
proof -
  let ?n = "LENGTH('a) - Suc 0"
  have neg: "- ((2 :: 'a word) ^ ?n) = 2 ^ ?n"
    using two_pow_double by (rule minus_unique)
  have "flip_bit ?n v = v + 2 ^ ?n"
  proof (cases "bit v ?n")
    case True
    then have "flip_bit ?n v = v - 2 ^ ?n" by (simp add: flip_bit_eq_if unset_bit_eq)
    then show ?thesis using neg by (metis diff_conv_add_uminus)
  next
    case False
    then show ?thesis by (simp add: flip_bit_eq_if set_bit_eq)
  qed
  then show ?thesis by (simp add: flip_bit_eq_xor push_bit_eq_mult)
qed

lemma uint_xor_sign_bit:
  fixes v :: "'a::len word"
  shows "uint (v XOR 2 ^ (LENGTH('a) - Suc 0)) = sint v + 2 ^ (LENGTH('a) - Suc 0)"
proof -
  let ?n = "LENGTH('a) - Suc 0"
  have suc: "Suc ?n = LENGTH('a)" by simp
  have "sint v = signed_take_bit ?n (uint v)" by (simp add: sint_uint)
  also have "\<dots> = take_bit (Suc ?n) (uint v + 2 ^ ?n) - 2 ^ ?n"
    by (rule signed_take_bit_eq_take_bit_shift)
  also have "take_bit (Suc ?n) (uint v + 2 ^ ?n) = take_bit LENGTH('a) (uint v + 2 ^ ?n)"
    by (simp only: suc)
  finally have "sint v + 2 ^ ?n = take_bit LENGTH('a) (uint v + 2 ^ ?n)" by simp
  also have "\<dots> = uint (v + 2 ^ ?n)"
    using uint_2p [where 'a = 'a, of ?n]
    by (simp add: take_bit_eq_mod uint_word_ariths word_gt_0 not_le)
  finally show ?thesis by (simp only: xor_sign_bit_eq_add)
qed

text \<open>
  The serialized form of integral keys sorts as the keys do. For every integer width that is a
  whole number of bytes, comparing two encoded keys byte-wise gives the order of the numbers,
  two's complement for signed types and natural for unsigned ones, so a range scan over encoded
  bounds is a numeric range scan.
\<close>

lemma encode_integral_key_order:
  fixes v w :: "'a::len word"
  assumes "LENGTH('a) = 8 * n"
  shows "encode_integral_key is_signed v < encode_integral_key is_signed w
    \<longleftrightarrow> (if is_signed then sint v < sint w else uint v < uint w)"
proof -
  have "v XOR 2 ^ (LENGTH('a) - Suc 0) < w XOR 2 ^ (LENGTH('a) - Suc 0) \<longleftrightarrow> sint v < sint w"
    by (simp add: word_less_def uint_xor_sign_bit)
  then show ?thesis
    by (simp add: encode_integral_key_def Let_def byteswapped_less [OF assms] word_less_def)
qed

lemma encode_integral_key_order_witness:
  "encode_integral_key True (- 5 :: u32) < encode_integral_key True (3 :: u32)
    \<and> \<not> encode_integral_key False (- 5 :: u32) < encode_integral_key False (3 :: u32)"
proof -
  have w: "LENGTH(32) = 8 * 4" by simp
  show ?thesis
    using encode_integral_key_order [OF w, of True "- 5" 3]
      encode_integral_key_order [OF w, of False "- 5" 3] by simp
qed

lemma encode_integral_key_inj:
  fixes v w :: "'a::len word"
  assumes "LENGTH('a) = 8 * n" "encode_integral_key s v = encode_integral_key s w"
  shows "v = w"
proof -
  have "byteswapped_bytes x = byteswapped_bytes y \<Longrightarrow> x = y" for x y :: "'a word"
    by (metis assms(1) byteswapped_decode)
  then have "(if s then v XOR 2 ^ (LENGTH('a) - Suc 0) else v)
      = (if s then w XOR 2 ^ (LENGTH('a) - Suc 0) else w)"
    using assms(2) by (auto simp: encode_integral_key_def Let_def)
  then show ?thesis by (auto simp: xor_sign_bit_eq_add split: if_splits)
qed

lemma encode_integral_value_decode: "u64_of_le (encode_integral_value v) = v"
  using u64_of_le_u64_le [of v]
  by (simp add: encode_integral_value_def kEncodedValueBytes_def u64_le_def)

end
