(* ===== verification/Live_Index.thy ===== *)
theory Live_Index
  imports T1_Scan
begin

text \<open>
  The contract of a key index as the layers above use it, and the proof that one shard's index
  fulfils it between operations. \<open>live_index\<close> is the interface of the store and of the sharded
  index: a lookup answers with the live view, a write changes exactly its own key.
\<close>

section \<open>The interface\<close>

definition stored_hash :: "bytes \<Rightarrow> bool \<Rightarrow> byte \<Rightarrow> u64" where
  "stored_hash key inl n = (if inl then embed_metadata (hash_full_key key) n else hash_full_key key)"

abbreviation ident_of :: "bytes \<Rightarrow> ident" where
  "ident_of key \<equiv> prepare_key_and_hash key"

definition put_view :: "(ident \<rightharpoonup> LookupResult) \<Rightarrow> bytes \<Rightarrow> u64 \<Rightarrow> u64 \<Rightarrow> ident \<rightharpoonup> LookupResult" where
  "put_view m key value stored =
     m(ident_of key := if is_live value then Some \<lparr>lr_payload_bits = value, lr_raw_hash = stored\<rparr> else None)"

locale live_index =
  fixes inv :: "'t \<Rightarrow> bool"
    and view :: "'t \<Rightarrow> ident \<rightharpoonup> LookupResult"
    and get :: "'t \<Rightarrow> bytes \<Rightarrow> LookupResult"
    and put :: "'t \<Rightarrow> bytes \<Rightarrow> u64 \<Rightarrow> bool \<Rightarrow> byte \<Rightarrow> (PutResult \<times> 't) option"
  assumes get_law: "inv t \<Longrightarrow>
      (case view t (ident_of key) of Some r \<Rightarrow> get t key = r | None \<Rightarrow> lr_payload_bits (get t key) = STORE_NOT_FOUND)"
    and view_live: "inv t \<Longrightarrow> view t x = Some r \<Longrightarrow> is_live (lr_payload_bits r)"
    and put_law: "inv t \<Longrightarrow> put t key value inl n = Some (res, t') \<Longrightarrow>
      inv t' \<and> view t' = (if res = Applied then put_view (view t) key value (stored_hash key inl n) else view t)"
begin

lemma get_live_iff: "inv t \<Longrightarrow> is_live (lr_payload_bits (get t key)) \<longleftrightarrow> view t (ident_of key) \<noteq> None"
  using get_law [of t key] view_live [of t "ident_of key"]
  by (auto simp: is_live_def split: option.splits)

lemma get_after_put:
  assumes "inv t" "put t key value inl n = Some (Applied, t')" "is_live value"
  shows "get t' key = \<lparr>lr_payload_bits = value, lr_raw_hash = stored_hash key inl n\<rparr>"
  using put_law [OF assms(1,2)] get_law [of t' key] assms(3) by (simp add: put_view_def)

lemma get_other_after_put:
  assumes "inv t" "put t key value inl n = Some (res, t')" "ident_of key' \<noteq> ident_of key"
  shows "view t' (ident_of key') = view t (ident_of key')"
  using put_law [OF assms(1,2)] assms(3) by (simp add: put_view_def)

end

section \<open>One shard between operations\<close>

text \<open>
  No reorganisation is in flight, the regions are well formed, no key is in both regions, and every
  key is a full-width prefix.
\<close>

definition shard_inv :: "T1Index \<Rightarrow> bool" where
  "shard_inv t \<longleftrightarrow> cfg_inv (t, Idle) \<and> dom (gen_map (active_gen t)) \<inter> dom (sorted_map (sorted_cur t)) = {}
     \<and> (\<forall>x \<in> dom (t1_map t). length (fst x) = kStoreKeyBytes)"

lemma shard_invD:
  assumes "shard_inv t"
  shows "cfg_inv (t, Idle)" "t1_inv t" "mask_free t" "t1_immutable t = None" "t1_frozen t = None" "\<not> t1_reorg_in_progress t"
    "imm_map t = Map.empty"
  using assms by (auto simp: shard_inv_def cfg_inv_def imm_map_def)

lemma length_prefix: "length (prefix_from_bytes key) = kStoreKeyBytes"
  by (simp add: prefix_from_bytes_def Let_def)

lemma shard_delete_ok:
  assumes "shard_inv t"
  shows "delete_ok t x"
proof (cases "gen_map (active_gen t) x")
  case None
  then show ?thesis using shard_invD [OF assms] by (simp add: delete_ok_def)
next
  case (Some r)
  then have "sorted_map (sorted_cur t) x = None" using assms by (auto simp: shard_inv_def)
  then show ?thesis using shard_invD(7) [OF assms] by (simp add: delete_ok_def live_only_def)
qed

lemma stored_hash_clean: "clean_hash (stored_hash key inl n) = hash_full_key key"
  by (simp add: stored_hash_def)

lemma shard_put:
  assumes inv: "shard_inv t" and put: "t1_put t key value inl n = Some (res, t')"
  shows "shard_inv t'" "live_view t' = (if res = Applied then put_view (live_view t) key value (stored_hash key inl n) else live_view t)"
proof -
  let ?st = "stored_hash key inl n" and ?x = "ident_of key"
  have p: "put_with_stored_hash t (fst ?x) (clean_hash ?st) ?st value = Some (res, t')"
    using put by (simp add: t1_put_def prepare_key_and_hash_def stored_hash_def [symmetric] stored_hash_clean)
  have x: "?x = (fst ?x, clean_hash ?st)" by (simp add: prepare_key_and_hash_def stored_hash_clean)
  let ?r = "\<lparr>lr_payload_bits = value, lr_raw_hash = ?st\<rparr>"
  from put_step_inv [OF shard_invD(1) [OF inv] p x refl shard_delete_ok [OF inv, THEN disjI2]]
  have cfg: "cfg_inv (t', Idle)"
    and v: "live_view t' = (if res = Applied then (live_view t)(?x := if is_live value then Some ?r else None) else live_view t)"
    by simp_all
  show "live_view t' = (if res = Applied then put_view (live_view t) key value ?st else live_view t)"
    using v by (simp add: put_view_def)
  obtain res' t'' where "put_with_stored_hash t (fst ?x) (clean_hash ?st) ?st value = Some (res', t'')"
      and o': "put_outcome t (fst ?x, clean_hash ?st) ?r res' t''"
    using put_correct [OF shard_invD(2) [OF inv] refl] by blast
  then have out: "put_outcome t ?x ?r res t'" using p x by simp
  show "shard_inv t'"
  proof (cases res)
    case AppendRegionFull
    then show ?thesis using out inv by (simp add: put_outcome_def)
  next
    case Applied
    then have m: "t1_map t' = (t1_map t)(?x \<mapsto> ?r)" and f: "put_frame t ?x ?r t'"
      using out by (simp_all add: put_outcome_def)
    have "dom (gen_map (active_gen t')) \<inter> dom (sorted_map (sorted_cur t')) = {}"
      using f inv shard_invD(4,5,7) [OF inv] unfolding put_frame_def shard_inv_def by (elim disjE exE conjE) auto
    moreover have "\<forall>y \<in> dom (t1_map t'). length (fst y) = kStoreKeyBytes"
      using inv by (auto simp: m shard_inv_def prepare_key_and_hash_def length_prefix)
    ultimately show ?thesis using cfg by (simp add: shard_inv_def)
  qed
qed

lemma shard_put_returns:
  assumes "shard_inv t"
  shows "\<exists>res t'. t1_put t key value inl n = Some (res, t')"
  using put_correct [OF shard_invD(2) [OF assms] stored_hash_clean, of "prefix_from_bytes key" key inl n "value"]
  by (auto simp: t1_put_def prepare_key_and_hash_def stored_hash_def)

lemma shard_put_full:
  assumes "shard_inv t" "t1_put t key value inl n = Some (AppendRegionFull, t')"
  shows "append_capacity t \<le> append_size t" "t' = t"
  using put_correct [OF shard_invD(2) [OF assms(1)] stored_hash_clean, of "prefix_from_bytes key" key inl n "value"] assms(2)
  by (auto simp: t1_put_def prepare_key_and_hash_def stored_hash_def put_outcome_def append_capacity_def)

lemma shard_get:
  assumes "shard_inv t"
  shows "case live_view t (ident_of key) of Some r \<Rightarrow> get_with_hash t key = r
    | None \<Rightarrow> lr_payload_bits (get_with_hash t key) = STORE_NOT_FOUND"
  using get_with_hash_t1_map [OF shard_invD(2) [OF assms], of key]
  by (auto simp: live_view_def live_only_def not_found_result_def is_live_def split: option.splits)

interpretation t1: live_index shard_inv live_view get_with_hash t1_put
  by unfold_locales (use shard_get shard_put in \<open>auto simp: live_view_def live_only_Some\<close>)

section \<open>Merging, dumping and loading a shard\<close>

lemma gen_map_empty_tail:
  assumes "gen_wf cap g" "ar_tail (ag_region g) = 0"
  shows "gen_map g = Map.empty"
proof
  fix x
  have "ht_stored (ag_index g) = {}" using assms by (auto simp: gen_wf_def Let_def)
  then have "ht_lookup (ag_index g) (ar_view (ag_region g)) x = None"
    using ht_lookup_gen_iff [OF assms(1), of x] by (cases "ht_lookup (ag_index g) (ar_view (ag_region g)) x") auto
  then show "gen_map g x = Map.empty x" by (simp add: gen_map_def)
qed

lemma reorganize_frame:
  "t1_append_cap (fst (reorganize m t)) = t1_append_cap t" "t1_use_bloom (fst (reorganize m t)) = t1_use_bloom t"
  by (simp_all add: reorganize_def eval_nat_numeral reorg_prepare_def note_append_region_created_def
      note_append_region_destroyed_def Let_def reorg_publish_def)

lemma reorganize_sorted:
  assumes "shard_inv t" "reorganize (\<lambda>m. m) t = (t', Some merged)"
  shows "sorted_cur t' = SortedRegion_of (t1_use_bloom t) merged" "t1_immutable t' = None"
proof -
  have "\<not> t1_reorg_in_progress t" by (rule shard_invD(6) [OF assms(1)])
  moreover have "t1_active t < t1_next_gen t" "t1_sorted t < t1_next_sorted t"
    using shard_invD(2) [OF assms(1)] by (simp_all add: t1_inv_def)
  ultimately show "sorted_cur t' = SortedRegion_of (t1_use_bloom t) merged" "t1_immutable t' = None"
    using assms(2)
    by (auto simp: reorganize_def eval_nat_numeral reorg_prepare_def note_append_region_created_def
        note_append_region_destroyed_def Let_def reorg_publish_def)
qed

lemma ball_subset: "A \<subseteq> B \<Longrightarrow> \<forall>x\<in>B. P x \<Longrightarrow> \<forall>x\<in>A. P x"
  by blast

lemma live_only_empty: "live_only Map.empty = Map.empty"
  by (simp add: live_only_def fun_eq_iff)

lemma append_size_0: "t1_inv t \<Longrightarrow> append_size t = 0 \<Longrightarrow> gen_map (active_gen t) = Map.empty"
  by (rule gen_map_empty_tail [of "t1_append_cap t"]) (simp_all add: append_size_def ar_size_def t1_inv_def)

lemma shard_reorganize:
  assumes inv: "shard_inv t"
  obtains t' merged where "reorganize (\<lambda>m. m) t = (t', Some merged)" "shard_inv t'" "append_size t' = 0"
    "live_view t' = live_view t" "sorted_wrt (<) (map es_ident merged)" "keyed_map es_ident es_result merged = live_view t"
    "t1_append_cap t' = t1_append_cap t" "t1_use_bloom t' = t1_use_bloom t"
proof -
  obtain t' merged where r: "reorganize (\<lambda>m. m) t = (t', Some merged)" "cfg_inv (t', Idle)" "append_size t' = 0"
      "live_view t' = live_view t" "sorted_wrt T1MergePolicy_less merged" "keyed_map es_ident es_result merged = live_view t"
    using reorganize_effect [OF shard_invD(1) [OF inv]] by blast
  have srt: "sorted_wrt (<) (map es_ident merged)"
    using r(5) by (simp add: sorted_wrt_map T1MergePolicy_less_ident [abs_def])
  have inv': "t1_inv t'" using r(2) by (simp add: cfg_inv_def)
  have g: "gen_map (active_gen t') = Map.empty" by (rule append_size_0 [OF inv' r(3)])
  have "sorted_map (sorted_cur t') = live_view t"
    using SortedRegion_of_correct(2) [OF srt] r(6) by (simp add: reorganize_sorted [OF inv r(1)])
  then have "t1_map t' = live_view t" using g reorganize_sorted(2) [OF inv r(1)] by (simp add: t1_map_def imm_map_def)
  moreover have "dom (live_view t) \<subseteq> dom (t1_map t)" by (auto simp: live_view_def live_only_Some)
  ultimately have "dom (t1_map t') \<subseteq> dom (t1_map t)" by simp
  moreover have "\<forall>x \<in> dom (t1_map t). length (fst x) = kStoreKeyBytes" using inv by (simp add: shard_inv_def)
  ultimately have "\<forall>x \<in> dom (t1_map t'). length (fst x) = kStoreKeyBytes" by (rule ball_subset)
  then have "shard_inv t'" using r(2) g by (simp add: shard_inv_def)
  then show ?thesis using that r srt reorganize_frame [of "\<lambda>m. m" t] by simp
qed

lemma shard_dump:
  assumes inv: "shard_inv t" and "append_size t = 0"
  shows "sorted_wrt (<) (map es_ident (dump_sorted_region t))"
    "keyed_map es_ident es_result (dump_sorted_region t) = live_view t"
proof -
  have t: "t1_inv t" by (rule shard_invD(2) [OF inv])
  have wf: "sorted_wf (sorted_cur t)" "gen_wf (t1_append_cap t) (active_gen t)" using t by (simp_all add: t1_inv_def)
  have "length (ss_key s) = kStoreKeyBytes" if "s \<in> set (sr_slots (sorted_cur t))" for s
  proof -
    have "ss_ident s \<in> dom (sorted_map (sorted_cur t))"
      using that unfolding sorted_map_keyed [OF wf(1)] by (auto simp: domIff keyed_map_None)
    then have "ss_ident s \<in> dom (t1_map t)" by (auto simp: t1_map_dom)
    then have "length (fst (ss_ident s)) = kStoreKeyBytes" using inv unfolding shard_inv_def by blast
    then show ?thesis by (simp add: ss_ident_def)
  qed
  then have d: "dump_sorted_region t = reorg_merge (sorted_cur t) (ag_region (active_gen t))"
    using dump_sorted_region_merge [OF t] assms(2) by (simp add: append_size_def ar_size_def)
  have "live_view t = live_only (sorted_map (sorted_cur t)) ++ live_only (gen_map (active_gen t))"
    using append_size_0 [OF t assms(2)] shard_invD(7) [OF inv]
    by (simp add: live_view_def t1_map_def live_only_empty)
  then show "sorted_wrt (<) (map es_ident (dump_sorted_region t))"
    "keyed_map es_ident es_result (dump_sorted_region t) = live_view t"
    using reorg_merge_correct [OF wf] unfolding d by simp_all
qed

lemma shard_new:
  "shard_inv (T1Index_new b cap)" "live_view (T1Index_new b cap) = Map.empty" "t1_map (T1Index_new b cap) = Map.empty"
proof -
  have inv: "t1_inv (T1Index_new b cap)" and c: "cfg_inv (T1Index_new b cap, Idle)"
    using cfg_inv_new by (auto simp: cfg_inv_def)
  have "append_size (T1Index_new b cap) = 0"
    by (simp add: T1Index_new_def note_append_region_created_def Let_def append_size_def ar_size_def ag_new_def ar_new_def)
  then have g: "gen_map (active_gen (T1Index_new b cap)) = Map.empty" by (rule append_size_0 [OF inv])
  have s: "sorted_map (sorted_cur (T1Index_new b cap)) = Map.empty"
    by (auto simp: T1Index_new_def note_append_region_created_def Let_def sorted_map_def find_sorted_def SortedRegion_empty_def)
  show m: "t1_map (T1Index_new b cap) = Map.empty"
    using g s c by (simp add: t1_map_def imm_map_def cfg_inv_def)
  show "shard_inv (T1Index_new b cap)" using c g m by (simp add: shard_inv_def)
  show "live_view (T1Index_new b cap) = Map.empty" by (simp add: live_view_def m live_only_def fun_eq_iff)
qed

lemma shard_load:
  fixes b cap es
  assumes "sorted_wrt (<) (map es_ident es)" "\<forall>e\<in>set es. length (es_key e) = kStoreKeyBytes"
  defines "t \<equiv> load_sorted_region_from_checkpoint (T1Index_new b cap) es"
  shows "shard_inv t" "live_view t = live_only (keyed_map es_ident es_result es)" "append_size t = 0"
proof -
  let ?n = "T1Index_new b cap"
  have n: "t1_inv ?n" "t1_immutable ?n = None" "append_size ?n = 0"
    using shard_invD(2,4) [OF shard_new(1)] by (simp_all add: T1Index_new_def note_append_region_created_def Let_def append_size_def
        ar_size_def ag_new_def ar_new_def)
  note l = load_sorted_region_correct [OF n(1) assms(1) n(2) append_size_0 [OF n(1,3)]]
  show "live_view t = live_only (keyed_map es_ident es_result es)" by (simp add: live_view_def t_def l(3))
  have "append_size t = append_size ?n" by (simp add: t_def load_sorted_region_from_checkpoint_def append_size_def)
  then show a: "append_size t = 0" using n(3) by simp
  have "pc_inv t Idle" using shard_invD [OF shard_new(1), of b cap] by (simp add: t_def load_sorted_region_from_checkpoint_def)
  moreover have "t1_map t x \<noteq> None \<Longrightarrow> length (fst x) = kStoreKeyBytes" for x
    using assms(2) by (auto simp: t_def l(3) keyed_map_None es_ident_def)
  ultimately show "shard_inv t"
    using l(1,2) append_size_0 [OF _ a] by (auto simp: shard_inv_def cfg_inv_def t_def [symmetric])
qed

end
