(* ===== verification/T2_Flat_File.thy ===== *)
theory T2_Flat_File
  imports Bytes_Util
begin

text \<open>
  \<^verbatim>\<open>t2_flat_file/t2_flat_file.hpp\<close> and \<^verbatim>\<open>.cpp\<close>: the flat record file behind one shared
  memory mapping. The mapping is a byte array; a record is a 24-byte header (the four bytes between
  \<^verbatim>\<open>alloc_len\<close> and \<^verbatim>\<open>version\<close> are structure padding the code never writes) followed by key,
  value and zero padding to eight bytes. Shown here: an appended record reads back, appends and
  in-place updates leave every other record alone, an in-place update reads back and never outgrows
  its allocation; and what a failed append does to the usage counter. The interface the store uses
  is the locale \<open>record_store\<close>.
\<close>

section \<open>Definitions\<close>

definition sizeof_ValueRecordHeader :: nat where
  "sizeof_ValueRecordHeader = 24"

record T2Memory =
  tm_base :: bytes
  tm_capacity :: u64
  tm_bytes_used :: u64
  tm_base_boundary :: u64

record ValueRecordHeader =
  vh_key_len :: u32
  vh_value_len :: u32
  vh_alloc_len :: u32
  vh_version :: u64

record T2RecordView =
  rv_header :: ValueRecordHeader
  rv_key :: bytes
  rv_value :: bytes

datatype T2Error = CapacityExceeded

definition T2Memory_new :: "bytes \<Rightarrow> u64 \<Rightarrow> u64 \<Rightarrow> T2Memory" where
  "T2Memory_new base_bytes capacity_bytes initial_bytes_used =
     \<lparr>tm_base = base_bytes, tm_capacity = capacity_bytes, tm_bytes_used = initial_bytes_used,
      tm_base_boundary = initial_bytes_used\<rparr>"

definition read_header :: "bytes \<Rightarrow> nat \<Rightarrow> ValueRecordHeader" where
  "read_header m off =
     \<lparr>vh_key_len = u32_of_le (mem_read m off 4), vh_value_len = u32_of_le (mem_read m (off + 4) 4),
      vh_alloc_len = u32_of_le (mem_read m (off + 8) 4), vh_version = u64_of_le (mem_read m (off + 16) 8)\<rparr>"

definition make_record_view :: "bytes \<Rightarrow> nat \<Rightarrow> T2RecordView" where
  "make_record_view m off =
     (let header = read_header m off;
          key_begin = off + sizeof_ValueRecordHeader;
          key_len = unat (vh_key_len header)
      in \<lparr>rv_header = header, rv_key = mem_read m key_begin key_len,
          rv_value = mem_read m (key_begin + key_len) (unat (vh_value_len header))\<rparr>)"

definition t2_at :: "u64 \<Rightarrow> T2Memory \<Rightarrow> T2RecordView" where
  "t2_at payload mem = make_record_view (tm_base mem) (unat payload)"

definition record_len :: "bytes \<Rightarrow> bytes \<Rightarrow> u64" where
  "record_len key value =
     record_aligned_len (word_of_nat sizeof_ValueRecordHeader) (word_of_nat (length key)) (word_of_nat (length value))"

definition write_record :: "bytes \<Rightarrow> nat \<Rightarrow> bytes \<Rightarrow> bytes \<Rightarrow> bytes" where
  "write_record m off key value =
     (let raw_len = word_of_nat sizeof_ValueRecordHeader + word_of_nat (length key) + word_of_nat (length value) :: u64;
          aligned_len = record_len key value;
          m1 = mem_write m off (u32_le (word_of_nat (length key)));
          m2 = mem_write m1 (off + 4) (u32_le (word_of_nat (length value)));
          m3 = mem_write m2 (off + 8) (u32_le (word_of_nat (length value)));
          m4 = mem_write m3 (off + 16) (u64_le 0);
          cursor = off + sizeof_ValueRecordHeader;
          m5 = mem_write m4 cursor key;
          m6 = (if value \<noteq> [] then mem_write m5 (cursor + length key) value else m5);
          padding = aligned_len - raw_len
      in if padding > 0 then mem_write m6 (cursor + length key + length value) (replicate (unat padding) 0) else m6)"

definition append_default :: "T2Memory \<Rightarrow> bytes \<Rightarrow> bytes \<Rightarrow> (T2Error + u64) \<times> T2Memory" where
  "append_default mem key value =
     (let required = record_len key value;
          offset = tm_bytes_used mem;
          mem' = mem\<lparr>tm_bytes_used := offset + required\<rparr>
      in if offset + required > tm_capacity mem then (Inl CapacityExceeded, mem')
         else (Inr offset, mem'\<lparr>tm_base := write_record (tm_base mem) (unat offset) key value\<rparr>))"

definition update_value_at :: "u64 \<Rightarrow> bytes \<Rightarrow> T2Memory \<Rightarrow> bool \<times> T2Memory" where
  "update_value_at payload value mem =
     (let off = unat payload;
          header = read_header (tm_base mem) off
      in if length value > unat (vh_alloc_len header) then (False, mem)
         else let value_begin = off + sizeof_ValueRecordHeader + unat (vh_key_len header);
                  ver = vh_version header;
                  m1 = mem_write (tm_base mem) (off + 16) (u64_le (ver + 1));
                  m2 = (if value \<noteq> [] then mem_write m1 value_begin value else m1);
                  m3 = mem_write m2 (off + 4) (u32_le (word_of_nat (length value)));
                  m4 = mem_write m3 (off + 16) (u64_le (ver + 2))
              in (True, mem\<lparr>tm_base := m4\<rparr>))"

text \<open>
  \<^verbatim>\<open>map_file\<close> and \<^verbatim>\<open>create_empty_file\<close>: the argument checks and the memory they set up; the
  file contents are an argument (the result of the system calls).
\<close>

datatype T2OpenError = CapacityZero | TooLargeForFtruncate | SmallerThanCapacity

definition create_empty_file :: "u64 \<Rightarrow> T2OpenError + bytes" where
  "create_empty_file bytes_capacity =
     (if bytes_capacity = 0 then Inl CapacityZero
      else if unat bytes_capacity > 2 ^ 63 - 1 then Inl TooLargeForFtruncate
      else Inr (replicate (unat bytes_capacity) 0))"

definition map_file :: "bytes \<Rightarrow> u64 \<Rightarrow> u64 \<Rightarrow> T2OpenError + T2Memory" where
  "map_file contents bytes_capacity initial_bytes_used =
     (if length contents < unat bytes_capacity then Inl SmallerThanCapacity
      else Inr (T2Memory_new (take (unat bytes_capacity) contents) bytes_capacity initial_bytes_used))"

definition T2FlatFile_open :: "bytes \<Rightarrow> u64 \<Rightarrow> u64 option \<Rightarrow> T2OpenError + T2Memory" where
  "T2FlatFile_open contents bytes_capacity initial_bytes_used =
     (case initial_bytes_used of
        None \<Rightarrow> (case create_empty_file bytes_capacity of
                   Inl e \<Rightarrow> Inl e | Inr file \<Rightarrow> map_file file bytes_capacity 0)
      | Some used \<Rightarrow> map_file contents bytes_capacity used)"

section \<open>Hole punching\<close>

datatype PunchOutcome = Punched | AlreadyHollow | PunchFailed

text \<open>
  The system calls in order, with the descriptor they are given. The answers of the system are
  arguments: the descriptor (or failure), what \<^verbatim>\<open>lseek(SEEK_DATA)\<close> said, and whether
  \<^verbatim>\<open>fallocate\<close> succeeds on an open descriptor of this file.
\<close>

datatype seek_answer = DataAt nat | SeekENXIO | SeekOther

datatype os_call = OsOpen nat | OsSeek nat | OsClose nat | OsFallocate nat | OsDontneed

fun punch_after_seek :: "nat \<Rightarrow> nat \<Rightarrow> nat \<Rightarrow> seek_answer \<Rightarrow> bool \<Rightarrow> PunchOutcome \<times> os_call list" where
  "punch_after_seek fd offset len SeekENXIO ok = (AlreadyHollow, [OsClose fd])"
| "punch_after_seek fd offset len SeekOther ok = (PunchFailed, [OsClose fd, OsFallocate fd, OsClose fd])"
| "punch_after_seek fd offset len (DataAt d) ok =
     (if d \<ge> offset + len then (AlreadyHollow, [OsClose fd])
      else if ok then (Punched, [OsFallocate fd, OsClose fd, OsDontneed])
      else (PunchFailed, [OsFallocate fd, OsClose fd]))"

definition punch ::
  "T2Memory \<Rightarrow> u64 \<Rightarrow> u64 \<Rightarrow> nat option \<Rightarrow> seek_answer \<Rightarrow> bool \<Rightarrow> (PunchOutcome \<times> os_call list) \<times> T2Memory" where
  "punch mem offset len fd seek ok =
     (if len = 0 then ((AlreadyHollow, []), mem)
      else if offset + len > tm_capacity mem then ((PunchFailed, []), mem)
      else case fd of
        None \<Rightarrow> ((PunchFailed, []), mem)
      | Some d \<Rightarrow>
          (case punch_after_seek d (unat offset) (unat len) seek ok of
             (outcome, calls) \<Rightarrow>
               ((outcome, OsOpen d # OsSeek d # calls),
                if outcome = Punched
                then mem\<lparr>tm_base := mem_write (tm_base mem) (unat offset) (replicate (unat len) 0)\<rparr>
                else mem)))"

section \<open>Lengths\<close>

lemmas header_size = sizeof_ValueRecordHeader_def

definition aligned_size :: "nat \<Rightarrow> nat" where
  "aligned_size n = (n + 7) div 8 * 8"

lemma aligned_size_bounds: "n \<le> aligned_size n" "aligned_size n < n + 8" "aligned_size n mod 8 = 0"
  unfolding aligned_size_def by presburger+

lemma unat_small: "n < 2 ^ 64 \<Longrightarrow> unat (word_of_nat n :: u64) = n"
  by (simp add: unat_of_nat)

lemma raw_len_unat:
  assumes "24 + a + b < 2 ^ 64"
  shows "unat (word_of_nat sizeof_ValueRecordHeader + word_of_nat a + word_of_nat b :: u64) = 24 + a + b"
proof -
  have "word_of_nat sizeof_ValueRecordHeader + word_of_nat a + word_of_nat b = (word_of_nat (24 + a + b) :: u64)"
    by (simp add: header_size)
  then show ?thesis using assms by (simp only: unat_small)
qed

lemma record_len_unat:
  assumes "24 + length key + length value + 7 < 2 ^ 64"
  shows "unat (record_len key value) = aligned_size (24 + length key + length value)"
proof -
  let ?raw = "word_of_nat sizeof_ValueRecordHeader + word_of_nat (length key) + word_of_nat (length value) :: u64"
  have raw: "unat ?raw = 24 + length key + length value" using assms by (intro raw_len_unat) simp
  then have "unat ?raw + 7 < 2 ^ 64" using assms by simp
  from align_up_8_unat [OF this] raw show ?thesis
    by (simp add: record_len_def record_aligned_len_def kDefaultAlignmentBytes_def aligned_size_def)
qed

lemma padding_unat:
  assumes "24 + length key + length value + 7 < 2 ^ 64"
  shows "unat (record_len key value - (word_of_nat sizeof_ValueRecordHeader + word_of_nat (length key)
      + word_of_nat (length value))) = aligned_size (24 + length key + length value) - (24 + length key + length value)"
proof -
  let ?raw = "word_of_nat sizeof_ValueRecordHeader + word_of_nat (length key) + word_of_nat (length value) :: u64"
  have raw: "unat ?raw = 24 + length key + length value" using assms by (intro raw_len_unat) simp
  have "?raw \<le> record_len key value"
    unfolding word_le_nat_alt raw record_len_unat [OF assms] by (rule aligned_size_bounds(1))
  then have "unat (record_len key value - ?raw) = unat (record_len key value) - unat ?raw"
    by (rule unat_sub)
  then show ?thesis by (simp only: raw record_len_unat [OF assms])
qed

section \<open>One record\<close>

text \<open>The writes of one record as a single list of disjoint writes.\<close>

lemma write_record_expand:
  assumes "24 + length key + length value + 7 < 2 ^ 64" "off + 24 + length key + length value \<le> length m"
  shows "write_record m off key value =
    mem_write (mem_write (mem_write (mem_write (mem_write (mem_write (mem_write m
      off (u32_le (word_of_nat (length key))))
      (off + 4) (u32_le (word_of_nat (length value))))
      (off + 8) (u32_le (word_of_nat (length value))))
      (off + 16) (u64_le 0))
      (off + 24) key)
      (off + 24 + length key) value)
      (off + 24 + length key + length value)
        (replicate (aligned_size (24 + length key + length value) - (24 + length key + length value)) 0)"
proof -
  have nil: "mem_write m' o' [] = m'" for m' :: bytes and o' by (simp add: mem_write_def)
  have z: "padding = 0 \<Longrightarrow> unat padding = 0" for padding :: u64 by simp
  show ?thesis
    unfolding write_record_def Let_def header_size
    using padding_unat [OF assms(1)] by (auto simp: nil header_size word_gt_0 unat_eq_0)
qed

lemma u32_len: "length (xs :: bytes) < 2 ^ 32 \<Longrightarrow> unat (word_of_nat (length xs) :: u32) = length xs"
  by (simp add: unat_of_nat)

lemma write_record_length:
  assumes "24 + length key + length value + 7 < 2 ^ 64" "off + aligned_size (24 + length key + length value) \<le> length m"
  shows "length (write_record m off key value) = length m"
proof -
  have "off + 24 + length key + length value \<le> length m"
    using assms(2) aligned_size_bounds(1) [of "24 + length key + length value"] by linarith
  from write_record_expand [OF assms(1) this] this assms(2) show ?thesis
    using aligned_size_bounds(1) [of "24 + length key + length value"] by simp
qed

lemma write_record_frame:
  assumes "24 + length key + length value + 7 < 2 ^ 64" "off + aligned_size (24 + length key + length value) \<le> length m"
    "o' + n \<le> off \<or> off + aligned_size (24 + length key + length value) \<le> o'"
  shows "mem_read (write_record m off key value) o' n = mem_read m o' n"
proof -
  let ?a = "aligned_size (24 + length key + length value)"
  have a: "24 + length key + length value \<le> ?a" by (rule aligned_size_bounds)
  have "off + 24 + length key + length value \<le> length m" using assms(2) a by linarith
  note w = write_record_expand [OF assms(1) this]
  from assms(3) show ?thesis
  proof
    assume "o' + n \<le> off"
    then show ?thesis unfolding w using assms(2) a by (simp add: mem_read_write_disjoint)
  next
    assume "off + ?a \<le> o'"
    then show ?thesis unfolding w using assms(2) a by (simp add: mem_read_write_disjoint)
  qed
qed

lemma write_record_view:
  assumes "length key < 2 ^ 32" "length value < 2 ^ 32"
    "off + aligned_size (24 + length key + length value) \<le> length m"
  shows "make_record_view (write_record m off key value) off =
    \<lparr>rv_header = \<lparr>vh_key_len = word_of_nat (length key), vh_value_len = word_of_nat (length value),
       vh_alloc_len = word_of_nat (length value), vh_version = 0\<rparr>, rv_key = key, rv_value = value\<rparr>"
proof -
  let ?a = "aligned_size (24 + length key + length value)"
  have a: "24 + length key + length value \<le> ?a" by (rule aligned_size_bounds)
  have fit: "off + 24 + length key + length value \<le> length m" using assms(3) a by linarith
  have "24 + length key + length value + 7 < 2 ^ 64" using assms(1,2) by simp
  note w = write_record_expand [OF this fit]
  have hdr: "read_header (write_record m off key value) off =
      \<lparr>vh_key_len = word_of_nat (length key), vh_value_len = word_of_nat (length value),
       vh_alloc_len = word_of_nat (length value), vh_version = 0\<rparr>"
    unfolding w read_header_def using fit assms(3) a
    by (simp add: mem_read_write_disjoint mem_read_write_same)
  have "mem_read (write_record m off key value) (off + 24) (length key) = key"
    unfolding w using fit assms(3) a by (simp add: mem_read_write_disjoint mem_read_write_same)
  moreover have "mem_read (write_record m off key value) (off + 24 + length key) (length value) = value"
    unfolding w using fit assms(3) a by (simp add: mem_read_write_disjoint mem_read_write_same)
  ultimately show ?thesis
    by (simp add: make_record_view_def Let_def hdr header_size u32_len [OF assms(1)] u32_len [OF assms(2)])
qed

section \<open>A file of records\<close>

text \<open>
  \<open>recs\<close> maps the offset of each record to the lengths of its key and of its allocation. The
  records lie below the usage counter and inside the mapping and do not overlap, and no update of
  one is half done.
\<close>

type_synonym extents = "nat \<rightharpoonup> nat \<times> nat"

definition extent_end :: "nat \<Rightarrow> nat \<times> nat \<Rightarrow> nat" where
  "extent_end off e = off + 24 + fst e + snd e"

definition t2_inv :: "T2Memory \<Rightarrow> extents \<Rightarrow> bool" where
  "t2_inv mem recs \<longleftrightarrow> length (tm_base mem) = unat (tm_capacity mem)
     \<and> (\<forall>off e. recs off = Some e \<longrightarrow>
          unat (vh_key_len (read_header (tm_base mem) off)) = fst e
          \<and> unat (vh_alloc_len (read_header (tm_base mem) off)) = snd e
          \<and> unat (vh_value_len (read_header (tm_base mem) off)) \<le> snd e
          \<and> extent_end off e \<le> length (tm_base mem) \<and> extent_end off e \<le> unat (tm_bytes_used mem)
          \<and> even (vh_version (read_header (tm_base mem) off)))
     \<and> (\<forall>off e off' e'. recs off = Some e \<longrightarrow> recs off' = Some e' \<longrightarrow> off < off' \<longrightarrow> extent_end off e \<le> off')"

definition t2_read :: "T2Memory \<Rightarrow> nat \<Rightarrow> bytes \<times> bytes" where
  "t2_read mem off = (let v = t2_at (word_of_nat off) mem in (rv_key v, rv_value v))"

lemma t2_invD:
  assumes "t2_inv mem recs" "recs off = Some e"
  shows "unat (vh_key_len (read_header (tm_base mem) off)) = fst e"
    "unat (vh_alloc_len (read_header (tm_base mem) off)) = snd e"
    "unat (vh_value_len (read_header (tm_base mem) off)) \<le> snd e"
    "extent_end off e \<le> length (tm_base mem)" "extent_end off e \<le> unat (tm_bytes_used mem)"
    "even (vh_version (read_header (tm_base mem) off))"
  using assms unfolding t2_inv_def by blast+

lemma t2_inv_disjoint:
  "t2_inv mem recs \<Longrightarrow> recs off = Some e \<Longrightarrow> recs off' = Some e' \<Longrightarrow> off < off' \<Longrightarrow> extent_end off e \<le> off'"
  unfolding t2_inv_def by blast

lemma t2_inv_len: "t2_inv mem recs \<Longrightarrow> length (tm_base mem) = unat (tm_capacity mem)"
  by (simp add: t2_inv_def)

text \<open>An operation that keeps lengths, allocations and extents keeps the invariant.\<close>

lemma t2_inv_keep:
  assumes inv: "t2_inv mem recs" and len: "length (tm_base mem') = length (tm_base mem)" "tm_capacity mem' = tm_capacity mem"
    and used: "unat (tm_bytes_used mem) \<le> unat (tm_bytes_used mem')"
    and hd: "\<And>p e. recs p = Some e \<Longrightarrow>
      vh_key_len (read_header (tm_base mem') p) = vh_key_len (read_header (tm_base mem) p)
      \<and> vh_alloc_len (read_header (tm_base mem') p) = vh_alloc_len (read_header (tm_base mem) p)
      \<and> unat (vh_value_len (read_header (tm_base mem') p)) \<le> snd e \<and> even (vh_version (read_header (tm_base mem') p))"
  shows "t2_inv mem' recs"
  unfolding t2_inv_def
proof (intro conjI allI impI)
  show "length (tm_base mem') = unat (tm_capacity mem')" using len t2_inv_len [OF inv] by simp
next
  fix p e
  assume rec: "recs p = Some e"
  note old = t2_invD [OF inv rec] hd [OF rec]
  show "unat (vh_key_len (read_header (tm_base mem') p)) = fst e"
    and "unat (vh_alloc_len (read_header (tm_base mem') p)) = snd e"
    and "unat (vh_value_len (read_header (tm_base mem') p)) \<le> snd e" and "even (vh_version (read_header (tm_base mem') p))"
    using old by simp_all
  show "extent_end p e \<le> length (tm_base mem')" using old(4) len by simp
  show "extent_end p e \<le> unat (tm_bytes_used mem')" using old(5) used by linarith
next
  fix p e p' e'
  assume "recs p = Some e" "recs p' = Some e'" "p < p'"
  then show "extent_end p e \<le> p'" by (rule t2_inv_disjoint [OF inv])
qed

lemma off_u64:
  assumes "t2_inv mem recs" "recs off = Some e"
  shows "unat (word_of_nat off :: u64) = off"
proof -
  have "off \<le> unat (tm_bytes_used mem)" using t2_invD(5) [OF assms] by (simp add: extent_end_def)
  also have "\<dots> < 2 ^ 64" using unat_less_2p [of "tm_bytes_used mem"] by simp
  finally show ?thesis by (rule unat_small)
qed

text \<open>A record is determined by the bytes of its extent.\<close>

lemma read_header_cong:
  "mem_read m off 24 = mem_read m' off 24 \<Longrightarrow> read_header m off = read_header m' off"
proof -
  assume eq: "mem_read m off 24 = mem_read m' off 24"
  have part: "mem_read x (off + d) n = mem_read (mem_read x off 24) d n" if "d + n \<le> 24" for x :: bytes and d n
    using that by (simp add: mem_read_def drop_take min_def add.commute)
  have "mem_read m (off + d) n = mem_read m' (off + d) n" if "d + n \<le> 24" for d n
    using part [OF that, of m] part [OF that, of m'] eq by simp
  from this [of 0 4] this [of 4 4] this [of 8 4] this [of 16 8] show ?thesis
    by (simp add: read_header_def)
qed

lemma mem_read_sub:
  assumes "mem_read m off n = mem_read m' off n" "d + k \<le> n"
  shows "mem_read m (off + d) k = mem_read m' (off + d) k"
proof -
  have "mem_read x (off + d) k = mem_read (mem_read x off n) d k" for x :: bytes
    using assms(2) by (simp add: mem_read_def drop_take min_def add.commute)
  then show ?thesis using assms(1) by simp
qed

lemma record_view_cong:
  assumes eq: "mem_read m off n = mem_read m' off n" and n: "n = 24 + kl + al"
    and h: "unat (vh_key_len (read_header m off)) = kl" "unat (vh_value_len (read_header m off)) \<le> al"
  shows "make_record_view m' off = make_record_view m off"
proof -
  have "mem_read m off 24 = mem_read m' off 24" using mem_read_sub [OF eq, of 0 24] n by simp
  from read_header_cong [OF this] have hd: "read_header m' off = read_header m off" by simp
  have "mem_read m (off + 24) kl = mem_read m' (off + 24) kl" using mem_read_sub [OF eq, of 24 kl] n by simp
  moreover have "mem_read m (off + (24 + kl)) (unat (vh_value_len (read_header m off)))
      = mem_read m' (off + (24 + kl)) (unat (vh_value_len (read_header m off)))"
    using n h(2) by (intro mem_read_sub [OF eq]) simp
  ultimately show ?thesis by (simp add: make_record_view_def Let_def hd h(1) header_size add.assoc)
qed

section \<open>Appending\<close>

definition fits_record :: "bytes \<Rightarrow> bytes \<Rightarrow> bool" where
  "fits_record key value \<longleftrightarrow> length key < 2 ^ 32 \<and> length value < 2 ^ 32"

lemma fits_record_len:
  "fits_record key value \<Longrightarrow> unat (record_len key value) = aligned_size (24 + length key + length value)"
  by (rule record_len_unat) (simp add: fits_record_def)

lemma append_default_ok:
  assumes inv: "t2_inv mem recs" and fits: "fits_record key value"
    and app: "append_default mem key value = (Inr off, mem')"
    and nowrap: "unat (tm_bytes_used mem) + unat (record_len key value) < 2 ^ 64"
  shows "off = tm_bytes_used mem" and "recs (unat off) = None"
    and "t2_inv mem' (recs(unat off \<mapsto> (length key, length value)))"
    and "t2_read mem' (unat off) = (key, value)"
    and "\<And>p e. recs p = Some e \<Longrightarrow> t2_read mem' p = t2_read mem p"
proof -
  let ?n = "unat off" and ?a = "aligned_size (24 + length key + length value)" and ?m = "tm_base mem"
  have kv: "length key < 2 ^ 32" "length value < 2 ^ 32" using fits by (simp_all add: fits_record_def)
  have a: "24 + length key + length value \<le> ?a" by (rule aligned_size_bounds)
  from app have off: "off = tm_bytes_used mem" "\<not> tm_bytes_used mem + record_len key value > tm_capacity mem"
    and mem': "mem' = mem\<lparr>tm_bytes_used := off + record_len key value, tm_base := write_record ?m ?n key value\<rparr>"
    by (auto simp: append_default_def Let_def split: if_splits)
  show "off = tm_bytes_used mem" by (rule off(1))
  have sum: "unat (off + record_len key value) = ?n + ?a"
    using nowrap by (simp add: off(1) unat_word_ariths fits_record_len [OF fits])
  with off have room: "?n + ?a \<le> length ?m" using inv by (simp add: t2_inv_def word_less_nat_alt not_less)
  have len: "length (tm_base mem') = length ?m"
    unfolding mem' using kv room by (simp add: write_record_length)
  have below: "extent_end p e \<le> ?n" if "recs p = Some e" for p e
    using t2_invD(5) [OF inv that] by (simp add: off(1))
  show "recs ?n = None"
    using below [of ?n] by (cases "recs ?n") (auto simp: extent_end_def)
  have keep: "mem_read (tm_base mem') p k = mem_read ?m p k" if "p + k \<le> ?n" for p k
    unfolding mem' using kv room that by (simp add: write_record_frame)
  have old: "read_header (tm_base mem') p = read_header ?m p"
    and view: "make_record_view (tm_base mem') p = make_record_view ?m p" if "recs p = Some e" for p e
  proof -
    have eq: "mem_read (tm_base mem') p (24 + fst e + snd e) = mem_read ?m p (24 + fst e + snd e)"
      using below [OF that] by (intro keep) (simp add: extent_end_def)
    show "make_record_view (tm_base mem') p = make_record_view ?m p"
      by (rule record_view_cong [OF eq [symmetric] refl]) (use t2_invD [OF inv that] in auto)
    show "read_header (tm_base mem') p = read_header ?m p"
      using mem_read_sub [OF eq, of 0 24] by (intro read_header_cong) simp
  qed
  have new: "make_record_view (tm_base mem') ?n = \<lparr>rv_header = \<lparr>vh_key_len = word_of_nat (length key),
      vh_value_len = word_of_nat (length value), vh_alloc_len = word_of_nat (length value), vh_version = 0\<rparr>,
      rv_key = key, rv_value = value\<rparr>"
    unfolding mem' using write_record_view [OF kv room] by simp
  then have hdr: "read_header (tm_base mem') ?n = \<lparr>vh_key_len = word_of_nat (length key),
      vh_value_len = word_of_nat (length value), vh_alloc_len = word_of_nat (length value), vh_version = 0\<rparr>"
    by (simp add: make_record_view_def Let_def)
  show "t2_read mem' ?n = (key, value)" using new by (simp add: t2_read_def t2_at_def)
  show "t2_read mem' p = t2_read mem p" if "recs p = Some e" for p e
    using view [OF that] off_u64 [OF inv that] by (simp add: t2_read_def t2_at_def)
  have used: "unat (tm_bytes_used mem') = ?n + ?a" using sum by (simp add: mem')
  show "t2_inv mem' (recs(?n \<mapsto> (length key, length value)))"
    unfolding t2_inv_def
  proof (intro conjI allI impI)
    show "length (tm_base mem') = unat (tm_capacity mem')" using len inv by (simp add: mem' t2_inv_def)
  next
    fix p e
    assume "(recs(?n \<mapsto> (length key, length value))) p = Some e"
    then show "unat (vh_key_len (read_header (tm_base mem') p)) = fst e"
      and "unat (vh_alloc_len (read_header (tm_base mem') p)) = snd e"
      and "unat (vh_value_len (read_header (tm_base mem') p)) \<le> snd e"
      and "extent_end p e \<le> length (tm_base mem')" and "extent_end p e \<le> unat (tm_bytes_used mem')"
      and "even (vh_version (read_header (tm_base mem') p))"
      using t2_invD [OF inv, of p e] old [of p e] below [of p e] hdr u32_len [OF kv(1)] u32_len [OF kv(2)] a room
      unfolding len used
      by (auto simp: extent_end_def split: if_splits)
  next
    fix p e p' e'
    assume "(recs(?n \<mapsto> (length key, length value))) p = Some e"
      "(recs(?n \<mapsto> (length key, length value))) p' = Some e'" "p < p'"
    then show "extent_end p e \<le> p'"
      using below [of p e] below [of p' e'] t2_inv_disjoint [OF inv, of p e p' e']
      by (auto simp: extent_end_def split: if_splits)
  qed
qed

lemma append_default_err:
  assumes "t2_inv mem recs" "append_default mem key value = (Inl e, mem')"
    "unat (tm_bytes_used mem) + unat (record_len key value) < 2 ^ 64"
  shows "e = CapacityExceeded" "t2_inv mem' recs" "t2_read mem' = t2_read mem"
    "tm_bytes_used mem' = tm_bytes_used mem + record_len key value"
    "unat (tm_capacity mem') < unat (tm_bytes_used mem')"
proof -
  from assms(2) have m: "e = CapacityExceeded" "mem' = mem\<lparr>tm_bytes_used := tm_bytes_used mem + record_len key value\<rparr>"
      "tm_bytes_used mem + record_len key value > tm_capacity mem"
    by (auto simp: append_default_def Let_def split: if_splits)
  show "e = CapacityExceeded" by (rule m)
  show "tm_bytes_used mem' = tm_bytes_used mem + record_len key value" by (simp add: m(2))
  show "t2_read mem' = t2_read mem" by (simp add: fun_eq_iff t2_read_def t2_at_def m(2))
  show "unat (tm_capacity mem') < unat (tm_bytes_used mem')" using m(3) by (simp add: m(2) word_less_nat_alt)
  have "unat (tm_bytes_used mem) \<le> unat (tm_bytes_used mem')"
    using assms(3) by (simp add: m(2) unat_word_ariths)
  then show "t2_inv mem' recs"
    by (rule t2_inv_keep [OF assms(1), rotated 2]) (use t2_invD(3,6) [OF assms(1)] in \<open>simp_all add: m(2)\<close>)
qed

section \<open>Updating in place\<close>

lemma even_plus_two: "even (v + 2 :: u64) \<longleftrightarrow> even v"
  by simp

lemma update_value_at_correct:
  assumes inv: "t2_inv mem recs" and rec: "recs (unat off) = Some e"
    and upd: "update_value_at off value mem = (ok, mem')"
  shows "ok \<longleftrightarrow> length value \<le> snd e" and "\<not> ok \<Longrightarrow> mem' = mem"
    and "t2_inv mem' recs"
    and "ok \<Longrightarrow> t2_read mem' (unat off) = (fst (t2_read mem (unat off)), value)"
    and "ok \<Longrightarrow> vh_version (rv_header (t2_at off mem')) = vh_version (rv_header (t2_at off mem)) + 2"
    and "\<And>p e'. recs p = Some e' \<Longrightarrow> p \<noteq> unat off \<Longrightarrow> t2_read mem' p = t2_read mem p"
    and "tm_bytes_used mem' = tm_bytes_used mem" "tm_capacity mem' = tm_capacity mem"
      "tm_base_boundary mem' = tm_base_boundary mem"
proof -
  let ?n = "unat off" and ?m = "tm_base mem"
  let ?h = "read_header ?m ?n"
  note h = t2_invD [OF inv rec]
  show ok: "ok \<longleftrightarrow> length value \<le> snd e"
    using upd h(2) by (auto simp: update_value_at_def Let_def split: if_splits)
  show same: "mem' = mem" if "\<not> ok"
    using upd that by (auto simp: update_value_at_def Let_def split: if_splits)
  define m' where "m' = mem_write (mem_write (mem_write (mem_write ?m (?n + 16) (u64_le (vh_version ?h + 1)))
      (?n + 24 + fst e) value) (?n + 4) (u32_le (word_of_nat (length value)))) (?n + 16) (u64_le (vh_version ?h + 2))"
  have nil: "mem_write x p [] = x" for x :: bytes and p by (simp add: mem_write_def)
  have mem': "mem' = mem\<lparr>tm_base := m'\<rparr>" if ok
    using upd that ok h(1,2) by (auto simp: update_value_at_def Let_def m'_def nil header_size split: if_splits)
  show "tm_bytes_used mem' = tm_bytes_used mem" "tm_capacity mem' = tm_capacity mem"
      "tm_base_boundary mem' = tm_base_boundary mem"
    using same mem' by (cases ok; auto)+
  have fit: "?n + 24 + fst e + snd e \<le> length ?m" using h(4) by (simp add: extent_end_def)
  have val: "length value \<le> snd e" if ok using ok that by simp
  have len: "length m' = length ?m" if ok unfolding m'_def using fit val [OF that] by simp
  have frame: "mem_read m' p k = mem_read ?m p k" if ok "p + k \<le> ?n + 4 \<or> ?n + 24 + fst e + snd e \<le> p" for p k
    using that(2)
  proof
    assume "p + k \<le> ?n + 4"
    then show ?thesis unfolding m'_def using fit val [OF that(1)] by (simp add: mem_read_write_disjoint)
  next
    assume "?n + 24 + fst e + snd e \<le> p"
    then show ?thesis unfolding m'_def using fit val [OF that(1)] by (simp add: mem_read_write_disjoint)
  qed
  have vlen: "unat (word_of_nat (length value) :: u32) = length value" if ok
  proof (rule u32_len)
    have "length value \<le> unat (vh_alloc_len ?h)" using val [OF that] h(2) by simp
    also have "\<dots> < 2 ^ 32" using unat_less_2p [of "vh_alloc_len ?h"] by simp
    finally show "length value < 2 ^ 32" .
  qed
  have key: "mem_read m' (?n + 24) (fst e) = mem_read ?m (?n + 24) (fst e)" if ok
    unfolding m'_def using fit val [OF that] by (simp add: mem_read_write_disjoint)
  have value': "mem_read m' (?n + 24 + fst e) (length value) = value" if ok
    unfolding m'_def using fit val [OF that] by (simp add: mem_read_write_disjoint mem_read_write_same)
  have hd': "read_header m' ?n = ?h\<lparr>vh_value_len := word_of_nat (length value), vh_version := vh_version ?h + 2\<rparr>" if ok
  proof -
    have "mem_read m' ?n 4 = mem_read ?m ?n 4" "mem_read m' (?n + 4) 4 = u32_le (word_of_nat (length value))"
        "mem_read m' (?n + 8) 4 = mem_read ?m (?n + 8) 4" "mem_read m' (?n + 16) 8 = u64_le (vh_version ?h + 2)"
      unfolding m'_def using fit val [OF that] by (simp_all add: mem_read_write_disjoint mem_read_write_same)
    then show ?thesis by (simp add: read_header_def)
  qed
  have other: "mem_read m' p (24 + fst e' + snd e') = mem_read ?m p (24 + fst e' + snd e')"
    if ok "recs p = Some e'" "p \<noteq> ?n" for p e'
  proof (rule frame [OF that(1)])
    show "p + (24 + fst e' + snd e') \<le> ?n + 4 \<or> ?n + 24 + fst e + snd e \<le> p"
      using t2_inv_disjoint [OF inv that(2) rec] t2_inv_disjoint [OF inv rec that(2)] that(3)
      by (cases "p < ?n") (auto simp: extent_end_def)
  qed
  have other_hd: "read_header m' p = read_header ?m p" if "ok" "recs p = Some e'" "p \<noteq> ?n" for p e'
    using mem_read_sub [OF other [OF that], of 0 24] by (intro read_header_cong) simp
  show "t2_read mem' p = t2_read mem p" if "recs p = Some e'" "p \<noteq> ?n" for p e'
  proof (cases ok)
    case True
    have "make_record_view m' p = make_record_view ?m p"
      by (rule record_view_cong [OF other [OF True that, symmetric] refl]) (use t2_invD [OF inv that(1)] in auto)
    then show ?thesis using mem' [OF True] off_u64 [OF inv that(1)] by (simp add: t2_read_def t2_at_def)
  qed (use same in simp)
  show "t2_read mem' ?n = (fst (t2_read mem ?n), value)" if ok
    using mem' [OF that] hd' [OF that] key [OF that] value' [OF that] vlen [OF that] h(1)
    by (simp add: t2_read_def t2_at_def make_record_view_def Let_def header_size)
  show "vh_version (rv_header (t2_at off mem')) = vh_version (rv_header (t2_at off mem)) + 2" if ok
    using mem' [OF that] hd' [OF that] by (simp add: t2_at_def make_record_view_def Let_def)
  show "t2_inv mem' recs"
  proof (cases ok)
    case True
    have hdp: "vh_key_len (read_header m' p) = vh_key_len (read_header ?m p)
        \<and> vh_alloc_len (read_header m' p) = vh_alloc_len (read_header ?m p)
        \<and> unat (vh_value_len (read_header m' p)) \<le> snd e' \<and> even (vh_version (read_header m' p))" if "recs p = Some e'" for p e'
    proof (cases "p = ?n")
      case True
      with that rec hd' [OF \<open>ok\<close>] vlen [OF \<open>ok\<close>] val [OF \<open>ok\<close>] t2_invD(6) [OF inv rec] show ?thesis by (simp add: even_plus_two)
    next
      case False
      with other_hd [OF \<open>ok\<close> that False] t2_invD [OF inv that] show ?thesis by simp
    qed
    show ?thesis
      by (rule t2_inv_keep [OF inv]) (use hdp len [OF True] mem' [OF True] in simp_all)
  qed (use same inv in simp)
qed

section \<open>The interface: a store of records\<close>

text \<open>
  What the write and read paths rely on. \<open>recs\<close> are the records handed out so far; \<open>can\<close> says
  that a key and value can be recorded without an arithmetic overflow.
\<close>

locale record_store =
  fixes inv :: "'t \<Rightarrow> extents \<Rightarrow> bool"
    and read :: "'t \<Rightarrow> nat \<Rightarrow> bytes \<times> bytes"
    and can :: "'t \<Rightarrow> bytes \<Rightarrow> bytes \<Rightarrow> bool"
    and append :: "'t \<Rightarrow> bytes \<Rightarrow> bytes \<Rightarrow> ('e + nat) \<times> 't"
    and update :: "'t \<Rightarrow> nat \<Rightarrow> bytes \<Rightarrow> bool \<times> 't"
  assumes append_new: "inv t recs \<Longrightarrow> can t k v \<Longrightarrow> append t k v = (Inr off, t') \<Longrightarrow>
      recs off = None \<and> inv t' (recs(off \<mapsto> (length k, length v))) \<and> read t' off = (k, v)
      \<and> (\<forall>p. recs p \<noteq> None \<longrightarrow> read t' p = read t p)"
    and append_fail: "inv t recs \<Longrightarrow> can t k v \<Longrightarrow> append t k v = (Inl e, t') \<Longrightarrow> inv t' recs \<and> read t' = read t"
    and update_law: "inv t recs \<Longrightarrow> recs off = Some ext \<Longrightarrow> update t off v = (ok, t') \<Longrightarrow>
      ok = (length v \<le> snd ext) \<and> inv t' recs \<and> (\<not> ok \<longrightarrow> t' = t)
      \<and> (ok \<longrightarrow> read t' off = (fst (read t off), v)) \<and> (\<forall>p. recs p \<noteq> None \<longrightarrow> p \<noteq> off \<longrightarrow> read t' p = read t p)"
begin

definition contents :: "'t \<Rightarrow> extents \<Rightarrow> nat \<rightharpoonup> bytes \<times> bytes" where
  "contents t recs off = map_option (\<lambda>_. read t off) (recs off)"

lemma contents_append:
  assumes "inv t recs" "can t k v" "append t k v = (Inr off, t')"
  shows "contents t' (recs(off \<mapsto> (length k, length v))) = (contents t recs)(off \<mapsto> (k, v))"
  using append_new [OF assms] by (auto simp: contents_def fun_eq_iff map_option_case split: option.splits)

lemma contents_append_fail:
  "inv t recs \<Longrightarrow> can t k v \<Longrightarrow> append t k v = (Inl e, t') \<Longrightarrow> contents t' recs = contents t recs"
  using append_fail by (fastforce simp: contents_def fun_eq_iff)

lemma contents_update:
  assumes "inv t recs" "recs off = Some ext" "update t off v = (ok, t')"
  shows "contents t' recs =
    (if length v \<le> snd ext then (contents t recs)(off \<mapsto> (fst (read t off), v)) else contents t recs)"
  using update_law [OF assms] assms(2) by (auto simp: contents_def fun_eq_iff map_option_case split: option.splits)

end

definition t2_can :: "T2Memory \<Rightarrow> bytes \<Rightarrow> bytes \<Rightarrow> bool" where
  "t2_can mem key value \<longleftrightarrow> fits_record key value
     \<and> unat (tm_bytes_used mem) + unat (record_len key value) < 2 ^ 64"

definition t2_append :: "T2Memory \<Rightarrow> bytes \<Rightarrow> bytes \<Rightarrow> (T2Error + nat) \<times> T2Memory" where
  "t2_append mem key value = (case append_default mem key value of
     (Inl e, mem') \<Rightarrow> (Inl e, mem') | (Inr off, mem') \<Rightarrow> (Inr (unat off), mem'))"

definition t2_update :: "T2Memory \<Rightarrow> nat \<Rightarrow> bytes \<Rightarrow> bool \<times> T2Memory" where
  "t2_update mem off value = update_value_at (word_of_nat off) value mem"

interpretation t2: record_store t2_inv t2_read t2_can t2_append t2_update
proof
  fix mem recs k v and off :: nat and mem'
  assume a: "t2_inv mem recs" "t2_can mem k v" "t2_append mem k v = (Inr off, mem')"
  then obtain w where w: "append_default mem k v = (Inr w, mem')" "off = unat w"
    by (auto simp: t2_append_def split: prod.splits sum.splits)
  have c: "fits_record k v" "unat (tm_bytes_used mem) + unat (record_len k v) < 2 ^ 64"
    using a(2) by (simp_all add: t2_can_def)
  from append_default_ok [OF a(1) c(1) w(1) c(2)]
  show "recs off = None \<and> t2_inv mem' (recs(off \<mapsto> (length k, length v))) \<and> t2_read mem' off = (k, v)
      \<and> (\<forall>p. recs p \<noteq> None \<longrightarrow> t2_read mem' p = t2_read mem p)"
    unfolding w(2) by blast
next
  fix mem recs k v e mem'
  assume a: "t2_inv mem recs" "t2_can mem k v" "t2_append mem k v = (Inl e, mem')"
  then have "append_default mem k v = (Inl e, mem')"
    by (auto simp: t2_append_def split: prod.splits sum.splits)
  from append_default_err [OF a(1) this] a(2) show "t2_inv mem' recs \<and> t2_read mem' = t2_read mem"
    by (simp add: t2_can_def)
next
  fix mem recs and off :: nat and ext v ok mem'
  assume a: "t2_inv mem recs" "recs off = Some ext" "t2_update mem off v = (ok, mem')"
  have n: "unat (word_of_nat off :: u64) = off" by (rule off_u64 [OF a(1,2)])
  have rec: "recs (unat (word_of_nat off :: u64)) = Some ext" unfolding n by (rule a(2))
  note u = update_value_at_correct [OF a(1) rec a(3) [unfolded t2_update_def], unfolded n]
  show "ok = (length v \<le> snd ext) \<and> t2_inv mem' recs \<and> (\<not> ok \<longrightarrow> mem' = mem)
      \<and> (ok \<longrightarrow> t2_read mem' off = (fst (t2_read mem off), v))
      \<and> (\<forall>p. recs p \<noteq> None \<longrightarrow> p \<noteq> off \<longrightarrow> t2_read mem' p = t2_read mem p)"
    using u by blast
qed

section \<open>Properties\<close>

text \<open>
  C24: appending a record. If it fits the file, the record is placed at the old end of the used
  area, reads back with exactly its key and value, and every record appended before still reads
  back unchanged; if it does not fit, no record changes, but the usage counter has moved past the
  capacity.
\<close>

theorem t2_append_correct:
  assumes "t2_inv mem recs" "fits_record key value"
    and "unat (tm_bytes_used mem) + unat (record_len key value) < 2 ^ 64"
  shows "case append_default mem key value of
      (Inr off, mem') \<Rightarrow> off = tm_bytes_used mem \<and> recs (unat off) = None
        \<and> t2_inv mem' (recs(unat off \<mapsto> (length key, length value)))
        \<and> t2.contents mem' (recs(unat off \<mapsto> (length key, length value))) = (t2.contents mem recs)(unat off \<mapsto> (key, value))
    | (Inl e, mem') \<Rightarrow> t2_inv mem' recs \<and> t2.contents mem' recs = t2.contents mem recs
        \<and> unat (tm_capacity mem') < unat (tm_bytes_used mem')"
proof -
  have can: "t2_can mem key value" using assms by (simp add: t2_can_def)
  obtain r mem' where app: "append_default mem key value = (r, mem')" by force
  show ?thesis
  proof (cases r)
    case (Inl e)
    then have "t2_append mem key value = (Inl e, mem')" by (simp add: t2_append_def app)
    with append_default_err [OF assms(1) app [unfolded Inl] assms(3)] t2.contents_append_fail [OF assms(1) can]
    show ?thesis by (simp add: app Inl)
  next
    case (Inr off)
    then have "t2_append mem key value = (Inr (unat off), mem')" by (simp add: t2_append_def app)
    with append_default_ok(1-3) [OF assms(1,2) app [unfolded Inr] assms(3)] t2.contents_append [OF assms(1) can]
    show ?thesis by (simp add: app Inr)
  qed
qed

definition empty_t2 :: "nat \<Rightarrow> T2Memory" where
  "empty_t2 n = T2Memory_new (replicate n 0) (word_of_nat n) 0"

lemma t2_inv_empty: "n < 2 ^ 64 \<Longrightarrow> t2_inv (empty_t2 n) Map.empty"
  by (simp add: t2_inv_def empty_t2_def T2Memory_new_def unat_of_nat)

theorem t2_append_correct_witness:
  "append_default (empty_t2 64) [1, 2] [3] = (Inr 0, snd (append_default (empty_t2 64) [1, 2] [3]))
   \<and> t2.contents (snd (append_default (empty_t2 64) [1, 2] [3])) (Map.empty(0 \<mapsto> (Suc (Suc 0), Suc 0)))
      = Map.empty(0 \<mapsto> ([1, 2], [3]))"
proof -
  have app: "fst (append_default (empty_t2 64) [1, 2] [3]) = Inr 0" by code_simp
  have len: "unat (tm_bytes_used (empty_t2 64)) = 0" "unat (record_len [1, 2] [3]) = 32" by code_simp+
  have "t2.contents (empty_t2 64) Map.empty = Map.empty" by (simp add: t2.contents_def fun_eq_iff)
  with t2_append_correct [OF t2_inv_empty [of 64], of "[1, 2]" "[3]"] app len show ?thesis
    by (cases "append_default (empty_t2 64) [1, 2] [3]") (simp add: fits_record_def)
qed

text \<open>
  C25: updating a record in place succeeds exactly when the new value fits the allocation the
  record was created with. It then reads back with its old key and the new value, its version has
  advanced by two, and every other record, the usage counter and the capacity are unchanged; a
  rejected update changes nothing.
\<close>

theorem t2_update_correct:
  assumes "t2_inv mem recs" "recs (unat off) = Some ext"
  shows "\<exists>ok mem'. update_value_at off value mem = (ok, mem') \<and> (ok \<longleftrightarrow> length value \<le> snd ext)
    \<and> t2_inv mem' recs \<and> tm_bytes_used mem' = tm_bytes_used mem \<and> tm_capacity mem' = tm_capacity mem
    \<and> (if ok then vh_version (rv_header (t2_at off mem')) = vh_version (rv_header (t2_at off mem)) + 2
          \<and> t2.contents mem' recs = (t2.contents mem recs)(unat off \<mapsto> (rv_key (t2_at off mem), value))
       else mem' = mem)"
proof -
  obtain ok mem' where upd: "update_value_at off value mem = (ok, mem')" by force
  note u = update_value_at_correct [OF assms upd]
  have "t2_update mem (unat off) value = (ok, mem')" using upd by (simp add: t2_update_def)
  from t2.contents_update [OF assms this] u upd show ?thesis by (auto simp: t2_read_def Let_def)
qed

theorem t2_update_correct_witness:
  "\<exists>ok mem'. update_value_at 0 [9] (snd (append_default (empty_t2 64) [1, 2] [3, 4])) = (ok, mem')
    \<and> ok \<and> rv_value (t2_at 0 mem') = [9]"
proof -
  let ?m = "snd (append_default (empty_t2 64) [1, 2] [3, 4])"
  have app: "append_default (empty_t2 64) [1, 2] [3, 4] = (Inr 0, ?m)"
  proof -
    have "fst (append_default (empty_t2 64) [1, 2] [3, 4]) = Inr 0" by code_simp
    then show ?thesis by (metis prod.collapse)
  qed
  have len: "unat (tm_bytes_used (empty_t2 64)) = 0" "unat (record_len [1, 2] [3, 4]) = 32" by code_simp+
  have "unat (tm_bytes_used (empty_t2 64)) + unat (record_len [1, 2] [3, 4]) < 2 ^ 64" unfolding len by simp
  from append_default_ok [OF t2_inv_empty _ app this]
  have "t2_inv ?m (Map.empty(unat (0 :: u64) \<mapsto> (Suc (Suc 0), Suc (Suc 0))))" by (simp add: fits_record_def)
  from t2_update_correct [OF this, of 0 "(Suc (Suc 0), Suc (Suc 0))" "[9]"] obtain ok mem' where
    u: "update_value_at 0 [9] ?m = (ok, mem')" "ok"
      "t2.contents mem' (Map.empty(0 \<mapsto> (Suc (Suc 0), Suc (Suc 0)))) = (t2.contents ?m (Map.empty(0 \<mapsto> (Suc (Suc 0), Suc (Suc 0)))))(0 \<mapsto> (rv_key (t2_at 0 ?m), [9]))"
    by auto
  from fun_cong [OF u(3), of 0] have "rv_value (t2_at 0 mem') = [9]"
    by (simp add: t2.contents_def t2_read_def Let_def)
  with u show ?thesis by blast
qed

text \<open>
  An append that fails once poisons the file. The counter is advanced before the capacity is
  checked and never taken back, so after one oversized append every later append fails as well,
  even one that would have fitted the space that is still free.
\<close>

lemma failed_append_is_permanent:
  assumes "append_default mem key value = (Inl CapacityExceeded, mem')"
    and "unat (tm_bytes_used mem) + unat (record_len key value) + unat (record_len key' value') < 2 ^ 64"
  shows "fst (append_default mem' key' value') = Inl CapacityExceeded"
proof -
  have m: "mem' = mem\<lparr>tm_bytes_used := tm_bytes_used mem + record_len key value\<rparr>"
      "tm_bytes_used mem + record_len key value > tm_capacity mem"
    using assms(1) by (auto simp: append_default_def Let_def split: if_splits)
  let ?u = "tm_bytes_used mem + record_len key value"
  have u: "unat ?u = unat (tm_bytes_used mem) + unat (record_len key value)"
    using assms(2) by (simp add: unat_word_ariths)
  then have "unat (?u + record_len key' value') = unat ?u + unat (record_len key' value')"
    using assms(2) by (simp add: unat_word_ariths)
  with m(2) have "?u + record_len key' value' > tm_capacity mem" by (simp add: word_less_nat_alt)
  then show ?thesis by (simp add: append_default_def m(1) Let_def)
qed

lemma failed_append_is_permanent_witness:
  "fst (append_default (snd (append_default (empty_t2 64) (replicate 64 1) [])) [1] [2]) = Inl CapacityExceeded
   \<and> fst (append_default (empty_t2 64) [1] [2]) = Inr 0"
proof -
  have "fst (append_default (empty_t2 64) (replicate 64 1) []) = Inl CapacityExceeded" by code_simp
  then have a: "append_default (empty_t2 64) (replicate 64 1) []
      = (Inl CapacityExceeded, snd (append_default (empty_t2 64) (replicate 64 1) []))"
    by (metis prod.collapse)
  have len: "unat (tm_bytes_used (empty_t2 64)) = 0" "unat (record_len (replicate 64 1) []) = 88"
      "unat (record_len [1] [2]) = 32"
    by code_simp+
  have b: "unat (tm_bytes_used (empty_t2 64)) + unat (record_len (replicate 64 1) []) + unat (record_len [1] [2]) < 2 ^ 64"
    unfolding len by simp
  have "fst (append_default (empty_t2 64) [1] [2]) = Inr 0" by code_simp
  with failed_append_is_permanent [OF a b] show ?thesis by blast
qed

text \<open>
  When \<^verbatim>\<open>lseek(SEEK_DATA)\<close> fails for a reason other than \<^verbatim>\<open>ENXIO\<close>, the hole punch is
  issued on a descriptor that has already been closed, and the descriptor is closed a second time.
\<close>

lemma punch_uses_closed_descriptor:
  assumes "0 < len" "offset + len \<le> tm_capacity mem"
  shows "punch mem offset len (Some d) SeekOther ok =
    ((PunchFailed, [OsOpen d, OsSeek d, OsClose d, OsFallocate d, OsClose d]), mem)"
  using assms by (auto simp: punch_def)

lemma punch_uses_closed_descriptor_witness:
  "punch (empty_t2 64) 0 8 (Some 5) SeekOther True =
    ((PunchFailed, [OsOpen 5, OsSeek 5, OsClose 5, OsFallocate 5, OsClose 5]), empty_t2 64)"
  by (rule punch_uses_closed_descriptor) (simp_all add: empty_t2_def T2Memory_new_def)

end
