(* ===== verification/T2_Ownership.thy ===== *)
theory T2_Ownership
  imports Live_Index T2_Flat_File
begin

text \<open>
  \<^verbatim>\<open>vmemkv/t2_ownership.hpp\<close>: the payload codec for T2 offsets, the live bytes per T2 segment
  and the capture watermark. Shown: the counters are at every moment the sum of the size hints of
  the live entries of each segment, so that a counter of zero means that no live entry lies in the
  segment; and what the size hint of a record says about its length.
\<close>

section \<open>Payload codec\<close>

definition kPayloadSizeShift :: nat where
  "kPayloadSizeShift = 48"

definition kPayloadOffsetMask :: u64 where
  "kPayloadOffsetMask = push_bit kPayloadSizeShift 1 - 1"

definition kRecordBlockAlignment :: u64 where
  "kRecordBlockAlignment = 16"

section \<open>Ownership state\<close>

record T2Ownership =
  own_segment_bytes :: u64
  own_seg_live :: "u64 list"
  own_live_total :: u64
  own_watermark :: u64

definition T2Ownership_new :: "u64 \<Rightarrow> nat \<Rightarrow> T2Ownership" where
  "T2Ownership_new segment_bytes segment_count =
     \<lparr>own_segment_bytes = segment_bytes, own_seg_live = replicate segment_count 0, own_live_total = 0, own_watermark = 0\<rparr>"

definition seg_index :: "T2Ownership \<Rightarrow> u64 \<Rightarrow> u64" where
  "seg_index own masked_offset = masked_offset div own_segment_bytes own"

definition hint_bytes :: "u64 \<Rightarrow> u64" where
  "hint_bytes payload_bits = drop_bit kPayloadSizeShift payload_bits * kRecordBlockAlignment"

definition add_live :: "u64 \<Rightarrow> u64 \<Rightarrow> T2Ownership \<Rightarrow> T2Ownership" where
  "add_live seg hint own =
     (if unat seg < length (own_seg_live own)
      then own\<lparr>own_seg_live := (own_seg_live own)[unat seg := own_seg_live own ! unat seg + hint],
               own_live_total := own_live_total own + hint\<rparr>
      else own)"

definition subtract_live :: "u64 \<Rightarrow> u64 \<Rightarrow> T2Ownership \<Rightarrow> T2Ownership" where
  "subtract_live seg hint own =
     (if unat seg < length (own_seg_live own)
      then own\<lparr>own_seg_live := (own_seg_live own)[unat seg := own_seg_live own ! unat seg - hint],
               own_live_total := own_live_total own - hint\<rparr>
      else own)"

definition note_replace :: "u64 \<Rightarrow> u64 \<Rightarrow> bool \<Rightarrow> u64 \<Rightarrow> T2Ownership \<Rightarrow> T2Ownership" where
  "note_replace old_bits old_hash new_is_offset new_bits own =
     (let own1 = (if old_bits \<noteq> STORE_NOT_FOUND \<and> \<not> is_inline old_hash
                  then subtract_live (seg_index own (old_bits AND kPayloadOffsetMask)) (hint_bytes old_bits) own else own)
      in if new_is_offset then add_live (seg_index own1 (new_bits AND kPayloadOffsetMask)) (hint_bytes new_bits) own1 else own1)"

definition seg_live :: "T2Ownership \<Rightarrow> nat \<Rightarrow> u64" where
  "seg_live own seg = own_seg_live own ! seg"

definition segment_count :: "T2Ownership \<Rightarrow> nat" where
  "segment_count own = length (own_seg_live own)"

definition claim_watermark :: "u64 \<Rightarrow> T2Ownership \<Rightarrow> T2Ownership" where
  "claim_watermark target own = own\<lparr>own_watermark := target\<rparr>"

definition revert_watermark :: "u64 \<Rightarrow> T2Ownership \<Rightarrow> T2Ownership" where
  "revert_watermark old_boundary own = own\<lparr>own_watermark := old_boundary\<rparr>"

definition load_watermark :: "T2Ownership \<Rightarrow> u64" where
  "load_watermark own = own_watermark own"

section \<open>The counters are the live bytes\<close>

text \<open>What one index entry contributes to segment \<open>s\<close>, and to the total of the segments there are.\<close>

definition in_segment :: "T2Ownership \<Rightarrow> nat \<Rightarrow> LookupResult \<Rightarrow> bool" where
  "in_segment own s r \<longleftrightarrow> \<not> is_inline (lr_raw_hash r) \<and> unat (seg_index own (lr_payload_bits r AND kPayloadOffsetMask)) = s"

definition contrib :: "T2Ownership \<Rightarrow> nat \<Rightarrow> LookupResult \<Rightarrow> u64" where
  "contrib own s r = (if in_segment own s r then hint_bytes (lr_payload_bits r) else 0)"

definition own_inv :: "T2Ownership \<Rightarrow> (ident \<rightharpoonup> LookupResult) \<Rightarrow> bool" where
  "own_inv own m \<longleftrightarrow> finite (dom m) \<and> (\<forall>s < segment_count own. seg_live own s = (\<Sum>x \<in> dom m. contrib own s (the (m x))))
     \<and> own_live_total own = sum_list (own_seg_live own)"

lemma sum_map_upd:
  fixes f :: "'b \<Rightarrow> 'c::ab_group_add"
  assumes "finite (dom m)"
  shows "(\<Sum>y \<in> dom (m(x := n)). f (the ((m(x := n)) y))) =
    (\<Sum>y \<in> dom m. f (the (m y))) - (case m x of Some r \<Rightarrow> f r | None \<Rightarrow> 0) + (case n of Some r \<Rightarrow> f r | None \<Rightarrow> 0)"
proof -
  let ?D = "dom m - {x}"
  have D: "finite ?D" "x \<notin> ?D" using assms by auto
  have c: "(\<Sum>y \<in> ?D. f (the ((m(x := n)) y))) = (\<Sum>y \<in> ?D. f (the (m y)))" by (rule sum.cong) auto
  have old: "(\<Sum>y \<in> dom m. f (the (m y))) = (case m x of Some r \<Rightarrow> f r | None \<Rightarrow> 0) + (\<Sum>y \<in> ?D. f (the (m y)))"
  proof (cases "m x")
    case None
    then have "dom m = ?D" by auto
    then show ?thesis using None by simp
  next
    case (Some r)
    have "(\<Sum>y \<in> dom m. f (the (m y))) = (\<Sum>y \<in> insert x ?D. f (the (m y)))"
      by (rule sum.cong) (use Some in auto)
    also have "\<dots> = f (the (m x)) + (\<Sum>y \<in> ?D. f (the (m y)))" by (rule sum.insert [OF D])
    finally show ?thesis using Some by simp
  qed
  have new: "(\<Sum>y \<in> dom (m(x := n)). f (the ((m(x := n)) y))) =
      (case n of Some r \<Rightarrow> f r | None \<Rightarrow> 0) + (\<Sum>y \<in> ?D. f (the (m y)))"
  proof (cases n)
    case None
    then have "dom (m(x := n)) = ?D" by auto
    then show ?thesis using None c by simp
  next
    case (Some r)
    have "(\<Sum>y \<in> dom (m(x := n)). f (the ((m(x := n)) y))) = (\<Sum>y \<in> insert x ?D. f (the ((m(x := n)) y)))"
      by (rule sum.cong) (use Some in auto)
    also have "\<dots> = f (the ((m(x := n)) x)) + (\<Sum>y \<in> ?D. f (the ((m(x := n)) y)))" by (rule sum.insert [OF D])
    finally show ?thesis using Some c by simp
  qed
  show ?thesis unfolding old new by simp
qed

lemma sum_list_update_word:
  fixes xs :: "u64 list"
  assumes "k < length xs"
  shows "sum_list (xs[k := v]) = sum_list xs - xs ! k + v"
proof -
  have e: "xs = take k xs @ xs ! k # drop (Suc k) xs" using assms by (rule id_take_nth_drop)
  have "sum_list xs = sum_list (take k xs) + (xs ! k + sum_list (drop (Suc k) xs))" by (subst e) simp
  then show ?thesis using assms by (simp add: upd_conv_take_nth_drop algebra_simps)
qed

lemma live_change:
  shows "segment_count (add_live g h own) = segment_count own" "segment_count (subtract_live g h own) = segment_count own"
    "own_segment_bytes (add_live g h own) = own_segment_bytes own" "own_segment_bytes (subtract_live g h own) = own_segment_bytes own"
    "s < segment_count own \<Longrightarrow> seg_live (add_live g h own) s = seg_live own s + (if unat g = s then h else 0)"
    "s < segment_count own \<Longrightarrow> seg_live (subtract_live g h own) s = seg_live own s - (if unat g = s then h else 0)"
    "own_live_total own = sum_list (own_seg_live own) \<Longrightarrow>
       own_live_total (add_live g h own) = sum_list (own_seg_live (add_live g h own))"
    "own_live_total own = sum_list (own_seg_live own) \<Longrightarrow>
       own_live_total (subtract_live g h own) = sum_list (own_seg_live (subtract_live g h own))"
  by (auto simp: add_live_def subtract_live_def segment_count_def seg_live_def nth_list_update sum_list_update_word)

text \<open>
  The replacement a caller reports: \<open>old\<close> is what the index held, \<open>new\<close> what it is about to hold.
\<close>

lemma note_replace_inv:
  assumes inv: "own_inv own m"
    and old: "case m x of Some r \<Rightarrow> old_bits = lr_payload_bits r \<and> old_hash = lr_raw_hash r \<and> is_live old_bits
                | None \<Rightarrow> old_bits = STORE_NOT_FOUND"
    and new: "case n of None \<Rightarrow> \<not> new_is_offset
                | Some r \<Rightarrow> new_is_offset = (\<not> is_inline (lr_raw_hash r)) \<and> (new_is_offset \<longrightarrow> new_bits = lr_payload_bits r)"
  shows "own_inv (note_replace old_bits old_hash new_is_offset new_bits own) (m(x := n))"
proof -
  let ?own' = "note_replace old_bits old_hash new_is_offset new_bits own"
  have fin: "finite (dom m)" and tot: "own_live_total own = sum_list (own_seg_live own)" using inv by (simp_all add: own_inv_def)
  have frame: "segment_count ?own' = segment_count own" "own_segment_bytes ?own' = own_segment_bytes own"
    by (simp_all add: note_replace_def Let_def live_change)
  have ctr: "contrib ?own' s r = contrib own s r" for s r by (simp add: contrib_def in_segment_def seg_index_def frame)
  have o: "(if old_bits \<noteq> STORE_NOT_FOUND \<and> \<not> is_inline old_hash \<and> unat (seg_index own (old_bits AND kPayloadOffsetMask)) = s
      then hint_bytes old_bits else 0) = (case m x of Some r \<Rightarrow> contrib own s r | None \<Rightarrow> 0)" for s
    using old by (auto simp: contrib_def in_segment_def is_live_def split: option.splits)
  have w: "(if new_is_offset \<and> unat (seg_index own (new_bits AND kPayloadOffsetMask)) = s then hint_bytes new_bits else 0)
      = (case n of Some r \<Rightarrow> contrib own s r | None \<Rightarrow> 0)" for s
    using new by (auto simp: contrib_def in_segment_def split: option.splits)
  have "seg_live ?own' s = (\<Sum>y \<in> dom (m(x := n)). contrib own s (the ((m(x := n)) y)))" if s: "s < segment_count own" for s
  proof -
    have "seg_live ?own' s = seg_live own s - (case m x of Some r \<Rightarrow> contrib own s r | None \<Rightarrow> 0)
        + (case n of Some r \<Rightarrow> contrib own s r | None \<Rightarrow> 0)"
      unfolding o [symmetric] w [symmetric] using s
      by (simp add: note_replace_def Let_def live_change seg_index_def)
    also have "seg_live own s = (\<Sum>y \<in> dom m. contrib own s (the (m y)))" using inv s by (simp add: own_inv_def)
    finally show ?thesis unfolding sum_map_upd [OF fin] .
  qed
  moreover have "own_live_total ?own' = sum_list (own_seg_live ?own')" using tot by (simp add: note_replace_def Let_def live_change)
  moreover have "finite (dom (m(x := n)))" using fin by (auto simp: dom_def intro: finite_subset [of _ "insert x (dom m)"])
  ultimately show ?thesis unfolding own_inv_def frame ctr by simp
qed

lemma own_inv_new: "own_inv (T2Ownership_new seg_bytes n) Map.empty"
  by (simp add: own_inv_def T2Ownership_new_def segment_count_def seg_live_def sum_list_replicate)

text \<open>
  The changes of an index, each reported with the entry it replaces: \<open>Some r\<close> publishes an entry,
  \<open>None\<close> deletes one. The arguments are those of the write path and of the replay.
\<close>

fun note_changes :: "(ident \<times> LookupResult option) list \<Rightarrow> T2Ownership \<times> (ident \<rightharpoonup> LookupResult) \<Rightarrow> T2Ownership \<times> (ident \<rightharpoonup> LookupResult)" where
  "note_changes [] st = st"
| "note_changes ((x, n) # cs) (own, m) =
     (let (old_bits, old_hash) = (case m x of None \<Rightarrow> (STORE_NOT_FOUND, 0) | Some r \<Rightarrow> (lr_payload_bits r, lr_raw_hash r));
          own' = (case n of None \<Rightarrow> note_replace old_bits old_hash False 0 own
                  | Some r \<Rightarrow> note_replace old_bits old_hash (\<not> is_inline (lr_raw_hash r)) (lr_payload_bits r) own)
      in note_changes cs (own', m(x := n)))"

lemma note_changes_inv:
  assumes "own_inv own m" "\<And>x r. m x = Some r \<Longrightarrow> is_live (lr_payload_bits r)" "\<forall>(x, n) \<in> set cs. case n of None \<Rightarrow> True | Some r \<Rightarrow> is_live (lr_payload_bits r)"
    "note_changes cs (own, m) = (own', m')"
  shows "own_inv own' m' \<and> segment_count own' = segment_count own"
  using assms
proof (induction cs arbitrary: own m)
  case (Cons c cs)
  obtain x n where c: "c = (x, n)" by (cases c)
  obtain old_bits old_hash where o: "(case m x of None \<Rightarrow> (STORE_NOT_FOUND, 0) | Some r \<Rightarrow> (lr_payload_bits r, lr_raw_hash r)) = (old_bits, old_hash)"
    by (cases "case m x of None \<Rightarrow> (STORE_NOT_FOUND, 0) | Some r \<Rightarrow> (lr_payload_bits r, lr_raw_hash r)")
  define own1 where "own1 = (case n of None \<Rightarrow> note_replace old_bits old_hash False 0 own
      | Some r \<Rightarrow> note_replace old_bits old_hash (\<not> is_inline (lr_raw_hash r)) (lr_payload_bits r) own)"
  have old: "case m x of Some r \<Rightarrow> old_bits = lr_payload_bits r \<and> old_hash = lr_raw_hash r \<and> is_live old_bits | None \<Rightarrow> old_bits = STORE_NOT_FOUND"
    using o Cons.prems(2) [of x] by (auto split: option.splits)
  have i: "own_inv own1 (m(x := n))" unfolding own1_def
    using note_replace_inv [OF Cons.prems(1) old, where n = None and new_is_offset = False] note_replace_inv [OF Cons.prems(1) old, where n = n]
    by (cases n) simp_all
  have sc: "segment_count own1 = segment_count own" by (simp add: own1_def note_replace_def Let_def live_change split: option.splits)
  have lv: "is_live (lr_payload_bits r)" if "(m(x := n)) y = Some r" for y r
    using that Cons.prems(2) [of y r] Cons.prems(3) by (auto simp: c split: if_splits option.splits)
  have nx: "note_changes cs (own1, m(x := n)) = (own', m')" using Cons.prems(4) by (simp add: c o own1_def)
  show ?case using Cons.IH [OF i lv _ nx] Cons.prems(3) sc by simp
qed simp

text \<open>
  C27: the segment counters count the live bytes. Start from the counters of a new store and report
  any sequence of index changes (publications of live entries, inline or not, and deletions). Then
  the counter of a segment reads the sum of the size hints of the live T2 entries that start in it,
  provided that sum is below \<open>2 ^ 64\<close>; so it reads zero exactly when no live entry with a size hint
  starts there and the segment may be queued for punching.
\<close>

theorem zero_counter_evacuated:
  assumes "note_changes cs (T2Ownership_new segment_bytes n, Map.empty) = (own, m)"
    and "\<forall>(x, e) \<in> set cs. case e of None \<Rightarrow> True | Some r \<Rightarrow> is_live (lr_payload_bits r)"
    and "s < n" "(\<Sum>x \<in> dom m. unat (contrib own s (the (m x)))) < 2 ^ 64"
  shows "unat (seg_live own s) = (\<Sum>x \<in> dom m. unat (contrib own s (the (m x))))
    \<and> (seg_live own s = 0 \<longleftrightarrow> (\<forall>x r. m x = Some r \<and> in_segment own s r \<longrightarrow> hint_bytes (lr_payload_bits r) = 0))"
proof -
  let ?f = "\<lambda>x. unat (contrib own s (the (m x)))"
  have i: "own_inv own m" "segment_count own = n"
    using note_changes_inv [OF own_inv_new _ assms(2,1)] by (auto simp: segment_count_def T2Ownership_new_def)
  have fin: "finite (dom m)" using i(1) by (simp add: own_inv_def)
  have "(\<Sum>x \<in> dom m. contrib own s (the (m x))) = word_of_nat (\<Sum>x \<in> dom m. ?f x)" by simp
  then have "seg_live own s = word_of_nat (\<Sum>x \<in> dom m. ?f x)" using i assms(3) by (simp add: own_inv_def)
  then have u: "unat (seg_live own s) = (\<Sum>x \<in> dom m. ?f x)" using unat_small [OF assms(4)] by simp
  have "seg_live own s = 0 \<longleftrightarrow> (\<forall>x \<in> dom m. ?f x = 0)" using u fin by (simp add: unat_eq_0 [symmetric] sum_eq_0_iff)
  also have "\<dots> \<longleftrightarrow> (\<forall>x r. m x = Some r \<and> in_segment own s r \<longrightarrow> hint_bytes (lr_payload_bits r) = 0)"
    by (force simp: contrib_def unat_eq_0)
  finally show ?thesis using u by blast
qed

text \<open>One record in segment 0, replaced by one in segment 1.\<close>

theorem zero_counter_evacuated_witness:
  "\<exists>own m. note_changes [((replicate 16 0, 0), Some \<lparr>lr_payload_bits = push_bit 48 2, lr_raw_hash = 0\<rparr>),
       ((replicate 16 0, 0), Some \<lparr>lr_payload_bits = push_bit 48 3 + 4096, lr_raw_hash = 0\<rparr>)] (T2Ownership_new 4096 4, Map.empty) = (own, m)
     \<and> seg_live own 0 = 0 \<and> seg_live own 1 = 48 \<and> \<not> in_segment own 0 \<lparr>lr_payload_bits = push_bit 48 3 + 4096, lr_raw_hash = 0\<rparr>"
proof -
  let ?x = "(replicate 16 0 :: store_key, 0 :: u64)" and ?r1 = "\<lparr>lr_payload_bits = push_bit 48 2, lr_raw_hash = 0 :: u64\<rparr>"
    and ?r2 = "\<lparr>lr_payload_bits = push_bit 48 3 + 4096, lr_raw_hash = 0 :: u64\<rparr>"
  let ?cs = "[(?x, Some ?r1), (?x, Some ?r2)]"
  define own where "own = fst (note_changes ?cs (T2Ownership_new 4096 4, Map.empty))"
  have m: "note_changes ?cs (T2Ownership_new 4096 4, Map.empty) = (own, [?x \<mapsto> ?r2])" by (simp add: own_def Let_def)
  have e: "seg_live own 0 = 0" "seg_live own 1 = 48" "is_live (push_bit 48 2)" "is_live (push_bit 48 3 + 4096)" "hint_bytes (push_bit 48 3 + 4096) \<noteq> 0"
    unfolding own_def by code_simp+
  have "\<forall>(x, e) \<in> set ?cs. case e of None \<Rightarrow> True | Some r \<Rightarrow> is_live (lr_payload_bits r)" using e(3,4) by simp
  note z = zero_counter_evacuated [OF m this, of 0]
  have "seg_live own 0 = 0 \<longleftrightarrow> (\<forall>x r. [?x \<mapsto> ?r2] x = Some r \<and> in_segment own 0 r \<longrightarrow> hint_bytes (lr_payload_bits r) = 0)"
    using z unat_less_2p [of "contrib own 0 ?r2"] by simp
  then have "[?x \<mapsto> ?r2] ?x = Some ?r2 \<and> in_segment own 0 ?r2 \<longrightarrow> hint_bytes (lr_payload_bits ?r2) = 0" using e(1) by blast
  then have "\<not> in_segment own 0 ?r2" using e(5) by simp
  then show ?thesis using m e(1,2) by blast
qed

end
