(* ===== verification/Read_Path.thy ===== *)
theory Read_Path
  imports T2_Ownership
begin

text \<open>
  \<^verbatim>\<open>vmemkv/read_path.hpp\<close>: reading a T2 record, without a lock below the base boundary through one
  of several mappings or a bounded \<^verbatim>\<open>pread\<close>, under the version check above it; the size hint;
  inline keys and values; and the offset-ordered batches of a scan. What the system answers
  (residency, bytes read) and which mappings exist are arguments. Shown: whichever way a record is
  read, it is the record at its offset; the size hint covers the record; inline keys and values
  decode to what was encoded; a batch delivers in key order what reading each entry by itself would.
\<close>

section \<open>The version check\<close>

text \<open>The loop over an unchanging memory: it spins on a record whose update never finishes.\<close>

partial_function (option) read_t2_record_seqlock :: "(unit \<Rightarrow> T2RecordView) \<Rightarrow> (T2RecordView \<Rightarrow> 'a) \<Rightarrow> 'a option" where
  "read_t2_record_seqlock at_func copy_func =
     (let record = at_func ();
          v1 = vh_version (rv_header record)
      in if v1 mod 2 \<noteq> 0 then read_t2_record_seqlock at_func copy_func
         else let result = copy_func record;
                  v2 = vh_version (rv_header (at_func ()))
              in if v1 = v2 then Some result else read_t2_record_seqlock at_func copy_func)"

section \<open>Base region reads\<close>

datatype BaseReader = kGet | kScan

datatype ReadPolicy = Trifecta | RandomOnly | SeqOnly

datatype Mapping = Base | BaseMmapScan | BaseMmapScanSeq

text \<open>Which of the optional mappings and the read descriptor were created.\<close>

record Mappings =
  mp_scan :: bool
  mp_scan_seq :: bool
  mp_read_fd :: bool

definition scan_seq_or_base :: "Mappings \<Rightarrow> Mapping" where
  "scan_seq_or_base mp = (if mp_scan_seq mp then BaseMmapScanSeq else Base)"

definition for_scan :: "ReadPolicy \<Rightarrow> Mappings \<Rightarrow> bool \<Rightarrow> Mapping option" where
  "for_scan policy mp is_small =
     (case policy of
        RandomOnly \<Rightarrow> Some Base
      | SeqOnly \<Rightarrow> Some (scan_seq_or_base mp)
      | Trifecta \<Rightarrow>
          if is_small then (if mp_scan_seq mp then Some BaseMmapScanSeq else None)
          else (if mp_scan mp then Some BaseMmapScan else None))"

definition for_get_small :: "ReadPolicy \<Rightarrow> Mappings \<Rightarrow> Mapping option" where
  "for_get_small policy mp = (case policy of SeqOnly \<Rightarrow> Some (scan_seq_or_base mp) | _ \<Rightarrow> Some Base)"

definition for_get_large_pinned :: "ReadPolicy \<Rightarrow> Mappings \<Rightarrow> Mapping option" where
  "for_get_large_pinned policy mp =
     (case policy of RandomOnly \<Rightarrow> Some Base | SeqOnly \<Rightarrow> Some (scan_seq_or_base mp) | Trifecta \<Rightarrow> None)"

text \<open>Every mapping shows the same bytes.\<close>

definition mapping_bytes :: "T2Memory \<Rightarrow> Mapping \<Rightarrow> bytes" where
  "mapping_bytes mem m = tm_base mem"

definition record_needed :: "ValueRecordHeader \<Rightarrow> u64" where
  "record_needed header = word_of_nat sizeof_ValueRecordHeader + ucast (vh_key_len header) + ucast (vh_value_len header)"

definition read_base_record_via :: "T2Memory \<Rightarrow> Mapping option \<Rightarrow> u64 \<Rightarrow> u64 \<Rightarrow> T2RecordView option" where
  "read_base_record_via mem mapping offset base_boundary =
     (case mapping of
        None \<Rightarrow> None
      | Some m \<Rightarrow>
          let header = read_header (mapping_bytes mem m) (unat offset)
          in if offset + record_needed header > base_boundary then None
             else Some (make_record_view (mapping_bytes mem m) (unat offset)))"

text \<open>\<open>resident\<close>: \<^verbatim>\<open>mincore\<close> succeeded and reported every page of the range.\<close>

definition try_read_resident_base_record :: "T2Memory \<Rightarrow> bool \<Rightarrow> Mapping \<Rightarrow> u64 \<Rightarrow> u64 \<Rightarrow> T2RecordView option" where
  "try_read_resident_base_record mem resident m offset base_boundary =
     (if \<not> resident then None
      else let header = read_header (mapping_bytes mem m) (unat offset)
           in if offset + record_needed header > base_boundary then None
              else Some (make_record_view (mapping_bytes mem m) (unat offset)))"

definition base_size_hint :: "u64 \<Rightarrow> u64" where
  "base_size_hint payload_bits = drop_bit kPayloadSizeShift payload_bits * kRecordBlockAlignment + 16"

text \<open>
  \<open>got\<close>: the bytes \<^verbatim>\<open>pread\<close> delivered, at most as many as asked for and as the file holds; the rest
  of the buffer keeps what it held before (\<open>stale\<close>).
\<close>

definition read_large_get_cold ::
  "T2Memory \<Rightarrow> Mappings \<Rightarrow> bool \<Rightarrow> nat option \<Rightarrow> bytes \<Rightarrow> u64 \<Rightarrow> u64 \<Rightarrow> u64 \<Rightarrow> T2RecordView option" where
  "read_large_get_cold mem mp resident got stale offset base_boundary size_hint =
     (let read_len = min size_hint (base_boundary - offset)
      in case (if mp_scan mp then try_read_resident_base_record mem resident BaseMmapScan offset base_boundary else None) of
           Some r \<Rightarrow> Some r
         | None \<Rightarrow>
             if \<not> mp_read_fd mp then None
             else case got of
                    None \<Rightarrow> None
                  | Some n \<Rightarrow>
                      let bytes_read = min n (min (unat read_len) (length (tm_base mem) - unat offset))
                      in if bytes_read < sizeof_ValueRecordHeader then None
                         else let buf = mem_read (tm_base mem) (unat offset) bytes_read @ stale;
                                  header = read_header buf 0
                              in if record_needed header > word_of_nat bytes_read then None
                                 else Some (make_record_view buf 0))"

record ReadEnv =
  re_policy :: ReadPolicy
  re_mappings :: Mappings
  re_resident :: bool
  re_got :: "nat option"
  re_stale :: bytes

definition try_read_base_record :: "ReadEnv \<Rightarrow> T2Memory \<Rightarrow> u64 \<Rightarrow> BaseReader \<Rightarrow> T2RecordView option" where
  "try_read_base_record env mem payload_bits reader =
     (let offset = payload_bits AND kPayloadOffsetMask;
          base_boundary = tm_base_boundary mem
      in if offset \<ge> base_boundary then None
         else let size_hint = base_size_hint payload_bits;
                  is_small = (size_hint \<le> 4096)
              in case reader of
                   kScan \<Rightarrow> read_base_record_via mem (for_scan (re_policy env) (re_mappings env) is_small) offset base_boundary
                 | kGet \<Rightarrow>
                     if is_small then read_base_record_via mem (for_get_small (re_policy env) (re_mappings env)) offset base_boundary
                     else case for_get_large_pinned (re_policy env) (re_mappings env) of
                            Some m \<Rightarrow> read_base_record_via mem (Some m) offset base_boundary
                          | None \<Rightarrow> read_large_get_cold mem (re_mappings env) (re_resident env) (re_got env) (re_stale env)
                                      offset base_boundary size_hint)"

section \<open>Inline entries\<close>

fun bit_width_nat :: "nat \<Rightarrow> nat" where
  "bit_width_nat n = (if n = 0 then 0 else Suc (bit_width_nat (n div 2)))"

declare bit_width_nat.simps [simp del]

definition bit_width :: "u64 \<Rightarrow> nat" where
  "bit_width w = bit_width_nat (unat w)"

definition inline_key_len :: "bytes \<Rightarrow> nat" where
  "inline_key_len index_key =
     (let lo_word = u64_of_le (mem_read index_key 0 8);
          hi_word = u64_of_le (mem_read index_key 8 8)
      in if hi_word \<noteq> 0 then 8 + (bit_width hi_word + 7) div 8 else (bit_width lo_word + 7) div 8)"

definition copy_inline_value :: "u64 \<Rightarrow> nat \<Rightarrow> bytes" where
  "copy_inline_value payload_bits n = take n (u64_le payload_bits)"

definition byte_span_equal :: "bytes \<Rightarrow> bytes \<Rightarrow> bool" where
  "byte_span_equal lhs rhs = bytes_equal lhs rhs"

definition key_in_range :: "bytes \<Rightarrow> bytes \<Rightarrow> bytes \<Rightarrow> bool" where
  "key_in_range key lower_bound upper_bound = bytes_in_range key lower_bound upper_bound"

section \<open>Scan batches\<close>

record ScanBatchSlot =
  sb_payload :: u64
  sb_hash :: u64
  sb_key :: bytes
  sb_value :: bytes
  sb_arena_key_off :: nat
  sb_arena_key_len :: nat
  sb_arena_val_len :: nat
  sb_copied :: bool
  sb_skipped :: bool

definition ScanBatchSlot_of :: "u64 \<Rightarrow> u64 \<Rightarrow> ScanBatchSlot" where
  "ScanBatchSlot_of payload hash = \<lparr>sb_payload = payload, sb_hash = hash, sb_key = [], sb_value = [], sb_arena_key_off = 0,
     sb_arena_key_len = 0, sb_arena_val_len = 0, sb_copied = False, sb_skipped = False\<rparr>"

definition slot_offset :: "ScanBatchSlot \<Rightarrow> u64" where
  "slot_offset slot = sb_payload slot AND kPayloadOffsetMask"

text \<open>One turn of the reading loop, on the slot itself and the arena.\<close>

definition read_slot :: "ReadEnv \<Rightarrow> T2Memory \<Rightarrow> bytes \<Rightarrow> bytes \<Rightarrow> ScanBatchSlot \<Rightarrow> bytes \<Rightarrow> (ScanBatchSlot \<times> bytes) option" where
  "read_slot env mem lower_bound upper_bound slot arena =
     (case try_read_base_record env mem (sb_payload slot) kScan of
        Some r \<Rightarrow> Some (slot\<lparr>sb_key := rv_key r, sb_value := rv_value r\<rparr>, arena)
      | None \<Rightarrow>
          read_t2_record_seqlock (\<lambda>_. t2_at (slot_offset slot) mem)
            (\<lambda>record.
               if \<not> key_in_range (rv_key record) lower_bound upper_bound then (slot\<lparr>sb_skipped := True\<rparr>, arena)
               else (slot\<lparr>sb_arena_key_off := length arena, sb_arena_key_len := length (rv_key record),
                          sb_arena_val_len := length (rv_value record), sb_copied := True, sb_skipped := False\<rparr>,
                     arena @ rv_key record @ rv_value record)))"

fun read_slots ::
  "ReadEnv \<Rightarrow> T2Memory \<Rightarrow> bytes \<Rightarrow> bytes \<Rightarrow> nat list \<Rightarrow> ScanBatchSlot list \<Rightarrow> bytes \<Rightarrow> (ScanBatchSlot list \<times> bytes) option" where
  "read_slots env mem lo hi [] batch arena = Some (batch, arena)"
| "read_slots env mem lo hi (idx # order) batch arena =
     (case read_slot env mem lo hi (batch ! idx) arena of
        None \<Rightarrow> None
      | Some (slot, arena') \<Rightarrow> read_slots env mem lo hi order (batch[idx := slot]) arena')"

definition resolve_arena :: "bytes \<Rightarrow> ScanBatchSlot \<Rightarrow> ScanBatchSlot" where
  "resolve_arena arena slot =
     (if sb_copied slot
      then slot\<lparr>sb_key := mem_read arena (sb_arena_key_off slot) (sb_arena_key_len slot),
                sb_value := mem_read arena (sb_arena_key_off slot + sb_arena_key_len slot) (sb_arena_val_len slot)\<rparr>
      else slot)"

definition emit_slot :: "bytes \<Rightarrow> bytes \<Rightarrow> ScanBatchSlot \<Rightarrow> (bytes \<times> bytes) list" where
  "emit_slot lower_bound upper_bound slot =
     (if sb_skipped slot then []
      else if \<not> sb_copied slot \<and> \<not> key_in_range (sb_key slot) lower_bound upper_bound then []
      else [(sb_key slot, sb_value slot)])"

text \<open>The callbacks of one batch, in order.\<close>

definition flush_scan_batch :: "ReadEnv \<Rightarrow> T2Memory \<Rightarrow> bytes \<Rightarrow> bytes \<Rightarrow> ScanBatchSlot list \<Rightarrow> (bytes \<times> bytes) list option" where
  "flush_scan_batch env mem lower_bound upper_bound batch =
     (if batch = [] then Some []
      else let read_order = sort_key (\<lambda>i. slot_offset (batch ! i)) [0..<length batch]
           in map_option (\<lambda>(slots, arena). concat (map (emit_slot lower_bound upper_bound) (map (resolve_arena arena) slots)))
                (read_slots env mem lower_bound upper_bound read_order batch []))"

section \<open>Every way of reading gives the record\<close>

lemma seqlock_stable:
  assumes "even (vh_version (rv_header (at_func ())))"
  shows "read_t2_record_seqlock at_func copy_func = Some (copy_func (at_func ()))"
proof -
  have "vh_version (rv_header (at_func ())) mod 2 = 0" using assms by (simp add: even_iff_mod_2_eq_zero)
  then show ?thesis by (subst read_t2_record_seqlock.simps) (simp add: Let_def)
qed

lemma record_needed_unat: "unat (record_needed h) = 24 + unat (vh_key_len h) + unat (vh_value_len h)"
proof -
  have u: "unat (ucast w :: u64) = unat w" "unat w < 2 ^ 32" for w :: u32
    using unat_less_2p [of w] by (simp_all add: unsigned_ucast_eq take_bit_nat_eq_self)
  have "record_needed h = word_of_nat (24 + unat (vh_key_len h) + unat (vh_value_len h))"
    using u(1) by (simp add: record_needed_def sizeof_ValueRecordHeader_def word_unat_eq_iff unat_word_ariths)
  moreover have "24 + unat (vh_key_len h) + unat (vh_value_len h) < 2 ^ 64"
    using u(2) [of "vh_key_len h"] u(2) [of "vh_value_len h"] by simp
  ultimately show ?thesis by (simp only: unat_small)
qed

lemma via_view: "read_base_record_via mem m offset b = Some r \<Longrightarrow> r = t2_at offset mem"
  by (auto simp: read_base_record_via_def mapping_bytes_def t2_at_def Let_def split: option.splits if_splits)

lemma resident_view: "try_read_resident_base_record mem res m offset b = Some r \<Longrightarrow> r = t2_at offset mem"
  by (auto simp: try_read_resident_base_record_def mapping_bytes_def t2_at_def Let_def split: if_splits)

lemma buffer_view:
  assumes "24 \<le> n" "off + n \<le> length m"
    and "24 + unat (vh_key_len (read_header (mem_read m off n @ stale) 0))
      + unat (vh_value_len (read_header (mem_read m off n @ stale) 0)) \<le> n"
  shows "make_record_view (mem_read m off n @ stale) 0 = make_record_view m off"
proof -
  let ?b = "mem_read m off n @ stale"
  have part: "mem_read ?b d k = mem_read m (off + d) k" if "d + k \<le> n" for d k
  proof -
    have l: "length (mem_read m off n) = n" using assms(2) by simp
    have "mem_read ?b d k = mem_read (mem_read m off n) d k" using that l by (simp add: mem_read_def [of "_ @ _"] mem_read_def [of "mem_read m off n"])
    then show ?thesis using that by (simp add: mem_read_def drop_take min_def add.commute)
  qed
  have h: "read_header ?b 0 = read_header m off"
    using part [of 0 4] part [of 4 4] part [of 8 4] part [of 16 8] assms(1) by (simp add: read_header_def)
  show ?thesis
    using part assms(3) unfolding make_record_view_def Let_def h
    by (simp add: sizeof_ValueRecordHeader_def add.assoc)
qed

lemma cold_view:
  assumes "read_large_get_cold mem mp res got stale offset b hint = Some r"
  shows "r = t2_at offset mem"
proof (cases "if mp_scan mp then try_read_resident_base_record mem res BaseMmapScan offset b else None")
  case (Some r')
  then show ?thesis using assms resident_view by (auto simp: read_large_get_cold_def Let_def split: if_splits)
next
  case None
  let ?rl = "min hint (b - offset)"
  obtain n where n: "got = Some n" "mp_read_fd mp"
    using assms None by (auto simp: read_large_get_cold_def Let_def split: if_splits option.splits)
  define k where "k = min n (min (unat ?rl) (length (tm_base mem) - unat offset))"
  let ?buf = "mem_read (tm_base mem) (unat offset) k @ stale"
  have c: "24 \<le> k" "\<not> record_needed (read_header ?buf 0) > word_of_nat k" "r = make_record_view ?buf 0"
    using assms n unfolding read_large_get_cold_def Let_def None
    by (auto simp: sizeof_ValueRecordHeader_def k_def not_less split: if_splits)
  have k: "k \<le> unat ?rl" "unat offset + k \<le> length (tm_base mem)" using c(1) by (auto simp: k_def)
  have "unat (word_of_nat k :: u64) = k"
    using k(1) unat_less_2p [of ?rl] by (intro unat_small) simp
  then have "unat (record_needed (read_header ?buf 0)) \<le> k" using c(2) by (simp add: not_less word_le_nat_alt)
  then have "24 + unat (vh_key_len (read_header ?buf 0)) + unat (vh_value_len (read_header ?buf 0)) \<le> k"
    by (simp only: record_needed_unat)
  from buffer_view [OF c(1) k(2) this] show ?thesis by (simp add: c(3) t2_at_def)
qed

lemma base_record_view:
  assumes "try_read_base_record env mem payload reader = Some r"
  shows "r = t2_at (payload AND kPayloadOffsetMask) mem"
  using assms via_view cold_view
  by (fastforce simp: try_read_base_record_def Let_def split: if_splits BaseReader.splits option.splits)

section \<open>Batches\<close>

text \<open>Reading one entry by itself.\<close>

definition emit_record :: "T2Memory \<Rightarrow> bytes \<Rightarrow> bytes \<Rightarrow> u64 \<Rightarrow> (bytes \<times> bytes) list" where
  "emit_record mem lo hi payload =
     (let v = t2_at (payload AND kPayloadOffsetMask) mem
      in if lo \<le> rv_key v \<and> rv_key v \<le> hi then [(rv_key v, rv_value v)] else [])"

definition fresh_slot :: "T2Memory \<Rightarrow> ScanBatchSlot \<Rightarrow> bool" where
  "fresh_slot mem slot \<longleftrightarrow> \<not> sb_copied slot \<and> \<not> sb_skipped slot \<and> even (vh_version (rv_header (t2_at (slot_offset slot) mem)))"

lemma read_slot_emit:
  assumes "fresh_slot mem slot"
  obtains slot' ext where "read_slot env mem lo hi slot arena = Some (slot', arena @ ext)"
    "\<And>more. emit_slot lo hi (resolve_arena (arena @ ext @ more) slot') = emit_record mem lo hi (sb_payload slot)"
proof (cases "try_read_base_record env mem (sb_payload slot) kScan")
  case (Some r)
  have r: "r = t2_at (sb_payload slot AND kPayloadOffsetMask) mem" by (rule base_record_view [OF Some])
  show ?thesis
    by (rule that [of "slot\<lparr>sb_key := rv_key r, sb_value := rv_value r\<rparr>" "[]"])
      (use assms Some r in \<open>auto simp: read_slot_def emit_slot_def resolve_arena_def fresh_slot_def emit_record_def Let_def
         key_in_range_def bytes_in_range_iff\<close>)
next
  case None
  let ?v = "t2_at (slot_offset slot) mem"
  have v: "even (vh_version (rv_header ?v))" using assms by (simp add: fresh_slot_def)
  show ?thesis
  proof (cases "key_in_range (rv_key ?v) lo hi")
    case True
    let ?s = "slot\<lparr>sb_arena_key_off := length arena, sb_arena_key_len := length (rv_key ?v),
      sb_arena_val_len := length (rv_value ?v), sb_copied := True, sb_skipped := False\<rparr>"
    show ?thesis
      by (rule that [of ?s "rv_key ?v @ rv_value ?v"])
        (use None True v in \<open>auto simp: read_slot_def seqlock_stable emit_slot_def resolve_arena_def emit_record_def Let_def
           slot_offset_def key_in_range_def bytes_in_range_iff mem_read_def\<close>)
  next
    case False
    show ?thesis
      by (rule that [of "slot\<lparr>sb_skipped := True\<rparr>" "[]"])
        (use None False v assms in \<open>auto simp: read_slot_def seqlock_stable emit_slot_def resolve_arena_def emit_record_def Let_def
           slot_offset_def key_in_range_def bytes_in_range_iff fresh_slot_def\<close>)
  qed
qed

lemma read_slots_emit:
  assumes "distinct order" "\<forall>i \<in> set order. i < length batch \<and> fresh_slot mem (batch ! i)"
  obtains batch' ext where "read_slots env mem lo hi order batch arena = Some (batch', arena @ ext)" "length batch' = length batch"
    "\<And>i more. i \<in> set order \<Longrightarrow> emit_slot lo hi (resolve_arena (arena @ ext @ more) (batch' ! i)) = emit_record mem lo hi (sb_payload (batch ! i))"
    "\<And>i. i \<notin> set order \<Longrightarrow> batch' ! i = batch ! i"
  using assms
proof (induction order arbitrary: batch arena thesis)
  case Nil
  show ?case by (rule Nil.prems(1) [of batch "[]"]) simp_all
next
  case (Cons idx order)
  have "fresh_slot mem (batch ! idx)" using Cons.prems(3) by simp
  then obtain slot ext where r: "read_slot env mem lo hi (batch ! idx) arena = Some (slot, arena @ ext)"
    "\<And>more. emit_slot lo hi (resolve_arena (arena @ ext @ more) slot) = emit_record mem lo hi (sb_payload (batch ! idx))"
    by (rule read_slot_emit [where env = env and lo = lo and hi = hi and arena = arena]) (rule that)
  let ?b = "batch[idx := slot]"
  have idx: "idx < length batch" "idx \<notin> set order" using Cons.prems by simp_all
  have o: "distinct order" "\<forall>i \<in> set order. i < length ?b \<and> fresh_slot mem (?b ! i)"
    using Cons.prems idx by (auto simp: nth_list_update)
  obtain batch' ext' where IH: "read_slots env mem lo hi order ?b (arena @ ext) = Some (batch', (arena @ ext) @ ext')" "length batch' = length ?b"
    "\<And>i more. i \<in> set order \<Longrightarrow> emit_slot lo hi (resolve_arena ((arena @ ext) @ ext' @ more) (batch' ! i)) = emit_record mem lo hi (sb_payload (?b ! i))"
    "\<And>i. i \<notin> set order \<Longrightarrow> batch' ! i = ?b ! i"
    by (rule Cons.IH [OF _ o, of "arena @ ext"]) (rule that)
  show ?case
  proof (rule Cons.prems(1) [of batch' "ext @ ext'"])
    show "read_slots env mem lo hi (idx # order) batch arena = Some (batch', arena @ ext @ ext')" using r(1) IH(1) by simp
    show "length batch' = length batch" using IH(2) by simp
    fix i
    show "batch' ! i = batch ! i" if "i \<notin> set (idx # order)" using IH(4) [of i] that by simp
    fix more
    assume "i \<in> set (idx # order)"
    then show "emit_slot lo hi (resolve_arena (arena @ (ext @ ext') @ more) (batch' ! i)) = emit_record mem lo hi (sb_payload (batch ! i))"
      using IH(3) [of i more] IH(4) [of idx] r(2) [of "ext' @ more"] idx by (cases "i = idx") auto
  qed
qed

lemma flush_emit:
  assumes "\<forall>slot \<in> set batch. fresh_slot mem slot"
  shows "flush_scan_batch env mem lo hi batch = Some (concat (map (emit_record mem lo hi \<circ> sb_payload) batch))"
proof (cases "batch = []")
  case False
  let ?order = "sort_key (\<lambda>i. slot_offset (batch ! i)) [0..<length batch]"
  have o: "distinct ?order" "set ?order = {..<length batch}" by auto
  have "\<forall>i \<in> set ?order. i < length batch \<and> fresh_slot mem (batch ! i)" using assms o(2) by auto
  then obtain batch' ext where r: "read_slots env mem lo hi ?order batch [] = Some (batch', [] @ ext)" "length batch' = length batch"
    "\<And>i more. i \<in> set ?order \<Longrightarrow> emit_slot lo hi (resolve_arena ([] @ ext @ more) (batch' ! i)) = emit_record mem lo hi (sb_payload (batch ! i))"
    "\<And>i. i \<notin> set ?order \<Longrightarrow> batch' ! i = batch ! i"
    by (rule read_slots_emit [OF o(1), where env = env and lo = lo and hi = hi and arena = "[]"]) (rule that)
  have "map (emit_slot lo hi) (map (resolve_arena ext) batch') = map (emit_record mem lo hi \<circ> sb_payload) batch"
    by (rule nth_equalityI) (use r(2) r(3) [of _ "[]"] o(2) in auto)
  then have "concat (map (emit_slot lo hi) (map (resolve_arena ext) batch')) = concat (map (emit_record mem lo hi \<circ> sb_payload) batch)"
    by (rule arg_cong)
  then show ?thesis using False r(1) unfolding flush_scan_batch_def by simp
qed (simp add: flush_scan_batch_def)

section \<open>Inline keys and values\<close>

lemma bit_width_shift: "0 < y \<Longrightarrow> x < 2 ^ k \<Longrightarrow> bit_width_nat (x + 2 ^ k * y) = k + bit_width_nat y"
proof (induction k arbitrary: x)
  case (Suc k)
  have "(x + 2 ^ Suc k * y) div 2 = x div 2 + 2 ^ k * y" by simp
  moreover have "x div 2 < 2 ^ k" using Suc.prems(2) by auto
  moreover have "x + 2 ^ Suc k * y \<noteq> 0" using Suc.prems(1) by simp
  ultimately show ?case using Suc.IH [OF Suc.prems(1), of "x div 2"] by (subst bit_width_nat.simps) simp
qed simp

lemma bit_width_bound: "x < 2 ^ k \<Longrightarrow> bit_width_nat x \<le> k"
proof (induction k arbitrary: x)
  case (Suc k)
  then have "bit_width_nat (x div 2) \<le> k" by (intro Suc.IH) auto
  then show ?case by (subst bit_width_nat.simps) simp
qed (simp add: bit_width_nat.simps)

text \<open>The number of bytes up to the last one that is not zero.\<close>

fun significant_bytes :: "bytes \<Rightarrow> nat" where
  "significant_bytes [] = 0"
| "significant_bytes (b # bs) = (if b = 0 \<and> significant_bytes bs = 0 then 0 else Suc (significant_bytes bs))"

lemma significant_zero: "significant_bytes bs = 0 \<longleftrightarrow> of_le bs = 0"
  by (induction bs) (auto simp: unat_eq_0)

lemma bit_width_bytes: "(bit_width_nat (of_le bs) + 7) div 8 = significant_bytes bs"
proof (induction bs)
  case (Cons b bs)
  have b: "unat b < 2 ^ 8" using unat_less_2p [of b] by simp
  show ?case
  proof (cases "of_le bs = 0")
    case True
    have "bit_width_nat (unat b) \<le> 8" by (rule bit_width_bound [OF b])
    moreover have "bit_width_nat (unat b) = 0 \<longleftrightarrow> b = 0" by (subst bit_width_nat.simps) (simp add: unat_eq_0)
    ultimately have "(bit_width_nat (unat b) + 7) div 8 = (if b = 0 then 0 else 1)" by auto
    then show ?thesis using True significant_zero [of bs] by simp
  next
    case False
    then have "bit_width_nat (of_le (b # bs)) = 8 + bit_width_nat (of_le bs)" using bit_width_shift [of "of_le bs" "unat b" 8] b by simp
    then show ?thesis using Cons False significant_zero [of bs] by simp
  qed
qed (simp add: bit_width_nat.simps)

lemma significant_append: "significant_bytes (a @ b) = (if significant_bytes b = 0 then significant_bytes a else length a + significant_bytes b)"
  by (induction a) auto

lemma significant_zeros: "significant_bytes (replicate n 0) = 0"
  by (induction n) auto

lemma significant_full: "bs \<noteq> [] \<Longrightarrow> last bs \<noteq> 0 \<Longrightarrow> significant_bytes bs = length bs"
proof (induction bs)
  case (Cons b bs)
  then show ?case by (cases "bs = []") simp_all
qed simp

lemma inline_key_len_significant:
  assumes "length k = 16"
  shows "inline_key_len k = significant_bytes k"
proof -
  have u: "unat (u64_of_le bs) = of_le bs" if "length bs = 8" for bs
    using of_le_less [of bs] that by (simp add: u64_of_le_def unat_of_nat)
  let ?lo = "mem_read k 0 8" and ?hi = "mem_read k 8 8"
  have l: "length ?lo = 8" "length ?hi = 8" "k = ?lo @ ?hi" using assms by (simp_all add: mem_read_def)
  have z: "u64_of_le ?hi = 0 \<longleftrightarrow> significant_bytes ?hi = 0" using u [OF l(2)] by (simp add: significant_zero word_unat_eq_iff)
  have "significant_bytes k = (if significant_bytes ?hi = 0 then significant_bytes ?lo else 8 + significant_bytes ?hi)"
    using significant_append [of ?lo ?hi] l by simp
  then show ?thesis
    unfolding inline_key_len_def Let_def bit_width_def u [OF l(1)] u [OF l(2)] bit_width_bytes z by simp
qed

lemma inline_key_decodes:
  assumes "length key \<le> 16" "key = [] \<or> last key \<noteq> 0"
  shows "take (inline_key_len (prefix_from_bytes key)) (prefix_from_bytes key) = key"
proof -
  have p: "prefix_from_bytes key = key @ replicate (16 - length key) 0"
    using assms(1) by (simp add: prefix_from_bytes_def Let_def kStoreKeyBytes_def)
  have "significant_bytes key = length key" using assms(2) significant_full [of key] by (cases "key = []") simp_all
  then have "significant_bytes (prefix_from_bytes key) = length key" unfolding p significant_append significant_zeros by simp
  moreover have "length (prefix_from_bytes key) = 16" using assms(1) by (simp add: p)
  ultimately show ?thesis using inline_key_len_significant by (simp add: p)
qed

section \<open>The read path\<close>

lemma t2_inv_boundary [simp]: "t2_inv (mem\<lparr>tm_base_boundary := b\<rparr>) recs = t2_inv mem recs"
  by (simp add: t2_inv_def)

lemma via_complete:
  assumes "t2_inv mem recs" "recs (unat offset) = Some e" "extent_end (unat offset) e \<le> unat b"
  shows "read_base_record_via mem (Some m) offset b = Some (t2_at offset mem)"
proof -
  let ?h = "read_header (tm_base mem) (unat offset)"
  note d = t2_invD [OF assms(1,2)]
  have "unat offset + unat (record_needed ?h) \<le> extent_end (unat offset) e"
    using d(1,3) aligned_size_bounds(1) [of "24 + fst e + snd e"]
    by (cases e) (simp add: record_needed_unat extent_end_def header_size)
  then have le: "unat offset + unat (record_needed ?h) \<le> unat b" using assms(3) by simp
  then have "unat (offset + record_needed ?h) = unat offset + unat (record_needed ?h)"
    using unat_less_2p [of b] by (simp add: unat_plus_if')
  then have "\<not> offset + record_needed ?h > b" using le by (simp add: not_less word_le_nat_alt)
  then show ?thesis by (simp add: read_base_record_via_def mapping_bytes_def t2_at_def)
qed

text \<open>
  Every way of reading gives the record. For an offset of the file's record table, whatever
  read policy is configured, whichever mappings exist, whatever the residency check answers and
  however many bytes \<^verbatim>\<open>pread\<close> delivers into whatever buffer: if \<^verbatim>\<open>try_read_base_record\<close> returns a
  record, it is the one at the offset; the version-checked loop always returns it; and a scan with
  both of its mappings never needs that loop for a record below the base boundary.
\<close>

lemma base_reads_agree:
  assumes "t2_inv mem recs" "recs (unat (payload AND kPayloadOffsetMask)) = Some e"
  shows "(case try_read_base_record env mem payload reader of
            Some r \<Rightarrow> r = t2_at (payload AND kPayloadOffsetMask) mem | None \<Rightarrow> True)
    \<and> read_t2_record_seqlock (\<lambda>_. t2_at (payload AND kPayloadOffsetMask) mem) copy_func
        = Some (copy_func (t2_at (payload AND kPayloadOffsetMask) mem))
    \<and> (extent_end (unat (payload AND kPayloadOffsetMask)) e \<le> unat (tm_base_boundary mem)
        \<and> mp_scan (re_mappings env) \<and> mp_scan_seq (re_mappings env)
        \<longrightarrow> try_read_base_record env mem payload kScan = Some (t2_at (payload AND kPayloadOffsetMask) mem))"
proof (intro conjI impI)
  let ?off = "payload AND kPayloadOffsetMask"
  show "case try_read_base_record env mem payload reader of Some r \<Rightarrow> r = t2_at ?off mem | None \<Rightarrow> True"
    using base_record_view [of env mem payload reader] by (simp split: option.splits)
  show "read_t2_record_seqlock (\<lambda>_. t2_at ?off mem) copy_func = Some (copy_func (t2_at ?off mem))"
    by (rule seqlock_stable) (use t2_invD(6) [OF assms] in \<open>simp add: t2_at_def make_record_view_def Let_def\<close>)
  assume a: "extent_end (unat ?off) e \<le> unat (tm_base_boundary mem) \<and> mp_scan (re_mappings env) \<and> mp_scan_seq (re_mappings env)"
  then have "unat ?off < unat (tm_base_boundary mem)" by (cases e) (simp add: extent_end_def aligned_size_def header_size)
  then have below: "\<not> tm_base_boundary mem \<le> ?off" by (simp add: not_le word_less_nat_alt)
  have "for_scan (re_policy env) (re_mappings env) (base_size_hint payload \<le> 4096) \<noteq> None"
    using a by (cases "re_policy env") (simp_all add: for_scan_def)
  then obtain m where "for_scan (re_policy env) (re_mappings env) (base_size_hint payload \<le> 4096) = Some m" by blast
  then show "try_read_base_record env mem payload kScan = Some (t2_at ?off mem)"
    using via_complete [OF assms, of "tm_base_boundary mem" m] a below by (simp add: try_read_base_record_def Let_def)
qed

definition small_t2 :: T2Memory where
  "small_t2 = (snd (append_default (empty_t2 64) [1, 2] [3, 4]))\<lparr>tm_base_boundary := 32\<rparr>"

lemma small_t2_inv: "t2_inv small_t2 [0 \<mapsto> (2, 2)]"
proof -
  let ?a = "append_default (empty_t2 64) [1, 2] [3, 4]"
  have app: "?a = (Inr 0, snd ?a)" by (simp add: prod_eq_iff) code_simp
  have len: "unat (tm_bytes_used (empty_t2 64)) = 0" "unat (record_len [1, 2] [3, 4]) = 32" by code_simp+
  have less: "unat (tm_bytes_used (empty_t2 64)) + unat (record_len [1, 2] [3, 4]) < 2 ^ 64" unfolding len by simp
  have inv: "t2_inv (empty_t2 64) Map.empty" and fits: "fits_record [1, 2] [3, 4]"
    by (simp_all add: t2_inv_empty fits_record_def)
  from append_default_ok(3) [OF inv fits app less] have "t2_inv (snd ?a) [0 \<mapsto> (2, 2)]" by (simp add: numeral_2_eq_2)
  then show ?thesis by (simp add: small_t2_def)
qed

lemma base_reads_agree_witness:
  "let env = \<lparr>re_policy = Trifecta, re_mappings = \<lparr>mp_scan = True, mp_scan_seq = True, mp_read_fd = True\<rparr>,
              re_resident = False, re_got = Some 40, re_stale = []\<rparr>
   in try_read_base_record env small_t2 0 kScan = Some (t2_at 0 small_t2)
    \<and> read_t2_record_seqlock (\<lambda>_. t2_at 0 small_t2) rv_key = Some (rv_key (t2_at 0 small_t2))
    \<and> rv_value (t2_at 0 small_t2) = [3, 4]"
proof -
  have "rv_value (t2_at 0 small_t2) = [3, 4]" by code_simp
  moreover have "extent_end 0 (2, 2) \<le> unat (tm_base_boundary small_t2)" by code_simp
  ultimately show ?thesis
    using base_reads_agree [OF small_t2_inv, of 0 "(2, 2)" "\<lparr>re_policy = Trifecta,
      re_mappings = \<lparr>mp_scan = True, mp_scan_seq = True, mp_read_fd = True\<rparr>, re_resident = False, re_got = Some 40, re_stale = []\<rparr>"
      kScan rv_key] by simp
qed

text \<open>
  C23: a scan batch is read in offset order and delivered in key order. For slots as the scan
  queues them, over records no update is in progress on, the callbacks of a batch are exactly those
  of reading the entries one by one in the order they were queued, filtered by the key range,
  whichever of them came from a mapping and whichever through the arena.
\<close>

theorem scan_batch_correct:
  assumes "t2_inv mem recs" "\<forall>(payload, hash) \<in> set entries. recs (unat (payload AND kPayloadOffsetMask)) \<noteq> None"
  shows "flush_scan_batch env mem lo hi (map (\<lambda>(payload, hash). ScanBatchSlot_of payload hash) entries)
    = Some (concat (map (\<lambda>(payload, hash). emit_record mem lo hi payload) entries))"
proof -
  have "\<forall>slot \<in> set (map (\<lambda>(payload, hash). ScanBatchSlot_of payload hash) entries). fresh_slot mem slot"
    using assms(2) t2_invD(6) [OF assms(1)]
    by (fastforce simp: fresh_slot_def ScanBatchSlot_of_def slot_offset_def t2_at_def make_record_view_def Let_def)
  from flush_emit [OF this] show ?thesis by (simp add: o_def ScanBatchSlot_of_def case_prod_unfold)
qed

theorem scan_batch_correct_witness:
  "flush_scan_batch \<lparr>re_policy = Trifecta, re_mappings = \<lparr>mp_scan = False, mp_scan_seq = False, mp_read_fd = False\<rparr>,
      re_resident = False, re_got = None, re_stale = []\<rparr> small_t2 [1] [5]
      [ScanBatchSlot_of 0 7, ScanBatchSlot_of (push_bit 48 2) 7] = Some [([1, 2], [3, 4]), ([1, 2], [3, 4])]"
proof -
  have "emit_record small_t2 [1] [5] 0 = [([1, 2], [3, 4])]" by code_simp
  moreover have "emit_record small_t2 [1] [5] (push_bit 48 2) = [([1, 2], [3, 4])]" by code_simp
  moreover have "push_bit 48 2 AND kPayloadOffsetMask = 0" by code_simp
  ultimately show ?thesis
    using scan_batch_correct [OF small_t2_inv, of "[(0, 7), (push_bit 48 2, 7)]" "\<lparr>re_policy = Trifecta,
      re_mappings = \<lparr>mp_scan = False, mp_scan_seq = False, mp_read_fd = False\<rparr>, re_resident = False, re_got = None, re_stale = []\<rparr>" "[1]" "[5]"]
    by simp
qed

end
