(* ===== verification/Sharded_T1.thy ===== *)
theory Sharded_T1
  imports Live_Index
begin

text \<open>
  \<^verbatim>\<open>t1_index/sharded_t1_index.hpp\<close>: the directory of shards and its routing, writes with
  their retry loop, the maintenance queue and threshold, splitting a shard, range scans across
  shards, checkpointing all shards and loading them back. Shard slots are objects addressed by
  number; the operations are whole calls, so that epochs and references that only delay the release
  of memory have no counterpart. Shown: the sharded index fulfils the index contract, a split, a
  maintenance cycle and a checkpoint preserve every lookup, a checkpoint loads back, a scan delivers
  the range in order, a blocked write gets through once its shard was maintained; and what a split
  does to two keys with the same prefix.
\<close>

section \<open>State\<close>

datatype Split = NotSuperseded | ClosingSentinel | Split store_key nat nat

record ShardSlot =
  sl_index :: T1Index
  sl_superseded :: Split
  sl_maintenance_pending :: bool
  sl_tombstones :: nat

record Directory =
  dir_boundaries :: "store_key list"
  dir_shards :: "nat list"

record ShardedT1Index =
  si_slots :: "nat \<Rightarrow> ShardSlot"
  si_next_slot :: nat
  si_directory :: Directory
  si_append_cap :: nat
  si_use_bloom :: bool
  si_target_shard_size :: nat
  si_split_percent :: nat
  si_queue :: "nat list"
  si_scan_active :: bool
  si_splits_paused :: bool
  si_total_splits :: nat

definition ShardSlot_new :: "T1Index \<Rightarrow> ShardSlot" where
  "ShardSlot_new shard =
     \<lparr>sl_index = shard, sl_superseded = NotSuperseded, sl_maintenance_pending = False, sl_tombstones = 0\<rparr>"

definition ShardedT1Index_new :: "bool \<Rightarrow> nat \<Rightarrow> nat \<Rightarrow> nat \<Rightarrow> ShardedT1Index" where
  "ShardedT1Index_new use_bloom append_cap target_shard_size split_percent =
     \<lparr>si_slots = (\<lambda>_. ShardSlot_new (T1Index_new use_bloom append_cap)), si_next_slot = 1,
      si_directory = \<lparr>dir_boundaries = [], dir_shards = [0]\<rparr>, si_append_cap = append_cap, si_use_bloom = use_bloom,
      si_target_shard_size = target_shard_size, si_split_percent = split_percent, si_queue = [],
      si_scan_active = False, si_splits_paused = False, si_total_splits = 0\<rparr>"

definition slot :: "ShardedT1Index \<Rightarrow> nat \<Rightarrow> ShardSlot" where
  "slot si a = si_slots si a"

definition upd_slot :: "nat \<Rightarrow> (ShardSlot \<Rightarrow> ShardSlot) \<Rightarrow> ShardedT1Index \<Rightarrow> ShardedT1Index" where
  "upd_slot a f si = si\<lparr>si_slots := (si_slots si)(a := f (si_slots si a))\<rparr>"

definition new_slot :: "T1Index \<Rightarrow> ShardedT1Index \<Rightarrow> nat \<times> ShardedT1Index" where
  "new_slot shard si =
     (si_next_slot si, si\<lparr>si_slots := (si_slots si)(si_next_slot si := ShardSlot_new shard), si_next_slot := si_next_slot si + 1\<rparr>)"

section \<open>Routing\<close>

definition upper_bound :: "store_key list \<Rightarrow> store_key \<Rightarrow> nat" where
  "upper_bound boundaries key = partition_point (\<lambda>b. b \<le> key) boundaries"

definition shard_for :: "Directory \<Rightarrow> store_key \<Rightarrow> nat" where
  "shard_for dir key = dir_shards dir ! upper_bound (dir_boundaries dir) key"

datatype ResolveMode = ReadMode | WriteMode

text \<open>A writer that meets the closing mark spins; alone it never returns.\<close>

definition closing_slot_for_mode :: "nat \<Rightarrow> ResolveMode \<Rightarrow> nat option" where
  "closing_slot_for_mode a mode = (if mode = ReadMode then Some a else None)"

partial_function (option) resolve_from :: "ResolveMode \<Rightarrow> ShardedT1Index \<Rightarrow> store_key \<Rightarrow> nat \<Rightarrow> nat option" where
  "resolve_from mode si key a =
     (case sl_superseded (slot si a) of
        NotSuperseded \<Rightarrow> Some a
      | ClosingSentinel \<Rightarrow>
          (case closing_slot_for_mode a mode of Some b \<Rightarrow> Some b | None \<Rightarrow> resolve_from mode si key a)
      | Split boundary low high \<Rightarrow> resolve_from mode si key (if key < boundary then low else high))"

definition si_resolve :: "ResolveMode \<Rightarrow> ShardedT1Index \<Rightarrow> store_key \<Rightarrow> nat option" where
  "si_resolve mode si key =
     (let dir = si_directory si
      in resolve_from mode si key (if length (dir_shards dir) = 1 then dir_shards dir ! 0 else shard_for dir key))"

definition si_get_with_hash :: "ShardedT1Index \<Rightarrow> bytes \<Rightarrow> LookupResult option" where
  "si_get_with_hash si key =
     map_option (\<lambda>a. get_with_hash (sl_index (slot si a)) key) (si_resolve ReadMode si (prefix_from_bytes key))"

definition si_get :: "ShardedT1Index \<Rightarrow> bytes \<Rightarrow> u64 option" where
  "si_get si key = map_option lr_payload_bits (si_get_with_hash si key)"

section \<open>Maintenance requests\<close>

definition append_slot_bytes :: nat where
  "append_slot_bytes = 48"

definition maintenance_soft_threshold :: "nat \<Rightarrow> bool \<Rightarrow> nat" where
  "maintenance_soft_threshold append_cap scan_active =
     (let normal = (append_cap * 50) div 100
      in if \<not> scan_active then normal else min (1024 * 1024 div append_slot_bytes) normal)"

definition split_threshold :: "nat \<Rightarrow> nat \<Rightarrow> nat" where
  "split_threshold target_shard_size percent = (target_shard_size * percent) div 100"

definition set_scan_active :: "bool \<Rightarrow> ShardedT1Index \<Rightarrow> ShardedT1Index" where
  "set_scan_active active si = si\<lparr>si_scan_active := active\<rparr>"

definition push_if_live :: "nat \<Rightarrow> ShardedT1Index \<Rightarrow> ShardedT1Index" where
  "push_if_live a si =
     (if sl_maintenance_pending (slot si a) then si
      else let si1 = upd_slot a (\<lambda>s. s\<lparr>sl_maintenance_pending := True\<rparr>) si
           in if sl_superseded (slot si1 a) \<noteq> NotSuperseded then si1 else si1\<lparr>si_queue := si_queue si1 @ [a]\<rparr>)"

definition pop_queue :: "ShardedT1Index \<Rightarrow> nat option \<times> ShardedT1Index" where
  "pop_queue si =
     (case si_queue si of
        [] \<Rightarrow> (None, si)
      | a # q \<Rightarrow> (Some a, upd_slot a (\<lambda>s. s\<lparr>sl_maintenance_pending := False\<rparr>) (si\<lparr>si_queue := q\<rparr>)))"

definition purge :: "nat \<Rightarrow> ShardedT1Index \<Rightarrow> ShardedT1Index" where
  "purge a si = si\<lparr>si_queue := filter (\<lambda>x. x \<noteq> a) (si_queue si)\<rparr>"

definition request_maintenance_if_needed :: "nat \<Rightarrow> ShardedT1Index \<Rightarrow> ShardedT1Index" where
  "request_maintenance_if_needed a si =
     (let t = sl_index (slot si a);
          over_soft = (append_size t \<ge> maintenance_soft_threshold (append_capacity t) (si_scan_active si));
          delete_heavy = (sl_tombstones (slot si a) \<ge> si_target_shard_size si)
      in if \<not> over_soft \<and> \<not> delete_heavy then si else push_if_live a si)"

section \<open>Splitting\<close>

definition publish_directory_after_split :: "nat \<Rightarrow> nat \<Rightarrow> nat \<Rightarrow> store_key \<Rightarrow> Directory \<Rightarrow> Directory" where
  "publish_directory_after_split target low high boundary dir =
     (let idx = partition_point (\<lambda>a. a \<noteq> target) (dir_shards dir)
      in \<lparr>dir_boundaries = take idx (dir_boundaries dir) @ [boundary] @ drop idx (dir_boundaries dir),
          dir_shards = take idx (dir_shards dir) @ [low, high] @ drop (Suc idx) (dir_shards dir)\<rparr>)"

text \<open>Retries while a merge of the shard by somebody else is in progress.\<close>

partial_function (option) reorganize_until_captured ::
  "nat \<Rightarrow> ShardedT1Index \<Rightarrow> (EntrySnapshot list \<times> ShardedT1Index) option" where
  "reorganize_until_captured a si =
     (case reorganize (\<lambda>m. m) (sl_index (slot si a)) of
        (t, Some merged) \<Rightarrow> Some (merged, upd_slot a (\<lambda>s. s\<lparr>sl_index := t\<rparr>) si)
      | (t, None) \<Rightarrow> reorganize_until_captured a si)"

definition continue_split :: "nat \<Rightarrow> ShardedT1Index \<Rightarrow> ShardedT1Index option" where
  "continue_split target si =
     map_option (\<lambda>(merged_entries, si1).
          if length merged_entries < 2
          then upd_slot target (\<lambda>s. s\<lparr>sl_superseded := NotSuperseded, sl_maintenance_pending := False, sl_tombstones := 0\<rparr>) si1
          else let mid = length merged_entries div 2;
                   boundary = es_key (merged_entries ! mid);
                   cap = append_capacity (sl_index (slot si1 target));
                   low_shard = load_sorted_region_from_checkpoint (T1Index_new (si_use_bloom si) cap) (take mid merged_entries);
                   high_shard = load_sorted_region_from_checkpoint (T1Index_new (si_use_bloom si) cap) (drop mid merged_entries);
                   (low, si2) = new_slot low_shard si1;
                   (high, si3) = new_slot high_shard si2;
                   si4 = upd_slot target (\<lambda>s. s\<lparr>sl_superseded := Split boundary low high\<rparr>) si3
               in si4\<lparr>si_directory := publish_directory_after_split target low high boundary (si_directory si4),
                      si_total_splits := si_total_splits si4 + 1\<rparr>)
       (reorganize_until_captured target (purge target si))"

text \<open>The compare-exchange that claims a shard for splitting.\<close>

definition claim_split :: "nat \<Rightarrow> ShardedT1Index \<Rightarrow> bool \<times> ShardedT1Index" where
  "claim_split a si =
     (if si_splits_paused si \<or> sl_superseded (slot si a) \<noteq> NotSuperseded then (False, si)
      else (True, upd_slot a (\<lambda>s. s\<lparr>sl_superseded := ClosingSentinel\<rparr>) si))"

definition split_shard_containing :: "bytes \<Rightarrow> ShardedT1Index \<Rightarrow> ShardedT1Index option" where
  "split_shard_containing key si =
     (case si_resolve ReadMode si (prefix_from_bytes key) of
        None \<Rightarrow> None
      | Some a \<Rightarrow> (case claim_split a si of (claimed, si1) \<Rightarrow> if claimed then continue_split a si1 else Some si1))"

definition run_maintenance :: "ShardedT1Index \<Rightarrow> (bool \<times> ShardedT1Index) option" where
  "run_maintenance si =
     (case pop_queue si of
        (None, si1) \<Rightarrow> Some (False, si1)
      | (Some a, si1) \<Rightarrow>
          if sl_superseded (slot si1 a) \<noteq> NotSuperseded then Some (True, si1)
          else (case reorganize (\<lambda>m. m) (sl_index (slot si1 a)) of
                  (t, merged) \<Rightarrow>
                    let si2 = upd_slot a (\<lambda>s. s\<lparr>sl_index := t\<rparr>) si1;
                        si3 = (if merged \<noteq> None then upd_slot a (\<lambda>s. s\<lparr>sl_tombstones := 0\<rparr>) si2 else si2);
                        merged_entries = (case merged of None \<Rightarrow> [] | Some m \<Rightarrow> m);
                        big_enough = (length merged_entries \<ge> split_threshold (si_target_shard_size si3) (si_split_percent si3))
                    in case (if big_enough then claim_split a si3 else (False, si3)) of
                         (claimed, si4) \<Rightarrow> if claimed then map_option (Pair True) (continue_split a si4) else Some (True, si4)))"

section \<open>Writing\<close>

text \<open>One turn of the retry loop of \<^verbatim>\<open>put\<close>: \<open>Inl\<close> goes round again.\<close>

definition si_put_turn ::
  "ShardedT1Index \<Rightarrow> bytes \<Rightarrow> u64 \<Rightarrow> bool \<Rightarrow> byte \<Rightarrow> (ShardedT1Index + PutResult \<times> ShardedT1Index) option" where
  "si_put_turn si key value inl inline_size =
     (case si_resolve WriteMode si (prefix_from_bytes key) of
        None \<Rightarrow> None
      | Some a \<Rightarrow>
          let si1 = request_maintenance_if_needed a si
          in case t1_put (sl_index (slot si1 a)) key value inl inline_size of
               None \<Rightarrow> None
             | Some (result, t) \<Rightarrow>
                 let si2 = upd_slot a (\<lambda>s. s\<lparr>sl_index := t\<rparr>) si1
                 in if result = AppendRegionFull then Some (Inl si2)
                    else if sl_superseded (slot si2 a) \<noteq> NotSuperseded then Some (Inl si2)
                    else if value = STORE_NOT_FOUND
                    then Some (Inr (result, request_maintenance_if_needed a
                           (upd_slot a (\<lambda>s. s\<lparr>sl_tombstones := sl_tombstones s + 1\<rparr>) si2)))
                    else Some (Inr (result, si2)))"

fun maintain :: "nat \<Rightarrow> ShardedT1Index \<Rightarrow> ShardedT1Index option" where
  "maintain 0 si = Some si"
| "maintain (Suc n) si = Option.bind (run_maintenance si) (\<lambda>(_, si1). maintain n si1)"

text \<open>
  The loop: \<open>waits\<close> says how many maintenance cycles the workers complete during each pause of
  the caller; when it is exhausted the caller is still waiting.
\<close>

fun si_put_waiting ::
  "nat list \<Rightarrow> ShardedT1Index \<Rightarrow> bytes \<Rightarrow> u64 \<Rightarrow> bool \<Rightarrow> byte \<Rightarrow> (PutResult \<times> ShardedT1Index) option" where
  "si_put_waiting waits si key value inl n =
     (case si_put_turn si key value inl n of
        None \<Rightarrow> None
      | Some (Inr r) \<Rightarrow> Some r
      | Some (Inl si1) \<Rightarrow> (case waits of [] \<Rightarrow> None | m # ws \<Rightarrow> Option.bind (maintain m si1) (\<lambda>si2. si_put_waiting ws si2 key value inl n)))"

declare si_put_waiting.simps [simp del]

section \<open>Scanning\<close>

partial_function (option) collect_into ::
  "ShardedT1Index \<Rightarrow> store_key \<Rightarrow> store_key \<Rightarrow> nat \<Rightarrow> nat list option" where
  "collect_into si lo hi a =
     (case sl_superseded (slot si a) of
        Split boundary low high \<Rightarrow>
          Option.bind (if lo < boundary then collect_into si lo hi low else Some [])
            (\<lambda>ls. Option.bind (if \<not> hi < boundary then collect_into si lo hi high else Some [])
              (\<lambda>hs. Some (ls @ hs)))
      | _ \<Rightarrow> Some [a])"

fun leaves_from :: "ShardedT1Index \<Rightarrow> store_key \<Rightarrow> store_key \<Rightarrow> nat \<Rightarrow> nat list \<Rightarrow> nat list option" where
  "leaves_from si lo hi i [] = Some []"
| "leaves_from si lo hi i (a # as) =
     (if i > 0 \<and> hi < dir_boundaries (si_directory si) ! (i - 1) then Some []
      else Option.bind (collect_into si lo hi a) (\<lambda>ls. Option.bind (leaves_from si lo hi (Suc i) as) (\<lambda>rs. Some (ls @ rs))))"

definition for_each_leaf_in_range :: "ShardedT1Index \<Rightarrow> store_key \<Rightarrow> store_key \<Rightarrow> nat list option" where
  "for_each_leaf_in_range si lo hi =
     (let dir = si_directory si;
          start_idx = (if dir_boundaries dir = [] then 0 else upper_bound (dir_boundaries dir) lo)
      in leaves_from si lo hi start_idx (drop start_idx (dir_shards dir)))"

definition si_scan :: "ShardedT1Index \<Rightarrow> bytes \<Rightarrow> bytes \<Rightarrow> scan_hit list option" where
  "si_scan si lo_bytes hi_bytes =
     (let dir = si_directory si;
          lo = prefix_from_bytes lo_bytes;
          hi = prefix_from_bytes hi_bytes
      in if length (dir_shards dir) = 1
            \<and> (case sl_superseded (slot si (dir_shards dir ! 0)) of Split _ _ _ \<Rightarrow> False | _ \<Rightarrow> True)
         then Some (t1_scan (sl_index (slot si (dir_shards dir ! 0))) lo_bytes hi_bytes)
         else map_option (\<lambda>leaves. concat (map (\<lambda>a. t1_scan (sl_index (slot si a)) lo_bytes hi_bytes) leaves))
                (for_each_leaf_in_range si lo hi))"

section \<open>Aggregates and checkpoints\<close>

definition shard_count :: "ShardedT1Index \<Rightarrow> nat" where
  "shard_count si = length (dir_shards (si_directory si))"

definition reduce_shards :: "(T1Index \<Rightarrow> int) \<Rightarrow> ShardedT1Index \<Rightarrow> int" where
  "reduce_shards counter si = foldl (\<lambda>total a. total + counter (sl_index (slot si a))) 0 (dir_shards (si_directory si))"

definition si_append_size :: "ShardedT1Index \<Rightarrow> int" where
  "si_append_size si = reduce_shards (\<lambda>t. int (append_size t)) si"

definition checkpoint_shard :: "nat \<Rightarrow> ShardedT1Index \<Rightarrow> (EntrySnapshot list \<times> ShardedT1Index) option" where
  "checkpoint_shard a si =
     (if append_size (sl_index (slot si a)) = 0 then Some (dump_sorted_region (sl_index (slot si a)), si)
      else map_option (\<lambda>(merged, si1). (merged, upd_slot a (\<lambda>s. s\<lparr>sl_tombstones := 0\<rparr>) si1))
             (reorganize_until_captured a si))"

fun checkpoint_shards :: "nat list \<Rightarrow> ShardedT1Index \<Rightarrow> (EntrySnapshot list list \<times> ShardedT1Index) option" where
  "checkpoint_shards [] si = Some ([], si)"
| "checkpoint_shards (a # as) si =
     Option.bind (checkpoint_shard a si) (\<lambda>(merged, si1).
       Option.bind (checkpoint_shards as si1) (\<lambda>(rest, si2). Some (merged # rest, si2)))"

text \<open>What the per-shard writer is given, the boundaries, and the index afterwards.\<close>

definition checkpoint_all_shards ::
  "ShardedT1Index \<Rightarrow> ((EntrySnapshot list list \<times> store_key list) \<times> ShardedT1Index) option" where
  "checkpoint_all_shards si =
     (let boundaries = dir_boundaries (si_directory si)
      in map_option (\<lambda>(written, si1). ((written, boundaries), si1\<lparr>si_splits_paused := False\<rparr>))
           (checkpoint_shards (dir_shards (si_directory si)) (si\<lparr>si_splits_paused := True\<rparr>)))"

fun load_shards :: "EntrySnapshot list list \<Rightarrow> ShardedT1Index \<Rightarrow> nat list \<times> ShardedT1Index" where
  "load_shards [] si = ([], si)"
| "load_shards (entries # rest) si =
     (case new_slot (load_sorted_region_from_checkpoint (T1Index_new (si_use_bloom si) (si_append_cap si)) entries) si of
        (a, si1) \<Rightarrow> (case load_shards rest si1 of (as, si2) \<Rightarrow> (a # as, si2)))"

definition load_from_checkpoint :: "store_key list \<Rightarrow> EntrySnapshot list list \<Rightarrow> ShardedT1Index \<Rightarrow> ShardedT1Index" where
  "load_from_checkpoint boundaries per_shard_entries si =
     (case load_shards per_shard_entries si of
        (shards, si1) \<Rightarrow> si1\<lparr>si_directory := \<lparr>dir_boundaries = boundaries, dir_shards = shards\<rparr>\<rparr>)"

declare resolve_from.simps [code] reorganize_until_captured.simps [code] collect_into.simps [code]

section \<open>Invariant and abstraction\<close>

abbreviation bounds :: "ShardedT1Index \<Rightarrow> store_key list" where
  "bounds si \<equiv> dir_boundaries (si_directory si)"

abbreviation shards :: "ShardedT1Index \<Rightarrow> nat list" where
  "shards si \<equiv> dir_shards (si_directory si)"

abbreviation index_of :: "ShardedT1Index \<Rightarrow> nat \<Rightarrow> T1Index" where
  "index_of si a \<equiv> sl_index (slot si a)"

abbreviation route :: "ShardedT1Index \<Rightarrow> store_key \<Rightarrow> nat" where
  "route si key \<equiv> shard_for (si_directory si) key"

definition dir_inv :: "ShardedT1Index \<Rightarrow> bool" where
  "dir_inv si \<longleftrightarrow> sorted_wrt (<) (bounds si) \<and> length (shards si) = Suc (length (bounds si)) \<and> distinct (shards si)
     \<and> (\<forall>a \<in> set (shards si). a < si_next_slot si)"

definition slots_inv :: "ShardedT1Index \<Rightarrow> bool" where
  "slots_inv si \<longleftrightarrow> (\<forall>a \<in> set (shards si). sl_superseded (slot si a) = NotSuperseded \<and> shard_inv (index_of si a))"

text \<open>A shard holds live entries of its own key range only.\<close>

definition routes_to :: "Directory \<Rightarrow> nat \<Rightarrow> T1Index \<Rightarrow> bool" where
  "routes_to dir a t \<longleftrightarrow> (\<forall>x \<in> dom (live_view t). shard_for dir (fst x) = a)"

definition range_inv :: "ShardedT1Index \<Rightarrow> bool" where
  "range_inv si \<longleftrightarrow> (\<forall>a \<in> set (shards si). routes_to (si_directory si) a (index_of si a))"

definition queue_inv :: "ShardedT1Index \<Rightarrow> bool" where
  "queue_inv si \<longleftrightarrow> distinct (si_queue si) \<and> set (si_queue si) \<subseteq> set (shards si)
     \<and> (\<forall>a \<in> set (shards si). sl_maintenance_pending (slot si a) \<longleftrightarrow> a \<in> set (si_queue si))"

definition si_inv :: "ShardedT1Index \<Rightarrow> bool" where
  "si_inv si \<longleftrightarrow> dir_inv si \<and> slots_inv si \<and> range_inv si \<and> queue_inv si"

definition si_view :: "ShardedT1Index \<Rightarrow> ident \<rightharpoonup> LookupResult" where
  "si_view si x = live_view (index_of si (route si (fst x))) x"

section \<open>Routing lemmas\<close>

lemma upper_bound_filter:
  assumes "sorted_wrt (<) bs"
  shows "upper_bound bs key = length (filter (\<lambda>b. b \<le> key) bs)"
  using assms
proof (induction bs)
  case (Cons b bs)
  show ?case
  proof (cases "b \<le> key")
    case True
    then show ?thesis using Cons by (simp add: upper_bound_def partition_point_def)
  next
    case False
    then have "filter (\<lambda>c. c \<le> key) bs = []" using Cons.prems by (auto simp: filter_empty_conv)
    then show ?thesis using False by (simp add: upper_bound_def partition_point_def)
  qed
qed (simp add: upper_bound_def partition_point_def)

lemma upper_bound_le: "upper_bound bs key \<le> length bs"
  by (simp add: upper_bound_def partition_point_le)

lemma upper_bound_before: "i < upper_bound bs key \<Longrightarrow> bs ! i \<le> key"
  unfolding upper_bound_def by (rule partition_point_before)

lemma upper_bound_after:
  assumes "sorted_wrt (<) bs" "upper_bound bs key \<le> i" "i < length bs"
  shows "key < bs ! i"
proof -
  have "key < bs ! upper_bound bs key"
    using partition_point_at [of "\<lambda>b. b \<le> key" bs] assms unfolding upper_bound_def by (simp add: not_le)
  also have "bs ! upper_bound bs key \<le> bs ! i"
    using assms by (cases "upper_bound bs key = i") (auto simp: sorted_wrt_iff_nth_less less_imp_le)
  finally show ?thesis .
qed

lemma filter_length_mono: "(\<And>x. P x \<Longrightarrow> Q x) \<Longrightarrow> length (filter P xs) \<le> length (filter Q xs)"
  by (induction xs) (auto intro: le_SucI)

lemma upper_bound_mono: "sorted_wrt (<) bs \<Longrightarrow> k \<le> k' \<Longrightarrow> upper_bound bs k \<le> upper_bound bs k'"
  unfolding upper_bound_filter by (rule filter_length_mono) auto

lemma route_nth: "route si key = shards si ! upper_bound (bounds si) key"
  by (simp add: shard_for_def)

lemma route_in:
  assumes "dir_inv si"
  shows "route si key \<in> set (shards si)" "upper_bound (bounds si) key < length (shards si)"
  using upper_bound_le [of "bounds si" key] assms by (auto simp: route_nth dir_inv_def intro!: nth_mem)

lemma route_iff:
  assumes "dir_inv si" "i < length (shards si)"
  shows "route si key = shards si ! i \<longleftrightarrow> upper_bound (bounds si) key = i"
  using assms route_in(2) [OF assms(1), of key] by (auto simp: route_nth dir_inv_def nth_eq_iff_index_eq)

lemma si_invD:
  assumes "si_inv si"
  shows "dir_inv si" "slots_inv si" "range_inv si" "queue_inv si"
  using assms by (simp_all add: si_inv_def)

lemma si_slot:
  assumes "si_inv si" "a \<in> set (shards si)"
  shows "sl_superseded (slot si a) = NotSuperseded" "shard_inv (index_of si a)"
  using assms by (auto simp: si_inv_def slots_inv_def)

lemma si_routes: "si_inv si \<Longrightarrow> a \<in> set (shards si) \<Longrightarrow> routes_to (si_directory si) a (index_of si a)"
  by (simp add: si_inv_def range_inv_def)

lemma routes_to_cong: "live_view t' = live_view t \<Longrightarrow> routes_to dir a t' = routes_to dir a t"
  by (simp add: routes_to_def)

lemma si_resolve_route:
  assumes "si_inv si"
  shows "si_resolve mode si key = Some (route si key)"
proof -
  have d: "dir_inv si" by (rule si_invD(1) [OF assms])
  have "(if length (shards si) = 1 then shards si ! 0 else route si key) = route si key"
    using route_in(2) [OF d, of key] by (auto simp: route_nth)
  moreover have "sl_superseded (slot si (route si key)) = NotSuperseded" by (rule si_slot(1) [OF assms route_in(1) [OF d]])
  ultimately show ?thesis by (simp add: si_resolve_def Let_def resolve_from.simps)
qed

lemma si_get_route:
  assumes "si_inv si"
  shows "si_get_with_hash si key = Some (get_with_hash (index_of si (route si (prefix_from_bytes key))) key)"
  by (simp add: si_get_with_hash_def si_resolve_route [OF assms])

section \<open>Changing one slot\<close>

lemma upd_slot_simps [simp]:
  "si_directory (upd_slot a f si) = si_directory si" "si_queue (upd_slot a f si) = si_queue si"
  "si_next_slot (upd_slot a f si) = si_next_slot si" "si_use_bloom (upd_slot a f si) = si_use_bloom si"
  "si_append_cap (upd_slot a f si) = si_append_cap si" "si_scan_active (upd_slot a f si) = si_scan_active si"
  "si_splits_paused (upd_slot a f si) = si_splits_paused si" "si_target_shard_size (upd_slot a f si) = si_target_shard_size si"
  "si_split_percent (upd_slot a f si) = si_split_percent si" "si_total_splits (upd_slot a f si) = si_total_splits si"
  "slot (upd_slot a f si) b = (if b = a then f (slot si a) else slot si b)"
  by (simp_all add: upd_slot_def slot_def)

lemma slot_cong [simp]:
  "slot (si\<lparr>si_queue := q\<rparr>) = slot si" "slot (si\<lparr>si_directory := d\<rparr>) = slot si" "slot (si\<lparr>si_splits_paused := p\<rparr>) = slot si"
  "slot (si\<lparr>si_total_splits := n\<rparr>) = slot si" "slot (si\<lparr>si_scan_active := p\<rparr>) = slot si"
  by (simp_all add: slot_def fun_eq_iff)

lemma dir_inv_upd [simp]: "dir_inv (upd_slot a f si) = dir_inv si"
  by (simp add: dir_inv_def)

lemma si_view_upd:
  "si_view (upd_slot a f si) x = (if route si (fst x) = a then live_view (sl_index (f (slot si a))) x else si_view si x)"
  by (simp add: si_view_def)

text \<open>A slot whose index is replaced by one that keeps the routing keeps the whole index well formed.\<close>

lemma si_inv_upd:
  assumes inv: "si_inv si" and "sl_superseded (f (slot si a)) = NotSuperseded" "shard_inv (sl_index (f (slot si a)))"
    and "a \<in> set (shards si) \<Longrightarrow> routes_to (si_directory si) a (sl_index (f (slot si a)))"
    and "sl_maintenance_pending (f (slot si a)) = sl_maintenance_pending (slot si a)"
  shows "si_inv (upd_slot a f si)"
  using si_invD [OF inv] assms(2-)
  by (auto simp: si_inv_def slots_inv_def range_inv_def queue_inv_def)

lemma si_inv_upd_index:
  assumes "si_inv si" "a \<in> set (shards si)" "shard_inv t" "routes_to (si_directory si) a t"
  shows "si_inv (upd_slot a (\<lambda>s. s\<lparr>sl_index := t\<rparr>) si)"
  using si_inv_upd [OF assms(1), of "\<lambda>s. s\<lparr>sl_index := t\<rparr>" a] assms si_slot(1) [OF assms(1,2)] by simp

lemma si_inv_upd_tombstones:
  assumes "si_inv si" "a \<in> set (shards si)"
  shows "si_inv (upd_slot a (\<lambda>s. s\<lparr>sl_tombstones := n s\<rparr>) si)" "si_view (upd_slot a (\<lambda>s. s\<lparr>sl_tombstones := n s\<rparr>) si) = si_view si"
proof -
  show "si_inv (upd_slot a (\<lambda>s. s\<lparr>sl_tombstones := n s\<rparr>) si)"
    using si_inv_upd [OF assms(1), of "\<lambda>s. s\<lparr>sl_tombstones := n s\<rparr>" a] si_slot [OF assms] si_routes [OF assms] by simp
  show "si_view (upd_slot a (\<lambda>s. s\<lparr>sl_tombstones := n s\<rparr>) si) = si_view si"
    by (simp add: fun_eq_iff si_view_upd) (simp add: si_view_def)
qed

section \<open>The index contract\<close>

lemma push_if_live_inv:
  assumes inv: "si_inv si" and a: "a \<in> set (shards si)"
  shows "si_inv (push_if_live a si)" "si_view (push_if_live a si) = si_view si" "a \<in> set (si_queue (push_if_live a si))"
    "index_of (push_if_live a si) b = index_of si b" "si_directory (push_if_live a si) = si_directory si"
    "sl_tombstones (slot (push_if_live a si) b) = sl_tombstones (slot si b)"
proof -
  note d = si_invD [OF inv]
  have s: "sl_superseded (slot si a) = NotSuperseded" by (rule si_slot(1) [OF inv a])
  have q: "sl_maintenance_pending (slot si a) \<longleftrightarrow> a \<in> set (si_queue si)" using d(4) a by (simp add: queue_inv_def)
  let ?u = "upd_slot a (\<lambda>s. s\<lparr>sl_maintenance_pending := True\<rparr>) si"
  have p: "push_if_live a si = (if sl_maintenance_pending (slot si a) then si else ?u\<lparr>si_queue := si_queue si @ [a]\<rparr>)"
    using s by (simp add: push_if_live_def Let_def)
  have d': "dir_inv (?u\<lparr>si_queue := r\<rparr>) = dir_inv si" for r by (simp add: dir_inv_def)
  have "slots_inv (?u\<lparr>si_queue := r\<rparr>)" "range_inv (?u\<lparr>si_queue := r\<rparr>)" for r
    using d(2,3) by (auto simp: slots_inv_def range_inv_def)
  moreover have "queue_inv (?u\<lparr>si_queue := si_queue si @ [a]\<rparr>)" if "a \<notin> set (si_queue si)"
    using d(4) a that by (auto simp: queue_inv_def)
  ultimately show "si_inv (push_if_live a si)" using inv d(1) q unfolding p by (simp add: si_inv_def d')
  show "a \<in> set (si_queue (push_if_live a si))" using q by (simp add: p)
  show i: "index_of (push_if_live a si) b = index_of si b" for b by (simp add: p)
  show dd: "si_directory (push_if_live a si) = si_directory si" by (simp add: p)
  show "sl_tombstones (slot (push_if_live a si) b) = sl_tombstones (slot si b)" by (simp add: p)
  show "si_view (push_if_live a si) = si_view si" by (simp add: si_view_def fun_eq_iff i dd)
qed

lemma request_inv:
  assumes "si_inv si" "a \<in> set (shards si)"
  shows "si_inv (request_maintenance_if_needed a si)" "si_view (request_maintenance_if_needed a si) = si_view si"
    "index_of (request_maintenance_if_needed a si) b = index_of si b"
    "si_directory (request_maintenance_if_needed a si) = si_directory si"
  using push_if_live_inv [OF assms] assms(1) by (simp_all add: request_maintenance_if_needed_def Let_def)

lemma soft_threshold_le: "maintenance_soft_threshold cap active \<le> cap"
  by (auto simp: maintenance_soft_threshold_def Let_def min_def)

lemma request_queue:
  assumes "si_inv si" "a \<in> set (shards si)"
  shows "append_capacity (index_of si a) \<le> append_size (index_of si a) \<Longrightarrow> a \<in> set (si_queue (request_maintenance_if_needed a si))"
    "length (si_queue (request_maintenance_if_needed a si)) \<le> Suc (length (si_queue si))"
  using push_if_live_inv(3) [OF assms] soft_threshold_le [of "append_capacity (index_of si a)" "si_scan_active si"]
  by (auto simp: request_maintenance_if_needed_def push_if_live_def Let_def)

text \<open>A write that finds room: the view changes at its own key only.\<close>

lemma put_routes:
  assumes "shard_inv t" "t1_put t key value inl n = Some (res, t')" "routes_to dir (shard_for dir (prefix_from_bytes key)) t"
  shows "routes_to dir (shard_for dir (prefix_from_bytes key)) t'"
  using assms(3) unfolding routes_to_def shard_put(2) [OF assms(1,2)]
  by (auto simp: put_view_def prepare_key_and_hash_def split: if_splits)

lemma si_put_turn_correct:
  assumes inv: "si_inv si"
  obtains (full) si' where "si_put_turn si key value inl n = Some (Inl si')" "si_inv si'" "si_view si' = si_view si"
      "si_directory si' = si_directory si" "length (si_queue si') \<le> Suc (length (si_queue si))"
      "route si (prefix_from_bytes key) \<in> set (si_queue si')" "\<And>b. index_of si' b = index_of si b"
      "append_capacity (index_of si (route si (prefix_from_bytes key))) \<le> append_size (index_of si (route si (prefix_from_bytes key)))"
    | (applied) si' where "si_put_turn si key value inl n = Some (Inr (Applied, si'))" "si_inv si'"
      "si_view si' = put_view (si_view si) key value (stored_hash key inl n)"
proof -
  define a where "a = route si (prefix_from_bytes key)"
  have a: "a \<in> set (shards si)" unfolding a_def by (rule route_in(1) [OF si_invD(1) [OF inv]])
  define si1 where "si1 = request_maintenance_if_needed a si"
  note r = request_inv [OF inv a, folded si1_def]
  have a1: "a \<in> set (shards si1)" using a by (simp add: r(4))
  obtain res t where p: "t1_put (index_of si1 a) key value inl n = Some (res, t)"
    using shard_put_returns [OF si_slot(2) [OF r(1) a1]] by blast
  note sp = shard_put [OF si_slot(2) [OF r(1) a1] p]
  have rt: "routes_to (si_directory si1) a t"
    using put_routes [OF si_slot(2) [OF r(1) a1] p] si_routes [OF r(1) a1] by (simp add: a_def r(4))
  define si2 where "si2 = upd_slot a (\<lambda>s. s\<lparr>sl_index := t\<rparr>) si1"
  have inv2: "si_inv si2" unfolding si2_def by (rule si_inv_upd_index [OF r(1) a1 sp(1) rt])
  have d2: "si_directory si2 = si_directory si" by (simp add: si2_def r(4))
  have a2: "a \<in> set (shards si2)" using a by (simp add: d2)
  have s2: "sl_superseded (slot si2 a) = NotSuperseded" by (rule si_slot(1) [OF inv2 a2])
  have v2: "si_view si2 = (if res = Applied then put_view (si_view si) key value (stored_hash key inl n) else si_view si)"
  proof
    fix x
    have "route si (fst (ident_of key)) = a" by (simp add: a_def prepare_key_and_hash_def)
    then show "si_view si2 x = (if res = Applied then put_view (si_view si) key value (stored_hash key inl n) else si_view si) x"
      by (auto simp: si2_def si_view_upd r(2,4) sp(2) put_view_def) (auto simp: si_view_def r(3,4))
  qed
  have turn: "si_put_turn si key value inl n =
     (if res = AppendRegionFull then Some (Inl si2)
      else if value = STORE_NOT_FOUND
      then Some (Inr (res, request_maintenance_if_needed a (upd_slot a (\<lambda>s. s\<lparr>sl_tombstones := sl_tombstones s + 1\<rparr>) si2)))
      else Some (Inr (res, si2)))"
    using s2 by (simp add: si_put_turn_def si_resolve_route [OF inv] a_def [symmetric] si1_def [symmetric] p Let_def si2_def [symmetric])
  show ?thesis
  proof (cases res)
    case AppendRegionFull
    note fl = shard_put_full [OF si_slot(2) [OF r(1) a1] p [unfolded AppendRegionFull]]
    have "si_queue si2 = si_queue si1" "index_of si2 b = index_of si b" for b using fl(2) by (simp_all add: si2_def r(3))
    then show ?thesis
      using full [of si2] turn inv2 v2 d2 request_queue [OF inv a, folded si1_def] fl(1) AppendRegionFull
      by (simp add: a_def [symmetric] r(3))
  next
    case Applied
    let ?si3 = "upd_slot a (\<lambda>s. s\<lparr>sl_tombstones := sl_tombstones s + 1\<rparr>) si2"
    note t3 = si_inv_upd_tombstones [OF inv2 a2, of "\<lambda>s. sl_tombstones s + 1"]
    have "a \<in> set (shards ?si3)" using a2 by simp
    note r3 = request_inv [OF t3(1) this]
    show ?thesis
    proof (cases "value = STORE_NOT_FOUND")
      case True
      then show ?thesis using applied [OF _ r3(1)] turn r3(2) t3(2) v2 Applied by simp
    next
      case False
      then show ?thesis using applied [OF _ inv2] turn v2 Applied by simp
    qed
  qed
qed

definition si_lookup :: "ShardedT1Index \<Rightarrow> bytes \<Rightarrow> LookupResult" where
  "si_lookup si key = (case si_get_with_hash si key of Some r \<Rightarrow> r | None \<Rightarrow> not_found_result)"

interpretation si: live_index si_inv si_view si_lookup "si_put_waiting []"
proof
  fix si key
  assume inv: "si_inv si"
  let ?a = "route si (prefix_from_bytes key)"
  have "shard_inv (index_of si ?a)" by (rule si_slot(2) [OF inv route_in(1) [OF si_invD(1) [OF inv]]])
  moreover have l: "si_lookup si key = get_with_hash (index_of si ?a) key"
    by (simp add: si_lookup_def si_get_route [OF inv])
  ultimately show "case si_view si (ident_of key) of None \<Rightarrow> lr_payload_bits (si_lookup si key) = STORE_NOT_FOUND
      | Some r \<Rightarrow> si_lookup si key = r"
    using shard_get [of "index_of si ?a" key] unfolding l by (simp add: si_view_def prepare_key_and_hash_def)
next
  fix si x r
  assume "si_view si x = Some r"
  then show "is_live (lr_payload_bits r)" by (auto simp: si_view_def live_view_def live_only_Some)
next
  fix si key "value" inl n res si'
  assume inv: "si_inv si" and p: "si_put_waiting [] si key value inl n = Some (res, si')"
  show "si_inv si' \<and> si_view si' = (if res = Applied then put_view (si_view si) key value (stored_hash key inl n) else si_view si)"
    by (rule si_put_turn_correct [OF inv, of key "value" inl n])
      (use p in \<open>auto simp: si_put_waiting.simps\<close>)
qed

section \<open>Merging and splitting a shard\<close>

lemma reorganize_slot:
  assumes inv: "shard_inv (index_of si a)"
  obtains t merged where "reorganize_until_captured a si = Some (merged, upd_slot a (\<lambda>s. s\<lparr>sl_index := t\<rparr>) si)"
    "reorganize (\<lambda>m. m) (index_of si a) = (t, Some merged)" "shard_inv t" "append_size t = 0"
    "live_view t = live_view (index_of si a)" "sorted_wrt (<) (map es_ident merged)"
    "keyed_map es_ident es_result merged = live_view (index_of si a)" "t1_append_cap t = t1_append_cap (index_of si a)"
proof (rule shard_reorganize [OF inv])
  fix t merged
  assume r: "reorganize (\<lambda>m. m) (index_of si a) = (t, Some merged)" "shard_inv t" "append_size t = 0"
    "live_view t = live_view (index_of si a)" "sorted_wrt (<) (map es_ident merged)"
    "keyed_map es_ident es_result merged = live_view (index_of si a)" "t1_append_cap t = t1_append_cap (index_of si a)"
  show thesis by (rule that [OF _ r]) (subst reorganize_until_captured.simps, simp add: r(1))
qed

text \<open>No two live entries share a prefix.\<close>

definition unique_prefixes :: "(ident \<rightharpoonup> LookupResult) \<Rightarrow> bool" where
  "unique_prefixes m \<longleftrightarrow> (\<forall>x \<in> dom m. \<forall>y \<in> dom m. fst x = fst y \<longrightarrow> x = y)"

lemma ident_less_key: "(x::ident) < y \<Longrightarrow> fst x \<le> fst y"
  by (cases x; cases y) (auto simp: less_prod_def)

lemma keyed_dom: "dom (keyed_map key val xs) = key ` set xs"
  by (simp add: dom_def keyed_map_None)

text \<open>Cutting the merged entries in the middle cuts the keys at the boundary.\<close>

lemma split_entries:
  assumes srt: "sorted_wrt (<) (map es_ident es)" and un: "unique_prefixes (keyed_map es_ident es_result es)"
    and mid: "0 < mid" "mid < length es"
  defines "b \<equiv> es_key (es ! mid)"
  shows "\<And>e. e \<in> set (take mid es) \<Longrightarrow> es_key e < b" "\<And>e. e \<in> set (drop mid es) \<Longrightarrow> b \<le> es_key e"
    "keyed_map es_ident es_result es x =
       (if fst x < b then keyed_map es_ident es_result (take mid es) x else keyed_map es_ident es_result (drop mid es) x)"
proof -
  have lt: "es_ident (es ! i) < es_ident (es ! j)" if "i < j" "j < length es" for i j
    using srt that by (simp add: sorted_wrt_iff_nth_less)
  have fst_id: "fst (es_ident e) = es_key e" for e by (simp add: es_ident_def)
  show lo: "es_key e < b" if e: "e \<in> set (take mid es)" for e
  proof -
    obtain i where i: "i < mid" "e = es ! i" using e mid by (auto simp: in_set_conv_nth)
    have l: "es_ident e < es_ident (es ! mid)" using lt [of i mid] i mid by simp
    have "es_ident e \<in> dom (keyed_map es_ident es_result es)" "es_ident (es ! mid) \<in> dom (keyed_map es_ident es_result es)"
      using i mid by (auto simp: keyed_dom)
    then have "fst (es_ident e) = fst (es_ident (es ! mid)) \<Longrightarrow> es_ident e = es_ident (es ! mid)"
      using un unfolding unique_prefixes_def by blast
    then have "es_key e \<noteq> b" using l by (auto simp: fst_id b_def)
    then show ?thesis using ident_less_key [OF l] by (simp add: fst_id b_def)
  qed
  show hi: "b \<le> es_key e" if e: "e \<in> set (drop mid es)" for e
  proof -
    obtain i where i': "i < length es - mid" "e = es ! (mid + i)" using e mid by (auto simp: in_set_conv_nth)
    then have i: "mid + i < length es" "e = es ! (mid + i)" by simp_all
    show ?thesis
    proof (cases "i = 0")
      case False
      then show ?thesis using ident_less_key [OF lt [of mid "mid + i"]] i by (simp add: fst_id b_def)
    qed (use i in \<open>simp add: b_def\<close>)
  qed
  have app: "keyed_map es_ident es_result es = keyed_map es_ident es_result (drop mid es) ++ keyed_map es_ident es_result (take mid es)"
    unfolding keyed_map_def by (subst append_take_drop_id [of mid es, symmetric]) (simp del: append_take_drop_id)
  show "keyed_map es_ident es_result es x =
       (if fst x < b then keyed_map es_ident es_result (take mid es) x else keyed_map es_ident es_result (drop mid es) x)"
  proof (cases "fst x < b")
    case True
    then have "keyed_map es_ident es_result (drop mid es) x = None"
      unfolding keyed_map_None by (auto simp: fst_id dest: hi [THEN leD])
    then show ?thesis using True unfolding app by (simp add: map_add_def split: option.splits)
  next
    case False
    then have "keyed_map es_ident es_result (take mid es) x = None"
      using lo unfolding keyed_map_None by (auto simp: fst_id)
    then show ?thesis using False unfolding app by (simp add: map_add_def)
  qed
qed

lemma upper_bound_insert:
  assumes "sorted_wrt (<) (take i bs @ [b] @ drop i bs)"
  shows "upper_bound (take i bs @ [b] @ drop i bs) key = upper_bound bs key + (if b \<le> key then 1 else 0)"
proof -
  have srt: "sorted_wrt (<) bs"
  proof -
    have "sorted_wrt (<) (take i bs @ drop i bs)"
      using assms unfolding sorted_wrt_append by (auto simp del: append_take_drop_id)
    then show ?thesis by simp
  qed
  have "filter (\<lambda>c. c \<le> key) bs = filter (\<lambda>c. c \<le> key) (take i bs) @ filter (\<lambda>c. c \<le> key) (drop i bs)"
    unfolding filter_append [symmetric] by simp
  then show ?thesis unfolding upper_bound_filter [OF assms] upper_bound_filter [OF srt] by simp
qed

text \<open>A boundary that routes to position \<open>i\<close>, with an entry strictly below it that does too, fits in there.\<close>

lemma sorted_insert_boundary:
  assumes srt: "sorted_wrt (<) bs" and b: "upper_bound bs b = i" and k: "upper_bound bs k = i" "k < b"
  shows "sorted_wrt (<) (take i bs @ [b] @ drop i bs)"
proof -
  have i: "i \<le> length bs" using upper_bound_le [of bs b] b by simp
  have "c < b" if c: "c \<in> set (take i bs)" for c
  proof -
    obtain j where "j < i" "c = bs ! j" using c i by (auto simp: in_set_conv_nth)
    then have "c \<le> k" using upper_bound_before [of j bs k] k(1) by simp
    then show ?thesis using k(2) by simp
  qed
  moreover have "b < c" if c: "c \<in> set (drop i bs)" for c
  proof -
    obtain j where "j < length bs - i" "c = bs ! (i + j)" using c i by (auto simp: in_set_conv_nth)
    then show ?thesis using upper_bound_after [OF srt, of b "i + j"] b by simp
  qed
  moreover have "sorted_wrt (<) (take i bs)" "sorted_wrt (<) (drop i bs)" using srt by (simp_all add: sorted_wrt_take sorted_wrt_drop)
  ultimately show ?thesis by (auto simp: sorted_wrt_append intro: less_trans)
qed

lemma nth_replace_two:
  assumes "i < length xs" "j \<le> length xs"
  shows "(take i xs @ [x, y] @ drop (Suc i) xs) ! j =
    (if j < i then xs ! j else if j = i then x else if j = Suc i then y else xs ! (j - 1))"
proof -
  consider "j < i" | "j = i" | "j = Suc i" | k where "j = Suc (Suc (i + k))"
    by (metis add_Suc less_imp_Suc_add linorder_neqE_nat not_less_eq)
  then show ?thesis using assms by cases (auto simp: nth_append)
qed

lemma position_of:
  assumes "distinct xs" "i < length xs"
  shows "partition_point (\<lambda>a. a \<noteq> xs ! i) xs = i"
proof -
  have "takeWhile (\<lambda>a. a \<noteq> xs ! i) xs = take i xs"
    using assms by (intro takeWhile_eq_take_P_nth) (auto simp: nth_eq_iff_index_eq)
  then show ?thesis using assms(2) by (simp add: partition_point_def)
qed

text \<open>Routing in the directory after a split.\<close>

lemma split_route:
  assumes d: "dir_inv si" and i: "i < length (shards si)" and srt: "sorted_wrt (<) (take i (bounds si) @ [b] @ drop i (bounds si))"
    and dir': "dir' = publish_directory_after_split (shards si ! i) low high b (si_directory si)"
  shows "shard_for dir' key = (if route si key = shards si ! i then if key < b then low else high else route si key)"
    "dir_boundaries dir' = take i (bounds si) @ [b] @ drop i (bounds si)"
    "dir_shards dir' = take i (shards si) @ [low, high] @ drop (Suc i) (shards si)"
proof -
  have p: "partition_point (\<lambda>a. a \<noteq> shards si ! i) (shards si) = i" 
    by (rule position_of) (use i d in \<open>simp_all add: dir_inv_def\<close>)
  show bs: "dir_boundaries dir' = take i (bounds si) @ [b] @ drop i (bounds si)"
    and sh: "dir_shards dir' = take i (shards si) @ [low, high] @ drop (Suc i) (shards si)"
    by (simp_all add: dir' publish_directory_after_split_def p Let_def)
  let ?u = "upper_bound (bounds si) key"
  have u: "?u < length (shards si)" by (rule route_in(2) [OF d])
  have s: "sorted_wrt (<) (bounds si)" and len: "length (shards si) = Suc (length (bounds si))" using d by (simp_all add: dir_inv_def)
  have below: "\<not> b \<le> key" if "?u < i"
  proof -
    have "key < bounds si ! ?u" using upper_bound_after [OF s, of key ?u] that i len by simp
    moreover have "bounds si ! ?u \<in> set (take i (bounds si))" using that i len by (auto simp: in_set_conv_nth intro!: exI [of _ ?u])
    then have "bounds si ! ?u < b" using srt by (auto simp: sorted_wrt_append)
    ultimately show ?thesis by simp
  qed
  have above: "b \<le> key" if "i < ?u"
  proof -
    have "bounds si ! i \<in> set (drop i (bounds si))" using that u len by (auto simp: in_set_conv_nth intro!: exI [of _ 0])
    then have "b < bounds si ! i" using srt by (auto simp: sorted_wrt_append)
    also have "bounds si ! i \<le> key" using upper_bound_before that by blast
    finally show ?thesis by simp
  qed
  have "shard_for dir' key = (take i (shards si) @ [low, high] @ drop (Suc i) (shards si)) ! (?u + (if b \<le> key then 1 else 0))"
    unfolding shard_for_def bs sh upper_bound_insert [OF srt] by simp
  also have "\<dots> = (if ?u = i then if key < b then low else high else shards si ! ?u)"
    using u below above by (subst nth_replace_two [OF i]) (auto simp: not_le)
  finally show "shard_for dir' key = (if route si key = shards si ! i then if key < b then low else high else route si key)"
    unfolding route_iff [OF d i] by (simp add: route_nth)
qed

lemma merged_keys:
  assumes "keyed_map es_ident es_result es = live_view t" "shard_inv t" "e \<in> set es"
  shows "es_ident e \<in> dom (live_view t)" "length (es_key e) = kStoreKeyBytes"
proof -
  show d: "es_ident e \<in> dom (live_view t)" using assms(3) unfolding assms(1) [symmetric] keyed_dom by simp
  then have "es_ident e \<in> dom (t1_map t)" by (auto simp: live_view_def live_only_Some)
  then have "length (fst (es_ident e)) = kStoreKeyBytes" using assms(2) unfolding shard_inv_def by blast
  then show "length (es_key e) = kStoreKeyBytes" by (simp add: es_ident_def)
qed

lemma live_only_id: "(\<And>x r. m x = Some r \<Longrightarrow> is_live (lr_payload_bits r)) \<Longrightarrow> live_only m = m"
  by (auto simp: live_only_def fun_eq_iff split: option.splits)

lemma live_only_sub:
  assumes "keyed_map es_ident es_result es = live_view t" "set es' \<subseteq> set es" "distinct (map es_ident es)" "distinct (map es_ident es')"
  shows "live_only (keyed_map es_ident es_result es') = keyed_map es_ident es_result es'"
proof (rule live_only_id)
  fix x r assume "keyed_map es_ident es_result es' x = Some r"
  then have "keyed_map es_ident es_result es x = Some r" using assms(2-4) by (auto simp: keyed_map_Some)
  then show "is_live (lr_payload_bits r)" unfolding assms(1) by (auto simp: live_view_def live_only_Some)
qed

lemma strict_map_distinct: "sorted_wrt (<) (map es_ident es) \<Longrightarrow> distinct (map es_ident es)"
  by (rule strict_distinct)

text \<open>
  The two halves of a shard whose merged entries have distinct prefixes, as \<open>continue_split\<close> loads them.
\<close>

lemma split_halves:
  fixes bl cap mid es t
  assumes inv: "shard_inv t" and srt: "sorted_wrt (<) (map es_ident es)"
    and km: "keyed_map es_ident es_result es = live_view t" and un: "unique_prefixes (live_view t)"
    and mid: "0 < mid" "mid < length es"
  defines "low \<equiv> load_sorted_region_from_checkpoint (T1Index_new bl cap) (take mid es)"
    and "high \<equiv> load_sorted_region_from_checkpoint (T1Index_new bl cap) (drop mid es)"
  shows "shard_inv low" "shard_inv high"
    "live_view t x = (if fst x < es_key (es ! mid) then live_view low x else live_view high x)"
    "x \<in> dom (live_view low) \<Longrightarrow> x \<in> dom (live_view t) \<and> fst x < es_key (es ! mid)"
    "x \<in> dom (live_view high) \<Longrightarrow> x \<in> dom (live_view t) \<and> \<not> fst x < es_key (es ! mid)"
    "append_size low = 0" "append_size high = 0"
proof -
  have st: "sorted_wrt (<) (map es_ident (take mid es))" "sorted_wrt (<) (map es_ident (drop mid es))"
    using srt by (simp_all add: take_map [symmetric] drop_map [symmetric] sorted_wrt_take sorted_wrt_drop)
  have ln: "\<forall>e\<in>set (take mid es). length (es_key e) = kStoreKeyBytes" "\<forall>e\<in>set (drop mid es). length (es_key e) = kStoreKeyBytes"
    using merged_keys(2) [OF km inv] by (auto dest: in_set_takeD in_set_dropD)
  note lo = shard_load [OF st(1) ln(1), of bl cap, folded low_def] and hi = shard_load [OF st(2) ln(2), of bl cap, folded high_def]
  show "shard_inv low" "shard_inv high" "append_size low = 0" "append_size high = 0" by (rule lo(1), rule hi(1), rule lo(3), rule hi(3))
  have v: "live_view low = keyed_map es_ident es_result (take mid es)" "live_view high = keyed_map es_ident es_result (drop mid es)"
    unfolding lo(2) hi(2)
    by (rule live_only_sub [OF km set_take_subset strict_map_distinct [OF srt] strict_map_distinct [OF st(1)]],
        rule live_only_sub [OF km set_drop_subset strict_map_distinct [OF srt] strict_map_distinct [OF st(2)]])
  note sp = split_entries [OF srt un [folded km] mid]
  show "live_view t x = (if fst x < es_key (es ! mid) then live_view low x else live_view high x)"
    unfolding v km [symmetric] by (rule sp(3))
  show "x \<in> dom (live_view t) \<and> fst x < es_key (es ! mid)" if "x \<in> dom (live_view low)"
    using that sp(1) unfolding v km [symmetric] keyed_dom by (auto simp: es_ident_def dest: in_set_takeD)
  show "x \<in> dom (live_view t) \<and> \<not> fst x < es_key (es ! mid)" if "x \<in> dom (live_view high)"
    using that sp(2) unfolding v km [symmetric] keyed_dom by (fastforce simp: es_ident_def not_less dest: in_set_dropD)
qed

text \<open>What a finished split leaves, given the two halves.\<close>

lemma split_publish_inv:
  assumes inv: "si_inv si" and i: "i < length (shards si)" and a: "a = shards si ! i" and t: "t = index_of si a"
    and halves: "shard_inv low" "shard_inv high"
      "\<And>x. live_view t x = (if fst x < b then live_view low x else live_view high x)"
      "\<And>x. x \<in> dom (live_view low) \<Longrightarrow> x \<in> dom (live_view t) \<and> fst x < b"
      "\<And>x. x \<in> dom (live_view high) \<Longrightarrow> x \<in> dom (live_view t) \<and> \<not> fst x < b"
    and srt: "sorted_wrt (<) (take i (bounds si) @ [b] @ drop i (bounds si))"
    and si': "si_directory si' = publish_directory_after_split a (si_next_slot si) (Suc (si_next_slot si)) b (si_directory si)"
      "si_next_slot si' = Suc (Suc (si_next_slot si))" "si_queue si' = filter (\<lambda>x. x \<noteq> a) (si_queue si)"
      "slot si' (si_next_slot si) = ShardSlot_new low" "slot si' (Suc (si_next_slot si)) = ShardSlot_new high"
      "\<And>c. c < si_next_slot si \<Longrightarrow> c \<noteq> a \<Longrightarrow> slot si' c = slot si c"
  shows "si_inv si'" "si_view si' = si_view si"
proof -
  let ?l = "si_next_slot si" and ?h = "Suc (si_next_slot si)"
  note d = si_invD [OF inv]
  have D: "sorted_wrt (<) (bounds si)" "length (shards si) = Suc (length (bounds si))" "distinct (shards si)"
    "\<And>c. c \<in> set (shards si) \<Longrightarrow> c < ?l" using d(1) by (auto simp: dir_inv_def)
  note r = split_route [OF d(1) i srt si'(1) [unfolded a]]
  have as: "a \<in> set (shards si)" using i a by simp
  have fresh: "?l \<notin> set (shards si)" "?h \<notin> set (shards si)" using D(4) [of ?l] D(4) [of ?h] by auto
  have others: "set (take i (shards si)) \<union> set (drop (Suc i) (shards si)) = set (shards si) - {a}"
  proof -
    have e: "shards si = take i (shards si) @ a # drop (Suc i) (shards si)" using i a by (simp add: id_take_nth_drop)
    have "distinct (take i (shards si) @ a # drop (Suc i) (shards si))" using D(3) e by simp
    then show ?thesis by (subst (3) e) auto
  qed
  have sh: "set (shards si') = insert ?l (insert ?h (set (shards si) - {a}))"
    unfolding r(3) using others by auto
  have keep: "slot si' c = slot si c" if "c \<in> set (shards si) - {a}" for c using si'(6) that D(4) by auto
  have low: "index_of si' ?l = low" and high: "index_of si' ?h = high" by (simp_all add: si'(4,5) ShardSlot_new_def)
  have "distinct (shards si')"
    unfolding r(3) using D(3) fresh by (auto simp: set_take_disj_set_drop_if_distinct dest: in_set_takeD in_set_dropD)
  moreover have "\<forall>c \<in> set (shards si'). c < si_next_slot si'" unfolding sh si'(2) using D(4) by (auto intro: less_SucI)
  moreover have "length (shards si') = Suc (length (bounds si'))" "sorted_wrt (<) (bounds si')"
    using srt D(2) i by (auto simp: r(2,3))
  ultimately have dir: "dir_inv si'" by (simp add: dir_inv_def)
  have slots: "slots_inv si'"
    using d(2) keep halves(1,2) by (auto simp: slots_inv_def sh low high) (simp_all add: si'(4,5) ShardSlot_new_def)
  have ra: "route si (fst x) = a" if "x \<in> dom (live_view t)" for x
    using si_routes [OF inv as] that by (auto simp: routes_to_def t)
  have "routes_to (si_directory si') ?l low" "routes_to (si_directory si') ?h high"
    using halves(4,5) ra by (auto simp: routes_to_def r(1) a [symmetric])
  moreover have "routes_to (si_directory si') c (index_of si' c)" if c: "c \<in> set (shards si) - {a}" for c
    using si_routes [OF inv, of c] c unfolding keep [OF c] by (auto simp: routes_to_def r(1) a [symmetric])
  ultimately have range: "range_inv si'" by (auto simp: range_inv_def sh low high)
  have "\<not> sl_maintenance_pending (slot si' ?l)" "\<not> sl_maintenance_pending (slot si' ?h)"
    by (simp_all add: si'(4,5) ShardSlot_new_def)
  moreover have "?l \<notin> set (si_queue si)" "?h \<notin> set (si_queue si)" "set (si_queue si) \<subseteq> set (shards si)"
    using d(4) fresh by (auto simp: queue_inv_def)
  ultimately have "queue_inv si'" using d(4) keep by (auto simp: queue_inv_def sh si'(3))
  then show "si_inv si'" using dir slots range by (simp add: si_inv_def)
  show "si_view si' = si_view si"
  proof
    fix x
    show "si_view si' x = si_view si x"
    proof (cases "route si (fst x) = a")
      case True
      then show ?thesis using halves(3) [of x] by (simp add: si_view_def r(1) a [symmetric] low high t)
    next
      case False
      then have "route si (fst x) \<in> set (shards si) - {a}" using route_in(1) [OF d(1)] by simp
      then show ?thesis using False by (simp add: si_view_def r(1) a [symmetric] keep)
    qed
  qed
qed

text \<open>A shard replaced by one with the same entries and taken off the queue.\<close>

lemma replace_slot_inv:
  assumes inv: "si_inv si" and a: "a \<in> set (shards si)"
    and s: "sl_superseded s = NotSuperseded" "\<not> sl_maintenance_pending s" "shard_inv (sl_index s)"
      "live_view (sl_index s) = live_view (index_of si a)"
    and si': "si_directory si' = si_directory si" "si_next_slot si' = si_next_slot si"
      "si_queue si' = filter (\<lambda>x. x \<noteq> a) (si_queue si)" "slot si' = (slot si)(a := s)"
  shows "si_inv si'" "si_view si' = si_view si"
proof -
  note d = si_invD [OF inv]
  have "dir_inv si'" using d(1) by (simp add: dir_inv_def si')
  moreover have "slots_inv si'" using d(2) s by (auto simp: slots_inv_def si')
  moreover have "range_inv si'" using d(3) a routes_to_cong [OF s(4)] by (auto simp: range_inv_def si')
  moreover have "queue_inv si'" using d(4) s(2) by (auto simp: queue_inv_def si')
  ultimately show "si_inv si'" by (simp add: si_inv_def)
  show "si_view si' = si_view si" using s(4) by (simp add: si_view_def fun_eq_iff si')
qed

lemma purge_simps [simp]:
  "slot (purge a si) = slot si" "si_directory (purge a si) = si_directory si" "si_next_slot (purge a si) = si_next_slot si"
  "si_use_bloom (purge a si) = si_use_bloom si" "si_queue (purge a si) = filter (\<lambda>x. x \<noteq> a) (si_queue si)"
  by (simp_all add: purge_def)

lemma new_slot_simps [simp]:
  "fst (new_slot t si) = si_next_slot si" "si_directory (snd (new_slot t si)) = si_directory si"
  "si_next_slot (snd (new_slot t si)) = Suc (si_next_slot si)" "si_use_bloom (snd (new_slot t si)) = si_use_bloom si"
  "si_append_cap (snd (new_slot t si)) = si_append_cap si" "si_queue (snd (new_slot t si)) = si_queue si"
  "slot (snd (new_slot t si)) = (slot si)(si_next_slot si := ShardSlot_new t)"
  by (simp_all add: new_slot_def slot_def fun_eq_iff)

lemma unique_prefixes_sub: "unique_prefixes m \<Longrightarrow> (\<And>x r. m' x = Some r \<Longrightarrow> m x \<noteq> None) \<Longrightarrow> unique_prefixes m'"
  unfolding unique_prefixes_def by (meson domI domIff domD)

text \<open>
  What a maintenance step of shard \<open>a\<close> does: the contents stay, the shard leaves the queue, its
  part of the key space ends up in shards with empty append regions, the others are untouched.
\<close>

definition maintained :: "nat \<Rightarrow> ShardedT1Index \<Rightarrow> ShardedT1Index \<Rightarrow> bool" where
  "maintained a si si' \<longleftrightarrow> si_inv si' \<and> si_view si' = si_view si \<and> si_queue si' = filter (\<lambda>x. x \<noteq> a) (si_queue si)
     \<and> (\<forall>key. route si key \<noteq> a \<longrightarrow> route si' key = route si key \<and> index_of si' (route si' key) = index_of si (route si key))
     \<and> (\<forall>key. route si key = a \<longrightarrow> append_size (index_of si' (route si' key)) = 0
          \<and> append_capacity (index_of si' (route si' key)) = append_capacity (index_of si a))"

lemma maintainedD:
  assumes "maintained a si si'"
  shows "si_inv si'" "si_view si' = si_view si" "si_queue si' = filter (\<lambda>x. x \<noteq> a) (si_queue si)"
    "route si key \<noteq> a \<Longrightarrow> route si' key = route si key" "route si key \<noteq> a \<Longrightarrow> index_of si' (route si' key) = index_of si (route si key)"
    "route si key = a \<Longrightarrow> append_size (index_of si' (route si' key)) = 0"
    "route si key = a \<Longrightarrow> append_capacity (index_of si' (route si' key)) = append_capacity (index_of si a)"
  using assms unfolding maintained_def by blast+

lemma maintained_trans:
  assumes m: "maintained a si si1" and m': "maintained a si1 si2"
  shows "maintained a si si2"
proof -
  note d = maintainedD [OF m] and d' = maintainedD [OF m']
  have "append_size (index_of si2 (route si2 key)) = 0 \<and>
      append_capacity (index_of si2 (route si2 key)) = append_capacity (index_of si a)" if "route si key = a" for key
    using d(6,7) [OF that] d'(5-7) [of key] by (cases "route si1 key = a") simp_all
  moreover have "route si2 key = route si key \<and> index_of si2 (route si2 key) = index_of si (route si key)"
    if "route si key \<noteq> a" for key
    using d(4,5) [OF that] d'(4,5) [of key] that by simp
  moreover have "si_view si2 = si_view si" "si_queue si2 = filter (\<lambda>x. x \<noteq> a) (si_queue si)" using d(2,3) d'(2,3) by simp_all
  ultimately show ?thesis using d'(1) unfolding maintained_def by blast
qed

text \<open>What \<open>continue_split\<close> leaves when there is something to split.\<close>

lemma continue_split_result:
  fixes si a merged t
  defines "mid \<equiv> length merged div 2" and "cap \<equiv> append_capacity t"
  assumes m: "reorganize (\<lambda>m. m) (index_of si a) = (t, Some merged)" and len: "\<not> length merged < 2"
    and al: "a \<noteq> si_next_slot si" "a \<noteq> Suc (si_next_slot si)"
  obtains si' where "continue_split a (upd_slot a (\<lambda>s. s\<lparr>sl_superseded := ClosingSentinel\<rparr>) si) = Some si'"
    "si_directory si' = publish_directory_after_split a (si_next_slot si) (Suc (si_next_slot si)) (es_key (merged ! mid)) (si_directory si)"
    "si_next_slot si' = Suc (Suc (si_next_slot si))" "si_queue si' = filter (\<lambda>x. x \<noteq> a) (si_queue si)"
    "slot si' (si_next_slot si) = ShardSlot_new (load_sorted_region_from_checkpoint (T1Index_new (si_use_bloom si) cap) (take mid merged))"
    "slot si' (Suc (si_next_slot si)) = ShardSlot_new (load_sorted_region_from_checkpoint (T1Index_new (si_use_bloom si) cap) (drop mid merged))"
    "\<And>c. c < si_next_slot si \<Longrightarrow> c \<noteq> a \<Longrightarrow> slot si' c = slot si c"
proof -
  let ?c = "purge a (upd_slot a (\<lambda>s. s\<lparr>sl_superseded := ClosingSentinel\<rparr>) si)"
  let ?low = "load_sorted_region_from_checkpoint (T1Index_new (si_use_bloom si) cap) (take mid merged)"
  let ?high = "load_sorted_region_from_checkpoint (T1Index_new (si_use_bloom si) cap) (drop mid merged)"
  have r: "reorganize_until_captured a ?c = Some (merged, upd_slot a (\<lambda>s. s\<lparr>sl_index := t\<rparr>) ?c)"
    by (subst reorganize_until_captured.simps) (simp add: purge_def m)
  define si' where "si' = (the (continue_split a (upd_slot a (\<lambda>s. s\<lparr>sl_superseded := ClosingSentinel\<rparr>) si)))"
  have e: "continue_split a (upd_slot a (\<lambda>s. s\<lparr>sl_superseded := ClosingSentinel\<rparr>) si) = Some si'"
    unfolding si'_def by (simp add: continue_split_def r)
  have fr: "si_directory si' = publish_directory_after_split a (si_next_slot si) (Suc (si_next_slot si)) (es_key (merged ! mid)) (si_directory si)"
    "si_next_slot si' = Suc (Suc (si_next_slot si))" "si_queue si' = filter (\<lambda>x. x \<noteq> a) (si_queue si)"
    "slot si' = (\<lambda>c. if c = a then (slot si' a) else if c = Suc (si_next_slot si) then ShardSlot_new ?high
        else if c = si_next_slot si then ShardSlot_new ?low else slot si c)"
    using len by (auto simp: si'_def continue_split_def r Let_def case_prod_unfold fun_eq_iff mid_def cap_def)
  have sl: "slot si' (si_next_slot si) = ShardSlot_new ?low" "slot si' (Suc (si_next_slot si)) = ShardSlot_new ?high"
    "c < si_next_slot si \<Longrightarrow> c \<noteq> a \<Longrightarrow> slot si' c = slot si c" for c
    using al by (subst fr(4), simp)+
  show ?thesis by (rule that [OF e fr(1-3) sl])
qed

text \<open>The rest of a split, on a shard that was claimed while the index was well formed.\<close>

lemma continue_split_correct:
  assumes inv: "si_inv si" and a: "a \<in> set (shards si)" and un: "unique_prefixes (si_view si)"
  obtains si' where "continue_split a (upd_slot a (\<lambda>s. s\<lparr>sl_superseded := ClosingSentinel\<rparr>) si) = Some si'"
    "maintained a si si'"
proof -
  let ?c = "purge a (upd_slot a (\<lambda>s. s\<lparr>sl_superseded := ClosingSentinel\<rparr>) si)"
  have ic: "index_of ?c a = index_of si a" by (simp add: purge_def)
  have sinv: "shard_inv (index_of si a)" by (rule si_slot(2) [OF inv a])
  obtain t merged where m: "reorganize_until_captured a ?c = Some (merged, upd_slot a (\<lambda>s. s\<lparr>sl_index := t\<rparr>) ?c)"
    "shard_inv t" "append_size t = 0" "live_view t = live_view (index_of si a)" "sorted_wrt (<) (map es_ident merged)"
    "keyed_map es_ident es_result merged = live_view (index_of si a)" "t1_append_cap t = t1_append_cap (index_of si a)"
    "reorganize (\<lambda>m. m) (index_of si a) = (t, Some merged)"
    by (rule reorganize_slot [of ?c a]) (use sinv in \<open>simp_all add: ic\<close>)
  let ?s1 = "upd_slot a (\<lambda>s. s\<lparr>sl_index := t\<rparr>) ?c"
  obtain i where i: "i < length (shards si)" "a = shards si ! i" using a by (auto simp: in_set_conv_nth)
  note d = si_invD [OF inv]
  show ?thesis
  proof (cases "length merged < 2")
    case True
    let ?s2 = "upd_slot a (\<lambda>s. s\<lparr>sl_superseded := NotSuperseded, sl_maintenance_pending := False, sl_tombstones := 0\<rparr>) ?s1"
    have e: "continue_split a (upd_slot a (\<lambda>s. s\<lparr>sl_superseded := ClosingSentinel\<rparr>) si) = Some ?s2"
      using True by (simp add: continue_split_def m(1))
    have fr: "si_directory ?s2 = si_directory si" "si_next_slot ?s2 = si_next_slot si" "si_queue ?s2 = filter (\<lambda>x. x \<noteq> a) (si_queue si)"
      "slot ?s2 = (slot si)(a := slot ?s2 a)" by (simp_all add: fun_eq_iff)
    have s2: "sl_superseded (slot ?s2 a) = NotSuperseded" "\<not> sl_maintenance_pending (slot ?s2 a)" "index_of ?s2 a = t" by simp_all
    have "shard_inv (index_of ?s2 a)" "live_view (index_of ?s2 a) = live_view (index_of si a)" using m(2,4) by simp_all
    note r = replace_slot_inv [OF inv a s2(1,2) this fr]
    have ix: "index_of ?s2 b = (if b = a then t else index_of si b)" for b by simp
    have "maintained a si ?s2"
      using r m(3,7) unfolding maintained_def ix fr(1,3) by (simp add: append_capacity_def)
    then show ?thesis by (rule that [OF e])
  next
    case False
    let ?mid = "length merged div 2" and ?bl = "si_use_bloom si" and ?cap = "append_capacity t"
    let ?low = "load_sorted_region_from_checkpoint (T1Index_new ?bl ?cap) (take ?mid merged)"
    let ?high = "load_sorted_region_from_checkpoint (T1Index_new ?bl ?cap) (drop ?mid merged)"
    let ?b = "es_key (merged ! ?mid)" and ?l = "si_next_slot si"
    have mid: "0 < ?mid" "?mid < length merged" using False by auto
    have route_a: "si_view si x = live_view (index_of si a) x" if "x \<in> dom (live_view (index_of si a))" for x
      using si_routes [OF inv a] that by (auto simp: routes_to_def si_view_def)
    have un': "unique_prefixes (live_view (index_of si a))"
      by (rule unique_prefixes_sub [OF un]) (simp add: route_a domI)
    note h = split_halves [OF sinv m(5,6) un' mid, where bl = ?bl and cap = ?cap]
    have ub: "upper_bound (bounds si) (es_key e) = i" if "e \<in> set merged" for e
    proof -
      have "route si (fst (es_ident e)) = a"
        using si_routes [OF inv a] merged_keys(1) [OF m(6) sinv that] unfolding routes_to_def by (rule bspec)
      then show ?thesis using route_iff [OF d(1) i(1)] by (simp add: i(2) es_ident_def)
    qed
    have srt: "sorted_wrt (<) (take i (bounds si) @ [?b] @ drop i (bounds si))"
    proof (rule sorted_insert_boundary)
      show "sorted_wrt (<) (bounds si)" using d(1) by (simp add: dir_inv_def)
      show "upper_bound (bounds si) ?b = i" using ub mid(2) by simp
      show "upper_bound (bounds si) (es_key (merged ! 0)) = i" by (rule ub [OF nth_mem]) (use mid(2) in linarith)
      show "es_key (merged ! 0) < ?b"
        by (rule split_entries(1) [OF m(5) un' [folded m(6)] mid]) (use mid in \<open>auto simp: in_set_conv_nth intro!: exI [of _ 0]\<close>)
    qed
    have al: "a \<noteq> ?l" "a \<noteq> Suc ?l" using d(1) a by (auto simp: dir_inv_def)
    obtain si' where e: "continue_split a (upd_slot a (\<lambda>s. s\<lparr>sl_superseded := ClosingSentinel\<rparr>) si) = Some si'"
      and fr: "si_directory si' = publish_directory_after_split a ?l (Suc ?l) ?b (si_directory si)"
        "si_next_slot si' = Suc (Suc ?l)" "si_queue si' = filter (\<lambda>x. x \<noteq> a) (si_queue si)"
      and sl: "slot si' ?l = ShardSlot_new ?low" "slot si' (Suc ?l) = ShardSlot_new ?high"
        "\<And>c. c < ?l \<Longrightarrow> c \<noteq> a \<Longrightarrow> slot si' c = slot si c"
      by (rule continue_split_result [OF m(8) False al]) blast
    have r: "si_inv si'" "si_view si' = si_view si"
      by (rule split_publish_inv(1) [OF inv i refl h(1,2) _ _ _ srt fr(1-3) sl(1,2)]; use h(3-5) sl(3) in simp)
        (rule split_publish_inv(2) [OF inv i refl h(1,2) _ _ _ srt fr(1-3) sl(1,2)]; use h(3-5) sl(3) in simp)
    have rt: "route si' key = (if route si key = a then if key < ?b then ?l else Suc ?l else route si key)" for key
      using split_route(1) [OF d(1) i(1) srt fr(1) [unfolded i(2)]] by (simp add: i(2))
    have "append_capacity ?low = ?cap" "append_capacity ?high = ?cap"
      by (simp_all add: append_capacity_def load_sorted_region_from_checkpoint_def T1Index_new_def note_append_region_created_def Let_def)
    moreover have "index_of si' (route si key) = index_of si (route si key)" if "route si key \<noteq> a" for key
      using that sl(3) route_in(1) [OF d(1), of key] d(1) by (auto simp: dir_inv_def)
    ultimately have "maintained a si si'"
      using r h(6,7) sl(1,2) m(7) by (simp add: maintained_def rt fr(3) ShardSlot_new_def append_capacity_def)
    then show ?thesis by (rule that [OF e])
  qed
qed

lemma claimed_split:
  assumes "si_inv si" "a \<in> set (shards si)" "unique_prefixes (si_view si)" "claim_split a si = (claimed, si1)"
  obtains (split) si' where "claimed" "continue_split a si1 = Some si'" "maintained a si si'" | (refused) "\<not> claimed" "si1 = si"
  using assms(4) continue_split_correct [OF assms(1-3)] by (auto simp: claim_split_def split: if_splits)

lemma pop_correct:
  assumes inv: "si_inv si" and q: "si_queue si = a # q"
  obtains si1 where "pop_queue si = (Some a, si1)" "si_inv si1" "si_view si1 = si_view si" "si_queue si1 = q"
    "si_directory si1 = si_directory si" "\<forall>b. index_of si1 b = index_of si b" "a \<in> set (shards si1)" "a \<notin> set q"
proof -
  have a: "a \<in> set (shards si)" "a \<notin> set q" "filter (\<lambda>x. x \<noteq> a) q = q"
    using si_invD(4) [OF inv] by (auto simp: queue_inv_def q filter_id_conv)
  let ?si1 = "upd_slot a (\<lambda>s. s\<lparr>sl_maintenance_pending := False\<rparr>) (si\<lparr>si_queue := q\<rparr>)"
  have "si_directory ?si1 = si_directory si" "si_next_slot ?si1 = si_next_slot si" "si_queue ?si1 = filter (\<lambda>x. x \<noteq> a) (si_queue si)"
    "slot ?si1 = (slot si)(a := (slot si a)\<lparr>sl_maintenance_pending := False\<rparr>)"
    using a(3) by (simp_all add: q fun_eq_iff)
  note r = replace_slot_inv [OF inv a(1) _ _ _ _ this]
  show ?thesis
    by (rule that [of ?si1]) (use r si_slot [OF inv a(1)] a in \<open>simp_all add: pop_queue_def q\<close>)
qed

text \<open>One cycle of the maintenance workers.\<close>

lemma run_maintenance_correct:
  assumes inv: "si_inv si" and un: "unique_prefixes (si_view si)"
  obtains (idle) "si_queue si = []" "run_maintenance si = Some (False, si)"
    | (cycle) a q si' where "si_queue si = a # q" "run_maintenance si = Some (True, si')" "maintained a si si'"
proof (cases "si_queue si")
  case Nil
  then show ?thesis using idle by (simp add: run_maintenance_def pop_queue_def)
next
  case (Cons a q)
  obtain si1 where p: "pop_queue si = (Some a, si1)" "si_inv si1" "si_view si1 = si_view si" "si_queue si1 = q"
    "si_directory si1 = si_directory si" "\<forall>b. index_of si1 b = index_of si b" "a \<in> set (shards si1)" "a \<notin> set q"
    by (rule pop_correct [OF inv Cons])
  note sl = si_slot [OF p(2,7)]
  obtain t merged where m: "reorganize (\<lambda>m. m) (index_of si1 a) = (t, Some merged)" "shard_inv t" "append_size t = 0"
    "live_view t = live_view (index_of si1 a)" "t1_append_cap t = t1_append_cap (index_of si1 a)"
    by (rule shard_reorganize [OF sl(2)])
  define si3 where "si3 = upd_slot a (\<lambda>s. s\<lparr>sl_tombstones := 0\<rparr>) (upd_slot a (\<lambda>s. s\<lparr>sl_index := t\<rparr>) si1)"
  have fq: "filter (\<lambda>x. x \<noteq> a) (si_queue si) = q" using p(8) by (auto simp: Cons filter_id_conv)
  have rt: "routes_to (si_directory si1) a t" using si_routes [OF p(2,7)] routes_to_cong [OF m(4)] by simp
  have "a \<in> set (shards (upd_slot a (\<lambda>s. s\<lparr>sl_index := t\<rparr>) si1))" using p(7) by simp
  from si_inv_upd_tombstones(1) [OF si_inv_upd_index [OF p(2,7) m(2) rt] this, of "\<lambda>_. 0"]
  have i3: "si_inv si3" by (simp add: si3_def)
  have v3: "si_view si3 = si_view si" using m(4) by (auto simp: si3_def si_view_def fun_eq_iff p(3) [symmetric])
  have m3: "maintained a si si3"
    using i3 v3 fq m(3,5) p(4-6) unfolding maintained_def by (simp add: si3_def append_capacity_def)
  have a3: "a \<in> set (shards si3)" using p(7) by (simp add: si3_def)
  define big where "big = (split_threshold (si_target_shard_size si3) (si_split_percent si3) \<le> length merged)"
  have run: "run_maintenance si = (case (if big then claim_split a si3 else (False, si3)) of
      (claimed, si4) \<Rightarrow> if claimed then map_option (Pair True) (continue_split a si4) else Some (True, si4))"
    using sl(1) by (simp add: run_maintenance_def p(1) m(1) Let_def si3_def big_def)
  show ?thesis
  proof (cases big)
    case True
    obtain claimed si4 where c: "claim_split a si3 = (claimed, si4)" by (cases "claim_split a si3")
    have "unique_prefixes (si_view si3)" using un v3 by simp
    from i3 a3 this c show ?thesis
    proof (cases rule: claimed_split)
      case (split si')
      then show ?thesis using cycle [OF Cons _ maintained_trans [OF m3 split(3)]] run True c by simp
    next
      case refused
      then show ?thesis using cycle [OF Cons _ m3] run True c by simp
    qed
  qed (use run cycle [OF Cons _ m3] in simp)
qed

lemma maintain_correct:
  assumes "si_inv si" "unique_prefixes (si_view si)" "length (si_queue si) \<le> n"
  obtains si' where "maintain n si = Some si'" "si_inv si'" "si_view si' = si_view si" "si_queue si' = []"
    "append_capacity (index_of si' (route si' key)) = append_capacity (index_of si (route si key))"
    "append_size (index_of si' (route si' key)) = (if route si key \<in> set (si_queue si) then 0 else append_size (index_of si (route si key)))"
  using assms
proof (induction n arbitrary: si thesis)
  case (Suc n)
  from Suc.prems(2,3) show ?case
  proof (cases rule: run_maintenance_correct)
    case idle
    then show ?thesis using Suc.IH [of si] Suc.prems by auto
  next
    case (cycle a q si1)
    note d = maintainedD [OF cycle(3)]
    have l: "length (si_queue si1) \<le> n" using d(3) cycle(1) Suc.prems(4) by (simp add: le_trans [OF length_filter_le])
    have u: "unique_prefixes (si_view si1)" using Suc.prems(3) d(2) by simp
    show ?thesis
    proof (rule Suc.IH [OF _ d(1) u l])
      fix si'
      assume m: "maintain n si1 = Some si'" "si_inv si'" "si_view si' = si_view si1" "si_queue si' = []"
        "append_capacity (index_of si' (route si' key)) = append_capacity (index_of si1 (route si1 key))"
        "append_size (index_of si' (route si' key)) =
          (if route si1 key \<in> set (si_queue si1) then 0 else append_size (index_of si1 (route si1 key)))"
      have r: "maintain (Suc n) si = Some si'" using cycle(2) m(1) by simp
      show ?thesis
      proof (cases "route si key = a")
        case True
        then show ?thesis using Suc.prems(1) [OF r m(2) _ m(4)] m(3,5,6) d(2) d(6,7) [OF True] cycle(1) by simp
      next
        case False
        then show ?thesis using Suc.prems(1) [OF r m(2) _ m(4)] m(3,5,6) d(2,3) d(4,5) [OF False] cycle(1) by simp
      qed
    qed
  qed
qed auto

lemma put_when_room:
  assumes inv: "si_inv si" and room: "append_size (index_of si (route si (prefix_from_bytes key)))
      < append_capacity (index_of si (route si (prefix_from_bytes key)))"
  obtains si' where "si_put_waiting ws si key value inl n = Some (Applied, si')" "si_inv si'"
    "si_view si' = put_view (si_view si) key value (stored_hash key inl n)"
  by (rule si_put_turn_correct [OF inv, of key "value" inl n])
    (use that room in \<open>auto simp: si_put_waiting.simps [of ws]\<close>)

lemma put_after_maintenance:
  assumes inv: "si_inv si" and un: "unique_prefixes (si_view si)" and w: "length (si_queue si) < w"
    and cap: "0 < append_capacity (index_of si (route si (prefix_from_bytes key)))"
  obtains si' where "si_put_waiting [w] si key value inl n = Some (Applied, si')" "si_inv si'"
    "si_view si' = put_view (si_view si) key value (stored_hash key inl n)"
  using inv
proof (cases rule: si_put_turn_correct [of _ key "value" inl n])
  case (full si1)
  let ?k = "prefix_from_bytes key"
  have u: "unique_prefixes (si_view si1)" "length (si_queue si1) \<le> w" using un w full(3,5) by simp_all
  obtain si2 where m: "maintain w si1 = Some si2" "si_inv si2" "si_view si2 = si_view si1"
    "append_capacity (index_of si2 (route si2 ?k)) = append_capacity (index_of si1 (route si1 ?k))"
    "append_size (index_of si2 (route si2 ?k)) = (if route si1 ?k \<in> set (si_queue si1) then 0 else append_size (index_of si1 (route si1 ?k)))"
    by (rule maintain_correct [OF full(2) u, of ?k])
  have "append_size (index_of si2 (route si2 ?k)) < append_capacity (index_of si2 (route si2 ?k))"
    using m(4,5) full(4,6,7) cap by simp
  from put_when_room [OF m(2) this] obtain si' where p: "si_put_waiting [] si2 key value inl n = Some (Applied, si')" "si_inv si'"
    "si_view si' = put_view (si_view si2) key value (stored_hash key inl n)" by blast
  show ?thesis by (rule that [of si']) (use p m(1,3) full(1,3) in \<open>simp_all add: si_put_waiting.simps [of "[w]"]\<close>)
next
  case (applied si')
  then show ?thesis using that [of si'] by (simp add: si_put_waiting.simps)
qed

section \<open>Scanning across shards\<close>

lemma leaves_from_take:
  assumes inv: "si_inv si" and "i \<le> length (shards si)"
  shows "leaves_from si lo hi i (drop i (shards si)) = Some (take (Suc (upper_bound (bounds si) hi) - i) (drop i (shards si)))"
  using assms(2)
proof (induction "length (shards si) - i" arbitrary: i)
  case (Suc n)
  note d = si_invD(1) [OF inv]
  have len: "length (shards si) = Suc (length (bounds si))" and srt: "sorted_wrt (<) (bounds si)" using d by (simp_all add: dir_inv_def)
  have i: "i < length (shards si)" using Suc.hyps(2) by simp
  have dr: "drop i (shards si) = shards si ! i # drop (Suc i) (shards si)" using i by (rule Cons_nth_drop_Suc [symmetric])
  have stop: "i > 0 \<and> hi < bounds si ! (i - 1) \<longleftrightarrow> upper_bound (bounds si) hi < i"
  proof (cases "upper_bound (bounds si) hi < i")
    case True
    then show ?thesis using upper_bound_after [OF srt, of hi "i - 1"] i len by auto
  next
    case False
    then have "bounds si ! (i - 1) \<le> hi" if "i > 0" using upper_bound_before [of "i - 1" "bounds si" hi] that by simp
    then show ?thesis using False by (auto dest: leD)
  qed
  have c: "collect_into si lo hi (shards si ! i) = Some [shards si ! i]"
    using si_slot(1) [OF inv nth_mem [OF i]] by (subst collect_into.simps) simp
  have IH: "leaves_from si lo hi (Suc i) (drop (Suc i) (shards si))
      = Some (take (Suc (upper_bound (bounds si) hi) - Suc i) (drop (Suc i) (shards si)))"
    by (rule Suc.hyps(1)) (use Suc.hyps(2) i in auto)
  show ?case
  proof (cases "upper_bound (bounds si) hi < i")
    case True
    then show ?thesis unfolding dr leaves_from.simps if_P [OF stop [THEN iffD2, OF True]] by simp
  next
    case False
    then have "Suc (upper_bound (bounds si) hi) - i = Suc (Suc (upper_bound (bounds si) hi) - Suc i)" by simp
    then show ?thesis unfolding dr using False IH stop c by simp
  qed
qed simp

lemma si_scan_leaves:
  assumes inv: "si_inv si"
  shows "si_scan si lo hi = Some (concat (map (\<lambda>a. t1_scan (index_of si a) lo hi)
    (take (Suc (upper_bound (bounds si) (prefix_from_bytes hi)) - upper_bound (bounds si) (prefix_from_bytes lo))
      (drop (upper_bound (bounds si) (prefix_from_bytes lo)) (shards si)))))"
proof -
  let ?lo = "prefix_from_bytes lo" and ?hi = "prefix_from_bytes hi"
  note d = si_invD(1) [OF inv]
  have z: "upper_bound [] k = 0" for k by (simp add: upper_bound_def partition_point_def)
  have start: "(if bounds si = [] then 0 else upper_bound (bounds si) ?lo) = upper_bound (bounds si) ?lo" by (simp add: z)
  have "for_each_leaf_in_range si ?lo ?hi =
      Some (take (Suc (upper_bound (bounds si) ?hi) - upper_bound (bounds si) ?lo) (drop (upper_bound (bounds si) ?lo) (shards si)))"
    unfolding for_each_leaf_in_range_def Let_def start
    by (rule leaves_from_take [OF inv]) (use route_in(2) [OF d, of ?lo] in simp)
  moreover have "bounds si = []" if "length (shards si) = 1"
    using that d by (simp add: dir_inv_def)
  moreover have "sl_superseded (slot si (shards si ! 0)) = NotSuperseded"
    by (rule si_slot(1) [OF inv]) (use d in \<open>simp add: dir_inv_def\<close>)
  ultimately show ?thesis
  proof (cases "length (shards si) = 1")
    case True
    then obtain a where "shards si = [a]" "bounds si = []" using \<open>length (shards si) = 1 \<Longrightarrow> bounds si = []\<close> by (cases "shards si") auto
    then show ?thesis using \<open>sl_superseded _ = NotSuperseded\<close> by (simp add: si_scan_def Let_def z)
  qed (simp add: si_scan_def Let_def)
qed

lemma sorted_concat:
  fixes f :: "'a \<Rightarrow> ('k::order \<times> 'b) list"
  assumes "sorted_wrt (\<lambda>a b. \<forall>x \<in> set (f a). \<forall>y \<in> set (f b). fst x < fst y) as" "\<forall>a \<in> set as. sorted_wrt (<) (map fst (f a))"
  shows "sorted_wrt (<) (map fst (concat (map f as)))"
  using assms by (induction as) (auto simp: sorted_wrt_append)

lemma si_scan_exact:
  assumes inv: "si_inv si" and un: "\<forall>a \<in> set (shards si). prefix_unique (index_of si a)"
  obtains hits where "si_scan si lo hi = Some hits" "sorted_wrt (<) (map fst hits)"
    "\<And>k p h. (k, p, h) \<in> set hits \<longleftrightarrow> prefix_from_bytes lo \<le> k \<and> k \<le> prefix_from_bytes hi
        \<and> si_view si (k, clean_hash h) = Some \<lparr>lr_payload_bits = p, lr_raw_hash = h\<rparr>"
proof -
  let ?ub = "upper_bound (bounds si)" and ?lo = "prefix_from_bytes lo" and ?hi = "prefix_from_bytes hi"
  let ?ls = "take (Suc (?ub ?hi) - ?ub ?lo) (drop (?ub ?lo) (shards si))"
  let ?hits = "concat (map (\<lambda>a. t1_scan (index_of si a) lo hi) ?ls)"
  note d = si_invD(1) [OF inv]
  have srt: "sorted_wrt (<) (bounds si)" and dis: "distinct (shards si)" using d by (simp_all add: dir_inv_def)
  have ex: "scan_exact (index_of si a) ?lo ?hi (t1_scan (index_of si a) lo hi)" if "a \<in> set (shards si)" for a
    unfolding t1_scan_def by (rule t1_scan_exact) (use shard_invD [OF si_slot(2) [OF inv that]] un that in auto)
  have sub: "set ?ls \<subseteq> set (shards si)" by (auto dest: in_set_takeD in_set_dropD)
  have mono: "?ub k \<le> ?ub k'" if "k \<le> k'" for k k'
    by (rule upper_bound_mono [OF srt that])
  have leaf: "route si k \<in> set ?ls" if k: "?lo \<le> k" "k \<le> ?hi" for k
    using mono [OF k(1)] mono [OF k(2)] route_in(2) [OF d, of k]
    by (auto simp: route_nth in_set_conv_nth intro!: exI [of _ "?ub k - ?ub ?lo"])
  have mem: "(k, p, h) \<in> set (t1_scan (index_of si a) lo hi) \<longleftrightarrow> ?lo \<le> k \<and> k \<le> ?hi
      \<and> live_view (index_of si a) (k, clean_hash h) = Some \<lparr>lr_payload_bits = p, lr_raw_hash = h\<rparr>"
    if "a \<in> set (shards si)" for k p h a
    using ex [OF that] by (auto simp: scan_exact_def in_range_def)
  have own: "route si (fst x) = a" if "a \<in> set (shards si)" "x \<in> set (t1_scan (index_of si a) lo hi)" for x a
    using si_routes [OF inv that(1)] that(2) by (cases x) (force simp: mem [OF that(1)] routes_to_def)
  have "(k, p, h) \<in> set ?hits \<longleftrightarrow> ?lo \<le> k \<and> k \<le> ?hi
      \<and> si_view si (k, clean_hash h) = Some \<lparr>lr_payload_bits = p, lr_raw_hash = h\<rparr>" for k p h
  proof
    assume "(k, p, h) \<in> set ?hits"
    then obtain a where a: "a \<in> set ?ls" "(k, p, h) \<in> set (t1_scan (index_of si a) lo hi)" by auto
    have as: "a \<in> set (shards si)" using a(1) sub by blast
    show "?lo \<le> k \<and> k \<le> ?hi \<and> si_view si (k, clean_hash h) = Some \<lparr>lr_payload_bits = p, lr_raw_hash = h\<rparr>"
      using a(2) mem [OF as] own [OF as a(2)] by (simp add: si_view_def)
  next
    assume k: "?lo \<le> k \<and> k \<le> ?hi \<and> si_view si (k, clean_hash h) = Some \<lparr>lr_payload_bits = p, lr_raw_hash = h\<rparr>"
    then have l: "route si k \<in> set ?ls" using leaf by blast
    have "(k, p, h) \<in> set (t1_scan (index_of si (route si k)) lo hi)"
      using k mem [OF route_in(1) [OF d]] by (simp add: si_view_def)
    then show "(k, p, h) \<in> set ?hits" using l by auto
  qed
  moreover have "sorted_wrt (<) (map fst ?hits)"
  proof -
    have "sorted_wrt (\<lambda>a b. \<forall>x \<in> set (t1_scan (index_of si a) lo hi). \<forall>y \<in> set (t1_scan (index_of si b) lo hi). fst x < fst y) (shards si)"
      unfolding sorted_wrt_iff_nth_less
    proof (intro allI impI ballI)
      fix i j x y
      assume ij: "i < j" "j < length (shards si)" and xy: "x \<in> set (t1_scan (index_of si (shards si ! i)) lo hi)"
        "y \<in> set (t1_scan (index_of si (shards si ! j)) lo hi)"
      have il: "i < length (shards si)" using ij by simp
      have "route si (fst x) = shards si ! i" "route si (fst y) = shards si ! j"
        using own [OF nth_mem [OF il] xy(1)] own [OF nth_mem [OF ij(2)] xy(2)] by simp_all
      then have "?ub (fst x) = i" "?ub (fst y) = j" using route_iff [OF d il] route_iff [OF d ij(2)] by simp_all
      then show "fst x < fst y" using mono [of "fst y" "fst x"] ij(1) by (cases "fst y \<le> fst x") auto
    qed
    then have "sorted_wrt (\<lambda>a b. \<forall>x \<in> set (t1_scan (index_of si a) lo hi). \<forall>y \<in> set (t1_scan (index_of si b) lo hi). fst x < fst y) ?ls"
      by (intro sorted_wrt_take sorted_wrt_drop)
    moreover have "\<forall>a \<in> set ?ls. sorted_wrt (<) (map fst (t1_scan (index_of si a) lo hi))"
      using ex sub by (auto simp: scan_exact_def)
    ultimately show ?thesis by (rule sorted_concat)
  qed
  ultimately show ?thesis using that [OF si_scan_leaves [OF inv]] by blast
qed

section \<open>Checkpoint and load\<close>

text \<open>What is written for one shard.\<close>

definition snapshot_for :: "T1Index \<Rightarrow> EntrySnapshot list \<Rightarrow> bool" where
  "snapshot_for t es \<longleftrightarrow> shard_inv t \<and> sorted_wrt (<) (map es_ident es) \<and> keyed_map es_ident es_result es = live_view t"

lemma checkpoint_shard_correct:
  assumes inv: "si_inv si" and a: "a \<in> set (shards si)"
  obtains es si1 where "checkpoint_shard a si = Some (es, si1)" "snapshot_for (index_of si a) es" "si_inv si1"
    "si_directory si1 = si_directory si" "\<And>b. b \<noteq> a \<Longrightarrow> index_of si1 b = index_of si b" "si_view si1 = si_view si"
proof -
  have sv: "shard_inv (index_of si a)" by (rule si_slot(2) [OF inv a])
  show ?thesis
  proof (cases "append_size (index_of si a) = 0")
    case True
    then show ?thesis
      using that [of _ si] shard_dump [OF sv True] sv inv by (simp add: checkpoint_shard_def snapshot_for_def)
  next
    case False
    obtain t merged where m: "reorganize_until_captured a si = Some (merged, upd_slot a (\<lambda>s. s\<lparr>sl_index := t\<rparr>) si)"
      "shard_inv t" "live_view t = live_view (index_of si a)" "sorted_wrt (<) (map es_ident merged)"
      "keyed_map es_ident es_result merged = live_view (index_of si a)"
      by (rule reorganize_slot [OF sv])
    let ?si1 = "upd_slot a (\<lambda>s. s\<lparr>sl_index := t\<rparr>) si"
    have rt: "routes_to (si_directory si) a t" using si_routes [OF inv a] routes_to_cong [OF m(3)] by simp
    have "a \<in> set (shards ?si1)" using a by simp
    note i3 = si_inv_upd_tombstones [OF si_inv_upd_index [OF inv a m(2) rt] this, of "\<lambda>_. 0"]
    have "si_view ?si1 = si_view si" using m(3) by (auto simp: si_view_def fun_eq_iff)
    then show ?thesis
      using that [of merged "upd_slot a (\<lambda>s. s\<lparr>sl_tombstones := 0\<rparr>) ?si1"] i3 m(1,4,5) sv False
      by (simp add: checkpoint_shard_def snapshot_for_def)
  qed
qed

lemma checkpoint_shards_correct:
  assumes "si_inv si" "set as \<subseteq> set (shards si)" "distinct as"
  obtains ess si1 where "checkpoint_shards as si = Some (ess, si1)" "list_all2 snapshot_for (map (index_of si) as) ess" "si_inv si1"
    "si_directory si1 = si_directory si" "si_view si1 = si_view si"
  using assms
proof (induction as arbitrary: si thesis)
  case (Cons a as)
  have a: "a \<in> set (shards si)" using Cons.prems(3) by simp
  obtain es si1 where c: "checkpoint_shard a si = Some (es, si1)" "snapshot_for (index_of si a) es" "si_inv si1"
    "si_directory si1 = si_directory si" "\<forall>b. b \<noteq> a \<longrightarrow> index_of si1 b = index_of si b" "si_view si1 = si_view si"
    using checkpoint_shard_correct [OF Cons.prems(2) a] by metis
  have sub: "set as \<subseteq> set (shards si1)" "distinct as" using Cons.prems(3,4) c(4) by auto
  obtain ess si2 where r: "checkpoint_shards as si1 = Some (ess, si2)" "list_all2 snapshot_for (map (index_of si1) as) ess" "si_inv si2"
    "si_directory si2 = si_directory si1" "si_view si2 = si_view si1"
    by (rule Cons.IH [OF _ c(3) sub])
  have e: "map (index_of si1) as = map (index_of si) as" using c(5) Cons.prems(4) by auto
  show ?case using Cons.prems(1) [of "es # ess" si2] c r(1,3-5) r(2) [unfolded e] by simp
qed auto

lemma si_inv_paused [simp]: "si_inv (si\<lparr>si_splits_paused := p\<rparr>) = si_inv si" "si_view (si\<lparr>si_splits_paused := p\<rparr>) = si_view si"
  by (simp_all add: si_inv_def dir_inv_def slots_inv_def range_inv_def queue_inv_def si_view_def fun_eq_iff)

lemma checkpoint_all_correct:
  assumes inv: "si_inv si"
  obtains ess si1 where "checkpoint_all_shards si = Some ((ess, bounds si), si1)" "list_all2 snapshot_for (map (index_of si) (shards si)) ess"
    "si_inv si1" "si_directory si1 = si_directory si" "si_view si1 = si_view si"
proof -
  let ?p = "si\<lparr>si_splits_paused := True\<rparr>"
  obtain ess si1 where c: "checkpoint_shards (shards si) ?p = Some (ess, si1)" "list_all2 snapshot_for (map (index_of ?p) (shards si)) ess"
    "si_inv si1" "si_directory si1 = si_directory ?p" "si_view si1 = si_view ?p"
    by (rule checkpoint_shards_correct [of ?p "shards si"]) (use inv si_invD(1) [OF inv] in \<open>simp_all add: dir_inv_def\<close>)
  show ?thesis by (rule that [of ess "si1\<lparr>si_splits_paused := False\<rparr>"]) (use c in \<open>simp_all add: checkpoint_all_shards_def\<close>)
qed

definition loaded_shard :: "ShardedT1Index \<Rightarrow> EntrySnapshot list \<Rightarrow> T1Index" where
  "loaded_shard si es = load_sorted_region_from_checkpoint (T1Index_new (si_use_bloom si) (si_append_cap si)) es"

lemma load_shards_correct:
  "load_shards ess si = (as, si') \<Longrightarrow> as = [si_next_slot si ..< si_next_slot si + length ess]
    \<and> si_next_slot si' = si_next_slot si + length ess \<and> si_queue si' = si_queue si
    \<and> (\<forall>b < si_next_slot si. slot si' b = slot si b)
    \<and> (\<forall>j < length ess. slot si' (si_next_slot si + j) = ShardSlot_new (loaded_shard si (ess ! j)))"
proof (induction ess arbitrary: si as si')
  case (Cons es ess)
  define si1 where "si1 = snd (new_slot (loaded_shard si es) si)"
  have l: "load_shards ess si1 = (tl as, si')" "as = si_next_slot si # tl as"
    using Cons.prems by (auto simp: si1_def loaded_shard_def case_prod_unfold)
  have n: "si_next_slot si1 = Suc (si_next_slot si)" "si_queue si1 = si_queue si" "loaded_shard si1 = loaded_shard si"
    "slot si1 = (slot si)(si_next_slot si := ShardSlot_new (loaded_shard si es))"
    by (simp_all add: si1_def loaded_shard_def fun_eq_iff)
  note IH = Cons.IH [OF l(1), unfolded n]
  have "slot si' (si_next_slot si + j) = ShardSlot_new (loaded_shard si ((es # ess) ! j))" if "j < length (es # ess)" for j
    using IH that by (cases j) auto
  moreover have "as = [si_next_slot si ..< si_next_slot si + length (es # ess)]" using IH
    by (subst l(2), subst upt_conv_Cons) simp_all
  ultimately show ?case using IH by auto
qed simp

lemma load_from_checkpoint_correct:
  assumes inv: "si_inv si" and ess: "list_all2 snapshot_for (map (index_of si) (shards si)) ess"
    and fresh: "si_queue s0 = []"
  shows "si_inv (load_from_checkpoint (bounds si) ess s0)" "si_view (load_from_checkpoint (bounds si) ess s0) = si_view si"
proof -
  obtain as s1 where l: "load_shards ess s0 = (as, s1)" by (cases "load_shards ess s0")
  let ?s = "load_from_checkpoint (bounds si) ess s0" and ?n = "si_next_slot s0"
  note c = load_shards_correct [OF l]
  note d = si_invD(1) [OF inv]
  have len: "length ess = length (shards si)" using list_all2_lengthD [OF ess] by simp
  have s: "si_directory ?s = \<lparr>dir_boundaries = bounds si, dir_shards = as\<rparr>" "slot ?s = slot s1" "si_queue ?s = []"
    "si_next_slot ?s = ?n + length ess"
    using c fresh by (simp_all add: load_from_checkpoint_def l)
  have snap: "snapshot_for (index_of si (shards si ! j)) (ess ! j)" if "j < length ess" for j
    using ess that len by (auto simp: list_all2_conv_all_nth)
  have ld: "shard_inv (loaded_shard s0 (ess ! j))" "live_view (loaded_shard s0 (ess ! j)) = live_view (index_of si (shards si ! j))"
    if j: "j < length ess" for j
  proof -
    let ?t = "index_of si (shards si ! j)"
    have sn: "shard_inv ?t" "sorted_wrt (<) (map es_ident (ess ! j))" "keyed_map es_ident es_result (ess ! j) = live_view ?t"
      using snap [OF j] by (simp_all add: snapshot_for_def)
    have "\<forall>e \<in> set (ess ! j). length (es_key e) = kStoreKeyBytes" using merged_keys(2) [OF sn(3,1)] by blast
    note sl = shard_load [OF sn(2) this, of "si_use_bloom s0" "si_append_cap s0", folded loaded_shard_def]
    show "shard_inv (loaded_shard s0 (ess ! j))" by (rule sl(1))
    show "live_view (loaded_shard s0 (ess ! j)) = live_view ?t" using sl(2) by (simp add: sn(3) live_view_def)
  qed
  have asj: "as ! j = ?n + j" if "j < length ess" for j using c that by simp
  have sj: "slot ?s (as ! j) = ShardSlot_new (loaded_shard s0 (ess ! j))" if "j < length ess" for j using c that by (simp add: s asj)
  have ub: "upper_bound (bounds si) k < length ess" for k using route_in(2) [OF d, of k] len by simp
  have rt: "route ?s k = as ! upper_bound (bounds si) k" for k by (simp add: shard_for_def s)
  have iv: "live_view (index_of ?s (as ! j)) = live_view (index_of si (shards si ! j))" if "j < length ess" for j
    using sj [OF that] ld(2) [OF that] by (simp add: ShardSlot_new_def)
  show "si_view ?s = si_view si" by (simp add: fun_eq_iff si_view_def rt iv [OF ub]) (simp add: route_nth)
  have as_set: "a \<in> set as \<longleftrightarrow> (\<exists>j < length ess. a = as ! j)" for a using c by (metis in_set_conv_nth length_upt diff_add_inverse)
  have "dir_inv ?s" using d c len by (auto simp: dir_inv_def s)
  moreover have "slots_inv ?s" using sj ld(1) by (auto simp: slots_inv_def s(1) as_set ShardSlot_new_def)
  moreover have "range_inv ?s"
    unfolding range_inv_def s(1) routes_to_def
  proof (intro ballI)
    fix a x
    assume "a \<in> set (dir_shards \<lparr>dir_boundaries = bounds si, dir_shards = as\<rparr>)" and x: "x \<in> dom (live_view (index_of ?s a))"
    then obtain j where j: "j < length ess" "a = as ! j" by (auto simp: as_set)
    have jl: "j < length (shards si)" using j len by simp
    have "x \<in> dom (live_view (index_of si (shards si ! j)))" using x iv [OF j(1)] by (simp add: j(2))
    then have "route si (fst x) = shards si ! j" using si_routes [OF inv nth_mem [OF jl]] unfolding routes_to_def by blast
    then have "upper_bound (bounds si) (fst x) = j" using route_iff [OF d jl] by simp
    then show "shard_for \<lparr>dir_boundaries = bounds si, dir_shards = as\<rparr> (fst x) = a" using j by (simp add: shard_for_def)
  qed
  moreover have "queue_inv ?s" using sj by (auto simp: queue_inv_def s(1,3) as_set ShardSlot_new_def)
  ultimately show "si_inv ?s" by (simp add: si_inv_def)
qed

section \<open>Properties\<close>

lemma si_get_view:
  assumes "si_inv si"
  shows "si_get si key = Some (case si_view si (ident_of key) of Some r \<Rightarrow> lr_payload_bits r | None \<Rightarrow> STORE_NOT_FOUND)"
  using si.get_law [OF assms, of key] by (auto simp: si_get_def si_lookup_def si_get_route [OF assms] split: option.splits)

lemma si_new_inv: "si_inv (ShardedT1Index_new bl cap ts pc)" "si_view (ShardedT1Index_new bl cap ts pc) = Map.empty"
  by (auto simp: si_inv_def dir_inv_def slots_inv_def range_inv_def queue_inv_def si_view_def ShardedT1Index_new_def slot_def
      ShardSlot_new_def shard_new routes_to_def shard_for_def fun_eq_iff upper_bound_def partition_point_def)

text \<open>An index loaded from one section, and one with two keys.\<close>

definition entry_for :: "bytes \<Rightarrow> u64 \<Rightarrow> EntrySnapshot" where
  "entry_for key payload = \<lparr>es_key = prefix_from_bytes key, es_payload = payload, es_hash = hash_full_key key\<rparr>"

definition loaded_index :: "EntrySnapshot list \<Rightarrow> ShardedT1Index" where
  "loaded_index es = load_from_checkpoint [] [es] (ShardedT1Index_new False 4 8 150)"

lemma loaded_index_state:
  fixes es
  defines "t \<equiv> load_sorted_region_from_checkpoint (T1Index_new False 4) es"
  assumes t: "shard_inv t"
  shows "si_inv (loaded_index es)" "index_of (loaded_index es) (route (loaded_index es) k) = t" "\<not> si_splits_paused (loaded_index es)"
proof -
  have st: "si_directory (loaded_index es) = \<lparr>dir_boundaries = [], dir_shards = [Suc 0]\<rparr>" "si_next_slot (loaded_index es) = 2"
    "slot (loaded_index es) (Suc 0) = ShardSlot_new t" "\<not> si_splits_paused (loaded_index es)" "si_queue (loaded_index es) = []"
    by (simp_all add: loaded_index_def t_def load_from_checkpoint_def new_slot_def ShardedT1Index_new_def slot_def)
  have r: "route (loaded_index es) k = Suc 0" for k by (simp add: st shard_for_def upper_bound_def partition_point_def)
  show "\<not> si_splits_paused (loaded_index es)" "index_of (loaded_index es) (route (loaded_index es) k) = t"
    using st r by (simp_all add: ShardSlot_new_def)
  show "si_inv (loaded_index es)"
    using t st r by (simp add: si_inv_def dir_inv_def slots_inv_def range_inv_def queue_inv_def routes_to_def ShardSlot_new_def)
qed

definition two_keys :: ShardedT1Index where
  "two_keys = loaded_index [entry_for [1] 9, entry_for [2] 8]"

lemma two_keys_state:
  "si_inv two_keys" "unique_prefixes (si_view two_keys)" "si_get two_keys [1] = Some 9" "si_get two_keys [2] = Some 8"
  "\<forall>a \<in> set (shards two_keys). prefix_unique (index_of two_keys a)"
  "si_view two_keys (prefix_from_bytes [1], clean_hash (hash_full_key [1])) = Some \<lparr>lr_payload_bits = 9, lr_raw_hash = hash_full_key [1]\<rparr>"
proof -
  let ?es = "[entry_for [1] 9, entry_for [2] 8]" and ?t = "load_sorted_region_from_checkpoint (T1Index_new False 4) [entry_for [1] 9, entry_for [2] 8]"
  have lt: "prefix_from_bytes [1] < prefix_from_bytes [2]" "is_live 9" "is_live 8" by code_simp+
  have ln: "\<forall>e \<in> set ?es. length (es_key e) = kStoreKeyBytes" by (simp add: entry_for_def length_prefix)
  have srt: "sorted_wrt (<) (map es_ident ?es)" using lt(1) by (simp add: entry_for_def es_ident_def less_prod_def)
  note l = shard_load [OF srt ln, of False 4]
  note s = loaded_index_state [OF l(1), folded two_keys_def]
  show i: "si_inv two_keys" by (rule s(1))
  have v: "live_view ?t = [es_ident (entry_for [2] 8) \<mapsto> es_result (entry_for [2] 8), es_ident (entry_for [1] 9) \<mapsto> es_result (entry_for [1] 9)]"
    unfolding l(2) using lt by (subst live_only_id) (auto simp: entry_for_def es_result_def split: if_splits)
  have sv: "si_view two_keys x = live_view ?t x" for x by (simp add: si_view_def s(2))
  have id: "es_ident (entry_for k p) = ident_of k" "fst (ident_of k) = prefix_from_bytes k" for k p
    by (simp_all add: es_ident_def entry_for_def prepare_key_and_hash_def)
  have ne: "ident_of [1] \<noteq> ident_of [2]" using lt(1) id(2) by (metis less_irrefl)
  have "dom (si_view two_keys) = {ident_of [1], ident_of [2]}" by (auto simp: sv v id dom_def)
  then show "unique_prefixes (si_view two_keys)" using lt(1) id(2) unfolding unique_prefixes_def by auto
  show "si_get two_keys [1] = Some 9" "si_get two_keys [2] = Some 8"
    using ne by (simp_all add: si_get_view [OF i] sv v id) (simp_all add: entry_for_def es_result_def)
  have "clean_hash (hash_full_key [1]) = hash_full_key [1]" by simp
  then show "si_view two_keys (prefix_from_bytes [1], clean_hash (hash_full_key [1])) = Some \<lparr>lr_payload_bits = 9, lr_raw_hash = hash_full_key [1]\<rparr>"
    using ne by (simp add: sv v id prepare_key_and_hash_def) (simp add: entry_for_def es_result_def)
  have "t1_map ?t = keyed_map es_ident es_result ?es"
    by (rule load_sorted_region_correct(3) [OF t1_inv_new srt]) (simp_all add: T1Index_new_def t1_state_simps)
  then have "prefix_unique ?t" using lt(1) by (auto simp: prefix_unique_def id split: if_splits)
  moreover have "index_of two_keys a = ?t" if "a \<in> set (shards two_keys)" for a
    using that s(2) [of "[]"] by (simp add: two_keys_def loaded_index_def load_from_checkpoint_def new_slot_def ShardedT1Index_new_def slot_def
        shard_for_def upper_bound_def partition_point_def)
  ultimately show "\<forall>a \<in> set (shards two_keys). prefix_unique (index_of two_keys a)" by simp
qed

text \<open>
  C5: the maintenance workers and an explicitly requested split never block and never change what
  the index holds: as long as no two live entries share their 16-byte prefix, any number of cycles
  and a split of any shard leave every lookup and the invariant as they were.
\<close>

theorem maintenance_preserves_lookups:
  assumes "si_inv si" "unique_prefixes (si_view si)"
  shows "\<exists>b si1 si2. run_maintenance si = Some (b, si1) \<and> si_inv si1 \<and> (\<forall>key. si_get si1 key = si_get si key)
    \<and> split_shard_containing bound si = Some si2 \<and> si_inv si2 \<and> (\<forall>key. si_get si2 key = si_get si key)"
proof -
  have "\<exists>b si1. run_maintenance si = Some (b, si1) \<and> si_inv si1 \<and> si_view si1 = si_view si"
    using assms by (cases rule: run_maintenance_correct) (use assms(1) maintainedD(1,2) in blast)+
  moreover have "\<exists>si2. split_shard_containing bound si = Some si2 \<and> si_inv si2 \<and> si_view si2 = si_view si"
  proof -
    let ?a = "route si (prefix_from_bytes bound)"
    obtain claimed si1 where c: "claim_split ?a si = (claimed, si1)" by (cases "claim_split ?a si")
    from assms(1) route_in(1) [OF si_invD(1) [OF assms(1)]] assms(2) c show ?thesis
    proof (cases rule: claimed_split)
      case (split si')
      then show ?thesis using maintainedD(1,2) [OF split(3)] c by (auto simp: split_shard_containing_def si_resolve_route [OF assms(1)])
    next
      case refused
      then show ?thesis using c assms(1) by (auto simp: split_shard_containing_def si_resolve_route [OF assms(1)])
    qed
  qed
  ultimately show ?thesis using si_get_view [OF assms(1)] si_get_view by metis
qed

theorem maintenance_preserves_lookups_witness:
  "\<exists>b si1 si2. run_maintenance two_keys = Some (b, si1) \<and> si_get si1 [1] = Some 9
     \<and> split_shard_containing [0] two_keys = Some si2 \<and> si_get si2 [1] = Some 9 \<and> si_get si2 [2] = Some 8"
proof -
  obtain b si1 si2 where r: "run_maintenance two_keys = Some (b, si1)" "split_shard_containing [0] two_keys = Some si2"
    "\<forall>key. si_get si1 key = si_get two_keys key" "\<forall>key. si_get si2 key = si_get two_keys key"
    using maintenance_preserves_lookups [OF two_keys_state(1,2), of "[0]"] by blast
  have g: "si_get si1 [1] = Some 9" "si_get si2 [1] = Some 9" "si_get si2 [2] = Some 8" using r(3,4) two_keys_state(3,4) by simp_all
  show ?thesis by (intro exI conjI) (rule r g)+
qed

text \<open>
  A write that finds its shard's append region full gets through: it has queued the shard, and
  once the workers have completed one cycle per queued shard during the writer's pause (merging the
  shard, perhaps splitting it), the retry applies the write.
\<close>

lemma blocked_put_gets_through:
  assumes "si_inv si" "unique_prefixes (si_view si)" "length (si_queue si) < w"
    "0 < append_capacity (index_of si (route si (prefix_from_bytes key)))"
  shows "\<exists>si'. si_put_waiting [w] si key value inl n = Some (Applied, si') \<and> si_inv si'
    \<and> si_view si' = put_view (si_view si) key value (stored_hash key inl n)"
  using put_after_maintenance [OF assms] by metis

lemma blocked_put_gets_through_witness:
  "\<exists>si'. si_put_waiting [1] (ShardedT1Index_new False 4 8 150) [7] 9 False 0 = Some (Applied, si') \<and> si_inv si'"
proof -
  let ?si = "ShardedT1Index_new False 4 8 150"
  have "0 < append_capacity (index_of ?si (route ?si (prefix_from_bytes [7])))" by code_simp
  moreover have "unique_prefixes (si_view ?si)" by (simp add: si_new_inv(2) unique_prefixes_def)
  moreover have "length (si_queue ?si) < 1" by (simp add: ShardedT1Index_new_def)
  ultimately show ?thesis using blocked_put_gets_through [OF si_new_inv(1)] by blast
qed



text \<open>
  C17: what a checkpoint writes loads back: the per-shard entry lists and the boundaries that
  \<^verbatim>\<open>checkpoint_all_shards\<close> hands out, loaded into a fresh index of any configuration, give an
  index that answers every lookup as the original did, and taking the checkpoint itself changed
  no answer.
\<close>

theorem sharded_checkpoint_roundtrip:
  assumes "si_inv si"
  shows "\<exists>written boundaries si1. checkpoint_all_shards si = Some ((written, boundaries), si1)
    \<and> si_inv si1 \<and> (\<forall>key. si_get si1 key = si_get si key)
    \<and> (let si2 = load_from_checkpoint boundaries written (ShardedT1Index_new bl cap ts pc)
       in si_inv si2 \<and> (\<forall>key. si_get si2 key = si_get si key))"
proof -
  obtain ess si1 where c: "checkpoint_all_shards si = Some ((ess, bounds si), si1)" "list_all2 snapshot_for (map (index_of si) (shards si)) ess"
    "si_inv si1" "si_view si1 = si_view si"
    by (rule checkpoint_all_correct [OF assms])
  note l = load_from_checkpoint_correct [OF assms c(2), of "ShardedT1Index_new bl cap ts pc"]
  have q: "si_queue (ShardedT1Index_new bl cap ts pc) = []" by (simp add: ShardedT1Index_new_def)
  show ?thesis
    using c(1,3) l [OF q] by (simp add: Let_def si_get_view [OF assms] si_get_view [OF c(3)] si_get_view [OF l(1) [OF q]] c(4))
qed

theorem sharded_checkpoint_roundtrip_witness:
  "\<exists>written boundaries si1. checkpoint_all_shards two_keys = Some ((written, boundaries), si1) \<and> si_get si1 [2] = Some 8
     \<and> si_get (load_from_checkpoint boundaries written (ShardedT1Index_new True 4 8 150)) [1] = Some 9"
  using sharded_checkpoint_roundtrip [OF two_keys_state(1), of True 4 8 150] two_keys_state(3,4) unfolding Let_def by metis

lemma split_boundary_routes_high:
  assumes d: "dir_inv si" and i: "i < length (shards si)" and b: "upper_bound (bounds si) b = i"
    and dir': "dir' = publish_directory_after_split (shards si ! i) low high b (si_directory si)"
  shows "shard_for dir' b = high" "length (dir_shards dir') \<noteq> 1"
proof -
  have p: "partition_point (\<lambda>a. a \<noteq> shards si ! i) (shards si) = i" by (rule position_of) (use i d in \<open>simp_all add: dir_inv_def\<close>)
  have s: "sorted_wrt (<) (bounds si)" and len: "length (shards si) = Suc (length (bounds si))" using d by (simp_all add: dir_inv_def)
  have lo: "\<forall>c \<in> set (take i (bounds si)). c \<le> b"
    using upper_bound_before [of _ "bounds si" b] b by (auto simp: in_set_conv_nth)
  have hi: "takeWhile (\<lambda>c. c \<le> b) (drop i (bounds si)) = []"
  proof (cases "i < length (bounds si)")
    case True
    then have "drop i (bounds si) = bounds si ! i # drop (Suc i) (bounds si)" by (simp add: Cons_nth_drop_Suc)
    then show ?thesis using upper_bound_after [OF s, of b i] True b by (simp add: not_le)
  qed simp
  have "upper_bound (take i (bounds si) @ [b] @ drop i (bounds si)) b = Suc i"
    using lo hi i len by (simp add: upper_bound_def partition_point_def takeWhile_append2)
  moreover have "(take i (shards si) @ [low, high] @ drop (Suc i) (shards si)) ! Suc i = high"
    by (subst nth_replace_two [OF i]) (use i in simp_all)
  ultimately show "shard_for dir' b = high" by (simp add: dir' shard_for_def publish_directory_after_split_def p Let_def)
  show "length (dir_shards dir') \<noteq> 1" using i by (simp add: dir' publish_directory_after_split_def p Let_def)
qed

text \<open>
  C35: two keys that share their first sixteen bytes can straddle the middle of a shard. In any
  well-formed index whose splits are not paused, let the merged entries of a shard have equal
  prefixes on both sides of the cut. Splitting the shard takes this prefix as the boundary, files the
  entry before the cut in the low shard and routes its prefix to the high one: a lookup of the key
  that found its payload before the split finds nothing afterwards.
\<close>

theorem split_loses_prefix_collision:
  fixes si bound
  defines "a \<equiv> route si (prefix_from_bytes bound)"
  assumes "si_inv si" "\<not> si_splits_paused si" "reorganize (\<lambda>m. m) (index_of si a) = (t, Some merged)"
    and "2 \<le> length merged" "mid = length merged div 2" "es_key (merged ! (mid - 1)) = es_key (merged ! mid)"
    and "ident_of key = es_ident (merged ! (mid - 1))"
  shows "\<exists>si'. split_shard_containing bound si = Some si' \<and> si_get si key = Some (es_payload (merged ! (mid - 1)))
    \<and> is_live (es_payload (merged ! (mid - 1))) \<and> si_get si' key = Some STORE_NOT_FOUND"
proof -
  let ?e = "merged ! (mid - 1)" and ?l = "si_next_slot si" and ?b = "es_key (merged ! mid)"
  note d = si_invD [OF assms(2)]
  have a: "a \<in> set (shards si)" unfolding a_def by (rule route_in(1) [OF d(1)])
  have sinv: "shard_inv (index_of si a)" by (rule si_slot(2) [OF assms(2) a])
  obtain t' merged' where "reorganize (\<lambda>m. m) (index_of si a) = (t', Some merged')" "sorted_wrt (<) (map es_ident merged')"
    "keyed_map es_ident es_result merged' = live_view (index_of si a)"
    by (rule reorganize_slot [OF sinv])
  then have srt: "sorted_wrt (<) (map es_ident merged)" and km: "keyed_map es_ident es_result merged = live_view (index_of si a)"
    using assms(4) by simp_all
  have mid: "mid - 1 < mid" "mid < length merged" "?e \<in> set merged" using assms(5,6) by auto
  have lv: "live_view (index_of si a) (ident_of key) = Some (es_result ?e)"
    unfolding km [symmetric] keyed_map_Some [OF strict_map_distinct [OF srt]] using mid(3) assms(8) by auto
  have ra: "route si (fst (ident_of key)) = a" using si_routes [OF assms(2) a] lv unfolding routes_to_def by blast
  have "si_view si (ident_of key) = Some (es_result ?e)" using lv ra by (simp add: si_view_def)
  then have g: "si_get si key = Some (es_payload ?e)" "is_live (es_payload ?e)"
    using lv by (simp_all add: si_get_view [OF assms(2)] es_result_def live_view_def live_only_Some)
  obtain i where i: "i < length (shards si)" "a = shards si ! i" using a by (auto simp: in_set_conv_nth)
  have kb: "prefix_from_bytes key = ?b" using assms(7,8) by (simp add: prepare_key_and_hash_def es_ident_def)
  have ub: "upper_bound (bounds si) ?b = i" using ra route_iff [OF d(1) i(1)] kb by (simp add: i(2) prepare_key_and_hash_def)
  have al: "a \<noteq> ?l" "a \<noteq> Suc ?l" using d(1) a by (auto simp: dir_inv_def)
  have len: "\<not> length merged < 2" using assms(5) by simp
  obtain si' where s: "continue_split a (upd_slot a (\<lambda>s. s\<lparr>sl_superseded := ClosingSentinel\<rparr>) si) = Some si'"
    "si_directory si' = publish_directory_after_split a ?l (Suc ?l) ?b (si_directory si)"
    "slot si' (Suc ?l) = ShardSlot_new (load_sorted_region_from_checkpoint (T1Index_new (si_use_bloom si) (append_capacity t)) (drop mid merged))"
    by (rule continue_split_result [OF assms(4) len al, folded assms(6)]) blast
  note rh = split_boundary_routes_high [OF d(1) i(1) ub s(2) [unfolded i(2)]]
  have st: "sorted_wrt (<) (map es_ident (drop mid merged))" using srt by (simp add: drop_map [symmetric] sorted_wrt_drop)
  have ln: "\<forall>e \<in> set (drop mid merged). length (es_key e) = kStoreKeyBytes" using merged_keys(2) [OF km sinv] by (auto dest: in_set_dropD)
  note hi = shard_load [OF st ln, of "si_use_bloom si" "append_capacity t"]
  have "ident_of key \<notin> es_ident ` set (drop mid merged)"
  proof
    assume "ident_of key \<in> es_ident ` set (drop mid merged)"
    then obtain j where j: "j < length merged - mid" "es_ident ?e = es_ident (merged ! (mid + j))"
      using assms(8) mid(2) by (auto simp: in_set_conv_nth)
    have "es_ident ?e < es_ident (merged ! (mid + j))"
      using srt mid(1) j(1) by (simp add: sorted_wrt_iff_nth_less)
    then show False using j(2) by simp
  qed
  then have "live_view (load_sorted_region_from_checkpoint (T1Index_new (si_use_bloom si) (append_capacity t)) (drop mid merged)) (ident_of key) = None"
    unfolding hi(2) live_only_def by (simp add: keyed_map_None [THEN iffD2])
  then have "lr_payload_bits (get_with_hash (load_sorted_region_from_checkpoint (T1Index_new (si_use_bloom si) (append_capacity t)) (drop mid merged)) key) = STORE_NOT_FOUND"
    using shard_get [OF hi(1), of key] by simp
  then have g': "si_get si' key = Some STORE_NOT_FOUND"
    using rh s(3) by (simp add: si_get_def si_get_with_hash_def si_resolve_def Let_def kb resolve_from.simps ShardSlot_new_def)
  have "split_shard_containing bound si = Some si'"
    using s(1) assms(3) si_slot(1) [OF assms(2) a]
    by (simp add: split_shard_containing_def si_resolve_route [OF assms(2)] a_def [symmetric] claim_split_def)
  then show ?thesis using g g' by blast
qed

text \<open>Two keys of seventeen bytes that differ in the last.\<close>

definition twin :: "byte \<Rightarrow> bytes" where
  "twin b = replicate 16 1 @ [b]"

definition twin_entry :: "byte \<Rightarrow> EntrySnapshot" where
  "twin_entry b = entry_for (twin b) (ucast b)"

lemma two_elements:
  fixes f :: "'a \<Rightarrow> 'b::linorder"
  assumes "sorted_wrt (<) (map f xs)" "f ` set xs = {f a, f b}" "f a < f b"
  shows "map f xs = [f a, f b]"
proof -
  have "map f xs = sorted_list_of_set (f ` set xs)" by (rule strict_sorted_equal) (use assms(1) in simp_all)
  also have "\<dots> = [f a, f b]" unfolding assms(2) using assms(3) less_imp_le [OF assms(3)] by simp
  finally show ?thesis .
qed

lemma twins_split:
  assumes lt: "es_ident (twin_entry p) < es_ident (twin_entry q)" and live: "is_live (ucast p)" "is_live (ucast q)"
  defines "si \<equiv> loaded_index [twin_entry p, twin_entry q]"
  obtains t merged where "si_inv si" "\<not> si_splits_paused si"
    "reorganize (\<lambda>m. m) (index_of si (route si (prefix_from_bytes [0]))) = (t, Some merged)" "length merged = 2"
    "es_key (merged ! 0) = es_key (merged ! 1)" "es_ident (merged ! 0) = ident_of (twin p)" "es_payload (merged ! 0) = ucast p"
proof -
  let ?es = "[twin_entry p, twin_entry q]"
  have ln: "\<forall>e \<in> set ?es. length (es_key e) = kStoreKeyBytes" by (simp add: twin_entry_def entry_for_def length_prefix)
  have srt: "sorted_wrt (<) (map es_ident ?es)" using lt by simp
  note l = shard_load [OF srt ln, of False 4]
  note s = loaded_index_state [OF l(1), folded si_def]
  obtain t merged where m: "reorganize (\<lambda>m. m) (index_of si (route si (prefix_from_bytes [0]))) = (t, Some merged)"
    "sorted_wrt (<) (map es_ident merged)" "keyed_map es_ident es_result merged = live_view (index_of si (route si (prefix_from_bytes [0])))"
    by (rule reorganize_slot [of si "route si (prefix_from_bytes [0])"]) (use s(2) l(1) in simp)
  have v: "live_view (index_of si (route si (prefix_from_bytes [0]))) = keyed_map es_ident es_result ?es"
    unfolding s(2) l(2) using live by (intro live_only_id) (auto simp: twin_entry_def entry_for_def es_result_def split: if_splits)
  have "es_ident ` set merged = es_ident ` set ?es" using m(3) v keyed_dom by metis
  then have im: "map es_ident merged = map es_ident ?es" using two_elements [OF m(2) _ lt] by simp
  have "length (map es_ident merged) = 2" unfolding im by simp
  then have "length merged = 2" by simp
  then obtain e1 e2 where e: "merged = [e1, e2]" by (auto simp: numeral_2_eq_2 length_Suc_conv)
  have i: "es_ident e1 = es_ident (twin_entry p)" "es_ident e2 = es_ident (twin_entry q)" using im e by simp_all
  have "keyed_map es_ident es_result merged (es_ident e1) = Some (es_result e1)" by (simp add: e)
  moreover have "keyed_map es_ident es_result ?es (es_ident e1) = Some (es_result (twin_entry p))" unfolding i(1) by simp
  ultimately have "es_result e1 = es_result (twin_entry p)" using m(3) v by simp
  then have pl: "es_payload e1 = ucast p" by (simp add: es_result_def twin_entry_def entry_for_def)
  have k: "es_key e1 = es_key e2" using i by (simp add: es_ident_def twin_entry_def entry_for_def twin_def prefix_from_bytes_def kStoreKeyBytes_def)
  have "es_ident e1 = ident_of (twin p)" using i(1) by (simp add: es_ident_def twin_entry_def entry_for_def prepare_key_and_hash_def)
  then show ?thesis using that [OF s(1,3) m(1)] e pl k by simp
qed

theorem split_loses_prefix_collision_witness:
  "\<exists>p q si si'. {p, q} = {1 :: byte, 2} \<and> si = loaded_index [twin_entry p, twin_entry q] \<and> split_shard_containing [0] si = Some si'
     \<and> si_get si (twin p) = Some (ucast p) \<and> si_get si' (twin p) = Some STORE_NOT_FOUND"
proof -
  have h: "es_ident (twin_entry 1) \<noteq> es_ident (twin_entry 2)" by code_simp
  obtain p q :: byte where pq: "{p, q} = {1, 2}" "es_ident (twin_entry p) < es_ident (twin_entry q)"
  proof (cases "es_ident (twin_entry 1) < es_ident (twin_entry 2)")
    case True
    then show ?thesis by (rule that [OF refl])
  next
    case False
    then have "es_ident (twin_entry 2) < es_ident (twin_entry 1)" using h by simp
    then show ?thesis by (rule that [rotated]) auto
  qed
  have "is_live (ucast (1 :: byte))" "is_live (ucast (2 :: byte))" by code_simp+
  then have lv: "is_live (ucast p)" "is_live (ucast q)" using pq(1) by (auto simp: doubleton_eq_iff)
  let ?si = "loaded_index [twin_entry p, twin_entry q]"
  obtain t merged where s: "si_inv ?si" "\<not> si_splits_paused ?si"
    "reorganize (\<lambda>m. m) (index_of ?si (route ?si (prefix_from_bytes [0]))) = (t, Some merged)" "length merged = 2"
    "es_key (merged ! 0) = es_key (merged ! 1)" "es_ident (merged ! 0) = ident_of (twin p)" "es_payload (merged ! 0) = ucast p"
    by (rule twins_split [OF pq(2) lv])
  have "\<exists>si'. split_shard_containing [0] ?si = Some si' \<and> si_get ?si (twin p) = Some (es_payload (merged ! (1 - 1)))
    \<and> is_live (es_payload (merged ! (1 - 1))) \<and> si_get si' (twin p) = Some STORE_NOT_FOUND"
    by (rule split_loses_prefix_collision [OF s(1-3)]) (use s(4-6) in simp_all)
  then show ?thesis using pq(1) s(7) by auto
qed

end
