(* ===== verification/Wal_Format.thy ===== *)
theory Wal_Format
  imports Bytes_Util "HOL-Library.Multiset"
begin

text \<open>
  \<^verbatim>\<open>wal/wal.hpp\<close> and the file-format half of \<^verbatim>\<open>wal/wal.cpp\<close>: record layout and checksum,
  the validating scan of a segment, replay, segment names and discovery, and what the constructor
  restores from the segments on disk. Shown here: a log torn at any byte is cut back to exactly the
  records that are complete, replay of the result delivers exactly those records in order, and a
  torn segment that is not the active one is refused.
\<close>

section \<open>Record layout\<close>

datatype WalRecordType = WalInsert | WalUpdate | WalDelete

definition type_byte :: "WalRecordType \<Rightarrow> byte" where
  "type_byte ty = (case ty of WalInsert \<Rightarrow> 1 | WalUpdate \<Rightarrow> 2 | WalDelete \<Rightarrow> 3)"

definition kWalRecordMagic :: u32 where
  "kWalRecordMagic = 0x574C4B31"

definition kWalFormatVersion :: byte where
  "kWalFormatVersion = 1"

definition kWalRecordHeaderBytes :: nat where
  "kWalRecordHeaderBytes = 32"

record WalRecordHeader =
  wh_lsn :: u64
  wh_checksum :: u64
  wh_magic :: u32
  wh_key_len :: u32
  wh_value_len :: u32
  wh_type :: byte
  wh_format_version :: byte
  wh_reserved :: bytes

definition header_bytes :: "WalRecordHeader \<Rightarrow> bytes" where
  "header_bytes h = u64_le (wh_lsn h) @ u64_le (wh_checksum h) @ u32_le (wh_magic h) @ u32_le (wh_key_len h)
     @ u32_le (wh_value_len h) @ [wh_type h, wh_format_version h] @ wh_reserved h"

definition header_of_bytes :: "bytes \<Rightarrow> WalRecordHeader" where
  "header_of_bytes b =
     \<lparr>wh_lsn = u64_of_le (mem_read b 0 8), wh_checksum = u64_of_le (mem_read b 8 8),
      wh_magic = u32_of_le (mem_read b 16 4), wh_key_len = u32_of_le (mem_read b 20 4),
      wh_value_len = u32_of_le (mem_read b 24 4), wh_type = b ! 28, wh_format_version = b ! 29,
      wh_reserved = mem_read b 30 2\<rparr>"

definition compute_checksum :: "WalRecordHeader \<Rightarrow> bytes \<Rightarrow> bytes \<Rightarrow> u64" where
  "compute_checksum header key value =
     checksum_header_plus_spans (header_bytes (header\<lparr>wh_checksum := 0\<rparr>)) [key, value]"

record WalRecord =
  wr_type :: WalRecordType
  wr_lsn :: u64
  wr_key :: bytes
  wr_value :: bytes

text \<open>The buffer \<^verbatim>\<open>reserve_record\<close> builds for one record.\<close>

definition record_header :: "WalRecord \<Rightarrow> WalRecordHeader" where
  "record_header r =
     (let header = \<lparr>wh_lsn = wr_lsn r, wh_checksum = 0, wh_magic = kWalRecordMagic,
            wh_key_len = word_of_nat (length (wr_key r)), wh_value_len = word_of_nat (length (wr_value r)),
            wh_type = type_byte (wr_type r), wh_format_version = kWalFormatVersion, wh_reserved = [0, 0]\<rparr>
      in header\<lparr>wh_checksum := compute_checksum header (wr_key r) (wr_value r)\<rparr>)"

definition record_bytes :: "WalRecord \<Rightarrow> bytes" where
  "record_bytes r = header_bytes (record_header r) @ wr_key r @ wr_value r"

section \<open>Reading a segment\<close>

datatype WalError = CorruptRetired | WalIoError | WalPoisoned | RingMismatch | SegmentOpenFailed

definition pread_exact :: "bytes \<Rightarrow> nat \<Rightarrow> nat \<Rightarrow> WalError + bytes" where
  "pread_exact file offset n =
     (if offset + n \<le> length file then Inr (mem_read file offset n) else Inl WalIoError)"

definition read_header_at :: "bytes \<Rightarrow> nat \<Rightarrow> WalError + WalRecordHeader" where
  "read_header_at file offset =
     (case pread_exact file offset kWalRecordHeaderBytes of Inl e \<Rightarrow> Inl e | Inr b \<Rightarrow> Inr (header_of_bytes b))"

definition read_payload_at :: "bytes \<Rightarrow> nat \<Rightarrow> nat \<Rightarrow> WalError + bytes" where
  "read_payload_at file offset payload_len = pread_exact file offset payload_len"

definition payload_len :: "WalRecordHeader \<Rightarrow> nat" where
  "payload_len h = unat (wh_key_len h) + unat (wh_value_len h)"

text \<open>
  The validating loop: the offset behind the last valid record and its number. Its read cannot fail,
  since it reads inside the file size it has just checked.
\<close>

function scan_loop :: "bytes \<Rightarrow> nat \<Rightarrow> u64 \<Rightarrow> nat \<times> u64" where
  "scan_loop file offset last_valid_lsn =
     (if length file - offset \<ge> kWalRecordHeaderBytes
      then let header = header_of_bytes (mem_read file offset kWalRecordHeaderBytes)
           in if wh_magic header \<noteq> kWalRecordMagic \<or> wh_format_version header \<noteq> kWalFormatVersion
              then (offset, last_valid_lsn)
              else if length file - offset - kWalRecordHeaderBytes < payload_len header
              then (offset, last_valid_lsn)
              else let payload = mem_read file (offset + kWalRecordHeaderBytes) (payload_len header);
                       key = take (unat (wh_key_len header)) payload;
                       value = take (unat (wh_value_len header)) (drop (unat (wh_key_len header)) payload)
                   in if compute_checksum header key value \<noteq> wh_checksum header
                      then (offset, last_valid_lsn)
                      else scan_loop file (offset + kWalRecordHeaderBytes + payload_len header) (wh_lsn header)
      else (offset, last_valid_lsn))"
  by pat_completeness auto
termination
  by (relation "measure (\<lambda>(file, offset, l). length file - offset)") (auto simp: kWalRecordHeaderBytes_def)

declare scan_loop.simps [simp del]

text \<open>The last valid number, and the file after the truncation.\<close>

definition scan_and_validate :: "bytes \<Rightarrow> bool \<Rightarrow> WalError + u64 \<times> bytes" where
  "scan_and_validate file allow_truncate =
     (case scan_loop file 0 0 of
        (offset, last_valid_lsn) \<Rightarrow>
          if offset < length file
          then if \<not> allow_truncate then Inl CorruptRetired
               else Inr (last_valid_lsn, take offset file)
          else Inr (last_valid_lsn, file))"

record ReplayCall =
  rc_type :: byte
  rc_key :: bytes
  rc_value :: bytes
  rc_lsn :: u64

function replay_segment :: "bytes \<Rightarrow> nat \<Rightarrow> WalError + ReplayCall list" where
  "replay_segment file offset =
     (if length file - offset \<ge> kWalRecordHeaderBytes
      then let header = header_of_bytes (mem_read file offset kWalRecordHeaderBytes)
           in case read_payload_at file (offset + kWalRecordHeaderBytes) (payload_len header) of
                Inl e \<Rightarrow> Inl e
              | Inr payload \<Rightarrow>
                  (case replay_segment file (offset + kWalRecordHeaderBytes + payload_len header) of
                     Inl e \<Rightarrow> Inl e
                   | Inr calls \<Rightarrow>
                       Inr (\<lparr>rc_type = wh_type header, rc_key = take (unat (wh_key_len header)) payload,
                             rc_value = take (unat (wh_value_len header)) (drop (unat (wh_key_len header)) payload),
                             rc_lsn = wh_lsn header\<rparr> # calls))
      else Inr [])"
  by pat_completeness auto
termination
  by (relation "measure (\<lambda>(file, offset). length file - offset)") (auto simp: kWalRecordHeaderBytes_def)

declare replay_segment.simps [simp del]

section \<open>Segment names\<close>

definition digit_char :: "nat \<Rightarrow> char" where
  "digit_char d = char_of (48 + d)"

fun to_string :: "nat \<Rightarrow> string" where
  "to_string n = (if n < 10 then [digit_char n] else to_string (n div 10) @ [digit_char (n mod 10)])"

declare to_string.simps [simp del]

definition is_digit :: "char \<Rightarrow> bool" where
  "is_digit c \<longleftrightarrow> 48 \<le> (of_char c :: nat) \<and> (of_char c :: nat) \<le> 57"

definition digit_val :: "char \<Rightarrow> nat" where
  "digit_val c = of_char c - 48"

text \<open>\<^verbatim>\<open>std::from_chars\<close> on the whole suffix: digits only, in the range of the type.\<close>

definition from_chars_u64 :: "string \<Rightarrow> nat option" where
  "from_chars_u64 s =
     (if s \<noteq> [] \<and> list_all is_digit s
      then let v = foldl (\<lambda>acc c. acc * 10 + digit_val c) 0 s in if v < 2 ^ 64 then Some v else None
      else None)"

definition derive_wal_path :: "string \<Rightarrow> string" where
  "derive_wal_path t2_path = t2_path @ ''.wal''"

definition derive_wal_segment_path :: "string \<Rightarrow> nat \<Rightarrow> string" where
  "derive_wal_segment_path wal_path generation = wal_path @ ''.'' @ to_string generation"

definition segment_generation :: "string \<Rightarrow> string \<Rightarrow> nat option" where
  "segment_generation prefix name =
     (if length name \<le> length prefix \<or> take (length prefix) name \<noteq> prefix then None
      else from_chars_u64 (drop (length prefix) name))"

definition discover_segments :: "string \<Rightarrow> string list \<Rightarrow> nat list" where
  "discover_segments wal_name dir_entries =
     sort (List.map_filter (segment_generation (wal_name @ ''.'')) dir_entries)"

section \<open>Opening the log\<close>

text \<open>
  The directory is a list of generations with their contents, ascending. The constructor scans all
  of them, truncates the newest, and continues numbering behind the last record found.
\<close>

type_synonym segments = "(nat \<times> bytes) list"

record WalOpen =
  wo_segments :: segments
  wo_active :: nat
  wo_next_lsn :: u64

fun open_segments :: "nat \<Rightarrow> segments \<Rightarrow> u64 \<Rightarrow> WalError + u64 \<times> segments" where
  "open_segments active [] last_valid_lsn = Inr (last_valid_lsn, [])"
| "open_segments active ((g, file) # segs) last_valid_lsn =
     (case scan_and_validate file (g = active) of
        Inl e \<Rightarrow> Inl e
      | Inr (found, file') \<Rightarrow>
          (case open_segments active segs (if found > 0 then found else last_valid_lsn) of
             Inl e \<Rightarrow> Inl e
           | Inr (l, segs') \<Rightarrow> Inr (l, (g, file') # segs')))"

definition Wal_open :: "segments \<Rightarrow> WalError + WalOpen" where
  "Wal_open segs =
     (if segs = [] then Inr \<lparr>wo_segments = [(1, [])], wo_active = 1, wo_next_lsn = 1\<rparr>
      else let active = fst (last segs)
           in case open_segments active segs 0 of
                Inl e \<Rightarrow> Inl e
              | Inr (l, segs') \<Rightarrow> Inr \<lparr>wo_segments = segs', wo_active = active, wo_next_lsn = l + 1\<rparr>)"

fun replay_segments :: "segments \<Rightarrow> WalError + ReplayCall list" where
  "replay_segments [] = Inr []"
| "replay_segments ((g, file) # segs) =
     (case replay_segment file 0 of
        Inl e \<Rightarrow> Inl e
      | Inr calls \<Rightarrow> (case replay_segments segs of Inl e \<Rightarrow> Inl e | Inr rest \<Rightarrow> Inr (calls @ rest)))"

text \<open>
  \<^verbatim>\<open>rotate_segment\<close> on the directory: a fresh empty segment becomes active (creation fails when
  the file exists), and the segment two generations back is removed.
\<close>

definition rotate_segment :: "bool \<Rightarrow> WalOpen \<Rightarrow> WalError + WalOpen" where
  "rotate_segment poisoned w =
     (if poisoned then Inl WalPoisoned
      else let new_generation = wo_active w + 1
           in if new_generation \<in> fst ` set (wo_segments w) then Inl SegmentOpenFailed
              else let segs = wo_segments w @ [(new_generation, [])];
                       kept = (if new_generation \<ge> 2
                               then filter (\<lambda>(g, _). g \<noteq> new_generation - 2) segs else segs)
                   in Inr (w\<lparr>wo_segments := kept, wo_active := new_generation\<rparr>))"

section \<open>Header round trip\<close>

definition header_wf :: "WalRecordHeader \<Rightarrow> bool" where
  "header_wf h \<longleftrightarrow> length (wh_reserved h) = 2"

lemma length_header_bytes [simp]: "header_wf h \<Longrightarrow> length (header_bytes h) = kWalRecordHeaderBytes"
  by (simp add: header_bytes_def header_wf_def kWalRecordHeaderBytes_def)

lemma header_roundtrip [simp]:
  assumes "header_wf h"
  shows "header_of_bytes (header_bytes h) = h"
proof -
  obtain a b where r: "wh_reserved h = [a, b]"
    using assms by (auto simp: header_wf_def length_Suc_conv numeral_2_eq_2)
  have f: "mem_read (header_bytes h) 0 8 = u64_le (wh_lsn h)" "mem_read (header_bytes h) 8 8 = u64_le (wh_checksum h)"
      "mem_read (header_bytes h) 16 4 = u32_le (wh_magic h)" "mem_read (header_bytes h) 20 4 = u32_le (wh_key_len h)"
      "mem_read (header_bytes h) 24 4 = u32_le (wh_value_len h)" "mem_read (header_bytes h) 30 2 = wh_reserved h"
      "header_bytes h ! 28 = wh_type h" "header_bytes h ! 29 = wh_format_version h"
    by (simp_all add: header_bytes_def mem_read_def r nth_append)
  show ?thesis by (rule WalRecordHeader.equality) (simp_all add: header_of_bytes_def f)
qed

lemma record_header_wf [simp]: "header_wf (record_header r)"
  by (simp add: record_header_def Let_def header_wf_def)

definition record_wf :: "WalRecord \<Rightarrow> bool" where
  "record_wf r \<longleftrightarrow> length (wr_key r) < 2 ^ 32 \<and> length (wr_value r) < 2 ^ 32"

lemma record_header_simps:
  "wh_magic (record_header r) = kWalRecordMagic" "wh_format_version (record_header r) = kWalFormatVersion"
  "wh_lsn (record_header r) = wr_lsn r" "wh_type (record_header r) = type_byte (wr_type r)"
  by (simp_all add: record_header_def Let_def)

lemma record_header_lens:
  assumes "record_wf r"
  shows "unat (wh_key_len (record_header r)) = length (wr_key r)"
    "unat (wh_value_len (record_header r)) = length (wr_value r)"
    "payload_len (record_header r) = length (wr_key r) + length (wr_value r)"
  using assms by (simp_all add: record_header_def Let_def record_wf_def payload_len_def unat_of_nat)

lemma record_checksum: "compute_checksum (record_header r) (wr_key r) (wr_value r) = wh_checksum (record_header r)"
  by (simp add: record_header_def Let_def compute_checksum_def)

lemma length_record_bytes:
  "length (record_bytes r) = kWalRecordHeaderBytes + length (wr_key r) + length (wr_value r)"
  by (simp add: record_bytes_def)

section \<open>A torn log is cut back to its complete records\<close>

definition log_bytes :: "WalRecord list \<Rightarrow> bytes" where
  "log_bytes rs = concat (map record_bytes rs)"

lemma log_bytes_simps [simp]: "log_bytes [] = []" "log_bytes (r # rs) = record_bytes r @ log_bytes rs"
  "log_bytes (rs @ rs') = log_bytes rs @ log_bytes rs'"
  by (simp_all add: log_bytes_def)

text \<open>Number of leading records of \<open>rs\<close> that fit completely in \<open>n\<close> bytes.\<close>

fun complete_records :: "nat \<Rightarrow> WalRecord list \<Rightarrow> nat" where
  "complete_records n [] = 0"
| "complete_records n (r # rs) =
     (if length (record_bytes r) \<le> n then Suc (complete_records (n - length (record_bytes r)) rs) else 0)"

definition last_lsn :: "u64 \<Rightarrow> WalRecord list \<Rightarrow> u64" where
  "last_lsn l rs = (if rs = [] then l else wr_lsn (last rs))"

lemma last_lsn_simps [simp]: "last_lsn l [] = l" "last_lsn l (r # rs) = last_lsn (wr_lsn r) rs"
  by (auto simp: last_lsn_def)

lemma complete_records_le: "complete_records n rs \<le> length rs"
  by (induction n rs rule: complete_records.induct) auto

lemma complete_records_fit: "length (log_bytes (take (complete_records n rs) rs)) \<le> n"
  by (induction n rs rule: complete_records.induct) auto

lemma complete_records_maximal:
  "k \<le> length rs \<Longrightarrow> length (log_bytes (take k rs)) \<le> n \<Longrightarrow> k \<le> complete_records n rs"
proof (induction n rs arbitrary: k rule: complete_records.induct)
  case (2 n r rs)
  then show ?case by (cases k) auto
qed auto

lemma take_log_bytes:
  "k \<le> complete_records n rs \<Longrightarrow> take (length (log_bytes (take k rs))) (take n (log_bytes rs)) = log_bytes (take k rs)"
proof (induction n rs arbitrary: k rule: complete_records.induct)
  case (2 n r rs)
  show ?case
  proof (cases k)
    case (Suc j)
    with 2 have "length (record_bytes r) \<le> n" "j \<le> complete_records (n - length (record_bytes r)) rs"
      by (auto split: if_splits)
    then show ?thesis using 2(1) [of j] Suc by simp
  qed simp
qed auto

text \<open>Reading one record that is complete at an offset of a file.\<close>

lemma mem_read_at: "file = pre @ mid @ rest \<Longrightarrow> length mid = n \<Longrightarrow> mem_read file (length pre) n = mid"
  by (simp add: mem_read_def)

lemma read_record:
  assumes "file = pre @ record_bytes r @ rest" "record_wf r"
  defines "h \<equiv> header_of_bytes (mem_read file (length pre) kWalRecordHeaderBytes)"
  shows "h = record_header r"
    "mem_read file (length pre + kWalRecordHeaderBytes) (payload_len h) = wr_key r @ wr_value r"
    "payload_len h \<le> length file - length pre - kWalRecordHeaderBytes"
    "kWalRecordHeaderBytes \<le> length file - length pre"
    "length pre + kWalRecordHeaderBytes + payload_len h = length (pre @ record_bytes r)"
proof -
  let ?hb = "header_bytes (record_header r)"
  have f1: "file = pre @ ?hb @ (wr_key r @ wr_value r @ rest)"
    and f2: "file = (pre @ ?hb) @ (wr_key r @ wr_value r) @ rest"
    using assms(1) by (simp_all add: record_bytes_def)
  show h: "h = record_header r" unfolding h_def by (simp add: mem_read_at [OF f1])
  show "mem_read file (length pre + kWalRecordHeaderBytes) (payload_len h) = wr_key r @ wr_value r"
    using mem_read_at [OF f2, of "payload_len h"] by (simp add: h record_header_lens [OF assms(2)])
  show "payload_len h \<le> length file - length pre - kWalRecordHeaderBytes"
    by (simp add: h record_header_lens [OF assms(2)] f2)
  show "kWalRecordHeaderBytes \<le> length file - length pre" by (simp add: f2)
  show "length pre + kWalRecordHeaderBytes + payload_len h = length (pre @ record_bytes r)"
    by (simp add: h record_header_lens [OF assms(2)] length_record_bytes)
qed

lemma scan_loop_record:
  assumes "file = pre @ record_bytes r @ rest" "record_wf r"
  shows "scan_loop file (length pre) l = scan_loop file (length (pre @ record_bytes r)) (wr_lsn r)"
proof -
  note rr = read_record [OF assms]
  show ?thesis
    by (subst scan_loop.simps)
      (simp add: rr(1,4) rr(2,5) [unfolded rr(1)] rr(3) [unfolded rr(1), THEN leD] record_header_simps
        record_header_lens(1,2) [OF assms(2)] record_checksum Let_def del: length_append diff_diff_left)
qed

text \<open>A strict prefix of a record stops the loop, wherever the cut is.\<close>

lemma scan_loop_torn:
  assumes fl: "file = pre @ take m (record_bytes r)" and m: "m < length (record_bytes r)" and wf: "record_wf r"
  shows "scan_loop file (length pre) l = (length pre, l)"
proof (cases "m < kWalRecordHeaderBytes")
  case True
  then show ?thesis using m by (subst scan_loop.simps) (simp add: fl)
next
  case False
  let ?hb = "header_bytes (record_header r)"
  have f: "file = pre @ ?hb @ take (m - kWalRecordHeaderBytes) (wr_key r @ wr_value r)"
    using False by (simp add: fl record_bytes_def)
  have h: "header_of_bytes (mem_read file (length pre) kWalRecordHeaderBytes) = record_header r"
    by (simp add: mem_read_at [OF f])
  have "length file - length pre - kWalRecordHeaderBytes < payload_len (record_header r)"
    using m False by (simp add: fl record_header_lens [OF wf] length_record_bytes)
  then show ?thesis by (subst scan_loop.simps) (simp add: h Let_def)
qed

lemma scan_loop_log:
  assumes "\<forall>r\<in>set rs. record_wf r" "n \<le> length (log_bytes rs)"
  shows "scan_loop (pre @ take n (log_bytes rs)) (length pre) l =
    (length pre + length (log_bytes (take (complete_records n rs) rs)), last_lsn l (take (complete_records n rs) rs))"
  using assms
proof (induction rs arbitrary: n pre l)
  case Nil
  then show ?case by (subst scan_loop.simps) (simp add: kWalRecordHeaderBytes_def)
next
  case (Cons r rs)
  show ?case
  proof (cases "length (record_bytes r) \<le> n")
    case True
    let ?n = "n - length (record_bytes r)"
    have f: "pre @ take n (log_bytes (r # rs)) = pre @ record_bytes r @ take ?n (log_bytes rs)" using True by simp
    have "scan_loop (pre @ take n (log_bytes (r # rs))) (length pre) l
        = scan_loop ((pre @ record_bytes r) @ take ?n (log_bytes rs)) (length (pre @ record_bytes r)) (wr_lsn r)"
      unfolding f append_assoc [symmetric] using scan_loop_record [OF append_assoc] Cons.prems(1) by simp
    also have "\<dots> = (length (pre @ record_bytes r) + length (log_bytes (take (complete_records ?n rs) rs)),
        last_lsn (wr_lsn r) (take (complete_records ?n rs) rs))"
      using Cons.prems True by (intro Cons.IH) auto
    finally show ?thesis using True by simp
  next
    case False
    then have f: "pre @ take n (log_bytes (r # rs)) = pre @ take n (record_bytes r)" by simp
    show ?thesis using scan_loop_torn [OF f] False Cons.prems(1) by simp
  qed
qed

lemma scan_and_validate_log:
  assumes wf: "\<forall>r\<in>set rs. record_wf r" and n: "n \<le> length (log_bytes rs)"
  defines "k \<equiv> complete_records n rs"
  shows "scan_and_validate (take n (log_bytes rs)) allow_truncate =
    (if length (log_bytes (take k rs)) < n \<and> \<not> allow_truncate then Inl CorruptRetired
     else Inr (last_lsn 0 (take k rs), log_bytes (take k rs)))"
proof -
  have s: "scan_loop (take n (log_bytes rs)) 0 0 = (length (log_bytes (take k rs)), last_lsn 0 (take k rs))"
    using scan_loop_log [OF wf n, of "[]" 0] by (simp add: k_def)
  have t: "take (length (log_bytes (take k rs))) (take n (log_bytes rs)) = log_bytes (take k rs)"
    unfolding k_def by (rule take_log_bytes) simp
  have le: "length (log_bytes (take k rs)) \<le> n" unfolding k_def by (rule complete_records_fit)
  have l: "length (take n (log_bytes rs)) = n" using n by simp
  have full: "take n (log_bytes rs) = log_bytes (take k rs)" if "\<not> length (log_bytes (take k rs)) < n"
  proof -
    have "length (log_bytes (take k rs)) = n" using that le by simp
    then show ?thesis using t l by simp
  qed
  show ?thesis unfolding scan_and_validate_def s prod.case l
    using full by (simp only: t if_bool_eq_conj) simp
qed

section \<open>Replay delivers exactly the records\<close>

definition replay_call :: "WalRecord \<Rightarrow> ReplayCall" where
  "replay_call r = \<lparr>rc_type = type_byte (wr_type r), rc_key = wr_key r, rc_value = wr_value r, rc_lsn = wr_lsn r\<rparr>"

lemma replay_segment_log:
  assumes "\<forall>r\<in>set rs. record_wf r"
  shows "replay_segment (pre @ log_bytes rs) (length pre) = Inr (map replay_call rs)"
  using assms
proof (induction rs arbitrary: pre)
  case Nil
  then show ?case by (subst replay_segment.simps) (simp add: kWalRecordHeaderBytes_def)
next
  case (Cons r rs)
  let ?f = "pre @ log_bytes (r # rs)"
  have f: "?f = pre @ record_bytes r @ log_bytes rs" by simp
  have wf: "record_wf r" using Cons.prems by simp
  note rr = read_record [OF f wf]
  have pay: "read_payload_at ?f (length pre + kWalRecordHeaderBytes) (payload_len (record_header r))
      = Inr (wr_key r @ wr_value r)"
    using rr(2-4) by (simp add: read_payload_at_def pread_exact_def rr(1) del: log_bytes_simps)
  have rest: "replay_segment ?f (length (pre @ record_bytes r)) = Inr (map replay_call rs)"
    using Cons.IH [of "pre @ record_bytes r"] Cons.prems by simp
  show ?case
    by (subst replay_segment.simps)
      (simp add: rr(1,4) rr(5) [unfolded rr(1)] pay rest record_header_simps record_header_lens(1,2) [OF wf]
        replay_call_def Let_def del: log_bytes_simps length_append)
qed

section \<open>Opening and replaying a directory of segments\<close>

definition segment_of :: "nat \<times> WalRecord list \<Rightarrow> nat \<times> bytes" where
  "segment_of gr = (fst gr, log_bytes (snd gr))"

definition records_ok :: "WalRecord list \<Rightarrow> bool" where
  "records_ok rs \<longleftrightarrow> (\<forall>r\<in>set rs. record_wf r \<and> 0 < wr_lsn r)"

lemma records_okD: "records_ok rs \<Longrightarrow> \<forall>r\<in>set rs. record_wf r"
  by (simp add: records_ok_def)

lemma records_ok_take: "records_ok rs \<Longrightarrow> records_ok (take k rs)"
  by (auto simp: records_ok_def dest: in_set_takeD)

lemma complete_records_all: "complete_records (length (log_bytes rs)) rs = length rs"
  using complete_records_maximal [of "length rs" rs "length (log_bytes rs)"] complete_records_le [of _ rs]
  by (simp add: le_antisym)

lemma scan_complete_segment:
  assumes "records_ok rs"
  shows "scan_and_validate (log_bytes rs) allow_truncate = Inr (last_lsn 0 rs, log_bytes rs)"
  using scan_and_validate_log [OF records_okD [OF assms], of "length (log_bytes rs)" allow_truncate]
  by (simp add: complete_records_all)

lemma last_lsn_found:
  assumes "records_ok rs"
  shows "(if 0 < last_lsn 0 rs then last_lsn 0 rs else l) = last_lsn l rs"
  using assms by (auto simp: last_lsn_def records_ok_def)

lemma last_lsn_append: "last_lsn l (rs @ rs') = last_lsn (last_lsn l rs) rs'"
  by (auto simp: last_lsn_def)

lemma open_segments_retired:
  assumes "\<forall>gr\<in>set old. fst gr \<noteq> active \<and> records_ok (snd gr)"
  shows "open_segments active (map segment_of old @ rest) l =
    (case open_segments active rest (last_lsn l (concat (map snd old))) of
       Inl e \<Rightarrow> Inl e | Inr (l', segs) \<Rightarrow> Inr (l', map segment_of old @ segs))"
  using assms
proof (induction old arbitrary: l)
  case Nil
  then show ?case by (auto split: sum.splits)
next
  case (Cons gr old)
  obtain g rs where gr: "gr = (g, rs)" by (cases gr)
  have s: "scan_and_validate (log_bytes rs) (g = active) = Inr (last_lsn 0 rs, log_bytes rs)"
    using Cons.prems by (intro scan_complete_segment) (simp add: gr)
  have o: "open_segments active (map segment_of (gr # old) @ rest) l =
    (case open_segments active (map segment_of old @ rest) (last_lsn l rs) of
       Inl e \<Rightarrow> Inl e | Inr (l', segs) \<Rightarrow> Inr (l', segment_of gr # segs))"
    using last_lsn_found [of rs l] Cons.prems
    by (simp only: gr segment_of_def list.map append_Cons fst_conv snd_conv open_segments.simps s sum.case prod.case)
      simp
  show ?case unfolding o using Cons.IH [of "last_lsn l rs"] Cons.prems
    by (simp add: gr last_lsn_append split: sum.splits prod.splits)
qed

lemma replay_segments_complete:
  "\<forall>gr\<in>set grs. records_ok (snd gr) \<Longrightarrow>
   replay_segments (map segment_of grs) = Inr (map replay_call (concat (map snd grs)))"
  by (induction grs)
    (auto simp: segment_of_def replay_segment_log [where pre = "[]", simplified, OF records_okD])

lemma Wal_open_torn:
  assumes old: "\<forall>gr\<in>set old. fst gr \<noteq> active \<and> records_ok (snd gr)" and ok: "records_ok rs"
    and n: "n \<le> length (log_bytes rs)"
  defines "kept \<equiv> take (complete_records n rs) rs"
  shows "Wal_open (map segment_of old @ [(active, take n (log_bytes rs))]) =
    Inr \<lparr>wo_segments = map segment_of (old @ [(active, kept)]), wo_active = active,
         wo_next_lsn = last_lsn 0 (concat (map snd old) @ kept) + 1\<rparr>"
proof -
  have s: "scan_and_validate (take n (log_bytes rs)) True = Inr (last_lsn 0 kept, log_bytes kept)"
    unfolding kept_def using scan_and_validate_log [OF records_okD [OF ok] n, of True] by simp
  have k: "records_ok kept" unfolding kept_def by (rule records_ok_take [OF ok])
  show ?thesis
    by (simp add: Wal_open_def open_segments_retired [OF old] s last_lsn_found [OF k] last_lsn_append segment_of_def)
qed

text \<open>
  C6: Recovery of a torn log. Retired segments hold complete records and the newest segment is cut
  at an arbitrary byte \<open>n\<close> by a crash. The constructor succeeds, keeps exactly the records of the
  newest segment that lie completely before the cut, continues numbering after the last one, and
  replay then delivers exactly the retired records and the surviving ones, in order.
\<close>

theorem wal_recovery:
  assumes "\<forall>gr\<in>set old. fst gr \<noteq> active \<and> records_ok (snd gr)" and "records_ok rs"
    and "n \<le> length (log_bytes rs)"
  shows "\<exists>w k. Wal_open (map segment_of old @ [(active, take n (log_bytes rs))]) = Inr w
    \<and> k \<le> length rs \<and> length (log_bytes (take k rs)) \<le> n
    \<and> (\<forall>j. j \<le> length rs \<and> length (log_bytes (take j rs)) \<le> n \<longrightarrow> j \<le> k)
    \<and> wo_next_lsn w = last_lsn 0 (concat (map snd old) @ take k rs) + 1
    \<and> replay_segments (wo_segments w) = Inr (map replay_call (concat (map snd old) @ take k rs))"
proof (intro exI conjI)
  let ?k = "complete_records n rs"
  show "Wal_open (map segment_of old @ [(active, take n (log_bytes rs))]) =
    Inr \<lparr>wo_segments = map segment_of (old @ [(active, take ?k rs)]), wo_active = active,
         wo_next_lsn = last_lsn 0 (concat (map snd old) @ take ?k rs) + 1\<rparr>"
    by (rule Wal_open_torn [OF assms])
  have "\<forall>gr\<in>set (old @ [(active, take ?k rs)]). records_ok (snd gr)"
    using assms(1) records_ok_take [OF assms(2)] by auto
  from replay_segments_complete [OF this]
  show "replay_segments (wo_segments \<lparr>wo_segments = map segment_of (old @ [(active, take ?k rs)]),
      wo_active = active, wo_next_lsn = last_lsn 0 (concat (map snd old) @ take ?k rs) + 1\<rparr>)
      = Inr (map replay_call (concat (map snd old) @ take ?k rs))" by simp
qed (use complete_records_le complete_records_fit complete_records_maximal in auto)

definition sample_record :: "u64 \<Rightarrow> WalRecord" where
  "sample_record l = \<lparr>wr_type = WalInsert, wr_lsn = l, wr_key = [107], wr_value = [118]\<rparr>"

lemma sample_records_ok: "0 < l \<Longrightarrow> records_ok [sample_record l]" "records_ok [sample_record 2, sample_record 3]"
  by (simp_all add: records_ok_def record_wf_def sample_record_def)

lemma length_sample: "length (record_bytes (sample_record l)) = 34"
  by (simp add: length_record_bytes sample_record_def kWalRecordHeaderBytes_def)

theorem wal_recovery_witness:
  "\<exists>w. Wal_open (map segment_of [(1, [sample_record 1])] @ [(2, take 40 (log_bytes [sample_record 2, sample_record 3]))])
       = Inr w
     \<and> wo_next_lsn w = 3
     \<and> replay_segments (wo_segments w) = Inr (map replay_call [sample_record 1, sample_record 2])"
proof -
  have a: "\<forall>gr\<in>set [(1::nat, [sample_record 1])]. fst gr \<noteq> 2 \<and> records_ok (snd gr)"
    using sample_records_ok(1) [of 1] by simp
  obtain w k where w:
    "Wal_open (map segment_of [(1, [sample_record 1])] @ [(2, take 40 (log_bytes [sample_record 2, sample_record 3]))]) = Inr w"
    "k \<le> 2" "length (log_bytes (take k [sample_record 2, sample_record 3])) \<le> 40"
    "\<forall>j. j \<le> 2 \<and> length (log_bytes (take j [sample_record 2, sample_record 3])) \<le> 40 \<longrightarrow> j \<le> k"
    "wo_next_lsn w = last_lsn 0 ([sample_record 1] @ take k [sample_record 2, sample_record 3]) + 1"
    "replay_segments (wo_segments w) = Inr (map replay_call ([sample_record 1] @ take k [sample_record 2, sample_record 3]))"
    using wal_recovery [OF a sample_records_ok(2), of 40] by (fastforce simp: length_sample numeral_2_eq_2)
  have "1 \<le> k" using w(4) by (auto simp: length_sample)
  moreover have "k \<noteq> 2" using w(3) by (auto simp: length_sample)
  ultimately have "k = 1" using w(2) by simp
  then show ?thesis using w by (auto simp: sample_record_def)
qed

text \<open>
  A retired segment that was cut inside a record is refused: the constructor reports corruption
  instead of silently dropping records that earlier acknowledged writes depend on.
\<close>

lemma wal_torn_retired_refused:
  assumes "\<forall>gr\<in>set old. fst gr \<noteq> active \<and> records_ok (snd gr)" and "records_ok rs" and "g \<noteq> active"
    and "n \<le> length (log_bytes rs)" and "\<forall>k\<le>length rs. length (log_bytes (take k rs)) \<noteq> n"
    and "segs \<noteq> []" and "fst (last segs) = active"
  shows "Wal_open (map segment_of old @ (g, take n (log_bytes rs)) # segs) = Inl CorruptRetired"
proof -
  let ?k = "complete_records n rs"
  have "length (log_bytes (take ?k rs)) < n"
    using assms(5) complete_records_le [of n rs] complete_records_fit [of n rs] by (meson le_neq_implies_less)
  then have s: "scan_and_validate (take n (log_bytes rs)) False = Inl CorruptRetired"
    using scan_and_validate_log [OF records_okD [OF assms(2)] assms(4), of False] by simp
  show ?thesis using assms(3,6,7)
    by (simp add: Wal_open_def Let_def open_segments_retired [OF assms(1)] s)
qed

lemma wal_torn_retired_refused_witness:
  "Wal_open (map segment_of [(1, [sample_record 1])] @ (2, take 40 (log_bytes [sample_record 2, sample_record 3])) # [(3, [])])
     = Inl CorruptRetired"
proof (rule wal_torn_retired_refused [where active = 3])
  show "\<forall>gr\<in>set [(1::nat, [sample_record 1])]. fst gr \<noteq> 3 \<and> records_ok (snd gr)"
    using sample_records_ok(1) [of 1] by simp
  show "\<forall>k\<le>length [sample_record 2, sample_record 3]. length (log_bytes (take k [sample_record 2, sample_record 3])) \<noteq> 40"
    by (auto simp: take_Cons length_sample split: nat.splits)
qed (use sample_records_ok in \<open>auto simp: length_sample\<close>)

section \<open>Segment names round trip\<close>

lemma of_char_digit: "d < 10 \<Longrightarrow> (of_char (digit_char d) :: nat) = 48 + d"
  by (simp add: digit_char_def)

lemma to_string_digits: "to_string n \<noteq> [] \<and> list_all is_digit (to_string n)"
proof (induction n rule: to_string.induct)
  case (1 n)
  have "is_digit (digit_char (n mod 10))" by (simp add: is_digit_def of_char_digit)
  then show ?case using 1 by (subst (1 2) to_string.simps) auto
qed

lemma foldl_to_string: "foldl (\<lambda>acc c. acc * 10 + digit_val c) 0 (to_string n) = n"
proof (induction n rule: to_string.induct)
  case (1 n)
  then show ?case by (subst to_string.simps) (auto simp: digit_val_def of_char_digit)
qed

lemma from_chars_to_string: "n < 2 ^ 64 \<Longrightarrow> from_chars_u64 (to_string n) = Some n"
  using to_string_digits [of n] by (simp add: from_chars_u64_def foldl_to_string)

lemma segment_generation_derived:
  "n < 2 ^ 64 \<Longrightarrow> segment_generation (wal_name @ ''.'') (derive_wal_segment_path wal_name n) = Some n"
  using to_string_digits [of n]
  by (simp add: segment_generation_def derive_wal_segment_path_def from_chars_to_string)

lemma map_filter_generations:
  assumes "\<forall>n\<in>set gens. n < 2 ^ 64"
  shows "List.map_filter (segment_generation (wal_name @ ''.'')) (map (derive_wal_segment_path wal_name) gens) = gens"
  using assms by (induction gens) (auto simp: map_filter_simps segment_generation_derived)

text \<open>
  Segment discovery inverts segment naming: whatever order the directory lists them in, and
  whatever other files lie between them, discovery returns the generations of exactly the segment
  files, ascending.
\<close>

lemma discover_segments_correct:
  assumes "\<forall>n\<in>set gens. n < 2 ^ 64" and "\<forall>x\<in>set others. segment_generation (wal_name @ ''.'') x = None"
    and "mset dir = mset (map (derive_wal_segment_path wal_name) gens @ others)"
  shows "discover_segments wal_name dir = sort gens"
proof -
  let ?f = "segment_generation (wal_name @ ''.'')"
  have mf: "mset (List.map_filter ?f xs) = image_mset (\<lambda>x. the (?f x)) (filter_mset (\<lambda>x. ?f x \<noteq> None) (mset xs))" for xs
    by (simp add: List.map_filter_def comp_def)
  have "List.map_filter ?f others = []" using assms(2) by (induction others) (auto simp: map_filter_simps)
  then have "List.map_filter ?f (map (derive_wal_segment_path wal_name) gens @ others) = gens"
    using map_filter_generations [OF assms(1), of wal_name] by (simp add: List.map_filter_def)
  then have "mset (List.map_filter ?f dir) = mset gens"
    using mf [of dir] mf [of "map (derive_wal_segment_path wal_name) gens @ others"] assms(3) by simp
  then show ?thesis unfolding discover_segments_def by (intro properties_for_sort) auto
qed

lemma discover_segments_correct_witness:
  "discover_segments ''s.wal'' [''s.wal.10'', ''s.t1'', ''s.wal.9''] = [9, 10]"
proof -
  have n: "derive_wal_segment_path ''s.wal'' 9 = ''s.wal.9''" "derive_wal_segment_path ''s.wal'' 10 = ''s.wal.10''"
    by code_simp+
  have "discover_segments ''s.wal'' [''s.wal.10'', ''s.t1'', ''s.wal.9''] = sort [9, 10]"
    by (rule discover_segments_correct [where others = "[''s.t1'']"])
      (simp_all add: n segment_generation_def add_mset_commute)
  then show ?thesis by simp
qed

end
