(* ===== verification/Wal_Group.thy ===== *)
theory Wal_Group
  imports Wal_Format
begin

text \<open>
  The group commit of \<^verbatim>\<open>wal/wal.cpp\<close>: \<open>reserve_record\<close>, \<open>collect_batch\<close>,
  \<open>write_and_fsync_batch\<close>, \<open>drain_pending\<close>, \<open>release_leadership\<close>,
  \<open>fail_all_pending_and_release_leadership\<close> and \<open>await_durable\<close>, as a step relation whose
  steps are the accesses to shared state made for any number of records in flight. One active
  segment: \<open>rotate_segment\<close>, which also takes the leader's role, is an operation of \<open>Wal_Format\<close> and
  is not interleaved here. Sequence numbers are unbounded here, since 2 to the 64 records are never
  written.

  Shown: an acknowledged record is on disk, and what is on disk is exactly the acknowledged records
  in the order of their numbers; a slot of the ring never holds a foreign record as long as no more
  records than ring slots are outstanding; what goes wrong when collecting a batch fails half-way, and when
  the length of the segment cannot be read before a failing write.
\<close>

section \<open>State\<close>

definition kWalRingCapacity :: nat where
  "kWalRingCapacity = 4096"

definition IOV_MAX :: nat where
  "IOV_MAX = 1024"

record PendingRecord =
  pr_buffer :: bytes
  pr_lsn :: nat
  pr_error :: "WalError option"
  pr_refcount :: nat

text \<open>
  The address of a record is its number: records are allocated one per number and the ring holds
  addresses. \<open>synced\<close> is the length of the segment that the last data sync covered.
\<close>

record Wal =
  ring :: "nat \<Rightarrow> nat option"
  next_lsn :: nat
  next_to_flush :: nat
  flushing :: bool
  highest_settled_lsn :: nat
  poisoned :: bool
  segment :: bytes
  synced :: nat
  heap :: "nat \<Rightarrow> PendingRecord option"

definition Wal_start :: "nat \<Rightarrow> bytes \<Rightarrow> Wal" where
  "Wal_start start base =
     \<lparr>ring = (\<lambda>_. None), next_lsn = start, next_to_flush = start, flushing = False, highest_settled_lsn = 0,
      poisoned = False, segment = base, synced = length base, heap = (\<lambda>_. None)\<rparr>"

definition upd_rec :: "nat \<Rightarrow> (PendingRecord \<Rightarrow> PendingRecord) \<Rightarrow> Wal \<Rightarrow> Wal" where
  "upd_rec a f w = w\<lparr>heap := (heap w)(a := map_option f (heap w a))\<rparr>"

definition rec_at :: "Wal \<Rightarrow> nat \<Rightarrow> PendingRecord" where
  "rec_at w a = the (heap w a)"

definition release :: "nat \<Rightarrow> Wal \<Rightarrow> Wal" where
  "release a w = upd_rec a (\<lambda>r. r\<lparr>pr_refcount := pr_refcount r - 1\<rparr>) w"

section \<open>Producers\<close>

text \<open>The allocation of a number and the serialised record, then the publication in the ring.\<close>

definition reserve_alloc :: "WalRecordType \<Rightarrow> bytes \<Rightarrow> bytes \<Rightarrow> Wal \<Rightarrow> nat \<times> Wal" where
  "reserve_alloc ty key value w =
     (let lsn = next_lsn w;
          rec = \<lparr>pr_buffer = record_bytes \<lparr>wr_type = ty, wr_lsn = word_of_nat lsn, wr_key = key, wr_value = value\<rparr>,
                 pr_lsn = lsn, pr_error = None, pr_refcount = 2\<rparr>
      in (lsn, w\<lparr>next_lsn := lsn + 1, heap := (heap w)(lsn := Some rec)\<rparr>))"

definition ring_publish :: "nat \<Rightarrow> Wal \<Rightarrow> Wal option" where
  "ring_publish lsn w =
     (let slot = lsn mod kWalRingCapacity
      in if ring w slot = None then Some (w\<lparr>ring := (ring w)(slot := Some lsn)\<rparr>) else None)"

section \<open>The leader\<close>

datatype CollectResult = CollectDone | CollectSpin | CollectThrow WalError | CollectGot "nat list" Wal

text \<open>One round of the loop of \<open>collect_batch\<close>.\<close>

definition collect_one :: "nat \<Rightarrow> nat list \<Rightarrow> Wal \<Rightarrow> CollectResult" where
  "collect_one target batch w =
     (if next_to_flush w \<noteq> target \<and> length batch < kWalRingCapacity
      then (case ring w (next_to_flush w mod kWalRingCapacity) of
              None \<Rightarrow> CollectSpin
            | Some rec \<Rightarrow>
                if pr_lsn (rec_at w rec) \<noteq> next_to_flush w then CollectThrow RingMismatch
                else CollectGot (batch @ [rec]) (w\<lparr>next_to_flush := next_to_flush w + 1\<rparr>))
      else CollectDone)"

record IoOutcome =
  io_fstat_ok :: bool
  io_written :: "nat list"
  io_sync_ok :: bool
  io_truncate_ok :: bool

text \<open>
  The chunked \<^verbatim>\<open>writev\<close> loop: each call writes at most what is asked for, a short or failed
  write ends the loop.
\<close>

function writev_chunks :: "nat list \<Rightarrow> bytes list \<Rightarrow> bytes \<Rightarrow> bytes \<times> bool" where
  "writev_chunks ws bufs file =
     (if bufs = [] then (file, True)
      else let chunk_data = concat (take IOV_MAX bufs);
               n = (case ws of [] \<Rightarrow> length chunk_data | x # _ \<Rightarrow> min x (length chunk_data));
               file' = file @ take n chunk_data
           in if n \<noteq> length chunk_data then (file', False)
              else writev_chunks (tl ws) (drop IOV_MAX bufs) file')"
  by pat_completeness auto
termination
  by (relation "measure (\<lambda>(ws, bufs, file). length bufs)") (auto simp: IOV_MAX_def)

declare writev_chunks.simps [simp del]

fun set_errors :: "WalError option \<Rightarrow> nat list \<Rightarrow> Wal \<Rightarrow> Wal" where
  "set_errors e [] w = w"
| "set_errors e (a # as) w = set_errors e as (upd_rec a (\<lambda>r. r\<lparr>pr_error := e\<rparr>) w)"

text \<open>\<open>write_and_fsync_batch\<close> up to the wake-up; the slots are then freed one by one.\<close>

definition write_and_fsync_batch :: "IoOutcome \<Rightarrow> nat list \<Rightarrow> Wal \<Rightarrow> Wal" where
  "write_and_fsync_batch io batch w =
     (let saved_length = (if io_fstat_ok io then length (segment w) else 0);
          (file, written) = writev_chunks (io_written io) (map (\<lambda>a. pr_buffer (rec_at w a)) batch) (segment w);
          ok = (written \<and> io_sync_ok io);
          seg = (if ok then file else if io_truncate_ok io then take saved_length file else file);
          io_err = (if ok then None else Some WalIoError);
          w1 = w\<lparr>segment := seg, synced := (if ok then length seg else min (synced w) (length seg)),
                 poisoned := poisoned w \<or> \<not> ok\<rparr>
      in (set_errors io_err batch w1)\<lparr>highest_settled_lsn := pr_lsn (rec_at w (last batch))\<rparr>)"

definition retire_one :: "nat \<Rightarrow> Wal \<Rightarrow> Wal" where
  "retire_one a w =
     release a (w\<lparr>ring := (ring w)(pr_lsn (rec_at w a) mod kWalRingCapacity := None)\<rparr>)"

text \<open>One record of the sweep that fails everything outstanding.\<close>

definition sweep_one :: "WalError \<Rightarrow> Wal \<Rightarrow> Wal option" where
  "sweep_one err w =
     (let slot = next_to_flush w mod kWalRingCapacity
      in case ring w slot of
           None \<Rightarrow> None
         | Some rec \<Rightarrow>
             Some ((release rec ((upd_rec rec (\<lambda>r. r\<lparr>pr_error := Some err\<rparr>) w)\<lparr>ring := (ring w)(slot := None)\<rparr>))
                   \<lparr>next_to_flush := next_to_flush w + 1\<rparr>))"

section \<open>Threads\<close>

datatype phase =
    StartDrain
  | Drain nat "nat list"
  | Retire nat "nat list"
  | Sweep WalError nat

datatype pc =
    Idle
  | Checked WalRecordType bytes bytes
  | Reserved nat
  | Published nat
  | Waiting nat
  | Leading nat
  | Rechecking nat nat
  | Done nat "WalError option"

record GroupConfig =
  gc_wal :: Wal
  gc_pc :: "nat \<Rightarrow> pc"
  gc_leader :: "(nat \<times> phase) option"

definition GroupConfig_start :: "nat \<Rightarrow> bytes \<Rightarrow> GroupConfig" where
  "GroupConfig_start start base = \<lparr>gc_wal = Wal_start start base, gc_pc = (\<lambda>_. Idle), gc_leader = None\<rparr>"

text \<open>
  What the environment may do: how many records may be outstanding at once, and which faults occur.
  A place of \<open>gc_pc\<close> is a ticket, that is, one record on its way from the check of \<open>reserve_record\<close> to
  the return of its \<open>await_durable\<close>. A thread that writes one record at a time holds one ticket; a
  \<open>WalGroupAwaiter\<close>, which reserves up to 1024 records before it awaits them, holds that many. The
  order in which a thread serves its tickets is one of the interleavings of the tickets, so no
  owner is kept.
\<close>

record Env =
  env_tickets :: nat
  env_io :: "IoOutcome \<Rightarrow> bool"
  env_alloc_fails :: bool

abbreviation goto :: "nat \<Rightarrow> pc \<Rightarrow> GroupConfig \<Rightarrow> GroupConfig" where
  "goto t c g \<equiv> g\<lparr>gc_pc := (gc_pc g)(t := c)\<rparr>"

abbreviation lead :: "nat \<Rightarrow> phase \<Rightarrow> GroupConfig \<Rightarrow> GroupConfig" where
  "lead t ph g \<equiv> g\<lparr>gc_leader := Some (t, ph)\<rparr>"

definition elect :: "nat \<Rightarrow> nat \<Rightarrow> GroupConfig \<Rightarrow> GroupConfig" where
  "elect t lsn g = g\<lparr>gc_wal := (gc_wal g)\<lparr>flushing := True\<rparr>, gc_pc := (gc_pc g)(t := Leading lsn),
     gc_leader := Some (t, StartDrain)\<rparr>"

definition finish :: "nat \<Rightarrow> nat \<Rightarrow> GroupConfig \<Rightarrow> GroupConfig" where
  "finish t lsn g = g\<lparr>gc_wal := release lsn (gc_wal g), gc_pc := (gc_pc g)(t := Done lsn (pr_error (rec_at (gc_wal g) lsn)))\<rparr>"

inductive wal_step :: "Env \<Rightarrow> GroupConfig \<Rightarrow> GroupConfig \<Rightarrow> bool" for env where
  check: "t < env_tickets env \<Longrightarrow> gc_pc g t = Idle \<Longrightarrow> \<not> poisoned (gc_wal g) \<Longrightarrow>
     wal_step env g (goto t (Checked ty key value) g)"
| again: "gc_pc g t = Done lsn e \<Longrightarrow> wal_step env g (goto t Idle g)"
| alloc: "gc_pc g t = Checked ty key value \<Longrightarrow> reserve_alloc ty key value (gc_wal g) = (lsn, w) \<Longrightarrow>
     wal_step env g (goto t (Reserved lsn) (g\<lparr>gc_wal := w\<rparr>))"
| publish: "gc_pc g t = Reserved lsn \<Longrightarrow> ring_publish lsn (gc_wal g) = Some w \<Longrightarrow>
     wal_step env g (goto t (Published lsn) (g\<lparr>gc_wal := w\<rparr>))"
| elect_leader: "gc_pc g t = Published lsn \<Longrightarrow> \<not> flushing (gc_wal g) \<Longrightarrow> wal_step env g (elect t lsn g)"
| elect_follower: "gc_pc g t = Published lsn \<Longrightarrow> flushing (gc_wal g) \<Longrightarrow>
     wal_step env g (goto t (Waiting lsn) g)"
| woken: "gc_pc g t = Waiting lsn \<Longrightarrow> lsn \<le> highest_settled_lsn (gc_wal g) \<Longrightarrow> wal_step env g (finish t lsn g)"
| timeout: "gc_pc g t = Waiting lsn \<Longrightarrow> \<not> flushing (gc_wal g) \<Longrightarrow> wal_step env g (elect t lsn g)"
| drain: "gc_leader g = Some (t, StartDrain) \<Longrightarrow>
     wal_step env g (lead t (Drain (next_lsn (gc_wal g)) []) g)"
| collect: "gc_leader g = Some (t, Drain target batch) \<Longrightarrow>
     collect_one target batch (gc_wal g) = CollectGot batch' w \<Longrightarrow>
     wal_step env g (lead t (Drain target batch') (g\<lparr>gc_wal := w\<rparr>))"
| collect_mismatch: "gc_leader g = Some (t, Drain target batch) \<Longrightarrow>
     collect_one target batch (gc_wal g) = CollectThrow err \<Longrightarrow>
     wal_step env g (lead t (Sweep err (next_lsn (gc_wal g))) (g\<lparr>gc_wal := (gc_wal g)\<lparr>poisoned := True\<rparr>\<rparr>))"
| collect_bad_alloc: "env_alloc_fails env \<Longrightarrow> gc_leader g = Some (t, Drain target batch) \<Longrightarrow>
     collect_one target batch (gc_wal g) = CollectGot batch' w \<Longrightarrow>
     wal_step env g (lead t (Sweep WalIoError (next_lsn (gc_wal g))) (g\<lparr>gc_wal := (gc_wal g)\<lparr>poisoned := True\<rparr>\<rparr>))"
| write_batch: "gc_leader g = Some (t, Drain target batch) \<Longrightarrow> collect_one target batch (gc_wal g) = CollectDone \<Longrightarrow>
     batch \<noteq> [] \<Longrightarrow> env_io env io \<Longrightarrow>
     wal_step env g (lead t (Retire target batch) (g\<lparr>gc_wal := write_and_fsync_batch io batch (gc_wal g)\<rparr>))"
| retire: "gc_leader g = Some (t, Retire target (a # as)) \<Longrightarrow>
     wal_step env g (lead t (Retire target as) (g\<lparr>gc_wal := retire_one a (gc_wal g)\<rparr>))"
| next_round: "gc_leader g = Some (t, Retire target []) \<Longrightarrow> wal_step env g (lead t (Drain target []) g)"
| release_leadership: "gc_leader g = Some (t, Drain target []) \<Longrightarrow> next_to_flush (gc_wal g) = target \<Longrightarrow>
     gc_pc g t = Leading lsn \<Longrightarrow>
     wal_step env g (g\<lparr>gc_wal := (gc_wal g)\<lparr>flushing := False\<rparr>, gc_pc := (gc_pc g)(t := Rechecking lsn target),
       gc_leader := None\<rparr>)"
| caught_up: "gc_pc g t = Rechecking lsn target \<Longrightarrow> next_lsn (gc_wal g) = target \<or> flushing (gc_wal g) \<Longrightarrow>
     wal_step env g (finish t lsn g)"
| reclaim: "gc_pc g t = Rechecking lsn target \<Longrightarrow> next_lsn (gc_wal g) \<noteq> target \<Longrightarrow> \<not> flushing (gc_wal g) \<Longrightarrow>
     wal_step env g (elect t lsn g)"
| sweep: "gc_leader g = Some (t, Sweep err target) \<Longrightarrow> next_to_flush (gc_wal g) \<noteq> target \<Longrightarrow>
     sweep_one err (gc_wal g) = Some w \<Longrightarrow> wal_step env g (g\<lparr>gc_wal := w\<rparr>)"
| sweep_again: "gc_leader g = Some (t, Sweep err target) \<Longrightarrow> next_to_flush (gc_wal g) = target \<Longrightarrow>
     next_lsn (gc_wal g) \<noteq> target \<Longrightarrow> wal_step env g (lead t (Sweep err (next_lsn (gc_wal g))) g)"
| sweep_end: "gc_leader g = Some (t, Sweep err target) \<Longrightarrow> next_to_flush (gc_wal g) = target \<Longrightarrow>
     next_lsn (gc_wal g) = target \<Longrightarrow> gc_pc g t = Leading lsn \<Longrightarrow>
     wal_step env g (g\<lparr>gc_wal := (gc_wal g)\<lparr>highest_settled_lsn := target - 1, flushing := False\<rparr>,
       gc_pc := (gc_pc g)(t := Done lsn (Some err)), gc_leader := None\<rparr>)"

inductive wal_reach :: "Env \<Rightarrow> GroupConfig \<Rightarrow> GroupConfig \<Rightarrow> bool" for env where
  reach_refl: "wal_reach env g g"
| reach_step: "wal_reach env g g' \<Longrightarrow> wal_step env g' g'' \<Longrightarrow> wal_reach env g g''"

section \<open>Invariant\<close>

definition cur_batch :: "(nat \<times> phase) option \<Rightarrow> nat list" where
  "cur_batch l = (case l of Some (_, Drain _ b) \<Rightarrow> b | _ \<Rightarrow> [])"

definition to_retire :: "(nat \<times> phase) option \<Rightarrow> nat list" where
  "to_retire l = (case l of Some (_, Retire _ as) \<Rightarrow> as | _ \<Rightarrow> [])"

definition settled_to :: "nat \<Rightarrow> Wal \<Rightarrow> nat" where
  "settled_to start w = max start (highest_settled_lsn w + 1)"

fun lsn_of :: "pc \<Rightarrow> nat option" where
  "lsn_of (Reserved a) = Some a"
| "lsn_of (Published a) = Some a"
| "lsn_of (Waiting a) = Some a"
| "lsn_of (Leading a) = Some a"
| "lsn_of (Rechecking a _) = Some a"
| "lsn_of _ = None"

text \<open>The acknowledged numbers: settled without an error.\<close>

definition acked :: "nat \<Rightarrow> Wal \<Rightarrow> nat list" where
  "acked start w = filter (\<lambda>a. pr_error (rec_at w a) = None) [start..<settled_to start w]"

definition lead_inv :: "Wal \<Rightarrow> (nat \<Rightarrow> pc) \<Rightarrow> (nat \<times> phase) option \<Rightarrow> bool" where
  "lead_inv w p l \<longleftrightarrow> (flushing w \<longleftrightarrow> l \<noteq> None) \<and> (\<forall>t a. p t = Leading a \<longrightarrow> (\<exists>ph. l = Some (t, ph)))
     \<and> (\<forall>t ph. l = Some (t, ph) \<longrightarrow> (\<exists>a. p t = Leading a)) \<and> (\<forall>t e n. l \<noteq> Some (t, Sweep e n))"

fun leader_ok :: "nat \<Rightarrow> Wal \<Rightarrow> (nat \<Rightarrow> pc) \<Rightarrow> (nat \<times> phase) option \<Rightarrow> bool" where
  "leader_ok start w p (Some (t, Drain target b)) \<longleftrightarrow>
     b = [settled_to start w..<next_to_flush w] \<and> length b \<le> kWalRingCapacity \<and> next_to_flush w \<le> target
     \<and> target \<le> next_lsn w \<and> (\<forall>a. p t = Leading a \<longrightarrow> a < target)"
| "leader_ok start w p (Some (t, Retire target as)) \<longleftrightarrow>
     set as \<subseteq> {start..<next_to_flush w} \<and> next_to_flush w \<le> target \<and> target \<le> next_lsn w
     \<and> (\<forall>a. p t = Leading a \<longrightarrow> a < target)"
| "leader_ok start w p _ \<longleftrightarrow> True"

definition num_inv :: "nat \<Rightarrow> Wal \<Rightarrow> (nat \<Rightarrow> pc) \<Rightarrow> (nat \<times> phase) option \<Rightarrow> bool" where
  "num_inv start w p l \<longleftrightarrow> settled_to start w + length (cur_batch l) = next_to_flush w \<and> next_to_flush w \<le> next_lsn w
     \<and> leader_ok start w p l"

definition ring_inv :: "nat \<Rightarrow> Wal \<Rightarrow> (nat \<times> phase) option \<Rightarrow> bool" where
  "ring_inv start w l \<longleftrightarrow> (\<forall>s a. ring w s = Some a \<longrightarrow> a mod kWalRingCapacity = s \<and> start \<le> a \<and> a < next_lsn w
     \<and> (next_to_flush w \<le> a \<or> a \<in> set (cur_batch l) \<or> a \<in> set (to_retire l)))"

definition heap_inv :: "nat \<Rightarrow> Wal \<Rightarrow> bool" where
  "heap_inv start w \<longleftrightarrow> (\<forall>a. start \<le> a \<and> a < next_lsn w \<longrightarrow> (\<exists>r. heap w a = Some r \<and> pr_lsn r = a))"

definition claims_inv :: "nat \<Rightarrow> nat \<Rightarrow> Wal \<Rightarrow> (nat \<Rightarrow> pc) \<Rightarrow> bool" where
  "claims_inv threads start w p \<longleftrightarrow> (\<forall>t. p t \<noteq> Idle \<longrightarrow> t < threads)
     \<and> (\<forall>t a. lsn_of (p t) = Some a \<longrightarrow> start \<le> a \<and> a < next_lsn w)
     \<and> (\<forall>a. settled_to start w \<le> a \<and> a < next_lsn w \<longrightarrow> (\<exists>t. lsn_of (p t) = Some a))
     \<and> (\<forall>t t' a. lsn_of (p t) = Some a \<longrightarrow> lsn_of (p t') = Some a \<longrightarrow> t = t')"

definition ack_inv :: "nat \<Rightarrow> Wal \<Rightarrow> (nat \<Rightarrow> pc) \<Rightarrow> bool" where
  "ack_inv start w p \<longleftrightarrow> (\<forall>t a n. p t = Rechecking a n \<longrightarrow> start \<le> a \<and> a < settled_to start w)
     \<and> (\<forall>t a e. p t = Done a e \<longrightarrow> start \<le> a \<and> a < settled_to start w \<and> e = pr_error (rec_at w a))"

definition res_inv :: "Wal \<Rightarrow> (nat \<Rightarrow> pc) \<Rightarrow> bool" where
  "res_inv w p \<longleftrightarrow> (\<forall>t a. p t = Reserved a \<longrightarrow> next_to_flush w \<le> a \<and> (\<forall>s. ring w s \<noteq> Some a))"

definition seg_inv :: "nat \<Rightarrow> bytes \<Rightarrow> Wal \<Rightarrow> bool" where
  "seg_inv start base w \<longleftrightarrow> segment w = base @ concat (map (\<lambda>a. pr_buffer (rec_at w a)) (acked start w))
     \<and> synced w = length (segment w)"

definition wal_inv :: "nat \<Rightarrow> nat \<Rightarrow> bytes \<Rightarrow> GroupConfig \<Rightarrow> bool" where
  "wal_inv threads start base g \<longleftrightarrow>
     lead_inv (gc_wal g) (gc_pc g) (gc_leader g) \<and> num_inv start (gc_wal g) (gc_pc g) (gc_leader g)
     \<and> ring_inv start (gc_wal g) (gc_leader g) \<and> heap_inv start (gc_wal g)
     \<and> claims_inv threads start (gc_wal g) (gc_pc g) \<and> ack_inv start (gc_wal g) (gc_pc g)
     \<and> res_inv (gc_wal g) (gc_pc g) \<and> seg_inv start base (gc_wal g)"

lemma wal_invI:
  "lead_inv (gc_wal g) (gc_pc g) (gc_leader g) \<Longrightarrow> num_inv start (gc_wal g) (gc_pc g) (gc_leader g) \<Longrightarrow>
   ring_inv start (gc_wal g) (gc_leader g) \<Longrightarrow> heap_inv start (gc_wal g) \<Longrightarrow>
   claims_inv threads start (gc_wal g) (gc_pc g) \<Longrightarrow> ack_inv start (gc_wal g) (gc_pc g) \<Longrightarrow>
   res_inv (gc_wal g) (gc_pc g) \<Longrightarrow> seg_inv start base (gc_wal g) \<Longrightarrow> wal_inv threads start base g"
  by (simp add: wal_inv_def)

lemma wal_invD:
  assumes "wal_inv threads start base g"
  shows "lead_inv (gc_wal g) (gc_pc g) (gc_leader g)" "num_inv start (gc_wal g) (gc_pc g) (gc_leader g)"
    "ring_inv start (gc_wal g) (gc_leader g)" "heap_inv start (gc_wal g)"
    "claims_inv threads start (gc_wal g) (gc_pc g)" "ack_inv start (gc_wal g) (gc_pc g)"
    "seg_inv start base (gc_wal g)" "res_inv (gc_wal g) (gc_pc g)"
  using assms by (simp_all add: wal_inv_def)

lemma cur_batch_simps [simp]: "cur_batch None = []" "cur_batch (Some (t, StartDrain)) = []"
  "cur_batch (Some (t, Drain n b)) = b" "cur_batch (Some (t, Retire n b)) = []" "cur_batch (Some (t, Sweep e n)) = []"
  by (simp_all add: cur_batch_def)

lemma to_retire_simps [simp]: "to_retire None = []" "to_retire (Some (t, StartDrain)) = []"
  "to_retire (Some (t, Drain n b)) = []" "to_retire (Some (t, Retire n b)) = b" "to_retire (Some (t, Sweep e n)) = []"
  by (simp_all add: to_retire_def)

text \<open>Fields an operation leaves alone.\<close>

lemma settled_to_cong [simp]:
  "settled_to start (w\<lparr>ring := r\<rparr>) = settled_to start w" "settled_to start (w\<lparr>next_lsn := n\<rparr>) = settled_to start w"
  "settled_to start (w\<lparr>next_to_flush := n\<rparr>) = settled_to start w" "settled_to start (w\<lparr>flushing := b\<rparr>) = settled_to start w"
  "settled_to start (w\<lparr>heap := h\<rparr>) = settled_to start w" "settled_to start (w\<lparr>poisoned := b\<rparr>) = settled_to start w"
  "settled_to start (w\<lparr>segment := sg\<rparr>) = settled_to start w" "settled_to start (w\<lparr>synced := n\<rparr>) = settled_to start w"
  by (simp_all add: settled_to_def)

lemma rec_at_cong [simp]:
  "rec_at (w\<lparr>ring := r\<rparr>) = rec_at w" "rec_at (w\<lparr>next_lsn := n\<rparr>) = rec_at w"
  "rec_at (w\<lparr>next_to_flush := n\<rparr>) = rec_at w" "rec_at (w\<lparr>flushing := b\<rparr>) = rec_at w"
  "rec_at (w\<lparr>poisoned := b\<rparr>) = rec_at w" "rec_at (w\<lparr>segment := sg\<rparr>) = rec_at w" "rec_at (w\<lparr>synced := n\<rparr>) = rec_at w"
  "rec_at (w\<lparr>highest_settled_lsn := n\<rparr>) = rec_at w"
  by (simp_all add: rec_at_def fun_eq_iff)

lemma upd_rec_simps [simp]:
  "ring (upd_rec a f w) = ring w" "next_lsn (upd_rec a f w) = next_lsn w" "next_to_flush (upd_rec a f w) = next_to_flush w"
  "flushing (upd_rec a f w) = flushing w" "highest_settled_lsn (upd_rec a f w) = highest_settled_lsn w"
  "poisoned (upd_rec a f w) = poisoned w" "segment (upd_rec a f w) = segment w" "synced (upd_rec a f w) = synced w"
  "settled_to start (upd_rec a f w) = settled_to start w"
  "heap (upd_rec a f w) = (heap w)(a := map_option f (heap w a))"
  by (simp_all add: upd_rec_def)

lemma release_simps [simp]:
  "ring (release a w) = ring w" "next_lsn (release a w) = next_lsn w" "next_to_flush (release a w) = next_to_flush w"
  "flushing (release a w) = flushing w" "highest_settled_lsn (release a w) = highest_settled_lsn w"
  "poisoned (release a w) = poisoned w" "segment (release a w) = segment w" "synced (release a w) = synced w"
  "settled_to start (release a w) = settled_to start w"
  by (simp_all add: release_def)

lemma release_rec_at:
  assumes "heap w a \<noteq> None"
  shows "pr_buffer (rec_at (release a w) x) = pr_buffer (rec_at w x)" "pr_error (rec_at (release a w) x) = pr_error (rec_at w x)"
    "pr_lsn (rec_at (release a w) x) = pr_lsn (rec_at w x)"
  using assms by (auto simp: release_def rec_at_def)

lemma heap_invD: "heap_inv start w \<Longrightarrow> start \<le> a \<Longrightarrow> a < next_lsn w \<Longrightarrow> heap w a \<noteq> None"
  by (auto simp: heap_inv_def)

lemma heap_inv_lsn: "heap_inv start w \<Longrightarrow> start \<le> a \<Longrightarrow> a < next_lsn w \<Longrightarrow> pr_lsn (rec_at w a) = a"
  by (fastforce simp: heap_inv_def rec_at_def)

lemma release_inv:
  assumes "heap w a \<noteq> None"
  shows "heap_inv start (release a w) = heap_inv start w" "ring_inv start (release a w) l = ring_inv start w l"
    "num_inv start (release a w) p l = num_inv start w p l" "lead_inv (release a w) p l = lead_inv w p l"
    "claims_inv N start (release a w) p = claims_inv N start w p" "ack_inv start (release a w) p = ack_inv start w p"
    "seg_inv start base (release a w) = seg_inv start base w" "res_inv (release a w) p = res_inv w p"
proof -
  have "leader_ok start (release a w) p l = leader_ok start w p l"
    by (cases "(start, w, p, l)" rule: leader_ok.cases) auto
  then show "num_inv start (release a w) p l = num_inv start w p l" by (simp add: num_inv_def)
  show "heap_inv start (release a w) = heap_inv start w"
    by (auto simp: heap_inv_def release_def split: if_splits)
qed (auto simp: res_inv_def ring_inv_def lead_inv_def claims_inv_def ack_inv_def seg_inv_def acked_def release_rec_at [OF assms])

section \<open>Every step keeps the invariant\<close>

lemma claims_invD:
  assumes "claims_inv N start w p"
  shows "lsn_of (p t) = Some a \<Longrightarrow> start \<le> a \<and> a < next_lsn w" "p t \<noteq> Idle \<Longrightarrow> t < N"
    "settled_to start w \<le> a \<Longrightarrow> a < next_lsn w \<Longrightarrow> \<exists>t. lsn_of (p t) = Some a"
    "lsn_of (p t) = Some a \<Longrightarrow> lsn_of (p t') = Some a \<Longrightarrow> t = t'"
  using assms by (simp_all add: claims_inv_def)

text \<open>A thread moves on with the record it has, and the numbers do not change.\<close>

lemma claims_inv_goto:
  assumes "claims_inv N start w p" "lsn_of c = lsn_of (p t)" "c \<noteq> Idle \<Longrightarrow> t < N" "next_lsn w' = next_lsn w"
    "settled_to start w \<le> settled_to start w'"
  shows "claims_inv N start w' (p(t := c))"
proof -
  have l: "lsn_of ((p(t := c)) x) = lsn_of (p x)" for x using assms(2) by simp
  show ?thesis using assms(1,3,5) claims_invD(3) [OF assms(1)] unfolding claims_inv_def l assms(4) by simp
qed

lemma lead_inv_goto:
  assumes "lead_inv w p l" "\<forall>a. p t \<noteq> Leading a" "\<forall>a. c \<noteq> Leading a" "flushing w' = flushing w"
  shows "lead_inv w' (p(t := c)) l"
  using assms by (auto simp: lead_inv_def)

lemma num_inv_goto:
  assumes "num_inv start w p l" "\<forall>a. c \<noteq> Leading a" "settled_to start w' = settled_to start w"
    "next_to_flush w' = next_to_flush w" "next_lsn w \<le> next_lsn w'"
  shows "num_inv start w' (p(t := c)) l"
proof -
  have "leader_ok start w p l \<Longrightarrow> leader_ok start w' (p(t := c)) l"
    using assms(2-5) by (cases "(start, w, p, l)" rule: leader_ok.cases) auto
  then show ?thesis using assms by (simp add: num_inv_def)
qed

lemma goto_inv:
  assumes inv: "wal_inv N start base g" and "\<forall>a. gc_pc g t \<noteq> Leading a" "\<forall>a. c \<noteq> Leading a" "\<forall>a n. c \<noteq> Rechecking a n"
    "\<forall>a e. c \<noteq> Done a e" "\<forall>a. c \<noteq> Reserved a" "lsn_of c = lsn_of (gc_pc g t)" "c \<noteq> Idle \<Longrightarrow> t < N"
  shows "wal_inv N start base (goto t c g)"
proof (rule wal_invI)
  note d = wal_invD [OF inv]
  show "lead_inv (gc_wal (goto t c g)) (gc_pc (goto t c g)) (gc_leader (goto t c g))"
    using lead_inv_goto [OF d(1) assms(2,3)] by simp
  show "num_inv start (gc_wal (goto t c g)) (gc_pc (goto t c g)) (gc_leader (goto t c g))"
    using num_inv_goto [OF d(2) assms(3)] by simp
  show "claims_inv N start (gc_wal (goto t c g)) (gc_pc (goto t c g))"
    using claims_inv_goto [OF d(5) assms(7,8)] by simp
  show "ack_inv start (gc_wal (goto t c g)) (gc_pc (goto t c g))"
    using d(6) assms(4,5) by (simp add: ack_inv_def)
  show "res_inv (gc_wal (goto t c g)) (gc_pc (goto t c g))"
    using d(8) assms(6) by (simp add: res_inv_def)
qed (use wal_invD [OF inv] in auto)

lemma alloc_inv:
  assumes inv: "wal_inv N start base g" and pc: "gc_pc g t = Checked ty key value"
    and r: "reserve_alloc ty key value (gc_wal g) = (lsn, w)"
  shows "wal_inv N start base (goto t (Reserved lsn) (g\<lparr>gc_wal := w\<rparr>))"
proof (rule wal_invI)
  let ?w = "gc_wal g"
  note d = wal_invD [OF inv]
  have lsn: "lsn = next_lsn ?w" and w: "next_lsn w = next_lsn ?w + 1" "ring w = ring ?w" "next_to_flush w = next_to_flush ?w"
    "flushing w = flushing ?w" "settled_to start w = settled_to start ?w" "segment w = segment ?w" "synced w = synced ?w"
    "\<And>a. a \<noteq> lsn \<Longrightarrow> heap w a = heap ?w a" "\<exists>r. heap w lsn = Some r \<and> pr_lsn r = lsn"
    using r by (auto simp: reserve_alloc_def Let_def)
  have le: "settled_to start ?w \<le> next_lsn ?w" "start \<le> settled_to start ?w" "next_to_flush ?w \<le> next_lsn ?w"
    using d(2) by (auto simp: num_inv_def settled_to_def)
  have same: "rec_at w a = rec_at ?w a" if "a < next_lsn ?w" for a
    using that w(8) [of a] by (simp add: rec_at_def lsn)
  have ack: "acked start w = acked start ?w"
    unfolding acked_def w(5) using le by (intro filter_cong) (auto simp: same)
  let ?g = "goto t (Reserved lsn) (g\<lparr>gc_wal := w\<rparr>)"
  show "lead_inv (gc_wal ?g) (gc_pc ?g) (gc_leader ?g)"
    using lead_inv_goto [OF d(1), of t "Reserved lsn" w] pc by (simp add: w)
  show "num_inv start (gc_wal ?g) (gc_pc ?g) (gc_leader ?g)"
    using num_inv_goto [OF d(2), of "Reserved lsn" w t] by (simp add: w)
  show "ring_inv start (gc_wal ?g) (gc_leader ?g)" using d(3) by (auto simp: ring_inv_def w less_SucI)
  show "heap_inv start (gc_wal ?g)"
    unfolding heap_inv_def
  proof (intro allI impI)
    fix a assume "start \<le> a \<and> a < next_lsn (gc_wal ?g)"
    then show "\<exists>r. heap (gc_wal ?g) a = Some r \<and> pr_lsn r = a"
      using d(4) w(8) [of a] w(9) by (cases "a = lsn") (auto simp: heap_inv_def w(1) lsn less_Suc_eq)
  qed
  have own: "lsn_of (gc_pc g x) \<noteq> Some lsn" for x using claims_invD(1) [OF d(5), of x lsn] lsn by blast
  show "claims_inv N start (gc_wal ?g) (gc_pc ?g)"
    unfolding claims_inv_def
  proof (intro conjI allI impI)
    fix x assume "gc_pc ?g x \<noteq> Idle"
    then show "x < N" using claims_invD(2) [OF d(5), of x] claims_invD(2) [OF d(5), of t] pc by (auto split: if_splits)
  next
    fix x a assume "lsn_of (gc_pc ?g x) = Some a"
    then show "start \<le> a" "a < next_lsn (gc_wal ?g)"
      using claims_invD(1) [OF d(5), of x a] le by (auto simp: w lsn split: if_splits)
  next
    fix a assume a: "settled_to start (gc_wal ?g) \<le> a \<and> a < next_lsn (gc_wal ?g)"
    show "\<exists>x. lsn_of (gc_pc ?g x) = Some a"
    proof (cases "a = lsn")
      case True
      then show ?thesis by (intro exI [of _ t]) simp
    next
      case False
      then obtain x where x: "lsn_of (gc_pc g x) = Some a"
        using a claims_invD(3) [OF d(5), of a] by (auto simp: w lsn less_Suc_eq)
      then have "x \<noteq> t" using pc by auto
      then show ?thesis using x by (intro exI [of _ x]) simp
    qed
  next
    fix x y a assume "lsn_of (gc_pc ?g x) = Some a" "lsn_of (gc_pc ?g y) = Some a"
    then show "x = y" using claims_invD(4) [OF d(5), of x a y] own by (auto split: if_splits)
  qed
  show "ack_inv start (gc_wal ?g) (gc_pc ?g)"
    unfolding ack_inv_def
  proof (intro conjI allI impI)
    fix x a e assume "gc_pc ?g x = Done a e"
    then have "start \<le> a \<and> a < settled_to start ?w \<and> e = pr_error (rec_at ?w a)"
      using d(6) by (auto simp: ack_inv_def split: if_splits)
    then show "start \<le> a" "a < settled_to start (gc_wal ?g)" "e = pr_error (rec_at (gc_wal ?g) a)"
      using le same [of a] by (simp_all add: w)
  qed (use d(6) in \<open>auto simp: ack_inv_def w split: if_splits\<close>)
  show "res_inv (gc_wal ?g) (gc_pc ?g)"
    using d(3,8) le by (auto simp: res_inv_def ring_inv_def w lsn)
  have "map (\<lambda>a. pr_buffer (rec_at w a)) (acked start ?w) = map (\<lambda>a. pr_buffer (rec_at ?w a)) (acked start ?w)"
    using le by (auto simp: acked_def same)
  from this [THEN arg_cong [where f = concat]]
  show "seg_inv start base (gc_wal ?g)" using d(7) by (simp add: seg_inv_def w ack del: map_eq_conv)
qed

lemma publish_inv:
  assumes inv: "wal_inv N start base g" and pc: "gc_pc g t = Reserved lsn"
    and r: "ring_publish lsn (gc_wal g) = Some w"
  shows "wal_inv N start base (goto t (Published lsn) (g\<lparr>gc_wal := w\<rparr>))"
proof (rule wal_invI)
  let ?w = "gc_wal g"
  note d = wal_invD [OF inv]
  have w: "w = ?w\<lparr>ring := (ring ?w)(lsn mod kWalRingCapacity := Some lsn)\<rparr>"
    using r by (auto simp: ring_publish_def Let_def split: if_splits)
  let ?g = "goto t (Published lsn) (g\<lparr>gc_wal := w\<rparr>)"
  have lsn: "start \<le> lsn \<and> lsn < next_lsn ?w" "next_to_flush ?w \<le> lsn" "t < N"
    using claims_invD(1) [OF d(5), of t lsn] claims_invD(2) [OF d(5), of t] d(8) pc by (auto simp: res_inv_def)
  show "lead_inv (gc_wal ?g) (gc_pc ?g) (gc_leader ?g)"
    using lead_inv_goto [OF d(1), of t "Published lsn" w] pc by (simp add: w)
  show "num_inv start (gc_wal ?g) (gc_pc ?g) (gc_leader ?g)"
    using num_inv_goto [OF d(2), of "Published lsn" w t] by (simp add: w)
  show "ring_inv start (gc_wal ?g) (gc_leader ?g)" using d(3) lsn by (auto simp: ring_inv_def w)
  show "heap_inv start (gc_wal ?g)" using d(4) by (simp add: heap_inv_def w)
  show "claims_inv N start (gc_wal ?g) (gc_pc ?g)"
    using claims_inv_goto [OF d(5), of "Published lsn" t w] pc lsn by (simp add: w)
  show "ack_inv start (gc_wal ?g) (gc_pc ?g)" using d(6) by (auto simp: ack_inv_def w)
  have "a \<noteq> lsn" if "x \<noteq> t" "gc_pc g x = Reserved a" for x a
    using claims_invD(4) [OF d(5), of x a t] that pc by auto
  then show "res_inv (gc_wal ?g) (gc_pc ?g)" using d(8) by (auto simp: res_inv_def w)
  show "seg_inv start base (gc_wal ?g)" using d(7) by (simp add: seg_inv_def w acked_def)
qed

lemma elect_inv:
  assumes inv: "wal_inv N start base g" and pc: "lsn_of (gc_pc g t) = Some lsn" and idle: "\<not> flushing (gc_wal g)"
  shows "wal_inv N start base (elect t lsn g)"
proof (rule wal_invI)
  note d = wal_invD [OF inv]
  have l: "gc_leader g = None" using d(1) idle by (cases "gc_leader g") (simp_all add: lead_inv_def)
  have t: "t < N" using claims_invD(2) [OF d(5), of t] pc(1) by (cases "gc_pc g t") simp_all
  let ?g = "elect t lsn g"
  have nl: "gc_pc g x \<noteq> Leading a" for x a using d(1) l by (auto simp: lead_inv_def)
  show "lead_inv (gc_wal ?g) (gc_pc ?g) (gc_leader ?g)" using nl by (auto simp: lead_inv_def elect_def)
  show "num_inv start (gc_wal ?g) (gc_pc ?g) (gc_leader ?g)" using d(2) l by (simp add: num_inv_def elect_def)
  show "ring_inv start (gc_wal ?g) (gc_leader ?g)" using d(3) l by (simp add: ring_inv_def elect_def)
  show "heap_inv start (gc_wal ?g)" using d(4) by (simp add: heap_inv_def elect_def)
  show "claims_inv N start (gc_wal ?g) (gc_pc ?g)"
    using claims_inv_goto [OF d(5), of "Leading lsn" t "(gc_wal g)\<lparr>flushing := True\<rparr>"] pc t by (simp add: elect_def)
  show "ack_inv start (gc_wal ?g) (gc_pc ?g)" using d(6) by (simp add: ack_inv_def elect_def)
  show "res_inv (gc_wal ?g) (gc_pc ?g)" using d(8) by (simp add: res_inv_def elect_def)
  show "seg_inv start base (gc_wal ?g)" using d(7) by (simp add: seg_inv_def elect_def acked_def)
qed

text \<open>A thread returns: its record is settled, so nobody needs to own it any more.\<close>

lemma finish_inv:
  assumes inv: "wal_inv N start base g" and pc: "lsn_of (gc_pc g t) = Some lsn" "gc_pc g t \<noteq> Leading lsn"
    and s: "lsn < settled_to start (gc_wal g)"
  shows "wal_inv N start base (finish t lsn g)"
proof -
  let ?p = "(gc_pc g)(t := Done lsn (pr_error (rec_at (gc_wal g) lsn)))" and ?w = "gc_wal g"
  note d = wal_invD [OF inv]
  have h: "heap ?w lsn \<noteq> None" using heap_invD [OF d(4)] claims_invD(1) [OF d(5) pc(1)] by simp
  have t: "t < N" using claims_invD(2) [OF d(5), of t] pc(1) by (cases "gc_pc g t") simp_all
  have nl: "\<forall>a. gc_pc g t \<noteq> Leading a" using pc by auto
  have "claims_inv N start ?w ?p"
    unfolding claims_inv_def
  proof (intro conjI allI impI)
    fix a assume a: "settled_to start ?w \<le> a \<and> a < next_lsn ?w"
    then obtain x where x: "lsn_of (gc_pc g x) = Some a" using claims_invD(3) [OF d(5)] by blast
    then have "x \<noteq> t" using a s pc(1) by auto
    then show "\<exists>x. lsn_of (?p x) = Some a" using x by (intro exI [of _ x]) simp
  qed (use claims_invD(1,2,4) [OF d(5)] t in \<open>auto split: if_splits\<close>)
  moreover have "ack_inv start ?w ?p" using d(6) s claims_invD(1) [OF d(5) pc(1)] by (auto simp: ack_inv_def)
  moreover have "res_inv ?w ?p" using d(8) by (simp add: res_inv_def)
  moreover have "lead_inv ?w ?p (gc_leader g)" by (rule lead_inv_goto [OF d(1) nl]) auto
  moreover have "num_inv start ?w ?p (gc_leader g)" by (rule num_inv_goto [OF d(2)]) auto
  ultimately show ?thesis using d by (simp add: wal_inv_def finish_def release_inv [OF h])
qed

lemma drain_inv:
  assumes inv: "wal_inv N start base g" and l: "gc_leader g = Some (t, StartDrain)"
  shows "wal_inv N start base (lead t (Drain (next_lsn (gc_wal g)) []) g)"
proof -
  note d = wal_invD [OF inv]
  have "a < next_lsn (gc_wal g)" if "gc_pc g t = Leading a" for a using claims_invD(1) [OF d(5), of t a] that by simp
  then show ?thesis using d l by (auto simp: wal_inv_def lead_inv_def num_inv_def ring_inv_def)
qed

lemma next_round_inv:
  assumes inv: "wal_inv N start base g" and l: "gc_leader g = Some (t, Retire target [])"
  shows "wal_inv N start base (lead t (Drain target []) g)"
  using wal_invD [OF inv] l by (auto simp: wal_inv_def lead_inv_def num_inv_def ring_inv_def)

lemma release_leadership_inv:
  assumes inv: "wal_inv N start base g" and l: "gc_leader g = Some (t, Drain target [])"
    and nf: "next_to_flush (gc_wal g) = target" and pc: "gc_pc g t = Leading lsn"
  shows "wal_inv N start base (g\<lparr>gc_wal := (gc_wal g)\<lparr>flushing := False\<rparr>,
    gc_pc := (gc_pc g)(t := Rechecking lsn target), gc_leader := None\<rparr>)" (is "wal_inv N start base ?g")
proof (rule wal_invI)
  note d = wal_invD [OF inv]
  have lsn: "start \<le> lsn" "lsn < settled_to start (gc_wal g)" "t < N"
    using claims_invD(1) [OF d(5), of t lsn] claims_invD(2) [OF d(5), of t] d(2) l nf pc by (auto simp: num_inv_def)
  show "lead_inv (gc_wal ?g) (gc_pc ?g) (gc_leader ?g)" using d(1) l by (auto simp: lead_inv_def)
  show "num_inv start (gc_wal ?g) (gc_pc ?g) (gc_leader ?g)" using d(2) l by (simp add: num_inv_def)
  show "ring_inv start (gc_wal ?g) (gc_leader ?g)" using d(3) l by (simp add: ring_inv_def)
  show "heap_inv start (gc_wal ?g)" using d(4) by (simp add: heap_inv_def)
  show "claims_inv N start (gc_wal ?g) (gc_pc ?g)"
    using claims_inv_goto [OF d(5), of "Rechecking lsn target" t "(gc_wal g)\<lparr>flushing := False\<rparr>"] pc lsn by simp
  show "ack_inv start (gc_wal ?g) (gc_pc ?g)" using d(6) lsn by (simp add: ack_inv_def)
  show "res_inv (gc_wal ?g) (gc_pc ?g)" using d(8) by (simp add: res_inv_def)
  show "seg_inv start base (gc_wal ?g)" using d(7) by (simp add: seg_inv_def acked_def)
qed

text \<open>
  The window argument. Every unsettled number is owned by a thread of its own, so with at most as
  many threads as slots two unsettled numbers never share a slot.
\<close>

lemma unsettled_window:
  assumes own: "claims_inv N start w p" and a: "settled_to start w \<le> a" "a \<le> b" "b < next_lsn w"
  shows "b - a < N"
proof -
  have ex: "\<exists>t. lsn_of (p t) = Some x" if "x \<in> {a..b}" for x
    by (rule claims_invD(3) [OF own]) (use that a in simp_all)
  obtain f where f: "\<forall>x\<in>{a..b}. lsn_of (p (f x)) = Some x"
    using bchoice [of "{a..b}" "\<lambda>x t. lsn_of (p t) = Some x"] ex by blast
  have "inj_on f {a..b}"
  proof (rule inj_onI)
    fix x y assume "x \<in> {a..b}" and "y \<in> {a..b}" and eq: "f x = f y"
    then have "lsn_of (p (f x)) = Some x" "lsn_of (p (f y)) = Some y" using f by blast+
    then show "x = y" unfolding eq by simp
  qed
  moreover have "f ` {a..b} \<subseteq> {..<N}"
  proof (rule image_subsetI)
    fix x assume "x \<in> {a..b}"
    then have "lsn_of (p (f x)) = Some x" using f by blast
    then have "p (f x) \<noteq> Idle" by auto
    then show "f x \<in> {..<N}" using claims_invD(2) [OF own] by simp
  qed
  ultimately have "card {a..b} \<le> N" using card_inj_on_le [of f "{a..b}" "{..<N}"] by simp
  then show ?thesis using a by simp
qed

lemma mod_window:
  assumes "(a::nat) mod c = b mod c" "a \<le> b" "b < a + c" 
  shows "a = b"
proof -
  have "c dvd b - a" using mod_eq_dvd_iff_nat [OF assms(2), of c] assms(1) by simp
  moreover have "b - a < c" using assms(2,3) by linarith
  ultimately have "b - a = 0" using nat_dvd_not_less by blast
  then show ?thesis using assms(2) by simp
qed

lemma ring_slot_correct:
  assumes inv: "wal_inv N start base g" and N: "N \<le> kWalRingCapacity" and l: "gc_leader g = Some (t, Drain target batch)"
    and nf: "next_to_flush (gc_wal g) \<noteq> target" "length batch < kWalRingCapacity"
    and r: "ring (gc_wal g) (next_to_flush (gc_wal g) mod kWalRingCapacity) = Some a"
  shows "a = next_to_flush (gc_wal g)"
proof -
  let ?w = "gc_wal g"
  note d = wal_invD [OF inv]
  have a: "a mod kWalRingCapacity = next_to_flush ?w mod kWalRingCapacity" "a < next_lsn ?w"
    "next_to_flush ?w \<le> a \<or> a \<in> set batch"
    using d(3) r l by (auto simp: ring_inv_def)
  have b: "batch = [settled_to start ?w..<next_to_flush ?w]" "settled_to start ?w + length batch = next_to_flush ?w"
    using d(2) l by (auto simp: num_inv_def)
  show ?thesis
  proof (cases "next_to_flush ?w \<le> a")
    case True
    have "a - next_to_flush ?w < N" using unsettled_window [OF d(5) _ True a(2)] b(2) by simp
    then have "a < next_to_flush ?w + kWalRingCapacity" using N True by linarith
    then show ?thesis using mod_window [OF a(1) [symmetric] True] by simp
  next
    case False
    then have "a \<in> set batch" using a(3) by simp
    then have "settled_to start ?w \<le> a" by (subst (asm) b(1)) simp
    then show ?thesis using mod_window [OF a(1)] False b(2) nf(2) by simp
  qed
qed

lemma collect_inv:
  assumes inv: "wal_inv N start base g" and N: "N \<le> kWalRingCapacity" and l: "gc_leader g = Some (t, Drain target batch)"
    and c: "collect_one target batch (gc_wal g) = CollectGot batch' w"
  shows "wal_inv N start base (lead t (Drain target batch') (g\<lparr>gc_wal := w\<rparr>))" (is "wal_inv N start base ?g")
proof (rule wal_invI)
  let ?w = "gc_wal g"
  note d = wal_invD [OF inv]
  obtain a where nf: "next_to_flush ?w \<noteq> target" "length batch < kWalRingCapacity"
    and a: "ring ?w (next_to_flush ?w mod kWalRingCapacity) = Some a"
    and w: "batch' = batch @ [a]" "w = ?w\<lparr>next_to_flush := next_to_flush ?w + 1\<rparr>"
    using c by (auto simp: collect_one_def split: if_splits option.splits)
  have an: "a = next_to_flush ?w" by (rule ring_slot_correct [OF inv N l nf a])
  have n: "settled_to start ?w + length batch = next_to_flush ?w" "batch = [settled_to start ?w..<next_to_flush ?w]"
    "next_to_flush ?w < target" "target \<le> next_lsn ?w" "\<forall>x. gc_pc g t = Leading x \<longrightarrow> x < target"
    using d(2) l nf(1) by (auto simp: num_inv_def)
  have b': "batch' = [settled_to start ?w..<next_to_flush ?w + 1]"
    using n(1) unfolding w(1) an by (subst n(2)) simp
  have e: "next_to_flush ?w \<le> x \<longleftrightarrow> Suc (next_to_flush ?w) \<le> x \<or> x = next_to_flush ?w" for x by auto
  show "lead_inv (gc_wal ?g) (gc_pc ?g) (gc_leader ?g)" using d(1) l by (auto simp: lead_inv_def w)
  show "num_inv start (gc_wal ?g) (gc_pc ?g) (gc_leader ?g)"
    using n(1,3-5) nf(2) by (simp add: num_inv_def b' w(2) del: upt_Suc)
  show "ring_inv start (gc_wal ?g) (gc_leader ?g)"
    using d(3) l by (auto simp: ring_inv_def w an e)
  show "heap_inv start (gc_wal ?g)" using d(4) by (simp add: heap_inv_def w)
  show "claims_inv N start (gc_wal ?g) (gc_pc ?g)" using d(5) by (simp add: claims_inv_def w)
  show "ack_inv start (gc_wal ?g) (gc_pc ?g)" using d(6) by (simp add: ack_inv_def w)
  have "next_to_flush ?w \<noteq> x" if "gc_pc g u = Reserved x" for u x
    using d(8) that a an by (auto simp: res_inv_def)
  then show "res_inv (gc_wal ?g) (gc_pc ?g)"
    using d(8) by (auto simp: res_inv_def w e)
  show "seg_inv start base (gc_wal ?g)" using d(7) by (simp add: seg_inv_def w acked_def)
qed

lemma collect_no_throw:
  assumes inv: "wal_inv N start base g" and N: "N \<le> kWalRingCapacity" and l: "gc_leader g = Some (t, Drain target batch)"
  shows "collect_one target batch (gc_wal g) \<noteq> CollectThrow err"
proof
  let ?w = "gc_wal g"
  note d = wal_invD [OF inv]
  assume "collect_one target batch ?w = CollectThrow err"
  then obtain a where nf: "next_to_flush ?w \<noteq> target" "length batch < kWalRingCapacity"
    and a: "ring ?w (next_to_flush ?w mod kWalRingCapacity) = Some a" and m: "pr_lsn (rec_at ?w a) \<noteq> next_to_flush ?w"
    by (auto simp: collect_one_def split: if_splits option.splits)
  have "a = next_to_flush ?w" by (rule ring_slot_correct [OF inv N l nf a])
  moreover have "pr_lsn (rec_at ?w a) = a" using d(3) a by (intro heap_inv_lsn [OF d(4)]) (auto simp: ring_inv_def)
  ultimately show False using m by simp
qed

text \<open>What a write leaves behind: a prefix of the batch, all of it when every call wrote in full.\<close>

lemma writev_chunks_prefix:
  "\<exists>k. fst (writev_chunks ws bufs fl) = fl @ take k (concat bufs)
     \<and> (snd (writev_chunks ws bufs fl) \<longrightarrow> fst (writev_chunks ws bufs fl) = fl @ concat bufs)"
proof (induction ws bufs fl rule: writev_chunks.induct)
  case (1 ws bufs fl)
  let ?chunk = "concat (take IOV_MAX bufs)" and ?rest = "concat (drop IOV_MAX bufs)"
  define n where "n = (case ws of [] \<Rightarrow> length ?chunk | x # _ \<Rightarrow> min x (length ?chunk))"
  have split: "concat bufs = ?chunk @ ?rest" by (metis append_take_drop_id concat_append)
  have le: "n \<le> length ?chunk" by (simp add: n_def split: list.splits)
  show ?case
  proof (cases "bufs = [] \<or> n \<noteq> length ?chunk")
    case True
    then consider (nil) "bufs = []" | (short) "bufs \<noteq> []" "n \<noteq> length ?chunk" by blast
    then show ?thesis
    proof cases
      case nil
      then show ?thesis by (simp add: writev_chunks.simps)
    next
      case short
      then have "writev_chunks ws bufs fl = (fl @ take n ?chunk, False)"
        by (subst writev_chunks.simps) (simp add: n_def Let_def)
      moreover have "take n (concat bufs) = take n ?chunk" using le split by simp
      ultimately show ?thesis by (intro exI [of _ n]) simp
    qed
  next
    case False
    then have e: "writev_chunks ws bufs fl = writev_chunks (tl ws) (drop IOV_MAX bufs) (fl @ ?chunk)"
      by (subst writev_chunks.simps) (simp add: n_def [symmetric] Let_def)
    have t: "take n ?chunk = ?chunk" using False by simp
    obtain k where k: "fst (writev_chunks ws bufs fl) = (fl @ ?chunk) @ take k ?rest"
      "snd (writev_chunks ws bufs fl) \<longrightarrow> fst (writev_chunks ws bufs fl) = (fl @ ?chunk) @ ?rest"
      using "1" [OF _ refl n_def refl] False unfolding e t by blast
    have "(fl @ ?chunk) @ take k ?rest = fl @ take (length ?chunk + k) (concat bufs)" by (simp add: split)
    then show ?thesis using k split by (metis append_assoc)
  qed
qed

lemma set_errors_simps [simp]:
  "ring (set_errors e as w) = ring w" "next_lsn (set_errors e as w) = next_lsn w"
  "next_to_flush (set_errors e as w) = next_to_flush w" "flushing (set_errors e as w) = flushing w"
  "highest_settled_lsn (set_errors e as w) = highest_settled_lsn w" "poisoned (set_errors e as w) = poisoned w"
  "segment (set_errors e as w) = segment w" "synced (set_errors e as w) = synced w"
  by (induction e as w rule: set_errors.induct) simp_all

lemma heap_set_errors:
  "heap (set_errors e as w) a = (if a \<in> set as then map_option (\<lambda>r. r\<lparr>pr_error := e\<rparr>) (heap w a) else heap w a)"
  by (induction e as w rule: set_errors.induct) (auto simp: option.map_comp comp_def)

lemma rec_at_set_errors:
  assumes "heap w a \<noteq> None"
  shows "pr_buffer (rec_at (set_errors e as w) a) = pr_buffer (rec_at w a)" "pr_lsn (rec_at (set_errors e as w) a) = pr_lsn (rec_at w a)"
    "pr_error (rec_at (set_errors e as w) a) = (if a \<in> set as then e else pr_error (rec_at w a))"
  using assms by (auto simp: rec_at_def heap_set_errors)

lemma settled_grows: "wal_inv N start base g \<Longrightarrow> start \<le> settled_to start (gc_wal g)"
  by (simp add: settled_to_def)

text \<open>A written batch: settled up to the front of the queue; the segment grows by the whole batch or not at all.\<close>

lemma write_batch_effect:
  fixes io :: IoOutcome
  assumes h: "heap_inv start w" and b: "batch = [settled_to start w..<next_to_flush w]" "batch \<noteq> []"
    and n: "next_to_flush w \<le> next_lsn w"
  defines "w' \<equiv> write_and_fsync_batch io batch w"
  shows "ring w' = ring w" "next_lsn w' = next_lsn w" "next_to_flush w' = next_to_flush w" "flushing w' = flushing w"
    "settled_to start w' = next_to_flush w"
    "\<And>a. start \<le> a \<Longrightarrow> a < next_lsn w \<Longrightarrow>
       heap w' a \<noteq> None \<and> pr_lsn (rec_at w' a) = pr_lsn (rec_at w a) \<and> pr_buffer (rec_at w' a) = pr_buffer (rec_at w a)"
    "\<And>a. start \<le> a \<Longrightarrow> a < settled_to start w \<Longrightarrow> pr_error (rec_at w' a) = pr_error (rec_at w a)"
    "io_fstat_ok io \<Longrightarrow> io_truncate_ok io \<Longrightarrow> seg_inv start base w \<Longrightarrow> seg_inv start base w'"
    "\<And>a. next_to_flush w \<le> a \<Longrightarrow> a < next_lsn w \<Longrightarrow> pr_error (rec_at w' a) = pr_error (rec_at w a)"
proof -
  let ?bufs = "map (\<lambda>a. pr_buffer (rec_at w a)) batch"
  obtain fl written where wr: "writev_chunks (io_written io) ?bufs (segment w) = (fl, written)" by fastforce
  define ok where "ok \<longleftrightarrow> written \<and> io_sync_ok io"
  define cut where "cut = (if io_truncate_ok io then take (if io_fstat_ok io then length (segment w) else 0) fl else fl)"
  define w1 where "w1 = w\<lparr>segment := (if ok then fl else cut),
    synced := (if ok then length fl else min (synced w) (length cut)), poisoned := poisoned w \<or> \<not> ok\<rparr>"
  define e where "e = (if ok then None else Some WalIoError)"
  have st: "start \<le> settled_to start w" by (simp add: settled_to_def)
  have mem: "set batch = {settled_to start w..<next_to_flush w}" by (subst b(1)) simp
  have last: "settled_to start w < next_to_flush w" "last batch = next_to_flush w - 1"
  proof -
    show lt: "settled_to start w < next_to_flush w" using b by (metis not_less upt_eq_Nil_conv)
    show "last batch = next_to_flush w - 1" using lt by (subst b(1)) simp
  qed
  have lsn: "pr_lsn (rec_at w (last batch)) = next_to_flush w - 1"
    using heap_inv_lsn [OF h, of "last batch"] last n st by simp
  have w': "w' = (set_errors e batch w1)\<lparr>highest_settled_lsn := next_to_flush w - 1\<rparr>"
    unfolding w'_def write_and_fsync_batch_def wr by (simp add: lsn w1_def e_def ok_def cut_def Let_def)
  have rec: "rec_at w1 a = rec_at w a" "heap w1 a = heap w a" for a by (simp_all add: w1_def rec_at_def)
  show "ring w' = ring w" "next_lsn w' = next_lsn w" "next_to_flush w' = next_to_flush w" "flushing w' = flushing w"
    by (simp_all add: w' w1_def)
  show s': "settled_to start w' = next_to_flush w" using last(1) st by (simp add: w' settled_to_def)
  show keep: "heap w' a \<noteq> None \<and> pr_lsn (rec_at w' a) = pr_lsn (rec_at w a) \<and> pr_buffer (rec_at w' a) = pr_buffer (rec_at w a)"
    if "start \<le> a" "a < next_lsn w" for a
    using heap_invD [OF h that] rec_at_set_errors [of w1 a e batch] by (simp add: w' rec heap_set_errors)
  have err: "pr_error (rec_at w' a) = (if a \<in> set batch then e else pr_error (rec_at w a))" if "start \<le> a" "a < next_lsn w" for a
    using heap_invD [OF h that] rec_at_set_errors(3) [of w1 a e batch] by (simp add: w' rec)
  show same: "pr_error (rec_at w' a) = pr_error (rec_at w a)" if "start \<le> a" "a < settled_to start w" for a
    using err [of a] that last(1) n by (simp add: mem)
  show "pr_error (rec_at w' a) = pr_error (rec_at w a)" if "next_to_flush w \<le> a" "a < next_lsn w" for a
    using err [of a] that last(1) st by (simp add: mem)
  assume io: "io_fstat_ok io" "io_truncate_ok io" and seg: "seg_inv start base w"
  have "[start..<next_to_flush w] = [start..<settled_to start w] @ batch"
    using st last(1) upt_add_eq_append [of start "settled_to start w" "next_to_flush w - settled_to start w"]
    by (subst b(1)) simp
  then have "acked start w' = filter (\<lambda>a. pr_error (rec_at w' a) = None) [start..<settled_to start w]
      @ filter (\<lambda>a. pr_error (rec_at w' a) = None) batch"
    unfolding acked_def s' by simp
  also have "filter (\<lambda>a. pr_error (rec_at w' a) = None) [start..<settled_to start w] = acked start w"
    unfolding acked_def by (rule filter_cong) (auto simp: same)
  also have "filter (\<lambda>a. pr_error (rec_at w' a) = None) batch = (if ok then batch else [])"
    using err mem st n by (auto simp: e_def filter_empty_conv intro!: filter_True)
  finally have ack: "acked start w' = acked start w @ (if ok then batch else [])" .
  have bufs: "map (\<lambda>a. pr_buffer (rec_at w' a)) (acked start w') = map (\<lambda>a. pr_buffer (rec_at w a)) (acked start w')"
    unfolding acked_def s' using keep n by (intro map_cong) auto
  obtain k where k: "fl = segment w @ take k (concat ?bufs)" "written \<Longrightarrow> fl = segment w @ concat ?bufs"
    using writev_chunks_prefix [of "io_written io" ?bufs "segment w"] unfolding wr fst_conv snd_conv by blast
  show "seg_inv start base w'"
  proof (cases ok)
    case True
    then have "fl = segment w @ concat ?bufs" using k(2) by (simp add: ok_def)
    then have "segment w' = segment w @ concat ?bufs" "synced w' = length (segment w')" using True by (simp_all add: w' w1_def)
    then show ?thesis using seg unfolding seg_inv_def ack bufs [unfolded ack] using True by simp
  next
    case False
    then have "segment w' = segment w" "synced w' = min (synced w) (length (segment w))" using io by (simp_all add: w' w1_def cut_def k(1))
    then show ?thesis using seg unfolding seg_inv_def ack bufs [unfolded ack] using False by simp
  qed
qed

lemma write_inv:
  assumes inv: "wal_inv N start base g" and l: "gc_leader g = Some (t, Drain target batch)" and ne: "batch \<noteq> []"
    and io: "io_fstat_ok io" "io_truncate_ok io"
  shows "wal_inv N start base (lead t (Retire target batch) (g\<lparr>gc_wal := write_and_fsync_batch io batch (gc_wal g)\<rparr>))"
    (is "wal_inv N start base ?g")
proof (rule wal_invI)
  let ?w = "gc_wal g"
  note d = wal_invD [OF inv]
  have n: "settled_to start ?w + length batch = next_to_flush ?w" "next_to_flush ?w \<le> next_lsn ?w"
      "batch = [settled_to start ?w..<next_to_flush ?w]" "next_to_flush ?w \<le> target" "target \<le> next_lsn ?w"
      "\<forall>x. gc_pc g t = Leading x \<longrightarrow> x < target"
    using d(2) l by (auto simp: num_inv_def)
  have st: "start \<le> settled_to start ?w" by (simp add: settled_to_def)
  have mem: "set batch = {settled_to start ?w..<next_to_flush ?w}" by (subst n(3)) simp
  note e = write_batch_effect [OF d(4) n(3) ne n(2)]
  let ?w' = "write_and_fsync_batch io batch ?w"
  show "lead_inv (gc_wal ?g) (gc_pc ?g) (gc_leader ?g)" using d(1) l by (auto simp: lead_inv_def e)
  show "num_inv start (gc_wal ?g) (gc_pc ?g) (gc_leader ?g)"
    using n(2,4-6) st by (auto simp: num_inv_def e mem)
  show "ring_inv start (gc_wal ?g) (gc_leader ?g)" using d(3) l by (simp add: ring_inv_def e)
  show "heap_inv start (gc_wal ?g)"
    unfolding heap_inv_def
  proof (intro allI impI)
    fix a assume a: "start \<le> a \<and> a < next_lsn (gc_wal ?g)"
    then have "pr_lsn (rec_at ?w' a) = a" "heap ?w' a \<noteq> None"
      using e(6) [of a] heap_inv_lsn [OF d(4), of a] by (simp_all add: e(2))
    then show "\<exists>r. heap (gc_wal ?g) a = Some r \<and> pr_lsn r = a" by (auto simp: rec_at_def)
  qed
  show "claims_inv N start (gc_wal ?g) (gc_pc ?g)"
    using d(5) n(1) unfolding claims_inv_def by (simp add: e)
  have grow: "settled_to start ?w \<le> next_to_flush ?w" using n(1) by simp
  show "ack_inv start (gc_wal ?g) (gc_pc ?g)"
    unfolding ack_inv_def
  proof (intro conjI allI impI)
    fix x a y assume "gc_pc ?g x = Done a y"
    then have a: "start \<le> a" "a < settled_to start ?w" "y = pr_error (rec_at ?w a)" using d(6) by (auto simp: ack_inv_def)
    show "start \<le> a" "a < settled_to start (gc_wal ?g)" "y = pr_error (rec_at (gc_wal ?g) a)"
      using a grow e(7) [of a] by (simp_all add: e(5))
  next
    fix x a m assume "gc_pc ?g x = Rechecking a m"
    then have "start \<le> a" "a < settled_to start ?w" using d(6) by (auto simp: ack_inv_def)
    then show "start \<le> a" "a < settled_to start (gc_wal ?g)" using grow by (simp_all add: e(5))
  qed
  show "res_inv (gc_wal ?g) (gc_pc ?g)" using d(8) by (simp add: res_inv_def e)
  show "seg_inv start base (gc_wal ?g)" using e(8) [OF io] d(7) by simp
qed

lemma retire_inv:
  assumes inv: "wal_inv N start base g" and l: "gc_leader g = Some (t, Retire target (a # as))"
  shows "wal_inv N start base (lead t (Retire target as) (g\<lparr>gc_wal := retire_one a (gc_wal g)\<rparr>))"
proof -
  let ?w = "gc_wal g"
  note d = wal_invD [OF inv]
  have a: "start \<le> a" "a < next_lsn ?w" using d(2) l by (auto simp: num_inv_def)
  let ?w1 = "?w\<lparr>ring := (ring ?w)(a mod kWalRingCapacity := None)\<rparr>"
  have r: "retire_one a ?w = release a ?w1" using heap_inv_lsn [OF d(4) a] by (simp add: retire_one_def)
  have h: "heap ?w1 a \<noteq> None" using heap_invD [OF d(4) a] by simp
  have "ring_inv start ?w1 (Some (t, Retire target as))" using d(3) l by (auto simp: ring_inv_def)
  moreover have "lead_inv ?w1 (gc_pc g) (Some (t, Retire target as))" using d(1) l by (auto simp: lead_inv_def)
  moreover have "num_inv start ?w1 (gc_pc g) (Some (t, Retire target as))" using d(2) l by (auto simp: num_inv_def)
  moreover have "heap_inv start ?w1" "claims_inv N start ?w1 (gc_pc g)" "ack_inv start ?w1 (gc_pc g)"
      "seg_inv start base ?w1" "res_inv ?w1 (gc_pc g)"
    using d(4-8) by (auto simp: heap_inv_def claims_inv_def ack_inv_def seg_inv_def acked_def res_inv_def)
  ultimately show ?thesis by (simp add: wal_inv_def r release_inv [OF h])
qed

text \<open>Reading the length of the segment and cutting it back always succeed; writes and syncs need not.\<close>

definition io_repairable :: "Env \<Rightarrow> bool" where
  "io_repairable env \<longleftrightarrow> (\<forall>io. env_io env io \<longrightarrow> io_fstat_ok io \<and> io_truncate_ok io)"

definition env_safe :: "Env \<Rightarrow> bool" where
  "env_safe env \<longleftrightarrow> env_tickets env \<le> kWalRingCapacity \<and> \<not> env_alloc_fails env \<and> io_repairable env"

lemma wal_step_inv:
  assumes "wal_step env g g'" and safe: "env_safe env" and inv: "wal_inv (env_tickets env) start base g"
  shows "wal_inv (env_tickets env) start base g'"
  using assms(1)
proof cases
  case (check t ty key "value")
  then show ?thesis using inv by (auto intro: goto_inv)
next
  case (again t lsn e)
  then show ?thesis using inv by (auto intro: goto_inv)
next
  case (elect_follower t lsn)
  then show ?thesis using goto_inv [OF inv, of t "Waiting lsn"] claims_invD(2) [OF wal_invD(5) [OF inv], of t] by simp
next
  case (woken t lsn)
  then show ?thesis using finish_inv [OF inv, of t lsn] by (simp add: settled_to_def)
next
  case (caught_up t lsn target)
  then have "lsn < settled_to start (gc_wal g)" using wal_invD(6) [OF inv] by (auto simp: ack_inv_def)
  then show ?thesis using finish_inv [OF inv, of t lsn] caught_up by simp
next
  case (collect_mismatch t target batch err)
  then show ?thesis using collect_no_throw [OF inv] safe by (auto simp: env_safe_def io_repairable_def)
next
  case (collect_bad_alloc t target batch batch' w)
  then show ?thesis using safe by (simp add: env_safe_def)
next
  case (write_batch t target batch io)
  then show ?thesis using write_inv [OF inv write_batch(2,4), of io] safe by (auto simp: env_safe_def io_repairable_def)
next
  case (sweep t err target w)
  then show ?thesis using wal_invD(1) [OF inv] by (auto simp: lead_inv_def)
next
  case (sweep_again t err target)
  then show ?thesis using wal_invD(1) [OF inv] by (auto simp: lead_inv_def)
next
  case (sweep_end t err target lsn)
  then show ?thesis using wal_invD(1) [OF inv] by (auto simp: lead_inv_def)
qed (use inv safe in \<open>auto simp: env_safe_def intro: alloc_inv [simplified] publish_inv [simplified] elect_inv drain_inv collect_inv retire_inv
      next_round_inv release_leadership_inv\<close>)

lemma wal_inv_start:
  assumes "1 \<le> start"
  shows "wal_inv N start base (GroupConfig_start start base)"
  using assms
  by (simp add: wal_inv_def GroupConfig_start_def Wal_start_def lead_inv_def num_inv_def ring_inv_def heap_inv_def
      claims_inv_def ack_inv_def res_inv_def seg_inv_def acked_def settled_to_def)

lemma wal_reach_inv:
  assumes "wal_reach env (GroupConfig_start start base) g" "env_safe env" "1 \<le> start"
  shows "wal_inv (env_tickets env) start base g"
  using assms(1)
proof (induction "GroupConfig_start start base" g rule: wal_reach.induct)
  case reach_refl
  show ?case by (rule wal_inv_start [OF assms(3)])
next
  case (reach_step g' g'')
  show ?case by (rule wal_step_inv [OF reach_step(3) assms(2) reach_step(2)])
qed

section \<open>An executable schedule\<close>

datatype action = Begin nat WalRecordType bytes bytes | Thread nat | Lead IoOutcome | BadAlloc

definition thread_step :: "nat \<Rightarrow> GroupConfig \<Rightarrow> GroupConfig option" where
  "thread_step t g =
     (case gc_pc g t of
        Idle \<Rightarrow> None
      | Checked ty key value \<Rightarrow>
          (case reserve_alloc ty key value (gc_wal g) of (lsn, w) \<Rightarrow> Some (goto t (Reserved lsn) (g\<lparr>gc_wal := w\<rparr>)))
      | Reserved lsn \<Rightarrow> map_option (\<lambda>w. goto t (Published lsn) (g\<lparr>gc_wal := w\<rparr>)) (ring_publish lsn (gc_wal g))
      | Published lsn \<Rightarrow> Some (if flushing (gc_wal g) then goto t (Waiting lsn) g else elect t lsn g)
      | Waiting lsn \<Rightarrow>
          if lsn \<le> highest_settled_lsn (gc_wal g) then Some (finish t lsn g)
          else if \<not> flushing (gc_wal g) then Some (elect t lsn g) else None
      | Leading lsn \<Rightarrow> None
      | Rechecking lsn target \<Rightarrow>
          Some (if next_lsn (gc_wal g) = target \<or> flushing (gc_wal g) then finish t lsn g else elect t lsn g)
      | Done lsn e \<Rightarrow> Some (goto t Idle g))"

definition leader_step :: "Env \<Rightarrow> IoOutcome \<Rightarrow> GroupConfig \<Rightarrow> GroupConfig option" where
  "leader_step env io g =
     (case gc_leader g of
        None \<Rightarrow> None
      | Some (t, StartDrain) \<Rightarrow> Some (lead t (Drain (next_lsn (gc_wal g)) []) g)
      | Some (t, Drain target batch) \<Rightarrow>
          (case collect_one target batch (gc_wal g) of
             CollectSpin \<Rightarrow> None
           | CollectThrow err \<Rightarrow>
               Some (lead t (Sweep err (next_lsn (gc_wal g))) (g\<lparr>gc_wal := (gc_wal g)\<lparr>poisoned := True\<rparr>\<rparr>))
           | CollectGot batch' w \<Rightarrow> Some (lead t (Drain target batch') (g\<lparr>gc_wal := w\<rparr>))
           | CollectDone \<Rightarrow>
               if batch \<noteq> []
               then Some (lead t (Retire target batch) (g\<lparr>gc_wal := write_and_fsync_batch io batch (gc_wal g)\<rparr>))
               else (case gc_pc g t of
                       Leading lsn \<Rightarrow>
                         Some (g\<lparr>gc_wal := (gc_wal g)\<lparr>flushing := False\<rparr>,
                                 gc_pc := (gc_pc g)(t := Rechecking lsn target), gc_leader := None\<rparr>)
                     | _ \<Rightarrow> None))
      | Some (t, Retire target []) \<Rightarrow> Some (lead t (Drain target []) g)
      | Some (t, Retire target (a # as)) \<Rightarrow> Some (lead t (Retire target as) (g\<lparr>gc_wal := retire_one a (gc_wal g)\<rparr>))
      | Some (t, Sweep err target) \<Rightarrow>
          if next_to_flush (gc_wal g) \<noteq> target
          then map_option (\<lambda>w. g\<lparr>gc_wal := w\<rparr>) (sweep_one err (gc_wal g))
          else if next_lsn (gc_wal g) \<noteq> target then Some (lead t (Sweep err (next_lsn (gc_wal g))) g)
          else (case gc_pc g t of
                  Leading lsn \<Rightarrow>
                    Some (g\<lparr>gc_wal := (gc_wal g)\<lparr>highest_settled_lsn := target - 1, flushing := False\<rparr>,
                            gc_pc := (gc_pc g)(t := Done lsn (Some err)), gc_leader := None\<rparr>)
                | _ \<Rightarrow> None))"

definition perform :: "Env \<Rightarrow> action \<Rightarrow> GroupConfig \<Rightarrow> GroupConfig option" where
  "perform env act g =
     (case act of
        Begin t ty key value \<Rightarrow>
          if t < env_tickets env \<and> gc_pc g t = Idle \<and> \<not> poisoned (gc_wal g)
          then Some (goto t (Checked ty key value) g) else None
      | Thread t \<Rightarrow> thread_step t g
      | Lead io \<Rightarrow> if env_io env io then leader_step env io g else None
      | BadAlloc \<Rightarrow>
          (case gc_leader g of
             Some (t, Drain target batch) \<Rightarrow>
               (case collect_one target batch (gc_wal g) of
                  CollectGot batch' w \<Rightarrow>
                    if env_alloc_fails env
                    then Some (lead t (Sweep WalIoError (next_lsn (gc_wal g))) (g\<lparr>gc_wal := (gc_wal g)\<lparr>poisoned := True\<rparr>\<rparr>))
                    else None
                | _ \<Rightarrow> None)
           | _ \<Rightarrow> None))"

fun perform_all :: "Env \<Rightarrow> action list \<Rightarrow> GroupConfig \<Rightarrow> GroupConfig option" where
  "perform_all env [] g = Some g"
| "perform_all env (act # acts) g = (case perform env act g of None \<Rightarrow> None | Some g' \<Rightarrow> perform_all env acts g')"

lemma thread_step_sound: "thread_step t g = Some g' \<Longrightarrow> wal_step env g g'"
  unfolding thread_step_def
  by (auto split: pc.splits prod.splits if_splits option.splits
      intro: again alloc [simplified] publish [simplified] elect_leader elect_follower woken timeout caught_up reclaim)

lemma collect_done_empty: "collect_one target [] w = CollectDone \<Longrightarrow> next_to_flush w = target"
  by (auto simp: collect_one_def kWalRingCapacity_def split: if_splits option.splits)

lemma leader_step_sound: "leader_step env io g = Some g' \<Longrightarrow> env_io env io \<Longrightarrow> wal_step env g g'"
  unfolding leader_step_def
  by (auto split: option.splits prod.splits phase.splits list.splits CollectResult.splits if_splits pc.splits
      intro: drain collect collect_mismatch write_batch retire next_round release_leadership collect_done_empty
        sweep sweep_again sweep_end [unfolded One_nat_def])

lemma perform_sound: "perform env act g = Some g' \<Longrightarrow> wal_step env g g'"
  unfolding perform_def
  by (auto split: action.splits if_splits option.splits prod.splits phase.splits CollectResult.splits
      intro: check thread_step_sound leader_step_sound collect_bad_alloc)

lemma perform_all_sound: "perform_all env acts g = Some g' \<Longrightarrow> wal_reach env g0 g \<Longrightarrow> wal_reach env g0 g'"
proof (induction acts arbitrary: g)
  case (Cons act acts)
  then obtain g1 where "perform env act g = Some g1" "perform_all env acts g1 = Some g'" by (auto split: option.splits)
  then show ?case using Cons.IH reach_step [OF Cons.prems(2) perform_sound] by blast
qed simp

section \<open>Properties\<close>

text \<open>
  C4: Group commit is durable and ordered. Let at most 4096 records be outstanding at a time (however
  the threads share them), let reading the segment's length and cutting the segment back succeed, and
  let no allocation of the leader fail; writes may come back short or fail and syncs may fail. Then
  in every reachable interleaving the synced part of the segment is the segment found at start
  followed by exactly the acknowledged records in the order of their numbers, and a record whose
  \<open>await_durable\<close> returned without an error is among them.
\<close>

theorem group_commit_durable:
  assumes "env_tickets env \<le> kWalRingCapacity" and "\<not> env_alloc_fails env" and "io_repairable env"
    and "1 \<le> start" and "wal_reach env (GroupConfig_start start base) g"
  shows "take (synced (gc_wal g)) (segment (gc_wal g))
      = base @ concat (map (\<lambda>a. pr_buffer (rec_at (gc_wal g) a)) (acked start (gc_wal g)))
    \<and> sorted_wrt (<) (acked start (gc_wal g))
    \<and> (\<forall>t a. gc_pc g t = Done a None \<longrightarrow> a \<in> set (acked start (gc_wal g)))"
proof -
  have "env_safe env" using assms(1-3) by (simp add: env_safe_def)
  note d = wal_invD [OF wal_reach_inv [OF assms(5) this assms(4)]]
  have "sorted_wrt (<) (acked start (gc_wal g))"
    unfolding acked_def by (intro sorted_wrt_filter) simp
  moreover have "a \<in> set (acked start (gc_wal g))" if "gc_pc g t = Done a None" for t a
  proof -
    have "start \<le> a \<and> a < settled_to start (gc_wal g) \<and> None = pr_error (rec_at (gc_wal g) a)"
      using d(6) that unfolding ack_inv_def by blast
    then show ?thesis by (simp add: acked_def)
  qed
  ultimately show ?thesis using d(7) by (auto simp: seg_inv_def)
qed

definition io_good :: IoOutcome where
  "io_good = \<lparr>io_fstat_ok = True, io_written = [], io_sync_ok = True, io_truncate_ok = True\<rparr>"

definition io_short :: IoOutcome where
  "io_short = \<lparr>io_fstat_ok = True, io_written = [7], io_sync_ok = True, io_truncate_ok = True\<rparr>"

definition two_writers :: Env where
  "two_writers = \<lparr>env_tickets = 2, env_io = (\<lambda>io. io_fstat_ok io \<and> io_truncate_ok io), env_alloc_fails = False\<rparr>"

lemma two_writers_env: "env_tickets two_writers \<le> kWalRingCapacity" "\<not> env_alloc_fails two_writers" "io_repairable two_writers"
  by (simp_all add: two_writers_def kWalRingCapacity_def io_repairable_def)

definition writes_once :: "nat \<Rightarrow> IoOutcome \<Rightarrow> action list" where
  "writes_once t io = [Begin t WalInsert [107] [118], Thread t, Thread t, Thread t, Lead io, Lead io, Lead io, Lead io,
     Lead io, Lead io, Thread t]"

definition seen :: "GroupConfig option \<Rightarrow> (pc \<times> pc \<times> nat \<times> nat) option" where
  "seen r = map_option (\<lambda>g. (gc_pc g 0, gc_pc g 1, length (segment (gc_wal g)), synced (gc_wal g))) r"

lemma record_bytes_not_Nil: "record_bytes r \<noteq> []"
  using length_record_bytes [of r] by (auto simp: kWalRecordHeaderBytes_def)

lemmas run_defs = perform_def thread_step_def leader_step_def elect_def finish_def reserve_alloc_def ring_publish_def
  collect_one_def write_and_fsync_batch_def writev_chunks.simps retire_one_def sweep_one_def release_def upd_rec_def
  rec_at_def GroupConfig_start_def Wal_start_def kWalRingCapacity_def IOV_MAX_def io_good_def io_short_def
  two_writers_def writes_once_def seen_def length_record_bytes kWalRecordHeaderBytes_def Let_def

lemma two_writers_run:
  "seen (perform_all two_writers (writes_once 0 io_good @ writes_once 1 io_short) (GroupConfig_start 1 []))
     = Some (Done 1 None, Done 2 (Some WalIoError), 34, 34)"
  by (simp add: run_defs)

lemma seenE:
  assumes "seen (perform_all env acts g) = Some (p0, p1, n, m)"
  obtains g' where "wal_reach env g g'" "gc_pc g' 0 = p0" "gc_pc g' 1 = p1" "length (segment (gc_wal g')) = n" "synced (gc_wal g') = m"
proof -
  obtain g' where g': "perform_all env acts g = Some g'" using assms by (cases "perform_all env acts g") (auto simp: seen_def)
  show ?thesis using assms by (intro that [OF perform_all_sound [OF g' reach_refl]]) (simp_all add: seen_def g')
qed

theorem group_commit_durable_witness:
  "\<exists>g. wal_reach two_writers (GroupConfig_start 1 []) g \<and> gc_pc g 0 = Done 1 None \<and> gc_pc g 1 = Done 2 (Some WalIoError)
     \<and> 1 \<in> set (acked 1 (gc_wal g)) \<and> length (segment (gc_wal g)) = 34"
proof -
  obtain g where g: "wal_reach two_writers (GroupConfig_start 1 []) g" "gc_pc g 0 = Done 1 None"
      "gc_pc g 1 = Done 2 (Some WalIoError)" "length (segment (gc_wal g)) = 34"
    using two_writers_run by (rule seenE) blast
  from group_commit_durable [OF two_writers_env _ g(1)] g show ?thesis by auto
qed

text \<open>
  C26: The consistency check of the ring never fires: with at most as many outstanding records as
  slots, no failing allocation and a segment whose length can be read and cut back, the record the
  leader finds in a slot is always the one whose number it is looking for, although producers publish
  out of order and slots are reused.
\<close>

theorem ring_never_mismatched:
  assumes "env_tickets env \<le> kWalRingCapacity" and "\<not> env_alloc_fails env" and "io_repairable env"
    and "1 \<le> start" and "wal_reach env (GroupConfig_start start base) g"
    and "gc_leader g = Some (t, Drain target batch)"
  shows "collect_one target batch (gc_wal g) \<noteq> CollectThrow err"
  using collect_no_throw [OF wal_reach_inv [OF assms(5) _ assms(4)] assms(1,6)] assms(1-3) by (simp add: env_safe_def)

theorem ring_never_mismatched_witness:
  "\<exists>g. wal_reach two_writers (GroupConfig_start 1 []) g \<and> gc_leader g = Some (0, Drain 2 [])
     \<and> collect_one 2 [] (gc_wal g) \<noteq> CollectThrow RingMismatch"
proof -
  let ?r = "perform_all two_writers (take 5 (writes_once 0 io_good)) (GroupConfig_start 1 [])"
  have "map_option gc_leader ?r = Some (Some (0, Drain 2 []))"
    by (simp add: run_defs numeral_2_eq_2)
  then obtain g where g: "?r = Some g" "gc_leader g = Some (0, Drain 2 [])" by auto
  have r: "wal_reach two_writers (GroupConfig_start 1 []) g" by (rule perform_all_sound [OF g(1) reach_refl])
  from ring_never_mismatched [OF two_writers_env _ r g(2)] show ?thesis using r g(2) by auto
qed

definition reserve_many :: "nat \<Rightarrow> Wal \<Rightarrow> Wal" where
  "reserve_many n w = ((\<lambda>w. snd (reserve_alloc WalInsert [107] [118] w)) ^^ n) w"

lemma reserve_many_simps:
  "next_lsn (reserve_many n w) = next_lsn w + n" "ring (reserve_many n w) = ring w"
  "next_to_flush (reserve_many n w) = next_to_flush w"
  by (induction n) (simp_all add: reserve_many_def reserve_alloc_def Let_def)

lemma reserve_many_heap:
  "next_lsn w \<le> a \<Longrightarrow> a < next_lsn w + n \<Longrightarrow> heap (reserve_many n w) a \<noteq> None \<and> pr_lsn (rec_at (reserve_many n w) a) = a"
proof (induction n)
  case (Suc n)
  have s: "reserve_many (Suc n) w = snd (reserve_alloc WalInsert [107] [118] (reserve_many n w))" by (simp add: reserve_many_def)
  show ?case using Suc unfolding s
    by (auto simp: reserve_alloc_def Let_def rec_at_def reserve_many_simps less_Suc_eq)
qed simp

text \<open>
  The bound on the outstanding records matters. With 4097 reserved numbers of which the first is not yet
  published, the last one can be published in the slot of the first, and the leader then meets a
  foreign record.
\<close>

lemma ring_mismatch_beyond_capacity:
  "\<exists>w. ring_publish 4097 (reserve_many 4097 (Wal_start 1 [])) = Some w
     \<and> collect_one (next_lsn w) [] w = CollectThrow RingMismatch"
proof -
  let ?w = "reserve_many 4097 (Wal_start 1 [])"
  let ?w' = "?w\<lparr>ring := (ring ?w)(1 := Some 4097)\<rparr>"
  have n: "next_lsn ?w = 4098" "ring ?w = (\<lambda>_. None)" "next_to_flush ?w = 1"
    unfolding reserve_many_simps by (simp_all add: Wal_start_def)
  have "pr_lsn (rec_at ?w 4097) = 4097"
    using reserve_many_heap [of "Wal_start 1 []" 4097 4097] by (simp add: Wal_start_def)
  then have "collect_one (next_lsn ?w') [] ?w' = CollectThrow RingMismatch"
    by (simp add: collect_one_def kWalRingCapacity_def n [unfolded One_nat_def])
  moreover have "ring_publish 4097 ?w = Some ?w'" by (simp add: ring_publish_def kWalRingCapacity_def n [unfolded One_nat_def])
  ultimately show ?thesis by blast
qed

section \<open>Two faults\<close>

lemma wal_reach_trans: "wal_reach env g' g'' \<Longrightarrow> wal_reach env g g' \<Longrightarrow> wal_reach env g g''"
  by (induction rule: wal_reach.induct) (auto intro: reach_step)

text \<open>An unsettled record carries no error yet.\<close>

definition fresh_inv :: "nat \<Rightarrow> Wal \<Rightarrow> bool" where
  "fresh_inv start w \<longleftrightarrow> (\<forall>a. settled_to start w \<le> a \<and> a < next_lsn w \<longrightarrow> pr_error (rec_at w a) = None)"

lemma fresh_inv_release: "heap w a \<noteq> None \<Longrightarrow> fresh_inv start (release a w) = fresh_inv start w"
  by (simp add: fresh_inv_def release_rec_at)

lemma drain_batch:
  assumes "wal_inv N start base g" "gc_leader g = Some (t, Drain target batch)"
  shows "batch = [settled_to start (gc_wal g)..<next_to_flush (gc_wal g)]" "next_to_flush (gc_wal g) \<le> next_lsn (gc_wal g)"
    "set batch = {settled_to start (gc_wal g)..<next_to_flush (gc_wal g)}"
proof -
  show b: "batch = [settled_to start (gc_wal g)..<next_to_flush (gc_wal g)]" "next_to_flush (gc_wal g) \<le> next_lsn (gc_wal g)"
    using wal_invD(2) [OF assms(1)] assms(2) by (auto simp: num_inv_def)
  show "set batch = {settled_to start (gc_wal g)..<next_to_flush (gc_wal g)}" by (subst b(1)) simp
qed

lemma ticket_heap: "wal_inv N start base g \<Longrightarrow> lsn_of (gc_pc g t) = Some a \<Longrightarrow> heap (gc_wal g) a \<noteq> None"
  using claims_invD(1) [OF wal_invD(5)] heap_invD [OF wal_invD(4)] by blast

lemma fresh_inv_step:
  assumes "wal_step env g g'" "env_safe env" and inv: "wal_inv (env_tickets env) start base g" and fr: "fresh_inv start (gc_wal g)"
  shows "fresh_inv start (gc_wal g')"
  using assms(1)
proof cases
  case (woken t lsn)
  then show ?thesis using fr fresh_inv_release [OF ticket_heap [OF inv, of t]] by (simp add: finish_def)
next
  case (caught_up t lsn target)
  then show ?thesis using fr fresh_inv_release [OF ticket_heap [OF inv, of t]] by (simp add: finish_def)
next
  case (collect_mismatch t target batch err)
  then show ?thesis using collect_no_throw [OF inv] assms(2) by (auto simp: env_safe_def)
next
  case (write_batch t target batch io)
  note b = drain_batch [OF inv write_batch(2)]
  note e = write_batch_effect [OF wal_invD(4) [OF inv] b(1) write_batch(4) b(2), where io = io]
  have "settled_to start (gc_wal g) \<le> next_to_flush (gc_wal g)" using b(1) write_batch(4) by (metis less_imp_le upt_rec)
  then show ?thesis using fr write_batch(1) by (auto simp: fresh_inv_def e(2,5,9))
next
  case (retire t target a as)
  then have "start \<le> a" "a < next_lsn (gc_wal g)" using wal_invD(2) [OF inv] by (auto simp: num_inv_def)
  then have "heap (gc_wal g) a \<noteq> None" by (rule heap_invD [OF wal_invD(4) [OF inv]])
  then show ?thesis using fr retire(1) by (simp add: retire_one_def fresh_inv_release) (simp add: fresh_inv_def)
next
  case (sweep t err target w)
  then show ?thesis using wal_invD(1) [OF inv] by (auto simp: lead_inv_def)
next
  case (sweep_end t err target lsn)
  then show ?thesis using wal_invD(1) [OF inv] by (auto simp: lead_inv_def)
qed (use fr in \<open>auto simp: fresh_inv_def elect_def reserve_alloc_def ring_publish_def collect_one_def Let_def rec_at_def split: if_splits option.splits\<close>)

lemma wal_reach_fresh:
  assumes "wal_reach env (GroupConfig_start start base) g" "env_safe env" "1 \<le> start"
  shows "fresh_inv start (gc_wal g)"
  using assms(1)
proof (induction "GroupConfig_start start base" g rule: wal_reach.induct)
  case reach_refl
  show ?case by (auto simp: fresh_inv_def GroupConfig_start_def Wal_start_def settled_to_def)
next
  case (reach_step g' g'')
  show ?case by (rule fresh_inv_step [OF reach_step(3) assms(2) wal_reach_inv [OF reach_step(1) assms(2,3)] reach_step(2)])
qed

text \<open>The sweep runs through every published record and touches none behind the front of the queue.\<close>

lemma sweep_all:
  assumes "gc_leader g = Some (t, Sweep err (next_lsn (gc_wal g)))" "next_to_flush (gc_wal g) \<le> next_lsn (gc_wal g)"
    and "\<And>a. next_to_flush (gc_wal g) \<le> a \<Longrightarrow> a < next_lsn (gc_wal g) \<Longrightarrow> ring (gc_wal g) (a mod kWalRingCapacity) = Some a"
  shows "\<exists>w. wal_reach env g (g\<lparr>gc_wal := w\<rparr>) \<and> next_to_flush w = next_lsn (gc_wal g) \<and> next_lsn w = next_lsn (gc_wal g)
    \<and> segment w = segment (gc_wal g) \<and> (\<forall>a < next_to_flush (gc_wal g). heap w a = heap (gc_wal g) a)"
  using assms
proof (induction "next_lsn (gc_wal g) - next_to_flush (gc_wal g)" arbitrary: g)
  case 0
  then have "next_to_flush (gc_wal g) = next_lsn (gc_wal g)" by simp
  then show ?case by (intro exI [of _ "gc_wal g"]) (simp add: reach_refl)
next
  case (Suc n)
  let ?w = "gc_wal g" and ?n = "next_to_flush (gc_wal g)"
  have lt: "?n < next_lsn ?w" using Suc.hyps(2) by simp
  then have r: "ring ?w (?n mod kWalRingCapacity) = Some ?n" using Suc.prems(3) by simp
  then obtain w1 where w1: "sweep_one err ?w = Some w1" by (simp add: sweep_one_def Let_def)
  have f: "next_to_flush w1 = ?n + 1" "next_lsn w1 = next_lsn ?w" "segment w1 = segment ?w"
      "ring w1 = (ring ?w)(?n mod kWalRingCapacity := None)" "\<And>a. a < ?n \<Longrightarrow> heap w1 a = heap ?w a"
    using w1 r by (auto simp: sweep_one_def Let_def release_def)
  have st: "wal_step env g (g\<lparr>gc_wal := w1\<rparr>)" by (rule sweep [OF Suc.prems(1) _ w1]) (use lt in simp)
  have ring: "ring w1 (a mod kWalRingCapacity) = Some a" if "?n + 1 \<le> a" "a < next_lsn ?w" for a
    using Suc.prems(3) [of a] r that by (auto simp: f(4))
  have m: "n = next_lsn ?w - Suc ?n" using Suc.hyps(2) by simp
  obtain w where w: "wal_reach env (g\<lparr>gc_wal := w1\<rparr>) (g\<lparr>gc_wal := w\<rparr>)" "next_to_flush w = next_lsn ?w" "next_lsn w = next_lsn ?w"
      "segment w = segment w1" "\<forall>a < ?n + 1. heap w a = heap w1 a"
    using Suc.hyps(1) [of "g\<lparr>gc_wal := w1\<rparr>"] m Suc.prems(1) lt ring by (auto simp: f(1,2))
  show ?case using w f wal_reach_trans [OF w(1) reach_step [OF reach_refl st]] by (intro exI [of _ w]) simp
qed

text \<open>A waiter whose number is below the end of the sweep is released with the error its record carries.\<close>

lemma sweep_releases:
  assumes "gc_leader g = Some (l, Sweep err (next_lsn (gc_wal g)))" "gc_pc g l = Leading n" "next_to_flush (gc_wal g) \<le> next_lsn (gc_wal g)"
    and "\<And>a. next_to_flush (gc_wal g) \<le> a \<Longrightarrow> a < next_lsn (gc_wal g) \<Longrightarrow> ring (gc_wal g) (a mod kWalRingCapacity) = Some a"
    and "gc_pc g t = Waiting a" "a < next_to_flush (gc_wal g)"
  shows "\<exists>g'. wal_reach env g g' \<and> gc_pc g' t = Done a (pr_error (rec_at (gc_wal g) a)) \<and> segment (gc_wal g') = segment (gc_wal g)"
proof -
  obtain w where w: "wal_reach env g (g\<lparr>gc_wal := w\<rparr>)" "next_to_flush w = next_lsn (gc_wal g)" "next_lsn w = next_lsn (gc_wal g)"
      "segment w = segment (gc_wal g)" "heap w a = heap (gc_wal g) a"
    using sweep_all [OF assms(1,3,4)] assms(6) by blast
  let ?g1 = "g\<lparr>gc_wal := w\<lparr>highest_settled_lsn := next_lsn (gc_wal g) - 1, flushing := False\<rparr>,
    gc_pc := (gc_pc g)(l := Done n (Some err)), gc_leader := None\<rparr>"
  have "wal_step env (g\<lparr>gc_wal := w\<rparr>) ?g1"
    using sweep_end [of "g\<lparr>gc_wal := w\<rparr>" l err "next_lsn (gc_wal g)" n env] assms(1,2) w(2,3) by simp
  moreover have "wal_step env ?g1 (finish t a ?g1)" by (rule woken) (use assms(2,3,5,6) in auto)
  ultimately have "wal_reach env g (finish t a ?g1)" using w(1) by (blast intro: reach_step)
  then show ?thesis using w(4,5) by (intro exI [of _ "finish t a ?g1"]) (simp add: finish_def rec_at_def)
qed

text \<open>
  C32: A batch that cannot be collected to the end. Take any state that a run without faults reaches
  and in which the leader has collected some records, has a further one before it, and every
  outstanding record is in the ring. When growing the batch now fails for lack of memory, the sweep
  fails the records still queued but not those already collected: the writer waiting for such a
  record is told it is durable, although it was not acknowledged before and nothing is written, the
  segment still being exactly the records acknowledged before.
\<close>

theorem collect_failure_acknowledges_unwritten:
  assumes "env_tickets env \<le> kWalRingCapacity" "\<not> env_alloc_fails env" "io_repairable env"
    and "1 \<le> start" "wal_reach env (GroupConfig_start start base) g"
    and "gc_leader g = Some (l, Drain target batch)" "collect_one target batch (gc_wal g) = CollectGot batch' w"
    and "\<forall>x. next_to_flush (gc_wal g) \<le> x \<and> x < next_lsn (gc_wal g) \<longrightarrow> ring (gc_wal g) (x mod kWalRingCapacity) = Some x"
    and "a \<in> set batch" "gc_pc g t = Waiting a"
  shows "a \<notin> set (acked start (gc_wal g))
    \<and> (\<exists>g'. wal_reach (env\<lparr>env_alloc_fails := True\<rparr>) g g' \<and> gc_pc g' t = Done a None
          \<and> segment (gc_wal g') = base @ concat (map (\<lambda>x. pr_buffer (rec_at (gc_wal g) x)) (acked start (gc_wal g))))"
proof -
  let ?g1 = "lead l (Sweep WalIoError (next_lsn (gc_wal g))) (g\<lparr>gc_wal := (gc_wal g)\<lparr>poisoned := True\<rparr>\<rparr>)"
  have safe: "env_safe env" using assms(1-3) by (simp add: env_safe_def)
  note inv = wal_reach_inv [OF assms(5) safe assms(4)]
  note b = drain_batch [OF inv assms(6)]
  have a: "settled_to start (gc_wal g) \<le> a" "a < next_to_flush (gc_wal g)" using assms(9) unfolding b(3) by simp_all
  then have e: "pr_error (rec_at (gc_wal g) a) = None" using wal_reach_fresh [OF assms(5) safe assms(4)] b(2) by (simp add: fresh_inv_def)
  obtain n where n: "gc_pc g l = Leading n" using wal_invD(1) [OF inv] assms(6) by (auto simp: lead_inv_def)
  have s: "wal_step (env\<lparr>env_alloc_fails := True\<rparr>) g ?g1" by (rule collect_bad_alloc [OF _ assms(6,7)]) simp
  obtain g' where g': "wal_reach (env\<lparr>env_alloc_fails := True\<rparr>) ?g1 g'" "gc_pc g' t = Done a None" "segment (gc_wal g') = segment (gc_wal g)"
    using sweep_releases [of ?g1 l WalIoError n t a "env\<lparr>env_alloc_fails := True\<rparr>"] n b(2) assms(8,10) a e by auto
  show ?thesis
    using a(1) g'(2,3) wal_reach_trans [OF g'(1) reach_step [OF reach_refl s]] wal_invD(7) [OF inv]
    by (auto simp: acked_def seg_inv_def)
qed

definition collecting :: "action list" where
  "collecting = [Begin 0 WalInsert [107] [118], Thread 0, Thread 0, Begin 1 WalInsert [108] [118], Thread 1, Thread 1,
     Thread 1, Thread 0, Lead io_good, Lead io_good]"

theorem collect_failure_acknowledges_unwritten_witness:
  "\<exists>g g'. wal_reach two_writers (GroupConfig_start 1 []) g \<and> wal_reach (two_writers\<lparr>env_alloc_fails := True\<rparr>) g g'
     \<and> gc_pc g' 0 = Done 1 None \<and> segment (gc_wal g') = []"
proof -
  let ?r = "perform_all two_writers collecting (GroupConfig_start 1 [])"
  have "map_option (\<lambda>g. (gc_leader g, gc_pc g 0, next_to_flush (gc_wal g), next_lsn (gc_wal g), ring (gc_wal g) 2,
      acked 1 (gc_wal g), pr_lsn (rec_at (gc_wal g) 2))) ?r = Some (Some (1, Drain 3 [1]), Waiting 1, 2, 3, Some 2, [], 2)"
    by (simp add: run_defs collecting_def acked_def settled_to_def numeral_2_eq_2 numeral_3_eq_3)
  then obtain g where g: "?r = Some g" "gc_leader g = Some (1, Drain 3 [1])" "gc_pc g 0 = Waiting 1" "next_to_flush (gc_wal g) = 2"
      "next_lsn (gc_wal g) = 3" "ring (gc_wal g) 2 = Some 2" "acked 1 (gc_wal g) = []" "pr_lsn (rec_at (gc_wal g) 2) = 2" by auto
  have r: "wal_reach two_writers (GroupConfig_start 1 []) g" by (rule perform_all_sound [OF g(1) reach_refl])
  have c: "collect_one 3 [1] (gc_wal g) = CollectGot [1, 2] ((gc_wal g)\<lparr>next_to_flush := 3\<rparr>)"
    using g by (simp add: collect_one_def kWalRingCapacity_def)
  have p: "\<forall>x. next_to_flush (gc_wal g) \<le> x \<and> x < next_lsn (gc_wal g) \<longrightarrow> ring (gc_wal g) (x mod kWalRingCapacity) = Some x"
  proof (intro allI impI)
    fix x assume "next_to_flush (gc_wal g) \<le> x \<and> x < next_lsn (gc_wal g)"
    then have "x = 2" using g(4,5) by simp
    then show "ring (gc_wal g) (x mod kWalRingCapacity) = Some x" using g(6) by (simp add: kWalRingCapacity_def)
  qed
  from collect_failure_acknowledges_unwritten [OF two_writers_env _ r g(2) c p _ g(3)] r g(7) show ?thesis by auto
qed

text \<open>
  C33: A segment whose length cannot be read is emptied by a failing batch. Take any state that a run
  without such faults reaches, with a batch ready to be written and a record some caller was told is
  durable. When \<open>fstat\<close> fails and then the write or the sync fails, the one step that handles the
  batch leaves an empty segment, while the caller's record still counts as acknowledged.
\<close>

theorem failed_batch_drops_acknowledged:
  assumes "env_tickets env \<le> kWalRingCapacity" "\<not> env_alloc_fails env" "io_repairable env"
    and "1 \<le> start" "wal_reach env (GroupConfig_start start base) g"
    and "gc_leader g = Some (l, Drain target batch)" "collect_one target batch (gc_wal g) = CollectDone" "batch \<noteq> []"
    and "\<not> io_fstat_ok io" "io_truncate_ok io"
    and "\<not> io_sync_ok io \<or> \<not> snd (writev_chunks (io_written io) (map (\<lambda>x. pr_buffer (rec_at (gc_wal g) x)) batch) (segment (gc_wal g)))"
    and "gc_pc g t = Done a None"
  shows "\<exists>g'. wal_step (env\<lparr>env_io := (=) io\<rparr>) g g' \<and> gc_pc g' t = Done a None \<and> a \<in> set (acked start (gc_wal g'))
    \<and> segment (gc_wal g') = []"
proof -
  let ?w = "write_and_fsync_batch io batch (gc_wal g)"
  have safe: "env_safe env" using assms(1-3) by (simp add: env_safe_def)
  note inv = wal_reach_inv [OF assms(5) safe assms(4)]
  note b = drain_batch [OF inv assms(6)]
  note e = write_batch_effect [OF wal_invD(4) [OF inv] b(1) assms(8) b(2), where io = io]
  have s: "wal_step (env\<lparr>env_io := (=) io\<rparr>) g (lead l (Retire target batch) (g\<lparr>gc_wal := ?w\<rparr>))"
    by (rule write_batch [OF assms(6-8)]) simp
  have a: "start \<le> a" "a < settled_to start (gc_wal g)" "pr_error (rec_at (gc_wal g) a) = None"
    using wal_invD(6) [OF inv] assms(12) by (auto simp: ack_inv_def)
  moreover have "settled_to start (gc_wal g) \<le> next_to_flush (gc_wal g)" using b(1) assms(8) by (metis less_imp_le upt_rec)
  ultimately have "a \<in> set (acked start ?w)" using e(7) [of a] by (simp add: acked_def e(5))
  moreover have "segment ?w = []" using assms(9-11) by (auto simp: write_and_fsync_batch_def Let_def split: prod.splits)
  ultimately show ?thesis using s assms(12) by (intro exI [of _ "lead l (Retire target batch) (g\<lparr>gc_wal := ?w\<rparr>)"]) simp
qed

definition io_no_length :: IoOutcome where
  "io_no_length = \<lparr>io_fstat_ok = False, io_written = [0], io_sync_ok = True, io_truncate_ok = True\<rparr>"

theorem failed_batch_drops_acknowledged_witness:
  "\<exists>g g'. wal_reach two_writers (GroupConfig_start 1 []) g \<and> length (segment (gc_wal g)) = 34
     \<and> wal_step (two_writers\<lparr>env_io := (=) io_no_length\<rparr>) g g'
     \<and> gc_pc g' 0 = Done 1 None \<and> 1 \<in> set (acked 1 (gc_wal g')) \<and> segment (gc_wal g') = []"
proof -
  let ?r = "perform_all two_writers (writes_once 0 io_good @ take 6 (writes_once 1 io_good)) (GroupConfig_start 1 [])"
  have "map_option (\<lambda>g. (gc_leader g, gc_pc g 0, next_to_flush (gc_wal g), length (segment (gc_wal g)), pr_buffer (rec_at (gc_wal g) 2) = [])) ?r
      = Some (Some (1, Drain 3 [2]), Done 1 None, 3, 34, False)"
    by (simp add: run_defs numeral_2_eq_2 numeral_3_eq_3 record_bytes_not_Nil)
  then obtain g where g: "?r = Some g" "gc_leader g = Some (1, Drain 3 [2])" "gc_pc g 0 = Done 1 None" "next_to_flush (gc_wal g) = 3"
      "length (segment (gc_wal g)) = 34" "pr_buffer (rec_at (gc_wal g) 2) \<noteq> []" by auto
  have r: "wal_reach two_writers (GroupConfig_start 1 []) g" by (rule perform_all_sound [OF g(1) reach_refl])
  have c: "collect_one 3 [2] (gc_wal g) = CollectDone" using g(4) by (simp add: collect_one_def)
  have f: "\<not> io_sync_ok io_no_length \<or> \<not> snd (writev_chunks (io_written io_no_length) (map (\<lambda>x. pr_buffer (rec_at (gc_wal g) x)) [2]) (segment (gc_wal g)))"
    using g(6) by (subst writev_chunks.simps) (simp add: io_no_length_def IOV_MAX_def Let_def)
  have "\<not> io_fstat_ok io_no_length" "io_truncate_ok io_no_length" by (simp_all add: io_no_length_def)
  from failed_batch_drops_acknowledged [OF two_writers_env _ r g(2) c _ this f g(3)] r g(5) show ?thesis by auto
qed

end
