(* ===== verification/Wal_Single.thy ===== *)
theory Wal_Single
  imports Wal_Group
begin

text \<open>
  \<^verbatim>\<open>reserve_record\<close>, \<^verbatim>\<open>drain_pending\<close> and \<^verbatim>\<open>await_durable\<close> of \<^verbatim>\<open>wal/wal.cpp\<close> as whole calls of one
  writer at a time, composed from the operations of \<open>Wal_Group\<close>. Shown: on a log that is at rest
  a call returns, and either the record is the last one of the synced segment, or the segment is as
  it was and the log refuses every later record.
\<close>

section \<open>Whole calls\<close>

definition reserve_record :: "WalRecordType \<Rightarrow> bytes \<Rightarrow> bytes \<Rightarrow> Wal \<Rightarrow> ((WalError + nat) \<times> Wal) option" where
  "reserve_record ty key value w =
     (if poisoned w then Some (Inl WalPoisoned, w)
      else let (lsn, w1) = reserve_alloc ty key value w
           in case ring_publish lsn w1 of None \<Rightarrow> None | Some w2 \<Rightarrow> Some (Inr lsn, w2))"

partial_function (option) collect_batch :: "nat \<Rightarrow> nat list \<Rightarrow> Wal \<Rightarrow> ((WalError + nat list) \<times> Wal) option" where
  "collect_batch target batch w =
     (case collect_one target batch w of
        CollectDone \<Rightarrow> Some (Inr batch, w)
      | CollectSpin \<Rightarrow> collect_batch target batch w
      | CollectThrow e \<Rightarrow> Some (Inl e, w)
      | CollectGot batch' w' \<Rightarrow> collect_batch target batch' w')"

fun retire_all :: "nat list \<Rightarrow> Wal \<Rightarrow> Wal" where
  "retire_all [] w = w"
| "retire_all (a # as) w = retire_all as (retire_one a w)"

partial_function (option) sweep_all :: "WalError \<Rightarrow> Wal \<Rightarrow> Wal option" where
  "sweep_all err w =
     (if next_to_flush w = next_lsn w then Some w
      else case sweep_one err w of None \<Rightarrow> sweep_all err w | Some w' \<Rightarrow> sweep_all err w')"

definition fail_all_pending_and_release_leadership :: "WalError \<Rightarrow> Wal \<Rightarrow> Wal option" where
  "fail_all_pending_and_release_leadership err w =
     map_option (\<lambda>w'. w'\<lparr>highest_settled_lsn := next_to_flush w' - 1, flushing := False\<rparr>)
       (sweep_all err (w\<lparr>poisoned := True\<rparr>))"

text \<open>\<open>ios\<close>: what the system answers in each round; \<open>None\<close> when it has not answered yet.\<close>

fun drain_pending :: "IoOutcome list \<Rightarrow> nat \<Rightarrow> Wal \<Rightarrow> ((WalError + unit) \<times> Wal) option" where
  "drain_pending ios target w =
     (if next_to_flush w = target then Some (Inr (), w)
      else case ios of
             [] \<Rightarrow> None
           | io # ios' \<Rightarrow>
               (case collect_batch target [] w of
                  None \<Rightarrow> None
                | Some (Inl err, w1) \<Rightarrow> map_option (Pair (Inl err)) (fail_all_pending_and_release_leadership err w1)
                | Some (Inr batch, w1) \<Rightarrow> drain_pending ios' target (retire_all batch (write_and_fsync_batch io batch w1))))"

declare drain_pending.simps [simp del]

text \<open>
  A caller that finds no other leader; the recheck after giving up the leadership finds nothing new.
\<close>

definition await_durable :: "IoOutcome list \<Rightarrow> nat \<Rightarrow> Wal \<Rightarrow> ((WalError + nat) \<times> Wal) option" where
  "await_durable ios lsn w =
     (if flushing w then None
      else case drain_pending ios (next_lsn w) (w\<lparr>flushing := True\<rparr>) of
             None \<Rightarrow> None
           | Some (Inl err, w1) \<Rightarrow> Some (Inl err, w1)
           | Some (Inr _, w1) \<Rightarrow>
               let w2 = w1\<lparr>flushing := False\<rparr>
               in Some (case pr_error (rec_at w2 lsn) of None \<Rightarrow> Inr lsn | Some err \<Rightarrow> Inl err, release lsn w2))"

section \<open>A log at rest\<close>

definition wal_quiet :: "Wal \<Rightarrow> WalRecord list \<Rightarrow> bool" where
  "wal_quiet w rs \<longleftrightarrow> \<not> flushing w \<and> ring w = (\<lambda>_. None) \<and> next_to_flush w = next_lsn w \<and> 0 < next_lsn w
     \<and> segment w = log_bytes rs \<and> synced w = length (segment w)"

definition io_recoverable :: "IoOutcome \<Rightarrow> bool" where
  "io_recoverable io \<longleftrightarrow> io_fstat_ok io \<and> io_truncate_ok io"

text \<open>No short write and no failed sync.\<close>

definition io_flawless :: "IoOutcome \<Rightarrow> bool" where
  "io_flawless io \<longleftrightarrow> io_recoverable io \<and> io_written io = [] \<and> io_sync_ok io"

definition next_record :: "WalRecordType \<Rightarrow> bytes \<Rightarrow> bytes \<Rightarrow> Wal \<Rightarrow> WalRecord" where
  "next_record ty key value w = \<lparr>wr_type = ty, wr_lsn = word_of_nat (next_lsn w), wr_key = key, wr_value = value\<rparr>"

lemma reserve_quiet:
  assumes "wal_quiet w rs" "\<not> poisoned w"
  shows "reserve_record ty key value w = Some (Inr (next_lsn w), w\<lparr>next_lsn := next_lsn w + 1,
    heap := (heap w)(next_lsn w \<mapsto> \<lparr>pr_buffer = record_bytes (next_record ty key value w), pr_lsn = next_lsn w, pr_error = None, pr_refcount = 2\<rparr>),
    ring := [next_lsn w mod kWalRingCapacity \<mapsto> next_lsn w]\<rparr>)"
  using assms by (simp add: wal_quiet_def reserve_record_def reserve_alloc_def ring_publish_def next_record_def Let_def)

lemma collect_batch_single:
  assumes "ring w (n mod kWalRingCapacity) = Some n" "pr_lsn (rec_at w n) = n" "next_to_flush w = n"
  shows "collect_batch (n + 1) [] w = Some (Inr [n], w\<lparr>next_to_flush := n + 1\<rparr>)"
proof -
  have "collect_one (n + 1) [] w = CollectGot [n] (w\<lparr>next_to_flush := n + 1\<rparr>)"
    using assms by (simp add: collect_one_def kWalRingCapacity_def)
  moreover have "collect_one (n + 1) [n] (w\<lparr>next_to_flush := n + 1\<rparr>) = CollectDone" by (simp add: collect_one_def)
  ultimately show ?thesis by (subst collect_batch.simps, simp, subst collect_batch.simps, simp)
qed

text \<open>A batch of one record.\<close>

lemma write_single:
  assumes io: "io_recoverable io" and h: "heap w n = Some rec" and sy: "synced w = length (segment w)"
  obtains ok where
    "ring (write_and_fsync_batch io [n] w) = ring w" "next_lsn (write_and_fsync_batch io [n] w) = next_lsn w"
    "next_to_flush (write_and_fsync_batch io [n] w) = next_to_flush w" "flushing (write_and_fsync_batch io [n] w) = flushing w"
    "segment (write_and_fsync_batch io [n] w) = segment w @ (if ok then pr_buffer rec else [])"
    "synced (write_and_fsync_batch io [n] w) = length (segment (write_and_fsync_batch io [n] w))"
    "poisoned (write_and_fsync_batch io [n] w) = (poisoned w \<or> \<not> ok)"
    "heap (write_and_fsync_batch io [n] w) n = Some (rec\<lparr>pr_error := if ok then None else Some WalIoError\<rparr>)"
    "io_flawless io \<Longrightarrow> ok"
proof -
  obtain fl written where wr: "writev_chunks (io_written io) [pr_buffer rec] (segment w) = (fl, written)" by fastforce
  obtain k where "fl = segment w @ take k (concat [pr_buffer rec])" "written \<longrightarrow> fl = segment w @ concat [pr_buffer rec]"
    using writev_chunks_prefix [of "io_written io" "[pr_buffer rec]" "segment w"] unfolding wr fst_conv snd_conv by blast
  then have k: "fl = segment w @ take k (pr_buffer rec)" "written \<longrightarrow> fl = segment w @ pr_buffer rec" by simp_all
  let ?ok = "written \<and> io_sync_ok io"
  have e: "write_and_fsync_batch io [n] w = (upd_rec n (\<lambda>r. r\<lparr>pr_error := if ?ok then None else Some WalIoError\<rparr>)
      (w\<lparr>segment := (if ?ok then fl else take (length (segment w)) fl),
         synced := (if ?ok then length fl else min (synced w) (length (take (length (segment w)) fl))),
         poisoned := poisoned w \<or> \<not> ?ok\<rparr>))\<lparr>highest_settled_lsn := pr_lsn rec\<rparr>"
    using io h by (simp add: write_and_fsync_batch_def rec_at_def wr io_recoverable_def Let_def)
  have good: "?ok" if "io_flawless io"
  proof -
    have "writev_chunks [] [pr_buffer rec] (segment w) = (segment w @ pr_buffer rec, True)"
      by (simp add: writev_chunks.simps IOV_MAX_def)
    then show ?thesis using that wr by (auto simp: io_flawless_def)
  qed
  show ?thesis by (rule that [of ?ok]) (use k sy h good in \<open>auto simp: e upd_rec_def\<close>)
qed

text \<open>One call on a log at rest: it returns, and the record is on disk or the log is as it was and refuses the next one.\<close>

lemma await_quiet:
  assumes q: "wal_quiet w rs" and p: "\<not> poisoned w" and io: "io_recoverable io"
    and r: "reserve_record ty key value w = Some (Inr lsn, w1)"
  obtains (durable) w2 where "await_durable (io # ios) lsn w1 = Some (Inr lsn, w2)" "wal_quiet w2 (rs @ [next_record ty key value w])"
      "\<not> poisoned w2" "next_lsn w2 = next_lsn w + 1"
    | (failed) w2 where "await_durable (io # ios) lsn w1 = Some (Inl WalIoError, w2)" "wal_quiet w2 rs" "poisoned w2"
      "next_lsn w2 = next_lsn w + 1" "\<not> io_flawless io"
proof -
  let ?n = "next_lsn w" and ?b = "record_bytes (next_record ty key value w)"
  have lsn: "lsn = ?n" and w1: "w1 = w\<lparr>next_lsn := ?n + 1,
      heap := (heap w)(?n \<mapsto> \<lparr>pr_buffer = ?b, pr_lsn = ?n, pr_error = None, pr_refcount = 2\<rparr>),
      ring := [?n mod kWalRingCapacity \<mapsto> ?n]\<rparr>"
    using r unfolding reserve_quiet [OF q p] by auto
  note qd = q [unfolded wal_quiet_def]
  define wl where "wl = w1\<lparr>flushing := True\<rparr>"
  have c: "collect_batch (?n + 1) [] wl = Some (Inr [?n], wl\<lparr>next_to_flush := ?n + 1\<rparr>)"
    by (rule collect_batch_single) (use qd in \<open>simp_all add: wl_def w1 rec_at_def\<close>)
  define wb where "wb = write_and_fsync_batch io [?n] (wl\<lparr>next_to_flush := ?n + 1\<rparr>)"
  let ?wn = "wl\<lparr>next_to_flush := ?n + 1\<rparr>" and ?r = "\<lparr>pr_buffer = ?b, pr_lsn = ?n, pr_error = None, pr_refcount = 2\<rparr>"
  have wn: "heap ?wn ?n = Some ?r" "synced ?wn = length (segment ?wn)" using qd by (simp_all add: wl_def w1)
  obtain ok where raw: "ring wb = ring ?wn" "next_lsn wb = next_lsn ?wn" "next_to_flush wb = next_to_flush ?wn"
    "segment wb = segment ?wn @ (if ok then pr_buffer ?r else [])" "synced wb = length (segment wb)" "poisoned wb = (poisoned ?wn \<or> \<not> ok)"
    "heap wb ?n = Some (?r\<lparr>pr_error := if ok then None else Some WalIoError\<rparr>)" "io_flawless io \<Longrightarrow> ok"
    by (rule write_single [OF io wn, folded wb_def]) (rule that)
  have wb: "ring wb = ring wl" "next_lsn wb = ?n + 1" "next_to_flush wb = ?n + 1"
    "segment wb = log_bytes rs @ (if ok then ?b else [])" "synced wb = length (segment wb)" "poisoned wb = (\<not> ok)"
    "heap wb ?n = Some (?r\<lparr>pr_error := if ok then None else Some WalIoError\<rparr>)"
    using raw qd p by (simp_all add: wl_def w1)
  define wr where "wr = retire_one ?n wb"
  have wr: "ring wr = (\<lambda>_. None)" "next_lsn wr = ?n + 1" "next_to_flush wr = ?n + 1"
    "segment wr = segment wb" "synced wr = length (segment wb)" "poisoned wr = (\<not> ok)"
    "pr_error (rec_at wr ?n) = (if ok then None else Some WalIoError)"
    using wb by (simp_all add: wr_def retire_one_def release_def upd_rec_def rec_at_def wl_def w1 fun_eq_iff)
  have "drain_pending (io # ios) (next_lsn w1) wl = drain_pending ios (?n + 1) wr"
    using qd c by (subst drain_pending.simps) (simp add: wr_def wb_def wl_def w1)
  also have "\<dots> = Some (Inr (), wr)" by (subst drain_pending.simps) (simp add: wr)
  finally have a: "await_durable (io # ios) lsn w1 =
      Some (case pr_error (rec_at (wr\<lparr>flushing := False\<rparr>) ?n) of None \<Rightarrow> Inr ?n | Some err \<Rightarrow> Inl err, release ?n (wr\<lparr>flushing := False\<rparr>))"
    using qd unfolding await_durable_def lsn wl_def [symmetric] by (simp add: w1 Let_def)
  have e: "rec_at (wr\<lparr>flushing := False\<rparr>) ?n = rec_at wr ?n" by (simp add: rec_at_def)
  let ?w2 = "release ?n (wr\<lparr>flushing := False\<rparr>)"
  have w2: "\<not> flushing ?w2" "ring ?w2 = (\<lambda>_. None)" "next_to_flush ?w2 = next_lsn ?w2" "next_lsn ?w2 = ?n + 1"
    "segment ?w2 = segment wb" "synced ?w2 = length (segment wb)" "poisoned ?w2 = (\<not> ok)"
    by (simp_all add: wr)
  show ?thesis
  proof (cases ok)
    case True
    then show ?thesis using durable [of ?w2] a w2 wb(4) by (simp add: e wr(7) wal_quiet_def lsn log_bytes_def)
  next
    case False
    have "\<not> io_flawless io" using raw(8) False by blast
    then show ?thesis using failed [of ?w2] a w2 wb(4) False by (simp add: e wr(7) wal_quiet_def lsn)
  qed
qed

lemma reserve_poisoned: "poisoned w \<Longrightarrow> reserve_record ty key value w = Some (Inl WalPoisoned, w)"
  by (simp add: reserve_record_def)

end
