(* ===== verification/Write_Path.thy ===== *)
theory Write_Path
  imports Read_Path Sharded_T1 Wal_Single
begin

text \<open>
  \<^verbatim>\<open>vmemkv/write_path.hpp\<close>: inline payloads, the append of a record with its publication in the
  index, in-place updates, and the stripe protocol, on the state of the store. The
  maintenance cycles that other threads complete while a writer waits and the answers of the
  system to the log's writes are arguments.
\<close>

section \<open>State of the store\<close>

datatype StoreError = RecordTooLarge | T2Full | LogFailed WalError

record VMemKV =
  kv_t1 :: ShardedT1Index
  kv_t2 :: T2Memory
  kv_own :: T2Ownership
  kv_wal :: Wal
  kv_use_inline :: bool
  kv_requested :: bool
  kv_wal_check_counter :: nat

text \<open>A call returns or throws; \<open>None\<close>: it is still waiting.\<close>

type_synonym 'a call = "((StoreError + 'a) \<times> VMemKV) option"

section \<open>Inline payloads\<close>

definition try_make_inline_payload :: "bool \<Rightarrow> bytes \<Rightarrow> bytes \<Rightarrow> (u64 \<times> byte) option" where
  "try_make_inline_payload use_inline full_key value =
     (if use_inline \<and> length full_key \<le> kStoreKeyBytes \<and> (full_key = [] \<or> last full_key \<noteq> 0)
           \<and> value \<noteq> [] \<and> length value \<le> kInlineValueByteCount
      then let payload = u64_of_le (mem_write (u64_le 0) 0 value)
           in if payload = STORE_NOT_FOUND then None else Some (payload, word_of_nat (length value))
      else None)"

section \<open>Appending\<close>

definition block_count :: "bytes \<Rightarrow> bytes \<Rightarrow> u64" where
  "block_count key value =
     align_up (word_of_nat sizeof_ValueRecordHeader + word_of_nat (length key) + word_of_nat (length value)) kDefaultAlignmentBytes
       div kRecordBlockAlignment"

definition encode_payload :: "u64 \<Rightarrow> u64 \<Rightarrow> u64" where
  "encode_payload offset blocks = offset OR push_bit kPayloadSizeShift blocks"

definition prev_entry :: "LookupResult option \<Rightarrow> bytes \<Rightarrow> ShardedT1Index \<Rightarrow> LookupResult option" where
  "prev_entry prev key t1 = (case prev of Some r \<Rightarrow> Some r | None \<Rightarrow> si_get_with_hash t1 key)"

text \<open>
  \<open>waits\<close>: for each turn of the loop, the maintenance cycles completed in the pauses of its
  index write. \<open>maybe_reorg\<close> is the caller's check between turns.
\<close>

fun write_entry_lockfree ::
  "(VMemKV \<Rightarrow> VMemKV) \<Rightarrow> nat list list \<Rightarrow> bytes \<Rightarrow> bytes \<Rightarrow> LookupResult option \<Rightarrow> VMemKV \<Rightarrow> unit call" where
  "write_entry_lockfree maybe_reorg waits full_key value prev s =
     (case waits of
        [] \<Rightarrow> None
      | ws # rest \<Rightarrow>
          (case try_make_inline_payload (kv_use_inline s) full_key value of
             Some (inline_payload, inline_size) \<Rightarrow>
               (case prev_entry prev full_key (kv_t1 s) of
                  None \<Rightarrow> None
                | Some old \<Rightarrow>
                    let s1 = s\<lparr>kv_own := note_replace (lr_payload_bits old) (lr_raw_hash old) False 0 (kv_own s)\<rparr>
                    in case si_put_waiting ws (kv_t1 s1) full_key inline_payload True inline_size of
                         None \<Rightarrow> None
                       | Some (put_result, t1) \<Rightarrow>
                           if put_result = Applied then Some (Inr (), s1\<lparr>kv_t1 := t1\<rparr>)
                           else write_entry_lockfree maybe_reorg rest full_key value prev (maybe_reorg (s1\<lparr>kv_t1 := t1\<rparr>)))
           | None \<Rightarrow>
               if block_count full_key value \<ge> 65536 then Some (Inl RecordTooLarge, s)
               else case append_default (kv_t2 s) full_key value of
                      (Inl e, mem) \<Rightarrow> Some (Inl T2Full, s\<lparr>kv_t2 := mem\<rparr>)
                    | (Inr offset, mem) \<Rightarrow>
                        let encoded_payload = encode_payload offset (block_count full_key value);
                            s1 = s\<lparr>kv_t2 := mem\<rparr>
                        in case prev_entry prev full_key (kv_t1 s1) of
                             None \<Rightarrow> None
                           | Some old \<Rightarrow>
                               let s2 = s1\<lparr>kv_own := note_replace (lr_payload_bits old) (lr_raw_hash old) True encoded_payload (kv_own s1)\<rparr>
                               in case si_put_waiting ws (kv_t1 s2) full_key encoded_payload False 0 of
                                    None \<Rightarrow> None
                                  | Some (put_result, t1) \<Rightarrow>
                                      if put_result = Applied then Some (Inr (), s2\<lparr>kv_t1 := t1\<rparr>)
                                      else write_entry_lockfree maybe_reorg rest full_key value prev (maybe_reorg (s2\<lparr>kv_t1 := t1\<rparr>))))"

declare write_entry_lockfree.simps [simp del]

section \<open>Updating in place\<close>

datatype InPlaceOutcome = Aborted | FellThrough | InPlaceApplied nat

definition try_in_place_update :: "bytes \<Rightarrow> bytes \<Rightarrow> VMemKV \<Rightarrow> InPlaceOutcome call" where
  "try_in_place_update full_key value s =
     (case si_get_with_hash (kv_t1 s) full_key of
        None \<Rightarrow> None
      | Some res \<Rightarrow>
          if lr_payload_bits res = STORE_NOT_FOUND then Some (Inr Aborted, s)
          else if is_inline (lr_raw_hash res) then Some (Inr FellThrough, s)
          else let offset = lr_payload_bits res AND kPayloadOffsetMask
               in case read_t2_record_seqlock (\<lambda>_. t2_at offset (kv_t2 s))
                         (\<lambda>record. (byte_span_equal (rv_key record) full_key, vh_alloc_len (rv_header record))) of
                    None \<Rightarrow> None
                  | Some (key_matches, alloc_len) \<Rightarrow>
                      if \<not> key_matches then Some (Inr FellThrough, s)
                      else if length value > unat alloc_len then Some (Inr FellThrough, s)
                      else if offset < tm_base_boundary (kv_t2 s) \<or> offset < load_watermark (kv_own s) then Some (Inr FellThrough, s)
                      else case update_value_at offset value (kv_t2 s) of
                             (False, mem) \<Rightarrow> Some (Inr Aborted, s\<lparr>kv_t2 := mem\<rparr>)
                           | (True, mem) \<Rightarrow>
                               (case reserve_record WalUpdate full_key value (kv_wal s) of
                                  None \<Rightarrow> None
                                | Some (Inl e, w) \<Rightarrow> Some (Inl (LogFailed e), s\<lparr>kv_t2 := mem, kv_wal := w\<rparr>)
                                | Some (Inr lsn, w) \<Rightarrow> Some (Inr (InPlaceApplied lsn), s\<lparr>kv_t2 := mem, kv_wal := w\<rparr>)))"

section \<open>Stripe protocol\<close>

record StripeResult =
  sr_applied :: bool
  sr_pending :: "nat option"
  sr_need_reorg_check :: bool

definition no_change :: StripeResult where
  "no_change = \<lparr>sr_applied = False, sr_pending = None, sr_need_reorg_check = False\<rparr>"

definition with_key_stripe :: "IoOutcome list \<Rightarrow> (VMemKV \<Rightarrow> VMemKV) \<Rightarrow> (VMemKV \<Rightarrow> StripeResult call) \<Rightarrow> VMemKV \<Rightarrow> bool call" where
  "with_key_stripe ios check_reorg fn s =
     (case fn s of
        None \<Rightarrow> None
      | Some (Inl e, s1) \<Rightarrow> Some (Inl e, s1)
      | Some (Inr result, s1) \<Rightarrow>
          (case (case sr_pending result of
                   None \<Rightarrow> Some (Inr 0, kv_wal s1)
                 | Some lsn \<Rightarrow> await_durable ios lsn (kv_wal s1)) of
             None \<Rightarrow> None
           | Some (Inl e, w) \<Rightarrow> Some (Inl (LogFailed e), s1\<lparr>kv_wal := w\<rparr>)
           | Some (Inr _, w) \<Rightarrow>
               let s2 = s1\<lparr>kv_wal := w\<rparr>
               in Some (Inr (sr_applied result), if sr_need_reorg_check result then check_reorg s2 else s2)))"

text \<open>Reserving the record of an applied mutation, inside the stripe.\<close>

definition reserve_applied :: "WalRecordType \<Rightarrow> bytes \<Rightarrow> bytes \<Rightarrow> bool \<Rightarrow> VMemKV \<Rightarrow> StripeResult call" where
  "reserve_applied ty key value need_check s =
     (case reserve_record ty key value (kv_wal s) of
        None \<Rightarrow> None
      | Some (Inl e, w) \<Rightarrow> Some (Inl (LogFailed e), s\<lparr>kv_wal := w\<rparr>)
      | Some (Inr lsn, w) \<Rightarrow>
          Some (Inr \<lparr>sr_applied = True, sr_pending = Some lsn, sr_need_reorg_check = need_check\<rparr>, s\<lparr>kv_wal := w\<rparr>))"

section \<open>Payload codec\<close>

lemma offset_mask: "kPayloadOffsetMask = mask 48"
  by (simp add: kPayloadOffsetMask_def kPayloadSizeShift_def mask_numeral)

lemma encode_bit: "bit (encode_payload offset blocks) i \<longleftrightarrow> bit offset i \<or> (48 \<le> i \<and> i < 64 \<and> bit blocks (i - 48))"
  by (auto simp: encode_payload_def bit_or_iff bit_push_bit_iff kPayloadSizeShift_def)

lemma small_bit:
  assumes "unat w < 2 ^ n" "bit (w :: u64) i"
  shows "i < n"
proof -
  have "bit (unat w) i" using assms(2) by (simp add: bit_unsigned_iff bit_imp_le_length)
  moreover have "take_bit n (unat w) = unat w" using assms(1) by (simp add: take_bit_nat_eq_self)
  ultimately show ?thesis by (metis bit_take_bit_iff)
qed

lemma encode_offset:
  assumes "unat offset < 2 ^ 48"
  shows "encode_payload offset blocks AND kPayloadOffsetMask = offset"
  by (rule bit_word_eqI) (use small_bit [OF assms] in \<open>auto simp: encode_bit bit_and_iff offset_mask bit_mask_iff\<close>)

lemma encode_blocks:
  assumes "unat offset < 2 ^ 48" "unat blocks < 2 ^ 16"
  shows "drop_bit kPayloadSizeShift (encode_payload offset blocks) = blocks"
  by (rule bit_word_eqI)
    (use small_bit [OF assms(1)] small_bit [OF assms(2)] in \<open>fastforce simp: encode_bit bit_drop_bit_eq kPayloadSizeShift_def\<close>)

lemma encode_live:
  assumes "unat offset < 2 ^ 48 - 1"
  shows "is_live (encode_payload offset blocks)"
proof -
  have "encode_payload offset blocks AND kPayloadOffsetMask = offset" by (rule encode_offset) (use assms in simp)
  moreover have "STORE_NOT_FOUND AND kPayloadOffsetMask = mask 48" by (simp add: STORE_NOT_FOUND_def offset_mask)
  moreover have "offset \<noteq> mask 48" using assms by (auto simp: mask_eq_exp_minus_1)
  ultimately show ?thesis by (auto simp: is_live_def)
qed

lemma block_count_unat:
  assumes "length key + length value < 2 ^ 63"
  shows "unat (block_count key value) = aligned_size (24 + length key + length value) div 16"
  using record_len_unat [of key "value"] assms
  by (simp add: block_count_def record_len_def record_aligned_len_def unat_div kRecordBlockAlignment_def)

text \<open>A record small enough for the hint.\<close>

lemma blocks_fit:
  assumes "length key + length value < 2 ^ 63" "\<not> block_count key value \<ge> 65536"
  shows "unat (block_count key value) < 2 ^ 16" "fits_record key value" "24 + length key + length value < 2 ^ 20"
    "unat (record_len key value) = aligned_size (24 + length key + length value)" "0 < unat (block_count key value)"
proof -
  let ?n = "24 + length key + length value"
  have b: "aligned_size ?n div 16 < 65536" using assms(2) by (simp add: not_le word_less_nat_alt block_count_unat [OF assms(1)])
  then show "unat (block_count key value) < 2 ^ 16" by (simp add: block_count_unat [OF assms(1)])
  have "aligned_size ?n < 1048576" using b by simp
  then show n: "?n < 2 ^ 20" using aligned_size_bounds(1) [of ?n] by simp
  then show "fits_record key value" by (simp add: fits_record_def)
  show "unat (record_len key value) = aligned_size ?n" using assms(1) by (intro record_len_unat) simp
  have "24 \<le> aligned_size ?n" using aligned_size_bounds(1) [of ?n] by simp
  then show "0 < unat (block_count key value)" by (simp add: block_count_unat [OF assms(1)])
qed

lemma hint_of_blocks:
  assumes "unat offset < 2 ^ 48" "unat blocks < 2 ^ 16"
  shows "unat (hint_bytes (encode_payload offset blocks)) = 16 * unat blocks"
    "unat (base_size_hint (encode_payload offset blocks)) = 16 * unat blocks + 16"
proof -
  have "unat blocks * 16 < 2 ^ 64" using assms(2) by simp
  then have "unat (blocks * 16) = unat blocks * 16" by (simp add: unat_word_ariths)
  then show "unat (hint_bytes (encode_payload offset blocks)) = 16 * unat blocks"
    "unat (base_size_hint (encode_payload offset blocks)) = 16 * unat blocks + 16"
    using assms(2) unfolding hint_bytes_def base_size_hint_def encode_blocks [OF assms] kRecordBlockAlignment_def
    by (simp_all add: unat_word_ariths)
qed

section \<open>Inline entries decode\<close>

lemma inline_payload:
  assumes "try_make_inline_payload u key value = Some (p, n)"
  shows "length key \<le> 16" "key = [] \<or> last key \<noteq> 0" "value \<noteq> []" "length value \<le> 8" "n = word_of_nat (length value)"
    "u64_le p = value @ replicate (8 - length value) 0" "is_live p" "u"
proof -
  have c: "u" "length key \<le> 16" "key = [] \<or> last key \<noteq> 0" "value \<noteq> []" "length value \<le> 8"
      "p = u64_of_le (mem_write (u64_le 0) 0 value)" "p \<noteq> STORE_NOT_FOUND" "n = word_of_nat (length value)"
    using assms by (auto simp: try_make_inline_payload_def kStoreKeyBytes_def kInlineValueByteCount_def Let_def split: if_splits)
  show "length key \<le> 16" "key = [] \<or> last key \<noteq> 0" "value \<noteq> []" "length value \<le> 8" "n = word_of_nat (length value)" "is_live p" "u"
    using c by (simp_all add: is_live_def)
  have z: "u64_le 0 = replicate 8 (0 :: byte)" by code_simp
  have "mem_write (u64_le 0) 0 value = value @ replicate (8 - length value) 0" using c(5) by (simp add: mem_write_def z)
  then show "u64_le p = value @ replicate (8 - length value) 0" using c(5,6) by (simp add: u64_le_u64_of_le)
qed

lemma inline_decodes:
  assumes "try_make_inline_payload use_inline key value = Some (payload, n)"
  shows "is_live payload" "is_inline (stored_hash key True n)"
    "copy_inline_value payload (decode_size (stored_hash key True n)) = value"
    "take (inline_key_len (prefix_from_bytes key)) (prefix_from_bytes key) = key"
proof -
  note p = inline_payload [OF assms]
  have "decode_size (stored_hash key True n) = length value"
    using p(3,4) decode_size_embed [of "length value" "hash_full_key key"] by (simp add: stored_hash_def p(5) Suc_le_eq)
  then show "is_live payload" "is_inline (stored_hash key True n)"
    "copy_inline_value payload (decode_size (stored_hash key True n)) = value"
    "take (inline_key_len (prefix_from_bytes key)) (prefix_from_bytes key) = key"
    using p inline_key_decodes [of key] by (simp_all add: stored_hash_def copy_inline_value_def)
qed

text \<open>
  What is stored inline is found again. When \<^verbatim>\<open>try_make_inline_payload\<close> accepts a pair, its
  payload is not the mark of a deleted entry, the stored hash says inline and still carries the
  key's own hash, copying out as many bytes of the payload as the hash says gives the value, and
  cutting the zero-padded prefix where \<^verbatim>\<open>inline_key_len\<close> says gives the key.
\<close>

lemma inline_entry_roundtrip:
  assumes "try_make_inline_payload use_inline key value = Some (payload, n)"
  shows "is_live payload \<and> is_inline (stored_hash key True n) \<and> clean_hash (stored_hash key True n) = hash_full_key key
    \<and> copy_inline_value payload (decode_size (stored_hash key True n)) = value
    \<and> take (inline_key_len (prefix_from_bytes key)) (prefix_from_bytes key) = key"
  using inline_decodes [OF assms] by (simp add: stored_hash_def)

lemma inline_entry_roundtrip_witness:
  "try_make_inline_payload True [7, 1] [5] = Some (5, 1) \<and> copy_inline_value 5 (decode_size (stored_hash [7, 1] True 1)) = [5]
   \<and> take (inline_key_len (prefix_from_bytes [7, 1])) (prefix_from_bytes [7, 1]) = [7, 1]"
proof -
  have "try_make_inline_payload True [7, 1] [5] = Some (5, 1)" by code_simp
  with inline_entry_roundtrip [OF this] show ?thesis by simp
qed

text \<open>
  C29: the size hint. For a record the store accepts, at an offset below \<open>2 ^ 48\<close>, the payload word
  gives back the offset; the live bytes it counts for are positive and at most the record's aligned
  length; and the length a cold read asks for, which adds a margin of 16, covers the whole record
  and exceeds it by at most 16 bytes.
\<close>

theorem size_hint_bounds:
  assumes "length key + length value < 2 ^ 63" "\<not> block_count key value \<ge> 65536" "unat offset < 2 ^ 48"
  shows "encode_payload offset (block_count key value) AND kPayloadOffsetMask = offset
    \<and> 0 < unat (hint_bytes (encode_payload offset (block_count key value)))
    \<and> unat (hint_bytes (encode_payload offset (block_count key value))) \<le> unat (record_len key value)
    \<and> unat (record_len key value) \<le> unat (base_size_hint (encode_payload offset (block_count key value)))
    \<and> unat (base_size_hint (encode_payload offset (block_count key value))) \<le> unat (record_len key value) + 16"
proof -
  note b = blocks_fit [OF assms(1,2)]
  let ?a = "aligned_size (24 + length key + length value)"
  have "16 * (?a div 16) \<le> ?a" "?a < 16 * (?a div 16) + 16" by presburger+
  then show ?thesis
    using encode_offset [OF assms(3)] hint_of_blocks [OF assms(3) b(1)] b(4,5) block_count_unat [OF assms(1)] by simp
qed

theorem size_hint_bounds_witness:
  "encode_payload 4096 (block_count [1, 2] [3]) AND kPayloadOffsetMask = 4096
   \<and> unat (record_len [1, 2] [3]) \<le> unat (base_size_hint (encode_payload 4096 (block_count [1, 2] [3])))"
proof -
  have "\<not> block_count [1, 2] [3] \<ge> 65536" by code_simp
  from size_hint_bounds [OF _ this, of 4096] show ?thesis by simp
qed

section \<open>Index writes\<close>

text \<open>Every part of the key space keeps a nonempty append region.\<close>

definition caps_ok :: "ShardedT1Index \<Rightarrow> bool" where
  "caps_ok si \<longleftrightarrow> (\<forall>k. 0 < append_capacity (index_of si (route si k)))"

lemma t1_put_cap:
  assumes "shard_inv t" "t1_put t key value inl n = Some (res, t')"
  shows "append_capacity t' = append_capacity t"
proof -
  obtain r where "put_outcome t (ident_of key) r res t'"
    using put_correct [OF shard_invD(2) [OF assms(1)] stored_hash_clean, of "prefix_from_bytes key" key inl n "value"] assms(2)
    by (auto simp: t1_put_def prepare_key_and_hash_def stored_hash_def)
  then show ?thesis by (cases res) (auto simp: put_outcome_def put_frame_def append_capacity_def)
qed

lemma put_turn_caps:
  assumes inv: "si_inv si" and turn: "si_put_turn si key value inl n = Some r"
    and si': "si' = (case r of Inl s \<Rightarrow> s | Inr (_, s) \<Rightarrow> s)"
  shows "si_directory si' = si_directory si" "append_capacity (index_of si' b) = append_capacity (index_of si b)"
proof -
  let ?a = "route si (prefix_from_bytes key)"
  define si1 where "si1 = request_maintenance_if_needed ?a si"
  have a: "?a \<in> set (shards si)" by (rule route_in(1) [OF si_invD(1) [OF inv]])
  note r1 = request_inv [OF inv a, folded si1_def]
  obtain res t where p: "t1_put (index_of si1 ?a) key value inl n = Some (res, t)"
    using turn by (auto simp: si_put_turn_def si_resolve_route [OF inv] si1_def [symmetric] Let_def split: option.splits)
  have a1: "?a \<in> set (shards si1)" using a by (simp add: r1(4))
  note cap = t1_put_cap [OF si_slot(2) [OF r1(1) a1] p]
  define si2 where "si2 = upd_slot ?a (\<lambda>s. s\<lparr>sl_index := t\<rparr>) si1"
  have s2: "si_directory si2 = si_directory si" "append_capacity (index_of si2 b) = append_capacity (index_of si b)" for b
    using cap by (simp_all add: si2_def r1(3,4))
  have req: "si_directory (request_maintenance_if_needed c u) = si_directory u"
    "index_of (request_maintenance_if_needed c u) b = index_of u b" for c u b
    by (simp_all add: request_maintenance_if_needed_def push_if_live_def Let_def)
  have "si' = si2 \<or> si' = request_maintenance_if_needed ?a (upd_slot ?a (\<lambda>s. s\<lparr>sl_tombstones := sl_tombstones s + 1\<rparr>) si2)"
    using turn si' by (auto simp: si_put_turn_def si_resolve_route [OF inv] si1_def [symmetric] Let_def p si2_def [symmetric] split: if_splits)
  then show "si_directory si' = si_directory si" "append_capacity (index_of si' b) = append_capacity (index_of si b)"
    using s2 by (auto simp: req)
qed

lemma put_turn_caps_ok:
  assumes "si_inv si" "si_put_turn si key value inl n = Some r" "si' = (case r of Inl s \<Rightarrow> s | Inr (_, s) \<Rightarrow> s)" "caps_ok si"
  shows "caps_ok si'"
  using put_turn_caps [OF assms(1-3)] assms(4) by (simp add: caps_ok_def)

lemma maintain_any:
  assumes "si_inv si" "unique_prefixes (si_view si)" "maintain n si = Some si'"
  shows "si_inv si' \<and> si_view si' = si_view si \<and> (caps_ok si \<longrightarrow> caps_ok si')"
  using assms
proof (induction n arbitrary: si)
  case (Suc n)
  obtain b si1 where r: "run_maintenance si = Some (b, si1)" "maintain n si1 = Some si'" using Suc.prems(3) by (auto split: bind_splits)
  have i: "si_inv si1 \<and> si_view si1 = si_view si \<and> (caps_ok si \<longrightarrow> caps_ok si1)"
    using Suc.prems(1,2)
  proof (cases rule: run_maintenance_correct)
    case idle
    then show ?thesis using r(1) Suc.prems(1) by simp
  next
    case (cycle a q si2)
    note d = maintainedD [OF cycle(3)]
    have "append_capacity (index_of si2 (route si2 k)) = append_capacity (index_of si (route si k))" for k
      using d(5,7) [of k] by (cases "route si k = a") simp_all
    then show ?thesis using cycle(2) r(1) d(1,2) by (simp add: caps_ok_def)
  qed
  then show ?case using Suc.IH [of si1] r(2) Suc.prems(2) by simp
qed simp

lemma si_put_waiting_correct:
  assumes "si_inv si" "ws = [] \<or> unique_prefixes (si_view si)" "si_put_waiting ws si key value inl n = Some (res, si')"
  shows "res = Applied \<and> si_inv si' \<and> si_view si' = put_view (si_view si) key value (stored_hash key inl n)
    \<and> (caps_ok si \<longrightarrow> caps_ok si')"
  using assms
proof (induction ws arbitrary: si)
  case Nil
  from Nil.prems(1) show ?case
  proof (cases rule: si_put_turn_correct [of _ key "value" inl n])
    case (full si1)
    then show ?thesis using Nil.prems(3) by (simp add: si_put_waiting.simps)
  next
    case (applied si1)
    then show ?thesis using Nil.prems(3) put_turn_caps_ok [OF Nil.prems(1) applied(1)] by (simp add: si_put_waiting.simps)
  qed
next
  case (Cons m ws)
  from Cons.prems(1) show ?case
  proof (cases rule: si_put_turn_correct [of _ key "value" inl n])
    case (full si1)
    obtain si2 where s2: "maintain m si1 = Some si2" "si_put_waiting ws si2 key value inl n = Some (res, si')"
      using Cons.prems(3) full(1) by (auto simp: si_put_waiting.simps [of "_ # _"] split: bind_splits)
    have u: "unique_prefixes (si_view si1)" using Cons.prems(2) full(3) by simp
    note m = maintain_any [OF full(2) u s2(1)]
    have "caps_ok si \<longrightarrow> caps_ok si1" using put_turn_caps_ok [OF Cons.prems(1) full(1)] by simp
    then show ?thesis using Cons.IH [OF conjunct1 [OF m] _ s2(2)] u m full(3) by simp
  next
    case (applied si1)
    then show ?thesis using Cons.prems(3) put_turn_caps_ok [OF Cons.prems(1) applied(1)] by (simp add: si_put_waiting.simps)
  qed
qed

text \<open>
  C15: a write or deletion in the sharded index whose live entries have different 16-byte prefixes.
  However long the writer has to wait for room, and whatever the workers merge and split meanwhile,
  a call that returns has been applied: a lookup of its key answers the written payload (for a
  deletion, that the key is absent), with the stored hash when it is live, every key with another
  prefix or hash answers what it answered before, and the index stays well formed. And the call does
  return: one pause in which the workers serve the queue is enough.
\<close>

theorem sharded_put_get:
  assumes "si_inv si" "unique_prefixes (si_view si)"
  shows "(\<forall>ws res si'. si_put_waiting ws si key value inl n = Some (res, si') \<longrightarrow>
      res = Applied \<and> si_inv si' \<and> si_get si' key = Some value
      \<and> (is_live value \<longrightarrow> si_get_with_hash si' key = Some \<lparr>lr_payload_bits = value, lr_raw_hash = stored_hash key inl n\<rparr>)
      \<and> (\<forall>key'. ident_of key' \<noteq> ident_of key \<longrightarrow> si_get si' key' = si_get si key'))
    \<and> (0 < append_capacity (index_of si (route si (prefix_from_bytes key)))
      \<longrightarrow> (\<exists>si'. si_put_waiting [Suc (length (si_queue si))] si key value inl n = Some (Applied, si')))"
proof (intro conjI allI impI)
  fix ws res si'
  assume put: "si_put_waiting ws si key value inl n = Some (res, si')"
  have c: "res = Applied" "si_inv si'" "si_view si' = put_view (si_view si) key value (stored_hash key inl n)"
    using si_put_waiting_correct [OF assms(1) disjI2 [OF assms(2)] put] by simp_all
  have g: "si_get_with_hash si' key = Some (si_lookup si' key)" by (simp add: si_lookup_def si_get_route [OF c(2)])
  note l = si.get_law [OF c(2), of key]
  show "res = Applied" "si_inv si'" by (rule c(1,2))+
  show "si_get si' key = Some value" by (simp add: si_get_view [OF c(2)] c(3) put_view_def is_live_def)
  show "si_get_with_hash si' key = Some \<lparr>lr_payload_bits = value, lr_raw_hash = stored_hash key inl n\<rparr>" if "is_live value"
    using g l that by (simp add: c(3) put_view_def)
  show "si_get si' key' = si_get si key'" if "ident_of key' \<noteq> ident_of key" for key'
    using that by (simp add: si_get_view [OF c(2)] si_get_view [OF assms(1)] c(3) put_view_def)
next
  assume "0 < append_capacity (index_of si (route si (prefix_from_bytes key)))"
  then show "\<exists>si'. si_put_waiting [Suc (length (si_queue si))] si key value inl n = Some (Applied, si')"
    using put_after_maintenance [OF assms lessI] by metis
qed

theorem sharded_put_get_witness:
  "\<exists>w si1 si2 si3. si_put_waiting [1] (ShardedT1Index_new True 1 8 150) [7] 9 True 3 = Some (Applied, si1)
     \<and> si_put_waiting [w] si1 [8] 5 False 0 = Some (Applied, si2) \<and> si_get si2 [7] = Some 9 \<and> si_get si2 [8] = Some 5
     \<and> si_put_waiting [w] si1 [7] STORE_NOT_FOUND False 0 = Some (Applied, si3) \<and> si_get si3 [7] = Some STORE_NOT_FOUND"
proof -
  let ?si = "ShardedT1Index_new True 1 8 150"
  have u: "unique_prefixes (si_view ?si)" by (simp add: si_new_inv(2) unique_prefixes_def)
  have q: "length (si_queue ?si) = 0" "caps_ok ?si" by (simp_all add: ShardedT1Index_new_def caps_ok_def slot_def ShardSlot_new_def
      append_capacity_def T1Index_new_def note_append_region_created_def shard_for_def Let_def upper_bound_def partition_point_def)
  have cap: "0 < append_capacity (index_of si (route si (prefix_from_bytes k)))" if "caps_ok si" for si k using that by (simp add: caps_ok_def)
  obtain si1 where p: "si_put_waiting [1] ?si [7] 9 True 3 = Some (Applied, si1)"
    using conjunct2 [OF sharded_put_get [OF si_new_inv(1) u], THEN mp, OF cap [OF q(2)], of "[7]" 9 True 3] unfolding q(1) by auto
  note a = conjunct1 [OF sharded_put_get [OF si_new_inv(1) u], rule_format, OF p]
  have c: "si_view si1 = put_view (si_view ?si) [7] 9 (stored_hash [7] True 3)" "caps_ok si1"
    using si_put_waiting_correct [OF si_new_inv(1) disjI2 [OF u] p] q(2) by simp_all
  have i: "si_inv si1" using a by simp
  have u1: "unique_prefixes (si_view si1)" by (auto simp: c(1) si_new_inv(2) put_view_def unique_prefixes_def split: if_splits)
  let ?w = "Suc (length (si_queue si1))"
  obtain si2 where p2: "si_put_waiting [?w] si1 [8] 5 False 0 = Some (Applied, si2)"
    using conjunct2 [OF sharded_put_get [OF i u1], THEN mp, OF cap [OF c(2)], of "[8]" 5 False 0] by blast
  obtain si3 where p3: "si_put_waiting [?w] si1 [7] STORE_NOT_FOUND False 0 = Some (Applied, si3)"
    using conjunct2 [OF sharded_put_get [OF i u1], THEN mp, OF cap [OF c(2)], of "[7]" STORE_NOT_FOUND False 0] by blast
  have "prefix_from_bytes [7] \<noteq> prefix_from_bytes [8]" by code_simp
  then have n: "ident_of [7] \<noteq> ident_of [8]" by (simp add: prepare_key_and_hash_def)
  note a2 = conjunct1 [OF sharded_put_get [OF i u1], rule_format, OF p2] and a3 = conjunct1 [OF sharded_put_get [OF i u1], rule_format, OF p3]
  have g: "si_get si2 [7] = Some 9" "si_get si2 [8] = Some 5" "si_get si3 [7] = Some STORE_NOT_FOUND"
    using a a2 a3 n by simp_all
  show ?thesis by (intro exI conjI) (rule p p2 p3 g)+
qed

section \<open>What the store holds\<close>

text \<open>The pair an index entry stands for.\<close>

definition entry_kv :: "T2Memory \<Rightarrow> ident \<Rightarrow> LookupResult \<Rightarrow> bytes \<times> bytes" where
  "entry_kv mem x r =
     (if is_inline (lr_raw_hash r)
      then (take (inline_key_len (fst x)) (fst x), copy_inline_value (lr_payload_bits r) (decode_size (lr_raw_hash r)))
      else t2_read mem (unat (lr_payload_bits r AND kPayloadOffsetMask)))"

definition kv_map :: "VMemKV \<Rightarrow> ident \<rightharpoonup> bytes \<times> bytes" where
  "kv_map s x = map_option (entry_kv (kv_t2 s) x) (si_view (kv_t1 s) x)"

definition entry_ok :: "bool \<Rightarrow> T2Memory \<Rightarrow> extents \<Rightarrow> ident \<Rightarrow> LookupResult \<Rightarrow> bool" where
  "entry_ok use_inline mem recs x r \<longleftrightarrow> ident_of (fst (entry_kv mem x r)) = x
     \<and> (if is_inline (lr_raw_hash r) then use_inline
        else recs (unat (lr_payload_bits r AND kPayloadOffsetMask)) \<noteq> None \<and> hint_bytes (lr_payload_bits r) \<noteq> 0)"

definition kv_inv :: "VMemKV \<Rightarrow> extents \<Rightarrow> bool" where
  "kv_inv s recs \<longleftrightarrow> si_inv (kv_t1 s) \<and> caps_ok (kv_t1 s) \<and> t2_inv (kv_t2 s) recs \<and> own_inv (kv_own s) (si_view (kv_t1 s))
     \<and> (\<forall>x r. si_view (kv_t1 s) x = Some r \<longrightarrow> entry_ok (kv_use_inline s) (kv_t2 s) recs x r)
     \<and> unat (tm_capacity (kv_t2 s)) \<le> 2 ^ 48 \<and> unat (tm_base_boundary (kv_t2 s)) \<le> unat (tm_bytes_used (kv_t2 s))"

lemma kv_invD:
  assumes "kv_inv s recs"
  shows "si_inv (kv_t1 s)" "t2_inv (kv_t2 s) recs" "own_inv (kv_own s) (si_view (kv_t1 s))"
    "\<And>x r. si_view (kv_t1 s) x = Some r \<Longrightarrow> entry_ok (kv_use_inline s) (kv_t2 s) recs x r"
    "unat (tm_capacity (kv_t2 s)) \<le> 2 ^ 48" "unat (tm_base_boundary (kv_t2 s)) \<le> unat (tm_bytes_used (kv_t2 s))" "caps_ok (kv_t1 s)"
  using assms unfolding kv_inv_def by blast+

lemma entry_kv_cong:
  assumes "\<not> is_inline (lr_raw_hash r) \<Longrightarrow> t2_read mem' (unat (lr_payload_bits r AND kPayloadOffsetMask)) = t2_read mem (unat (lr_payload_bits r AND kPayloadOffsetMask))"
  shows "entry_kv mem' x r = entry_kv mem x r"
  using assms by (simp add: entry_kv_def)

text \<open>The base region of a T2 memory.\<close>

definition base_region :: "T2Memory \<Rightarrow> bytes" where
  "base_region mem = take (unat (tm_base_boundary mem)) (tm_base mem)"

text \<open>Appending touches only what lies behind the used area.\<close>

lemma append_base_region:
  assumes inv: "t2_inv mem recs" and fits: "fits_record key value"
    and app: "append_default mem key value = (Inr off, mem')"
    and nw: "unat (tm_bytes_used mem) + unat (record_len key value) < 2 ^ 64"
    and b: "unat (tm_base_boundary mem) \<le> unat (tm_bytes_used mem)"
  shows "base_region mem' = base_region mem" "tm_base_boundary mem' = tm_base_boundary mem"
    "tm_capacity mem' = tm_capacity mem" "unat (tm_bytes_used mem') = unat (tm_bytes_used mem) + unat (record_len key value)"
    "unat off + unat (record_len key value) \<le> unat (tm_capacity mem)"
proof -
  let ?n = "24 + length key + length value"
  have c: "off = tm_bytes_used mem" "\<not> off + record_len key value > tm_capacity mem"
      "mem' = mem\<lparr>tm_bytes_used := off + record_len key value, tm_base := write_record (tm_base mem) (unat off) key value\<rparr>"
    using app by (auto simp: append_default_def Let_def split: if_splits)
  have u: "unat (off + record_len key value) = unat off + unat (record_len key value)"
    using nw by (simp add: c(1) unat_word_ariths)
  then show le: "unat off + unat (record_len key value) \<le> unat (tm_capacity mem)" using c(2) by (simp add: not_less word_le_nat_alt)
  have l: "?n + 7 < 2 ^ 64" "unat off + aligned_size ?n \<le> length (tm_base mem)"
    using fits fits_record_len [OF fits] le t2_inv_len [OF inv] by (simp_all add: fits_record_def)
  have "mem_read (write_record (tm_base mem) (unat off) key value) 0 (unat (tm_base_boundary mem)) = mem_read (tm_base mem) 0 (unat (tm_base_boundary mem))"
    by (rule write_record_frame [OF l]) (use b c(1) in simp)
  then show "base_region mem' = base_region mem" by (simp add: base_region_def c(3) mem_read_def)
  show "tm_base_boundary mem' = tm_base_boundary mem" "tm_capacity mem' = tm_capacity mem" by (simp_all add: c(3))
  show "unat (tm_bytes_used mem') = unat (tm_bytes_used mem) + unat (record_len key value)" using u by (simp add: c(1,3))
qed

text \<open>What a caller that already looked the key up passes on.\<close>

definition prev_ok :: "LookupResult option \<Rightarrow> bytes \<Rightarrow> ShardedT1Index \<Rightarrow> bool" where
  "prev_ok prev key t1 \<longleftrightarrow> (case prev of None \<Rightarrow> True | Some r \<Rightarrow>
     (case si_view t1 (ident_of key) of Some r' \<Rightarrow> r = r' | None \<Rightarrow> lr_payload_bits r = STORE_NOT_FOUND))"

lemma prev_entry_ok:
  assumes "si_inv t1" "prev_ok prev key t1"
  obtains old where "prev_entry prev key t1 = Some old"
    "case si_view t1 (ident_of key) of Some r \<Rightarrow> lr_payload_bits old = lr_payload_bits r \<and> lr_raw_hash old = lr_raw_hash r \<and> is_live (lr_payload_bits old)
       | None \<Rightarrow> lr_payload_bits old = STORE_NOT_FOUND"
proof (cases prev)
  case None
  have "prev_entry prev key t1 = Some (si_lookup t1 key)" by (simp add: None prev_entry_def si_lookup_def si_get_route [OF assms(1)])
  then show ?thesis
    by (rule that) (use si.get_law [OF assms(1), of key] si.view_live [OF assms(1), of "ident_of key"] in \<open>auto split: option.splits\<close>)
next
  case (Some r)
  show ?thesis
    by (rule that [of r]) (use assms(2) si.view_live [OF assms(1), of "ident_of key"] in \<open>auto simp: Some prev_entry_def prev_ok_def split: option.splits\<close>)
qed

text \<open>What every mutation leaves alone.\<close>

definition kv_frame :: "VMemKV \<Rightarrow> VMemKV \<Rightarrow> bool" where
  "kv_frame s s' \<longleftrightarrow> kv_use_inline s' = kv_use_inline s
     \<and> tm_base_boundary (kv_t2 s') = tm_base_boundary (kv_t2 s) \<and> base_region (kv_t2 s') = base_region (kv_t2 s)
     \<and> tm_capacity (kv_t2 s') = tm_capacity (kv_t2 s) \<and> own_watermark (kv_own s') = own_watermark (kv_own s)
     \<and> unat (tm_bytes_used (kv_t2 s)) \<le> unat (tm_bytes_used (kv_t2 s'))
     \<and> unat (tm_bytes_used (kv_t2 s')) \<le> unat (tm_bytes_used (kv_t2 s)) + 2 ^ 20"

lemma kv_frame_refl [simp]: "kv_frame s s"
  by (simp add: kv_frame_def)

text \<open>An entry is published over a T2 memory in which the old records still read the same.\<close>

lemma publish_entry:
  assumes inv: "kv_inv s recs" and t1: "si_inv t1" "si_view t1 = put_view (si_view (kv_t1 s)) key payload h" "caps_ok t1" and live: "is_live payload"
    and t2: "t2_inv mem recs'" "\<And>p e. recs p = Some e \<Longrightarrow> recs' p = Some e \<and> t2_read mem p = t2_read (kv_t2 s) p"
    and cap: "tm_capacity mem = tm_capacity (kv_t2 s)" "unat (tm_base_boundary mem) \<le> unat (tm_bytes_used mem)"
    and new: "entry_ok (kv_use_inline s) mem recs' (ident_of key) \<lparr>lr_payload_bits = payload, lr_raw_hash = h\<rparr>"
    and own: "own_inv own (si_view t1)"
  defines "s' \<equiv> s\<lparr>kv_t1 := t1, kv_t2 := mem, kv_own := own\<rparr>"
  shows "kv_inv s' recs'"
    "kv_map s' = (kv_map s)(ident_of key \<mapsto> entry_kv mem (ident_of key) \<lparr>lr_payload_bits = payload, lr_raw_hash = h\<rparr>)"
proof -
  note d = kv_invD [OF inv]
  have v: "si_view t1 = (si_view (kv_t1 s))(ident_of key \<mapsto> \<lparr>lr_payload_bits = payload, lr_raw_hash = h\<rparr>)"
    using live by (simp add: t1(2) put_view_def)
  have kv: "entry_kv mem x r = entry_kv (kv_t2 s) x r" if "si_view (kv_t1 s) x = Some r" for x r
    by (rule entry_kv_cong) (use d(4) [OF that] t2(2) in \<open>auto simp: entry_ok_def\<close>)
  have ok: "entry_ok (kv_use_inline s) mem recs' x r" if "si_view (kv_t1 s) x = Some r" for x r
    using d(4) [OF that] kv [OF that] t2(2) by (fastforce simp: entry_ok_def split: if_splits)
  show "kv_inv s' recs'" unfolding kv_inv_def s'_def using t1(1,3) t2(1) own cap d(5) ok new by (auto simp: v split: if_splits)
  show "kv_map s' = (kv_map s)(ident_of key \<mapsto> entry_kv mem (ident_of key) \<lparr>lr_payload_bits = payload, lr_raw_hash = h\<rparr>)"
  proof
    fix x
    show "kv_map s' x = ((kv_map s)(ident_of key \<mapsto> entry_kv mem (ident_of key) \<lparr>lr_payload_bits = payload, lr_raw_hash = h\<rparr>)) x"
      using kv [of x] by (cases "si_view (kv_t1 s) x") (auto simp: kv_map_def v s'_def)
  qed
qed

lemma note_replace_watermark [simp]: "own_watermark (note_replace a b c d own) = own_watermark own"
  by (simp add: note_replace_def add_live_def subtract_live_def Let_def)

definition waits_ok :: "nat list list \<Rightarrow> VMemKV \<Rightarrow> bool" where
  "waits_ok waits s \<longleftrightarrow> unique_prefixes (si_view (kv_t1 s)) \<or> (\<forall>ws \<in> set waits. ws = [])"

text \<open>The inline branch.\<close>

lemma write_inline:
  assumes inv: "kv_inv s recs" and w: "ws = [] \<or> unique_prefixes (si_view (kv_t1 s))" and prev: "prev_ok prev key (kv_t1 s)"
    and pl: "try_make_inline_payload (kv_use_inline s) key value = Some (payload, n)"
    and res: "write_entry_lockfree mr (ws # rest) key value prev s = Some (r, s')"
  shows "r = Inr ()" "kv_inv s' recs" "kv_map s' = (kv_map s)(ident_of key \<mapsto> (key, value))" "kv_frame s s'" "kv_wal s' = kv_wal s"
    "unat (tm_bytes_used (kv_t2 s')) \<le> unat (tm_bytes_used (kv_t2 s)) + unat (record_len key value)"
proof -
  note d = kv_invD [OF inv]
  obtain old where old: "prev_entry prev key (kv_t1 s) = Some old" "case si_view (kv_t1 s) (ident_of key) of
      Some r \<Rightarrow> lr_payload_bits old = lr_payload_bits r \<and> lr_raw_hash old = lr_raw_hash r \<and> is_live (lr_payload_bits old)
    | None \<Rightarrow> lr_payload_bits old = STORE_NOT_FOUND"
    by (rule prev_entry_ok [OF d(1) prev])
  let ?own = "note_replace (lr_payload_bits old) (lr_raw_hash old) False 0 (kv_own s)" and ?h = "stored_hash key True n"
  note turn = res [unfolded write_entry_lockfree.simps [of mr "ws # rest"], simplified, unfolded pl old(1) Let_def, simplified]
  obtain pr t1 where p: "si_put_waiting ws (kv_t1 s) key payload True n = Some (pr, t1)" using turn by (auto split: option.splits)
  note pc = si_put_waiting_correct [OF d(1) w p]
  have r: "r = Inr ()" "s' = s\<lparr>kv_t1 := t1, kv_t2 := kv_t2 s, kv_own := ?own\<rparr>"
    using turn pc by (auto simp: p)
  note rt = inline_decodes [OF pl]
  have e: "entry_kv (kv_t2 s) (ident_of key) \<lparr>lr_payload_bits = payload, lr_raw_hash = ?h\<rparr> = (key, value)"
    using rt by (simp add: entry_kv_def prepare_key_and_hash_def)
  have own: "own_inv ?own (si_view t1)"
    unfolding conjunct1 [OF conjunct2 [OF conjunct2 [OF pc]]] put_view_def
    by (rule note_replace_inv [OF d(3)]) (use old(2) rt in \<open>auto split: option.splits\<close>)
  have "entry_ok (kv_use_inline s) (kv_t2 s) recs (ident_of key) \<lparr>lr_payload_bits = payload, lr_raw_hash = ?h\<rparr>"
    using e rt inline_payload(8) [OF pl] by (simp add: entry_ok_def)
  note pe = publish_entry [OF inv _ _ _ _ d(2) _ _ d(6) this own]
  show "r = Inr ()" by (rule r(1))
  show "kv_inv s' recs" unfolding r(2) by (rule pe(1)) (use pc rt d(7) in simp_all)
  have "kv_map s' = (kv_map s)(ident_of key \<mapsto> entry_kv (kv_t2 s) (ident_of key) \<lparr>lr_payload_bits = payload, lr_raw_hash = ?h\<rparr>)"
    unfolding r(2) by (rule pe(2)) (use pc rt d(7) in simp_all)
  then show "kv_map s' = (kv_map s)(ident_of key \<mapsto> (key, value))" by (simp only: e)
  show "kv_frame s s'" "kv_wal s' = kv_wal s"
    "unat (tm_bytes_used (kv_t2 s')) \<le> unat (tm_bytes_used (kv_t2 s)) + unat (record_len key value)" by (simp_all add: kv_frame_def r(2))
qed

text \<open>The branch that appends a record.\<close>

lemma write_record_entry:
  assumes inv: "kv_inv s recs" and w: "ws = [] \<or> unique_prefixes (si_view (kv_t1 s))" and prev: "prev_ok prev key (kv_t1 s)"
    and pl: "try_make_inline_payload (kv_use_inline s) key value = None"
    and len: "length key + length value < 2 ^ 63" and room: "unat (tm_bytes_used (kv_t2 s)) < 2 ^ 63"
    and small: "\<not> block_count key value \<ge> 65536"
    and app: "append_default (kv_t2 s) key value = (Inr offset, mem)"
    and res: "write_entry_lockfree mr (ws # rest) key value prev s = Some (r, s')"
  shows "r = Inr ()" "kv_inv s' (recs(unat offset \<mapsto> (length key, length value)))"
    "kv_map s' = (kv_map s)(ident_of key \<mapsto> (key, value))" "kv_frame s s'" "kv_wal s' = kv_wal s"
    "unat (tm_bytes_used (kv_t2 s')) = unat (tm_bytes_used (kv_t2 s)) + unat (record_len key value)" "offset = tm_bytes_used (kv_t2 s)"
    "si_view (kv_t1 s') (ident_of key) = Some e \<Longrightarrow> \<not> is_inline (lr_raw_hash e) \<and> lr_payload_bits e AND kPayloadOffsetMask = offset"
proof -
  note d = kv_invD [OF inv] and b = blocks_fit [OF len small]
  have al: "unat (record_len key value) \<le> 2 ^ 20" using b(3,4) aligned_size_bounds(2) [of "24 + length key + length value"]
    by (simp add: aligned_size_def)
  have nw: "unat (tm_bytes_used (kv_t2 s)) + unat (record_len key value) < 2 ^ 64" using room al by simp
  note ao = append_default_ok [OF d(2) b(2) app nw] and ab = append_base_region [OF d(2) b(2) app nw d(6)]
  have rl: "24 \<le> unat (record_len key value)" using b(4) aligned_size_bounds(1) [of "24 + length key + length value"] by simp
  have off: "unat offset < 2 ^ 48 - 1" using ab(5) rl d(5) by simp
  let ?p = "encode_payload offset (block_count key value)"
  have enc: "?p AND kPayloadOffsetMask = offset" "is_live ?p" "hint_bytes ?p \<noteq> 0"
    using encode_offset [of offset] encode_live [OF off] hint_of_blocks(1) [of offset, OF _ b(1)] b(5) off by auto
  obtain old where old: "prev_entry prev key (kv_t1 s) = Some old" "case si_view (kv_t1 s) (ident_of key) of
      Some r \<Rightarrow> lr_payload_bits old = lr_payload_bits r \<and> lr_raw_hash old = lr_raw_hash r \<and> is_live (lr_payload_bits old)
    | None \<Rightarrow> lr_payload_bits old = STORE_NOT_FOUND"
    by (rule prev_entry_ok [OF d(1) prev])
  let ?own = "note_replace (lr_payload_bits old) (lr_raw_hash old) True ?p (kv_own s)" and ?h = "stored_hash key False 0"
  note turn = res [unfolded write_entry_lockfree.simps [of mr "ws # rest"], simplified, unfolded pl app Let_def, simplified, unfolded old(1), simplified]
  have small': "\<not> 65536 \<le> block_count key value" using small by simp
  obtain pr t1 where p: "si_put_waiting ws (kv_t1 s) key ?p False 0 = Some (pr, t1)"
    using turn small' by (auto simp: old(1) split: option.splits if_splits)
  note pc = si_put_waiting_correct [OF d(1) w p]
  have r: "r = Inr ()" "s' = s\<lparr>kv_t1 := t1, kv_t2 := mem, kv_own := ?own\<rparr>"
    using turn pc small' by (auto simp: p old(1))
  have ninl: "\<not> is_inline ?h" by (simp add: stored_hash_def)
  have e: "entry_kv mem (ident_of key) \<lparr>lr_payload_bits = ?p, lr_raw_hash = ?h\<rparr> = (key, value)"
    using ninl ao(4) enc(1) by (simp add: entry_kv_def)
  have own: "own_inv ?own (si_view t1)"
    unfolding conjunct1 [OF conjunct2 [OF conjunct2 [OF pc]]] put_view_def
    by (rule note_replace_inv [OF d(3)]) (use old(2) ninl enc(2) in \<open>auto split: option.splits\<close>)
  have new: "entry_ok (kv_use_inline s) mem (recs(unat offset \<mapsto> (length key, length value))) (ident_of key)
      \<lparr>lr_payload_bits = ?p, lr_raw_hash = ?h\<rparr>"
    using e ninl enc by (simp add: entry_ok_def)
  have keep: "(recs(unat offset \<mapsto> (length key, length value))) q = Some e' \<and> t2_read mem q = t2_read (kv_t2 s) q" if "recs q = Some e'" for q e'
    using ao(2,5) that by auto
  have bu: "unat (tm_base_boundary mem) \<le> unat (tm_bytes_used mem)" using ab(2,4) d(6) by simp
  note pe = publish_entry [OF inv _ _ _ enc(2) ao(3) keep ab(3) bu new own]
  show "r = Inr ()" by (rule r(1))
  show "kv_inv s' (recs(unat offset \<mapsto> (length key, length value)))" unfolding r(2) by (rule pe(1)) (use pc d(7) in simp_all)
  have "kv_map s' = (kv_map s)(ident_of key \<mapsto> entry_kv mem (ident_of key) \<lparr>lr_payload_bits = ?p, lr_raw_hash = ?h\<rparr>)"
    unfolding r(2) by (rule pe(2)) (use pc d(7) in simp_all)
  then show "kv_map s' = (kv_map s)(ident_of key \<mapsto> (key, value))" by (simp only: e)
  show "kv_frame s s'" "kv_wal s' = kv_wal s"
    "unat (tm_bytes_used (kv_t2 s')) = unat (tm_bytes_used (kv_t2 s)) + unat (record_len key value)" using ab al by (simp_all add: kv_frame_def r(2))
  show "si_view (kv_t1 s') (ident_of key) = Some e \<Longrightarrow> \<not> is_inline (lr_raw_hash e) \<and> lr_payload_bits e AND kPayloadOffsetMask = offset"
    using pc enc ninl by (auto simp: r(2) put_view_def)
  show "offset = tm_bytes_used (kv_t2 s)" using app by (auto simp: append_default_def Let_def split: if_splits)
qed

text \<open>Appending as a whole.\<close>

lemma record_len_small:
  assumes "length key + length value < 2 ^ 63" "\<not> block_count key value \<ge> 65536"
  shows "unat (record_len key value) \<le> 2 ^ 20"
  using blocks_fit(3,4) [OF assms] by (simp add: aligned_size_def)

lemma write_entry_correct:
  assumes inv: "kv_inv s recs" and w: "waits_ok waits s" and prev: "prev_ok prev key (kv_t1 s)"
    and len: "length key + length value < 2 ^ 63" and room: "unat (tm_bytes_used (kv_t2 s)) < 2 ^ 63"
    and res: "write_entry_lockfree mr waits key value prev s = Some (r, s')"
  obtains (written) recs' where "r = Inr ()" "kv_inv s' recs'" "kv_map s' = (kv_map s)(ident_of key \<mapsto> (key, value))"
      "kv_frame s s'" "kv_wal s' = kv_wal s"
      "unat (tm_bytes_used (kv_t2 s')) \<le> unat (tm_bytes_used (kv_t2 s)) + unat (record_len key value)"
      "try_make_inline_payload (kv_use_inline s) key value \<noteq> None \<or> \<not> block_count key value \<ge> 65536"
    | (too_large) "r = Inl RecordTooLarge" "s' = s" "block_count key value \<ge> 65536"
    | (full) "r = Inl T2Full" "kv_inv s' recs" "kv_map s' = kv_map s" "kv_frame s s'" "kv_wal s' = kv_wal s"
      "unat (tm_capacity (kv_t2 s)) < unat (tm_bytes_used (kv_t2 s)) + unat (record_len key value)"
proof (cases waits)
  case Nil
  then show ?thesis using res by (simp add: write_entry_lockfree.simps)
next
  case (Cons ws rest)
  have w': "ws = [] \<or> unique_prefixes (si_view (kv_t1 s))" using w by (auto simp: waits_ok_def Cons)
  note res' = res [unfolded Cons]
  show ?thesis
  proof (cases "try_make_inline_payload (kv_use_inline s) key value")
    case (Some pn)
    obtain payload n where pn: "pn = (payload, n)" by (cases pn)
    note wi = write_inline [OF inv w' prev Some [unfolded pn] res']
    show ?thesis by (rule written [OF wi]) (simp add: Some)
  next
    case None
    note turn = res' [unfolded write_entry_lockfree.simps [of mr "ws # rest"], simplified, unfolded None, simplified]
    show ?thesis
    proof (cases "block_count key value \<ge> 65536")
      case True
      then show ?thesis using too_large turn by auto
    next
      case False
      note d = kv_invD [OF inv]
      have nw: "unat (tm_bytes_used (kv_t2 s)) + unat (record_len key value) < 2 ^ 64"
        using room record_len_small [OF len False] by simp
      show ?thesis
      proof (cases "append_default (kv_t2 s) key value")
        case (Pair ar mem)
        show ?thesis
        proof (cases ar)
          case (Inr offset)
          note wr = write_record_entry [OF inv w' prev None len room False Pair [unfolded Inr] res']
          show ?thesis by (rule written [OF wr(1-5)]) (use False wr(6) in simp_all)
        next
          case (Inl e)
          note ae = append_default_err [OF d(2) Pair [unfolded Inl] nw]
          have m: "mem = (kv_t2 s)\<lparr>tm_bytes_used := tm_bytes_used (kv_t2 s) + record_len key value\<rparr>"
            using Pair Inl by (auto simp: append_default_def Let_def split: if_splits)
          have rs: "r = Inl T2Full" "s' = s\<lparr>kv_t2 := mem\<rparr>" using turn False by (auto simp: Pair Inl)
          have u: "unat (tm_bytes_used mem) = unat (tm_bytes_used (kv_t2 s)) + unat (record_len key value)"
            using nw by (simp add: m unat_word_ariths)
          have kv: "entry_kv mem = entry_kv (kv_t2 s)" by (simp add: entry_kv_def fun_eq_iff ae(3))
          have "kv_inv s' recs"
            using d ae(2) u unfolding kv_inv_def rs(2) entry_ok_def by (simp add: kv) (simp add: m)
          moreover have "kv_map s' = kv_map s" by (simp add: kv_map_def rs(2) kv fun_eq_iff)
          moreover have "kv_frame s s'" using u record_len_small [OF len False] by (simp add: kv_frame_def rs(2)) (simp add: m base_region_def)
          moreover have "unat (tm_capacity (kv_t2 s)) < unat (tm_bytes_used (kv_t2 s)) + unat (record_len key value)"
            using Pair Inl u by (auto simp: append_default_def m Let_def word_less_nat_alt split: if_splits)
          ultimately show ?thesis using full rs by simp
        qed
      qed
    qed
  qed
qed

text \<open>A record that no longer fits is refused, whatever the waits.\<close>

lemma write_entry_full:
  assumes "try_make_inline_payload (kv_use_inline s) key value = None" "\<not> block_count key value \<ge> 65536"
    "unat (tm_capacity (kv_t2 s)) < unat (tm_bytes_used (kv_t2 s)) + unat (record_len key value)"
    "unat (tm_bytes_used (kv_t2 s)) + unat (record_len key value) < 2 ^ 64"
  shows "\<exists>s'. write_entry_lockfree mr (ws # rest) key value prev s = Some (Inl T2Full, s')"
proof -
  have "tm_bytes_used (kv_t2 s) + record_len key value > tm_capacity (kv_t2 s)"
    using assms(3,4) by (simp add: word_less_nat_alt unat_word_ariths)
  then obtain mem where "append_default (kv_t2 s) key value = (Inl CapacityExceeded, mem)" by (simp add: append_default_def Let_def)
  then show ?thesis using assms(1,2) by (subst write_entry_lockfree.simps) simp
qed

lemma write_entry_returns:
  assumes inv: "kv_inv s recs" and prev: "prev_ok prev key (kv_t1 s)" and un: "unique_prefixes (si_view (kv_t1 s))"
    and w: "length (si_queue (kv_t1 s)) < w"
  shows "\<exists>r s'. write_entry_lockfree mr [[w]] key value prev s = Some (r, s')"
proof -
  note d = kv_invD [OF inv]
  obtain old where old: "prev_entry prev key (kv_t1 s) = Some old" by (rule prev_entry_ok [OF d(1) prev])
  have cap: "0 < append_capacity (index_of (kv_t1 s) (route (kv_t1 s) (prefix_from_bytes key)))" using d(7) by (simp add: caps_ok_def)
  have "\<exists>t1. si_put_waiting [w] (kv_t1 s) key p inl n = Some (Applied, t1)" for p inl n
    by (rule put_after_maintenance [OF d(1) un w cap]) blast
  then obtain t1 where "si_put_waiting [w] (kv_t1 s) key p inl n = Some (Applied, t1 p inl n)" for p inl n by metis
  then show ?thesis by (subst write_entry_lockfree.simps) (auto simp: old Let_def split: option.splits sum.splits prod.splits)
qed

section \<open>In-place updates\<close>

lemma take_mem_write: "b \<le> p \<Longrightarrow> p \<le> length m \<Longrightarrow> take b (mem_write m p bs) = take b m"
  by (simp add: mem_write_def min_def)

lemma update_base_region:
  assumes inv: "t2_inv mem recs" and rec: "recs (unat off) = Some e" and upd: "update_value_at off value mem = (ok, mem')"
    and b: "unat (tm_base_boundary mem) \<le> unat off"
  shows "base_region mem' = base_region mem"
proof -
  note h = t2_invD [OF inv rec]
  have l: "unat off + 24 + fst e + snd e \<le> length (tm_base mem)" using h(4) by (simp add: extent_end_def)
  show ?thesis
  proof (cases ok)
    case True
    then have v: "length value \<le> snd e" using update_value_at_correct(1) [OF inv rec upd] by simp
    then have "tm_base mem' = mem_write (mem_write (if value \<noteq> [] then mem_write (mem_write (tm_base mem) (unat off + 16)
        (u64_le (vh_version (read_header (tm_base mem) (unat off)) + 1))) (unat off + 24 + fst e) value
        else mem_write (tm_base mem) (unat off + 16) (u64_le (vh_version (read_header (tm_base mem) (unat off)) + 1)))
        (unat off + 4) (u32_le (word_of_nat (length value)))) (unat off + 16) (u64_le (vh_version (read_header (tm_base mem) (unat off)) + 2))"
      using upd True h(1,2) by (auto simp: update_value_at_def Let_def header_size split: if_splits)
    moreover have "tm_base_boundary mem' = tm_base_boundary mem" by (rule update_value_at_correct(9) [OF inv rec upd])
    ultimately show ?thesis using l b v by (simp add: base_region_def take_mem_write)
  next
    case False
    then show ?thesis using update_value_at_correct(2) [OF inv rec upd] by simp
  qed
qed

lemma in_place_written:
  assumes inv: "kv_inv s recs" and view: "si_view (kv_t1 s) (ident_of key) = Some res" and ninl: "\<not> is_inline (lr_raw_hash res)"
    and upd: "update_value_at (lr_payload_bits res AND kPayloadOffsetMask) value (kv_t2 s) = (True, mem)"
    and key: "rv_key (t2_at (lr_payload_bits res AND kPayloadOffsetMask) (kv_t2 s)) = key"
    and base: "\<not> lr_payload_bits res AND kPayloadOffsetMask < tm_base_boundary (kv_t2 s)"
  shows "kv_inv (s\<lparr>kv_t2 := mem\<rparr>) recs" "kv_map (s\<lparr>kv_t2 := mem\<rparr>) = (kv_map s)(ident_of key \<mapsto> (key, value))"
    "kv_frame s (s\<lparr>kv_t2 := mem\<rparr>)"
proof -
  note d = kv_invD [OF inv]
  let ?off = "lr_payload_bits res AND kPayloadOffsetMask"
  obtain e where rec: "recs (unat ?off) = Some e" using d(4) [OF view] ninl by (auto simp: entry_ok_def)
  note u = update_value_at_correct [OF d(2) rec upd]
  have rd: "t2_read mem (unat ?off) = (key, value)" using u(4) key by (simp add: t2_read_def Let_def)
  have old: "fst (t2_read (kv_t2 s) (unat ?off)) = key" using key by (simp add: t2_read_def Let_def)
  have kv: "entry_kv mem x r = (if x = ident_of key then (key, value) else entry_kv (kv_t2 s) x r)"
    if xr: "si_view (kv_t1 s) x = Some r" for x r
  proof (cases "is_inline (lr_raw_hash r)")
    case True
    then have "x \<noteq> ident_of key" using xr view ninl by auto
    then show ?thesis using True by (simp add: entry_kv_def)
  next
    case False
    let ?p = "unat (lr_payload_bits r AND kPayloadOffsetMask)"
    obtain e' where rec': "recs ?p = Some e'" and id: "ident_of (fst (t2_read (kv_t2 s) ?p)) = x"
      using d(4) [OF xr] False by (auto simp: entry_ok_def entry_kv_def)
    show ?thesis
    proof (cases "?p = unat ?off")
      case True
      then have "x = ident_of key" using id old by simp
      then show ?thesis using False rd True by (simp add: entry_kv_def)
    next
      case ne: False
      then have "x \<noteq> ident_of key" using xr view by auto
      then show ?thesis using False u(6) [OF rec' ne] by (simp add: entry_kv_def)
    qed
  qed
  have ok: "entry_ok (kv_use_inline s) mem recs x r" if "si_view (kv_t1 s) x = Some r" for x r
    using d(4) [OF that] kv [OF that] by (auto simp: entry_ok_def)
  show "kv_inv (s\<lparr>kv_t2 := mem\<rparr>) recs" using d u(3,7-9) ok by (simp add: kv_inv_def)
  show "kv_map (s\<lparr>kv_t2 := mem\<rparr>) = (kv_map s)(ident_of key \<mapsto> (key, value))"
  proof
    fix x
    show "kv_map (s\<lparr>kv_t2 := mem\<rparr>) x = ((kv_map s)(ident_of key \<mapsto> (key, value))) x"
      using kv [of x] view by (cases "si_view (kv_t1 s) x") (auto simp: kv_map_def)
  qed
  have "unat (tm_base_boundary (kv_t2 s)) \<le> unat ?off" using base by (simp add: not_less word_le_nat_alt)
  then show "kv_frame s (s\<lparr>kv_t2 := mem\<rparr>)" using u(7-9) update_base_region [OF d(2) rec upd] by (simp add: kv_frame_def)
qed

lemma kv_wal_simps [simp]:
  "kv_inv (s\<lparr>kv_wal := w\<rparr>) recs = kv_inv s recs" "kv_map (s\<lparr>kv_wal := w\<rparr>) = kv_map s"
  "kv_frame s (s'\<lparr>kv_wal := w\<rparr>) = kv_frame s s'" "kv_frame (s\<lparr>kv_wal := w\<rparr>) s' = kv_frame s s'"
  by (simp_all add: kv_inv_def kv_map_def kv_frame_def fun_eq_iff)

definition in_place_ok :: "LookupResult \<Rightarrow> extents \<Rightarrow> bytes \<Rightarrow> bytes \<Rightarrow> VMemKV \<Rightarrow> bool" where
  "in_place_ok entry recs key value s \<longleftrightarrow>
     (let off = lr_payload_bits entry AND kPayloadOffsetMask
      in \<not> is_inline (lr_raw_hash entry) \<and> rv_key (t2_at off (kv_t2 s)) = key \<and> length value \<le> snd (the (recs (unat off)))
         \<and> \<not> off < tm_base_boundary (kv_t2 s) \<and> \<not> off < load_watermark (kv_own s))"

text \<open>The decision: only a matching record above the base region and the watermark, with room, is written.\<close>

lemma in_place_correct:
  assumes inv: "kv_inv s recs" and res: "try_in_place_update key value s = Some (r, s')"
  obtains (absent) "si_view (kv_t1 s) (ident_of key) = None" "r = Inr Aborted" "s' = s"
    | (fell) entry where "si_view (kv_t1 s) (ident_of key) = Some entry" "r = Inr FellThrough" "s' = s"
      "\<not> in_place_ok entry recs key value s"
    | (applied) entry s1 lsn w where "si_view (kv_t1 s) (ident_of key) = Some entry" "kv_inv s1 recs"
      "kv_map s1 = (kv_map s)(ident_of key \<mapsto> (key, value))" "kv_frame s s1" "kv_wal s1 = kv_wal s"
      "reserve_record WalUpdate key value (kv_wal s) = Some (Inr lsn, w)" "r = Inr (InPlaceApplied lsn)" "s' = s1\<lparr>kv_wal := w\<rparr>"
      "length value < 2 ^ 32" "length key < 2 ^ 32"
    | (refused) entry s1 e w where "si_view (kv_t1 s) (ident_of key) = Some entry" "kv_inv s1 recs"
      "kv_map s1 = (kv_map s)(ident_of key \<mapsto> (key, value))" "kv_frame s s1" "kv_wal s1 = kv_wal s"
      "reserve_record WalUpdate key value (kv_wal s) = Some (Inl e, w)" "r = Inl (LogFailed e)" "s' = s1\<lparr>kv_wal := w\<rparr>"
proof -
  note d = kv_invD [OF inv]
  have g: "si_get_with_hash (kv_t1 s) key = Some (si_lookup (kv_t1 s) key)" by (simp add: si_lookup_def si_get_route [OF d(1)])
  note law = si.get_law [OF d(1), of key]
  show ?thesis
  proof (cases "si_view (kv_t1 s) (ident_of key)")
    case None
    then show ?thesis using absent law res by (simp add: try_in_place_update_def g)
  next
    case (Some entry)
    have l: "si_lookup (kv_t1 s) key = entry" using law Some by simp
    have live: "lr_payload_bits entry \<noteq> STORE_NOT_FOUND" using si.view_live [OF d(1) Some] by (simp add: is_live_def)
    note eq = res [unfolded try_in_place_update_def g, simplified, unfolded l, simplified]
    show ?thesis
    proof (cases "is_inline (lr_raw_hash entry)")
      case True
      then show ?thesis using fell [OF Some] eq live by (simp add: in_place_ok_def Let_def)
    next
      case ninl: False
      let ?off = "lr_payload_bits entry AND kPayloadOffsetMask"
      let ?v = "t2_at ?off (kv_t2 s)"
      obtain e where rec: "recs (unat ?off) = Some e" using d(4) [OF Some] ninl by (auto simp: entry_ok_def)
      have ev: "even (vh_version (rv_header ?v))"
        using t2_invD(6) [OF d(2) rec] by (simp add: t2_at_def make_record_view_def Let_def)
      have al: "unat (vh_alloc_len (rv_header ?v)) = snd e"
        using t2_invD(2) [OF d(2) rec] by (simp add: t2_at_def make_record_view_def Let_def)
      have seq: "read_t2_record_seqlock (\<lambda>_. ?v) f = Some (f ?v)" for f by (rule seqlock_stable) (rule ev)
      obtain ok mem where upd: "update_value_at ?off value (kv_t2 s) = (ok, mem)" by force
      have okv: "ok \<longleftrightarrow> length value \<le> snd e" by (rule update_value_at_correct(1) [OF d(2) rec upd])
      have eqn: "(if rv_key ?v = key \<and> \<not> length value > snd e \<and> \<not> (?off < tm_base_boundary (kv_t2 s) \<or> ?off < load_watermark (kv_own s))
          then (case reserve_record WalUpdate key value (kv_wal s) of None \<Rightarrow> None
                | Some (Inl e, w) \<Rightarrow> Some (Inl (LogFailed e), s\<lparr>kv_t2 := mem, kv_wal := w\<rparr>)
                | Some (Inr lsn, w) \<Rightarrow> Some (Inr (InPlaceApplied lsn), s\<lparr>kv_t2 := mem, kv_wal := w\<rparr>))
          else Some (Inr FellThrough, s)) = Some (r, s')"
        using eq live ninl okv by (auto simp: Let_def seq al upd byte_span_equal_def split: if_splits)
      show ?thesis
      proof (cases "rv_key ?v = key \<and> \<not> length value > snd e \<and> \<not> (?off < tm_base_boundary (kv_t2 s) \<or> ?off < load_watermark (kv_own s))")
        case False
        then have "\<not> in_place_ok entry recs key value s" using rec by (auto simp: in_place_ok_def Let_def)
        with False show ?thesis using fell [OF Some] eqn by (simp only: if_False) simp
      next
        case True
        then have t: "ok" using okv by simp
        have key: "rv_key ?v = key" and base: "\<not> ?off < tm_base_boundary (kv_t2 s)" using True by simp_all
        note w = in_place_written [OF inv Some ninl upd [unfolded t [THEN eqTrueI]] key base]
        have kl: "length key < 2 ^ 32"
        proof -
          have "length key \<le> unat (vh_key_len (rv_header ?v))" using key by (auto simp: t2_at_def make_record_view_def Let_def mem_read_def)
          also have "\<dots> < 2 ^ 32" using unat_less_2p [of "vh_key_len (rv_header ?v)"] by simp
          finally show ?thesis .
        qed
        have vl: "length value < 2 ^ 32"
        proof -
          have "length value \<le> unat (vh_alloc_len (rv_header ?v))" using True al by simp
          also have "\<dots> < 2 ^ 32" using unat_less_2p [of "vh_alloc_len (rv_header ?v)"] by simp
          finally show ?thesis .
        qed
        obtain rr w' where rv: "reserve_record WalUpdate key value (kv_wal s) = Some (rr, w')"
          using eqn unfolding if_P [OF True] by (auto split: option.splits)
        show ?thesis
        proof (cases rr)
          case (Inl er)
          show ?thesis
            by (rule refused [OF Some w, of er w']) (use rv Inl eqn [unfolded if_P [OF True]] in auto)
        next
          case (Inr lsn)
          show ?thesis
            by (rule applied [OF Some w, of lsn w']) (use rv Inr eqn [unfolded if_P [OF True]] kl vl in auto)
        qed
      qed
    qed
  qed
qed

end
