(* ===== verification/Durable_Map.thy ===== *)
theory Durable_Map
  imports Wal_Format Live_Index
begin

text \<open>
  What a logged store promises: the operations on a map, the map a log stands for, and the contract
  of a store that acknowledges a change only once its record is in the log. Proved inside the
  contract: after any run of calls, acknowledged, refused or failed in any mixture, the log stands
  for exactly the acknowledged changes.
\<close>

section \<open>The map and its operations\<close>

datatype StoreOp = OpInsert bytes bytes | OpUpdate bytes bytes | OpRemove bytes

fun op_key :: "StoreOp \<Rightarrow> bytes" where
  "op_key (OpInsert k v) = k" | "op_key (OpUpdate k v) = k" | "op_key (OpRemove k) = k"

fun op_value :: "StoreOp \<Rightarrow> bytes" where
  "op_value (OpInsert k v) = v" | "op_value (OpUpdate k v) = v" | "op_value (OpRemove k) = []"

fun op_type :: "StoreOp \<Rightarrow> WalRecordType" where
  "op_type (OpInsert k v) = WalInsert" | "op_type (OpUpdate k v) = WalUpdate" | "op_type (OpRemove k) = WalDelete"

type_synonym kvs = "ident \<rightharpoonup> bytes \<times> bytes"

fun spec_op :: "StoreOp \<Rightarrow> kvs \<Rightarrow> bool \<times> kvs" where
  "spec_op (OpInsert k v) m = (if m (ident_of k) = None then (True, m(ident_of k \<mapsto> (k, v))) else (False, m))"
| "spec_op (OpUpdate k v) m = (if m (ident_of k) = None then (False, m) else (True, m(ident_of k \<mapsto> (k, v))))"
| "spec_op (OpRemove k) m = (if m (ident_of k) = None then (False, m) else (True, m(ident_of k := None)))"

section \<open>The map of a log\<close>

definition apply_record :: "WalRecord \<Rightarrow> kvs \<Rightarrow> kvs" where
  "apply_record r m =
     (if wr_type r = WalDelete then m(ident_of (wr_key r) := None) else m(ident_of (wr_key r) \<mapsto> (wr_key r, wr_value r)))"

abbreviation log_map :: "WalRecord list \<Rightarrow> kvs \<Rightarrow> kvs" where
  "log_map rs m \<equiv> fold apply_record rs m"

definition op_record :: "StoreOp \<Rightarrow> u64 \<Rightarrow> WalRecord" where
  "op_record op lsn = \<lparr>wr_type = op_type op, wr_lsn = lsn, wr_key = op_key op, wr_value = op_value op\<rparr>"

lemma spec_op_record: "fst (spec_op op m) \<Longrightarrow> snd (spec_op op m) = apply_record (op_record op lsn) m"
  by (cases op) (auto simp: apply_record_def op_record_def split: if_splits)

lemma apply_record_at:
  "apply_record r m x = (if x = ident_of (wr_key r) then if wr_type r = WalDelete then None else Some (wr_key r, wr_value r) else m x)"
  by (simp add: apply_record_def)

text \<open>A record decides the entry of its key whatever the map was, so a log may be replayed over its own result.\<close>

lemma log_map_at:
  "log_map rs m x = (if x \<in> ident_of ` wr_key ` set rs then log_map rs m' x else m x)"
proof (induction rs arbitrary: m m')
  case (Cons r rs)
  show ?case
    using Cons.IH [of "apply_record r m" "apply_record r m'"] Cons.IH [of "apply_record r m'" "apply_record r m'"]
    by (auto simp: apply_record_at)
qed simp

lemma log_map_again: "log_map rs (log_map rs m) = log_map rs m"
proof
  fix x
  show "log_map rs (log_map rs m) x = log_map rs m x"
    using log_map_at [of rs "log_map rs m" x m] by (auto split: if_splits)
qed

section \<open>Runs\<close>

inductive runs :: "('o \<Rightarrow> 's \<Rightarrow> 'r \<Rightarrow> 's \<Rightarrow> bool) \<Rightarrow> 's \<Rightarrow> ('o \<times> 'r) list \<Rightarrow> 's \<Rightarrow> bool" for step where
  stop: "runs step s [] s"
| call: "step op s r s1 \<Longrightarrow> runs step s1 tr s' \<Longrightarrow> runs step s ((op, r) # tr) s'"

inductive_cases runs_NilE: "runs step s [] s'"
inductive_cases runs_ConsE: "runs step s (c # tr) s'"

definition acknowledged :: "(StoreOp \<times> ('e + bool)) list \<Rightarrow> StoreOp list" where
  "acknowledged tr = map fst (filter (\<lambda>c. snd c = Inr True) tr)"

lemma acknowledged_simps [simp]:
  "acknowledged [] = []" "acknowledged ((op, r) # tr) = (if r = Inr True then op # acknowledged tr else acknowledged tr)"
  by (simp_all add: acknowledged_def)

definition acked_map :: "StoreOp list \<Rightarrow> kvs \<Rightarrow> kvs" where
  "acked_map ops m = fold (\<lambda>op m. snd (spec_op op m)) ops m"

lemma acked_map_simps [simp]: "acked_map [] m = m" "acked_map (op # ops) m = acked_map ops (snd (spec_op op m))"
  by (simp_all add: acked_map_def)

text \<open>
  The contract. \<open>good n s rs\<close>: the state is well formed, its log holds \<open>rs\<close>, and \<open>n\<close> more calls
  stay within its bounds.
\<close>

locale durable_map =
  fixes good :: "nat \<Rightarrow> 's \<Rightarrow> WalRecord list \<Rightarrow> bool"
    and view :: "'s \<Rightarrow> kvs"
    and closed :: "'s \<Rightarrow> bool"
    and step :: "StoreOp \<Rightarrow> 's \<Rightarrow> 'e + bool \<Rightarrow> 's \<Rightarrow> bool"
  assumes acked: "good (Suc n) s rs \<Longrightarrow> step op s (Inr True) s' \<Longrightarrow>
      \<not> closed s \<and> fst (spec_op op (view s)) \<and> view s' = snd (spec_op op (view s)) \<and> (\<exists>lsn. good n s' (rs @ [op_record op lsn]))"
    and refused: "good (Suc n) s rs \<Longrightarrow> step op s (Inr False) s' \<Longrightarrow> good n s' rs \<and> view s' = view s \<and> closed s' = closed s"
    and thrown: "good (Suc n) s rs \<Longrightarrow> step op s (Inl e) s' \<Longrightarrow> good n s' rs \<and> (closed s' \<or> view s' = view s \<and> closed s' = closed s)"
begin

lemma run_durable:
  assumes "runs step s tr s'" "good (length tr + n) s rs" "closed s \<or> view s = log_map rs m"
  shows "\<exists>rs'. good n s' (rs @ rs') \<and> (closed s' \<or> view s' = log_map (rs @ rs') m)
    \<and> log_map (rs @ rs') m = acked_map (acknowledged tr) (log_map rs m)
    \<and> list_all2 (\<lambda>op r. \<exists>lsn. r = op_record op lsn) (acknowledged tr) rs'"
  using assms
proof (induction arbitrary: rs rule: runs.induct)
  case (stop s)
  then show ?case by (intro exI [of _ "[]"]) simp
next
  case (call op s r s1 tr s')
  have g: "good (Suc (length tr + n)) s rs" using call.prems(1) by simp
  consider (yes) "r = Inr True" | (no) "r \<noteq> Inr True" by blast
  then show ?case
  proof cases
    case yes
    note st = call.hyps(1) [unfolded yes]
    obtain lsn where a: "\<not> closed s" "fst (spec_op op (view s))" "view s1 = snd (spec_op op (view s))" "good (length tr + n) s1 (rs @ [op_record op lsn])"
      using acked [OF g st] by blast
    have v: "snd (spec_op op (view s)) = log_map (rs @ [op_record op lsn]) m"
      using spec_op_record [OF a(2), of lsn] call.prems(2) a(1) by simp
    have "closed s1 \<or> view s1 = log_map (rs @ [op_record op lsn]) m" by (simp add: a(3) v)
    from call.IH [OF a(4) this] obtain rs' where h: "good n s' (rs @ [op_record op lsn] @ rs')"
      "closed s' \<or> view s' = log_map (rs @ [op_record op lsn] @ rs') m"
      "log_map (rs @ [op_record op lsn] @ rs') m = acked_map (acknowledged tr) (log_map (rs @ [op_record op lsn]) m)"
      "list_all2 (\<lambda>op r. \<exists>lsn. r = op_record op lsn) (acknowledged tr) rs'" by auto
    have "log_map (rs @ [op_record op lsn]) m = snd (spec_op op (log_map rs m))" using v call.prems(2) a(1) by simp
    then show ?thesis using h yes by (intro exI [of _ "op_record op lsn # rs'"]) auto
  next
    case no
    have "good (length tr + n) s1 rs \<and> (closed s1 \<or> view s1 = view s \<and> closed s1 = closed s)"
    proof (cases r)
      case (Inl e)
      then show ?thesis using thrown [OF g] call.hyps(1) by blast
    next
      case (Inr b)
      then show ?thesis using refused [OF g] call.hyps(1) no by (cases b) auto
    qed
    then show ?thesis using call.IH [of rs] call.prems(2) no by auto
  qed
qed

end

end
