(* ===== verification/Store.thy ===== *)
theory Store
  imports Write_Path Durable_Map
begin

text \<open>
  \<^verbatim>\<open>vmemkv_impl.hpp\<close>: the operations of the store over its index, T2 file, segment accounting and
  log, as whole calls; bulk loading and range scans. Shown: the store refines a finite map,
  operation by operation and on every outcome, every call returns, and the base region of the T2
  file never changes.
\<close>

section \<open>Operations\<close>

definition kMaxBytesSinceCheckpoint :: nat where
  "kMaxBytesSinceCheckpoint = 64 * 2 ^ 20"

definition kWalCheckStride :: nat where
  "kWalCheckStride = 64"

definition wal_over_threshold :: "Wal \<Rightarrow> bool" where
  "wal_over_threshold w \<longleftrightarrow> length (segment w) \<ge> kMaxBytesSinceCheckpoint"

definition maybe_reorganize_if_needed :: "VMemKV \<Rightarrow> VMemKV" where
  "maybe_reorganize_if_needed s =
     (let s1 = s\<lparr>kv_wal_check_counter := kv_wal_check_counter s + 1\<rparr>
      in if kv_wal_check_counter s mod kWalCheckStride = 0 \<and> wal_over_threshold (kv_wal s)
         then s1\<lparr>kv_requested := True\<rparr> else s1)"

text \<open>\<open>ios\<close>: the system's answers to the log; \<open>waits\<close>: the maintenance cycles during the pauses of index writes.\<close>

definition append_and_reserve ::
  "nat list list \<Rightarrow> WalRecordType \<Rightarrow> bytes \<Rightarrow> bytes \<Rightarrow> LookupResult \<Rightarrow> VMemKV \<Rightarrow> StripeResult call" where
  "append_and_reserve waits ty full_key value prev s =
     (case write_entry_lockfree maybe_reorganize_if_needed waits full_key value (Some prev) s of
        None \<Rightarrow> None
      | Some (Inl e, s1) \<Rightarrow> Some (Inl e, s1)
      | Some (Inr _, s1) \<Rightarrow> reserve_applied ty full_key value True s1)"

definition insert_impl :: "IoOutcome list \<Rightarrow> nat list list \<Rightarrow> bytes \<Rightarrow> bytes \<Rightarrow> VMemKV \<Rightarrow> bool call" where
  "insert_impl ios waits full_key value =
     with_key_stripe ios maybe_reorganize_if_needed
       (\<lambda>s. case si_get (kv_t1 s) full_key of
              None \<Rightarrow> None
            | Some payload \<Rightarrow>
                if payload \<noteq> STORE_NOT_FOUND then Some (Inr no_change, s)
                else append_and_reserve waits WalInsert full_key value \<lparr>lr_payload_bits = STORE_NOT_FOUND, lr_raw_hash = 0\<rparr> s)"

definition get_impl :: "ReadEnv \<Rightarrow> bytes \<Rightarrow> VMemKV \<Rightarrow> bytes option option" where
  "get_impl env full_key s =
     (case si_get_with_hash (kv_t1 s) full_key of
        None \<Rightarrow> None
      | Some res \<Rightarrow>
          if lr_payload_bits res = STORE_NOT_FOUND then Some None
          else if kv_use_inline s \<and> is_inline (lr_raw_hash res)
          then Some (Some (copy_inline_value (lr_payload_bits res) (decode_size (lr_raw_hash res))))
          else let mem = kv_t2 s;
                   offset = lr_payload_bits res AND kPayloadOffsetMask;
                   fallback = read_t2_record_seqlock (\<lambda>_. t2_at offset mem)
                     (\<lambda>record. if \<not> byte_span_equal (rv_key record) full_key then None else Some (rv_value record))
               in case try_read_base_record env mem (lr_payload_bits res) kGet of
                    Some base_record \<Rightarrow>
                      if byte_span_equal (rv_key base_record) full_key then Some (Some (rv_value base_record)) else fallback
                  | None \<Rightarrow> fallback)"

definition update_impl :: "IoOutcome list \<Rightarrow> nat list list \<Rightarrow> bytes \<Rightarrow> bytes \<Rightarrow> VMemKV \<Rightarrow> bool call" where
  "update_impl ios waits full_key value =
     with_key_stripe ios maybe_reorganize_if_needed
       (\<lambda>s. case si_get_with_hash (kv_t1 s) full_key of
              None \<Rightarrow> None
            | Some quick \<Rightarrow>
                if lr_payload_bits quick = STORE_NOT_FOUND then Some (Inr no_change, s)
                else if is_inline (lr_raw_hash quick) then append_and_reserve waits WalUpdate full_key value quick s
                else (case try_in_place_update full_key value s of
                        None \<Rightarrow> None
                      | Some (Inl e, s1) \<Rightarrow> Some (Inl e, s1)
                      | Some (Inr Aborted, s1) \<Rightarrow> Some (Inr no_change, s1)
                      | Some (Inr (InPlaceApplied lsn), s1) \<Rightarrow>
                          Some (Inr \<lparr>sr_applied = True, sr_pending = Some lsn, sr_need_reorg_check = False\<rparr>, s1)
                      | Some (Inr FellThrough, s1) \<Rightarrow> append_and_reserve waits WalUpdate full_key value quick s1))"

definition put_tombstone :: "nat list \<Rightarrow> bytes \<Rightarrow> LookupResult \<Rightarrow> VMemKV \<Rightarrow> (PutResult \<times> VMemKV) option" where
  "put_tombstone ws full_key res s =
     map_option (\<lambda>(put_result, t1).
         (put_result, if put_result = Applied
            then s\<lparr>kv_t1 := t1, kv_own := note_replace (lr_payload_bits res) (lr_raw_hash res) False 0 (kv_own s)\<rparr>
            else s\<lparr>kv_t1 := t1\<rparr>))
       (si_put_waiting ws (kv_t1 s) full_key STORE_NOT_FOUND False 0)"

definition remove_impl :: "IoOutcome list \<Rightarrow> nat list \<Rightarrow> bytes \<Rightarrow> VMemKV \<Rightarrow> bool call" where
  "remove_impl ios ws full_key =
     with_key_stripe ios maybe_reorganize_if_needed
       (\<lambda>s. case si_get_with_hash (kv_t1 s) full_key of
              None \<Rightarrow> None
            | Some res \<Rightarrow>
                if lr_payload_bits res = STORE_NOT_FOUND then Some (Inr no_change, s)
                else (case put_tombstone ws full_key res s of
                        None \<Rightarrow> None
                      | Some (put_result, s1) \<Rightarrow>
                          if put_result = Applied then reserve_applied WalDelete full_key [] False s1
                          else Some (Inr no_change, s1)))"

text \<open>Bulk loading, over the list of pairs the two callbacks produce; pacing only delays.\<close>

fun bulk_load_impl :: "nat list list \<Rightarrow> (bytes \<times> bytes) list \<Rightarrow> VMemKV \<Rightarrow> unit call" where
  "bulk_load_impl waits [] s = Some (Inr (), s)"
| "bulk_load_impl waits ((key, value) # rest) s =
     (case write_entry_lockfree maybe_reorganize_if_needed waits key value None (maybe_reorganize_if_needed s) of
        None \<Rightarrow> None
      | Some (Inl e, s1) \<Rightarrow> Some (Inl e, s1)
      | Some (Inr _, s1) \<Rightarrow> bulk_load_impl waits rest s1)"

section \<open>Range scans\<close>

definition kScanBatchSize :: nat where
  "kScanBatchSize = 128"

text \<open>The callbacks so far, the count and the open batch.\<close>

type_synonym scan_state = "(bytes \<times> bytes) list \<times> nat \<times> ScanBatchSlot list"

definition scan_entry :: "ReadEnv \<Rightarrow> VMemKV \<Rightarrow> bytes \<Rightarrow> bytes \<Rightarrow> scan_hit \<Rightarrow> scan_state \<Rightarrow> scan_state option" where
  "scan_entry env s lo hi hit st =
     (case (hit, st) of ((index_key, payload, hash), (out, total_count, batch)) \<Rightarrow>
        if payload = STORE_NOT_FOUND then Some st
        else if kv_use_inline s \<and> is_inline hash
        then let value = copy_inline_value payload (decode_size hash);
                 key_view = take (inline_key_len index_key) index_key
             in if \<not> key_in_range key_view lo hi then Some st
                else Some (out @ [(key_view, value)], total_count + 1, batch)
        else let batch1 = batch @ [ScanBatchSlot_of payload hash]
             in if length batch1 \<ge> kScanBatchSize
                then map_option (\<lambda>cbs. (out @ cbs, total_count + 1, [])) (flush_scan_batch env (kv_t2 s) lo hi batch1)
                else Some (out, total_count + 1, batch1))"

fun scan_entries :: "ReadEnv \<Rightarrow> VMemKV \<Rightarrow> bytes \<Rightarrow> bytes \<Rightarrow> scan_hit list \<Rightarrow> scan_state \<Rightarrow> scan_state option" where
  "scan_entries env s lo hi [] st = Some st"
| "scan_entries env s lo hi (hit # hits) st =
     Option.bind (scan_entry env s lo hi hit st) (scan_entries env s lo hi hits)"

definition scan_impl :: "ReadEnv \<Rightarrow> bytes \<Rightarrow> bytes \<Rightarrow> VMemKV \<Rightarrow> (nat \<times> (bytes \<times> bytes) list) option" where
  "scan_impl env lo hi s =
     Option.bind (si_scan (set_scan_active True (kv_t1 s)) lo hi) (\<lambda>hits.
       Option.bind (scan_entries env s lo hi hits ([], 0, [])) (\<lambda>(out, total_count, batch).
         map_option (\<lambda>cbs. (total_count, out @ cbs)) (flush_scan_batch env (kv_t2 s) lo hi batch)))"

section \<open>A new store\<close>

record StoreConfig =
  cfg_use_bloom :: bool
  cfg_append_cap :: nat
  cfg_shard_target :: nat
  cfg_split_percent :: nat
  cfg_use_inline :: bool
  cfg_segment_bytes :: u64

text \<open>The member initialisers, over the opened T2 file and log.\<close>

definition VMemKV_init :: "StoreConfig \<Rightarrow> u64 \<Rightarrow> T2Memory \<Rightarrow> Wal \<Rightarrow> VMemKV" where
  "VMemKV_init cfg t2_bytes_capacity mem w =
     \<lparr>kv_t1 = ShardedT1Index_new (cfg_use_bloom cfg) (cfg_append_cap cfg) (cfg_shard_target cfg) (cfg_split_percent cfg),
      kv_t2 = mem,
      kv_own = T2Ownership_new (cfg_segment_bytes cfg)
        (unat ((t2_bytes_capacity + cfg_segment_bytes cfg - 1) div cfg_segment_bytes cfg)),
      kv_wal = w, kv_use_inline = cfg_use_inline cfg, kv_requested = False, kv_wal_check_counter = 0\<rparr>"

section \<open>The contract\<close>

fun exec_op :: "IoOutcome list \<Rightarrow> nat list list \<Rightarrow> StoreOp \<Rightarrow> VMemKV \<Rightarrow> bool call" where
  "exec_op ios waits (OpInsert k v) s = insert_impl ios waits k v s"
| "exec_op ios waits (OpUpdate k v) s = update_impl ios waits k v s"
| "exec_op ios waits (OpRemove k) s = remove_impl ios (case waits of [] \<Rightarrow> [] | ws # _ \<Rightarrow> ws) k s"

section \<open>One logged call\<close>

lemma reorg_simps [simp]:
  "kv_inv (maybe_reorganize_if_needed s) recs = kv_inv s recs" "kv_map (maybe_reorganize_if_needed s) = kv_map s"
  "kv_frame s0 (maybe_reorganize_if_needed s) = kv_frame s0 s" "kv_wal (maybe_reorganize_if_needed s) = kv_wal s"
  "kv_t1 (maybe_reorganize_if_needed s) = kv_t1 s" "kv_t2 (maybe_reorganize_if_needed s) = kv_t2 s"
  "kv_own (maybe_reorganize_if_needed s) = kv_own s" "kv_use_inline (maybe_reorganize_if_needed s) = kv_use_inline s"
  by (simp_all add: maybe_reorganize_if_needed_def Let_def kv_inv_def kv_map_def kv_frame_def fun_eq_iff)

lemma logged_call:
  assumes fn: "fn s = reserve_applied ty key value nc s1" and wal: "kv_wal s1 = kv_wal s" and q: "wal_quiet (kv_wal s) rs"
    and io: "io_recoverable io"
  obtains (durable) w2 where "with_key_stripe (io # ios) maybe_reorganize_if_needed fn s =
        Some (Inr True, if nc then maybe_reorganize_if_needed (s1\<lparr>kv_wal := w2\<rparr>) else s1\<lparr>kv_wal := w2\<rparr>)"
      "wal_quiet w2 (rs @ [next_record ty key value (kv_wal s)])" "\<not> poisoned w2" "\<not> poisoned (kv_wal s)" "next_lsn w2 = next_lsn (kv_wal s) + 1"
    | (failed) e w2 where "with_key_stripe (io # ios) maybe_reorganize_if_needed fn s = Some (Inl (LogFailed e), s1\<lparr>kv_wal := w2\<rparr>)"
      "wal_quiet w2 rs" "poisoned w2" "poisoned (kv_wal s) \<or> \<not> io_flawless io"
proof (cases "poisoned (kv_wal s)")
  case True
  show ?thesis
    by (rule failed [of WalPoisoned "kv_wal s"])
      (use True q in \<open>simp_all add: with_key_stripe_def fn reserve_applied_def wal reserve_poisoned\<close>)
next
  case False
  obtain lsn w1 where r: "reserve_record ty key value (kv_wal s) = Some (Inr lsn, w1)" using reserve_quiet [OF q False] by blast
  have st: "with_key_stripe (io # ios) maybe_reorganize_if_needed fn s =
      (case await_durable (io # ios) lsn w1 of None \<Rightarrow> None
       | Some (Inl e, w) \<Rightarrow> Some (Inl (LogFailed e), s1\<lparr>kv_wal := w\<rparr>)
       | Some (Inr _, w) \<Rightarrow> Some (Inr True, if nc then maybe_reorganize_if_needed (s1\<lparr>kv_wal := w\<rparr>) else s1\<lparr>kv_wal := w\<rparr>))"
    by (simp add: with_key_stripe_def fn reserve_applied_def wal r Let_def split: option.splits sum.splits prod.splits)
  from q False io r show ?thesis
    by (cases rule: await_quiet [where ios = ios]) (use st False durable failed in simp_all)
qed

lemma plain_call:
  "fn s = Some (Inl e, s1) \<Longrightarrow> with_key_stripe ios chk fn s = Some (Inl e, s1)"
  "fn s = Some (Inr no_change, s1) \<Longrightarrow> with_key_stripe ios chk fn s = Some (Inr False, s1)"
  "fn s = None \<Longrightarrow> with_key_stripe ios chk fn s = None"
  by (simp_all add: with_key_stripe_def no_change_def)

section \<open>The operations refine the map\<close>

definition op_fits :: "StoreOp \<Rightarrow> bool" where
  "op_fits op \<longleftrightarrow> length (op_key op) < 2 ^ 32 \<and> length (op_value op) < 2 ^ 32"

text \<open>
  How a call ends that sets the map to \<open>m'\<close>: the record is durable; or the log failed (it was closed,
  or the system did not take the record), and then the change stands in memory but not in the log,
  which is closed; or the record does not fit, and the map is as it was.
\<close>

definition logged_outcome :: "IoOutcome \<Rightarrow> WalRecord list \<Rightarrow> WalRecord \<Rightarrow> kvs \<Rightarrow> VMemKV \<Rightarrow> StoreError + bool \<Rightarrow> VMemKV \<Rightarrow> bool" where
  "logged_outcome io rs rec m' s r s' \<longleftrightarrow> (\<exists>recs'. kv_inv s' recs') \<and> kv_frame s s' \<and>
     (case r of
        Inr b \<Rightarrow> b \<and> kv_map s' = m' \<and> \<not> poisoned (kv_wal s) \<and> \<not> poisoned (kv_wal s') \<and> wal_quiet (kv_wal s') (rs @ [rec])
          \<and> next_lsn (kv_wal s') = next_lsn (kv_wal s) + 1
      | Inl (LogFailed e) \<Rightarrow> kv_map s' = m' \<and> poisoned (kv_wal s') \<and> wal_quiet (kv_wal s') rs
          \<and> (poisoned (kv_wal s) \<or> \<not> io_flawless io)
      | Inl RecordTooLarge \<Rightarrow> s' = s \<and> block_count (wr_key rec) (wr_value rec) \<ge> 65536
      | Inl T2Full \<Rightarrow> kv_map s' = kv_map s \<and> kv_wal s' = kv_wal s
          \<and> unat (tm_capacity (kv_t2 s)) < unat (tm_bytes_used (kv_t2 s)) + unat (record_len (wr_key rec) (wr_value rec)))"

lemma logged_call_outcome:
  assumes fn: "fn s = reserve_applied ty key value nc s1" and s1: "kv_inv s1 recs1" "kv_frame s s1" "kv_wal s1 = kv_wal s"
    and q: "wal_quiet (kv_wal s) rs" and io: "io_recoverable io"
  obtains r s' where "with_key_stripe (io # ios) maybe_reorganize_if_needed fn s = Some (r, s')"
    "logged_outcome io rs (next_record ty key value (kv_wal s)) (kv_map s1) s r s'"
  by (rule logged_call [of fn s, OF fn s1(3) q io, of ios])
    (use s1(1,2) in \<open>auto simp: logged_outcome_def intro!: that\<close>)

lemma append_outcome:
  assumes inv: "kv_inv s recs" and w: "waits_ok waits s" and prev: "prev_ok (Some prev) key (kv_t1 s)"
    and len: "length key + length value < 2 ^ 63" and room: "unat (tm_bytes_used (kv_t2 s)) < 2 ^ 63"
    and q: "wal_quiet (kv_wal s) rs" and io: "io_recoverable io"
    and fn: "fn s = append_and_reserve waits ty key value prev s"
    and res: "with_key_stripe (io # ios) maybe_reorganize_if_needed fn s = Some (r, s')"
  shows "logged_outcome io rs (next_record ty key value (kv_wal s)) ((kv_map s)(ident_of key \<mapsto> (key, value))) s r s'"
proof (cases "write_entry_lockfree maybe_reorganize_if_needed waits key value (Some prev) s")
  case None
  then have "fn s = None" by (simp add: fn append_and_reserve_def)
  from plain_call(3) [of fn s, OF this] show ?thesis using res by simp
next
  case (Some rs1)
  obtain wr s1 where e: "rs1 = (wr, s1)" by (cases rs1)
  note we = Some [unfolded e]
  from inv w prev len room we show ?thesis
  proof (cases rule: write_entry_correct)
    case (written recs')
    have "fn s = reserve_applied ty key value True s1" by (simp add: fn append_and_reserve_def we written(1))
    from logged_call_outcome [of fn s, OF this written(2,4,5) q io, of ios] res written(3) show ?thesis by auto
  next
    case too_large
    have "fn s = Some (Inl RecordTooLarge, s)" by (simp add: fn append_and_reserve_def we too_large)
    from plain_call(1) [of fn s, OF this] res inv too_large show ?thesis by (auto simp: logged_outcome_def next_record_def)
  next
    case full
    have "fn s = Some (Inl T2Full, s1)" by (simp add: fn append_and_reserve_def we full(1))
    from plain_call(1) [of fn s, OF this] res full(2-6) show ?thesis by (auto simp: logged_outcome_def next_record_def)
  qed
qed

text \<open>How an operation ends.\<close>

definition op_outcome :: "IoOutcome \<Rightarrow> StoreOp \<Rightarrow> WalRecord list \<Rightarrow> VMemKV \<Rightarrow> StoreError + bool \<Rightarrow> VMemKV \<Rightarrow> bool" where
  "op_outcome io op rs s r s' \<longleftrightarrow>
     (if fst (spec_op op (kv_map s))
      then logged_outcome io rs (next_record (op_type op) (op_key op) (op_value op) (kv_wal s)) (snd (spec_op op (kv_map s))) s r s'
      else r = Inr False \<and> s' = s)"

lemma lookup_map:
  assumes "kv_inv s recs"
  shows "si_get_with_hash (kv_t1 s) key = Some (si_lookup (kv_t1 s) key)"
    "si_get (kv_t1 s) key = Some (lr_payload_bits (si_lookup (kv_t1 s) key))"
    "lr_payload_bits (si_lookup (kv_t1 s) key) = STORE_NOT_FOUND \<longleftrightarrow> kv_map s (ident_of key) = None"
    "prev_ok (Some (si_lookup (kv_t1 s) key)) key (kv_t1 s)"
    "kv_map s (ident_of key) \<noteq> None \<Longrightarrow> si_view (kv_t1 s) (ident_of key) = Some (si_lookup (kv_t1 s) key)"
proof -
  note d = kv_invD [OF assms]
  show g: "si_get_with_hash (kv_t1 s) key = Some (si_lookup (kv_t1 s) key)" by (simp add: si_lookup_def si_get_route [OF d(1)])
  then show "si_get (kv_t1 s) key = Some (lr_payload_bits (si_lookup (kv_t1 s) key))" by (simp add: si_get_def)
  show "lr_payload_bits (si_lookup (kv_t1 s) key) = STORE_NOT_FOUND \<longleftrightarrow> kv_map s (ident_of key) = None"
    using si.get_live_iff [OF d(1), of key] by (auto simp: kv_map_def is_live_def)
  show "prev_ok (Some (si_lookup (kv_t1 s) key)) key (kv_t1 s)"
    using si.get_law [OF d(1), of key] by (auto simp: prev_ok_def split: option.splits)
  show "kv_map s (ident_of key) \<noteq> None \<Longrightarrow> si_view (kv_t1 s) (ident_of key) = Some (si_lookup (kv_t1 s) key)"
    using si.get_law [OF d(1), of key] by (auto simp: kv_map_def split: option.splits)
qed

text \<open>Deleting a key in the index, with the accounting.\<close>

lemma tombstone_written:
  assumes inv: "kv_inv s recs" and w: "ws = [] \<or> unique_prefixes (si_view (kv_t1 s))"
    and p: "si_put_waiting ws (kv_t1 s) key STORE_NOT_FOUND False 0 = Some (pr, t1)"
  defines "old \<equiv> si_lookup (kv_t1 s) key"
  defines "s' \<equiv> s\<lparr>kv_t1 := t1, kv_own := note_replace (lr_payload_bits old) (lr_raw_hash old) False 0 (kv_own s)\<rparr>"
  shows "pr = Applied" "kv_inv s' recs" "kv_map s' = (kv_map s)(ident_of key := None)" "kv_frame s s'" "kv_wal s' = kv_wal s"
    "kv_t2 s' = kv_t2 s"
proof -
  note d = kv_invD [OF inv] and l = lookup_map [OF inv, of key] and pc = si_put_waiting_correct [OF kv_invD(1) [OF inv] w p]
  have v: "si_view t1 = (si_view (kv_t1 s))(ident_of key := None)" using pc by (simp add: put_view_def is_live_def)
  show "pr = Applied" using pc by simp
  have "own_inv (kv_own s') ((si_view (kv_t1 s))(ident_of key := None))"
    using l(4) si.view_live [OF d(1), of "ident_of key"] unfolding s'_def old_def prev_ok_def
    by (simp, intro note_replace_inv [OF d(3)]) (simp_all split: option.splits)
  then show "kv_inv s' recs"
    using d(1,2,4-7) conjunct1 [OF conjunct2 [OF pc]] conjunct2 [OF conjunct2 [OF conjunct2 [OF pc]]]
    by (auto simp: kv_inv_def s'_def v split: if_splits)
  show "kv_map s' = (kv_map s)(ident_of key := None)" by (auto simp: kv_map_def s'_def v fun_eq_iff)
  show "kv_frame s s'" "kv_wal s' = kv_wal s" "kv_t2 s' = kv_t2 s" by (simp_all add: kv_frame_def s'_def)
qed

lemma insert_outcome:
  assumes inv: "kv_inv s recs" and w: "waits_ok waits s" and len: "length key + length value < 2 ^ 63"
    and room: "unat (tm_bytes_used (kv_t2 s)) < 2 ^ 63" and q: "wal_quiet (kv_wal s) rs" and io: "io_recoverable io"
    and res: "insert_impl (io # ios) waits key value s = Some (r, s')"
  shows "op_outcome io (OpInsert key value) rs s r s'"
proof (cases "kv_map s (ident_of key)")
  case None
  have p: "prev_ok (Some \<lparr>lr_payload_bits = STORE_NOT_FOUND, lr_raw_hash = 0\<rparr>) key (kv_t1 s)"
    using None by (simp add: prev_ok_def kv_map_def)
  have "logged_outcome io rs (next_record WalInsert key value (kv_wal s)) ((kv_map s)(ident_of key \<mapsto> (key, value))) s r s'"
    by (rule append_outcome [OF inv w p len room q io _ res [unfolded insert_impl_def]])
      (use None lookup_map(2,3) [OF inv, of key] in simp)
  then show ?thesis using None by (simp add: op_outcome_def)
next
  case (Some kv)
  have "insert_impl (io # ios) waits key value s = Some (Inr False, s)"
    unfolding insert_impl_def by (rule plain_call(2)) (use Some lookup_map(2,3) [OF inv, of key] in simp)
  then show ?thesis using res Some by (simp add: op_outcome_def)
qed

text \<open>The body of \<^verbatim>\<open>remove_impl\<close> inside the stripe.\<close>

definition remove_body :: "nat list \<Rightarrow> bytes \<Rightarrow> VMemKV \<Rightarrow> StripeResult call" where
  "remove_body ws key s =
     (case si_get_with_hash (kv_t1 s) key of
        None \<Rightarrow> None
      | Some res \<Rightarrow>
          if lr_payload_bits res = STORE_NOT_FOUND then Some (Inr no_change, s)
          else (case put_tombstone ws key res s of
                  None \<Rightarrow> None
                | Some (put_result, s1) \<Rightarrow>
                    if put_result = Applied then reserve_applied WalDelete key [] False s1
                    else Some (Inr no_change, s1)))"

lemma remove_impl_body: "remove_impl ios ws key = with_key_stripe ios maybe_reorganize_if_needed (remove_body ws key)"
  unfolding remove_impl_def remove_body_def by (rule refl)

lemma remove_outcome:
  assumes inv: "kv_inv s recs" and w: "ws = [] \<or> unique_prefixes (si_view (kv_t1 s))"
    and q: "wal_quiet (kv_wal s) rs" and io: "io_recoverable io" and res: "remove_impl (io # ios) ws key s = Some (r, s')"
  shows "op_outcome io (OpRemove key) rs s r s'"
proof (cases "kv_map s (ident_of key)")
  case None
  have "remove_impl (io # ios) ws key s = Some (Inr False, s)"
    unfolding remove_impl_def by (rule plain_call(2)) (use None lookup_map(1,3) [OF inv, of key] in simp)
  then show ?thesis using res None by (simp add: op_outcome_def)
next
  case (Some kv)
  note d = kv_invD [OF inv] and l = lookup_map [OF inv, of key]
  let ?res = "si_lookup (kv_t1 s) key"
  show ?thesis
  proof (cases "si_put_waiting ws (kv_t1 s) key STORE_NOT_FOUND False 0")
    case None
    then have "remove_impl (io # ios) ws key s = None"
      unfolding remove_impl_def by (intro plain_call(3)) (use Some l(1,3) in \<open>simp add: put_tombstone_def\<close>)
    then show ?thesis using res by simp
  next
    case p: (Some pt)
    obtain pr t1 where pt: "pt = (pr, t1)" by (cases pt)
    note tw = tombstone_written [OF inv w p [unfolded pt]]
    let ?s1 = "s\<lparr>kv_t1 := t1, kv_own := note_replace (lr_payload_bits ?res) (lr_raw_hash ?res) False 0 (kv_own s)\<rparr>"
    have "remove_body ws key s = reserve_applied WalDelete key [] False ?s1"
      using Some l(1,3) p pt tw(1) by (simp add: remove_body_def put_tombstone_def)
    from logged_call_outcome [of "remove_body ws key" s, OF this tw(2,4,5) q io, of ios]
    have "logged_outcome io rs (next_record WalDelete key [] (kv_wal s)) (kv_map ?s1) s r s'"
      using res [unfolded remove_impl_body] by auto
    then show ?thesis using Some by (simp add: op_outcome_def tw(3))
  qed
qed

text \<open>The body of \<^verbatim>\<open>update_impl\<close> inside the stripe.\<close>

definition update_body :: "nat list list \<Rightarrow> bytes \<Rightarrow> bytes \<Rightarrow> VMemKV \<Rightarrow> StripeResult call" where
  "update_body waits key value s =
     (case si_get_with_hash (kv_t1 s) key of
        None \<Rightarrow> None
      | Some quick \<Rightarrow>
          if lr_payload_bits quick = STORE_NOT_FOUND then Some (Inr no_change, s)
          else if is_inline (lr_raw_hash quick) then append_and_reserve waits WalUpdate key value quick s
          else (case try_in_place_update key value s of
                  None \<Rightarrow> None
                | Some (Inl e, s1) \<Rightarrow> Some (Inl e, s1)
                | Some (Inr Aborted, s1) \<Rightarrow> Some (Inr no_change, s1)
                | Some (Inr (InPlaceApplied lsn), s1) \<Rightarrow>
                    Some (Inr \<lparr>sr_applied = True, sr_pending = Some lsn, sr_need_reorg_check = False\<rparr>, s1)
                | Some (Inr FellThrough, s1) \<Rightarrow> append_and_reserve waits WalUpdate key value quick s1))"

lemma update_impl_body: "update_impl ios waits key value = with_key_stripe ios maybe_reorganize_if_needed (update_body waits key value)"
  unfolding update_impl_def update_body_def by (rule refl)

lemma update_outcome:
  assumes inv: "kv_inv s recs" and w: "waits_ok waits s" and len: "length key + length value < 2 ^ 63"
    and room: "unat (tm_bytes_used (kv_t2 s)) < 2 ^ 63" and q: "wal_quiet (kv_wal s) rs" and io: "io_recoverable io"
    and res: "update_impl (io # ios) waits key value s = Some (r, s')"
  shows "op_outcome io (OpUpdate key value) rs s r s'"
proof (cases "kv_map s (ident_of key)")
  case None
  have "update_impl (io # ios) waits key value s = Some (Inr False, s)"
    unfolding update_impl_def by (rule plain_call(2)) (use None lookup_map(1,3) [OF inv, of key] in simp)
  then show ?thesis using res None by (simp add: op_outcome_def)
next
  case (Some kv)
  note l = lookup_map [OF inv, of key] and res' = res [unfolded update_impl_body]
  let ?q = "si_lookup (kv_t1 s) key" and ?m = "(kv_map s)(ident_of key \<mapsto> (key, value))" and ?rec = "next_record WalUpdate key value (kv_wal s)"
  have nf: "lr_payload_bits ?q \<noteq> STORE_NOT_FOUND" using l(3) Some by simp
  have app: "logged_outcome io rs ?rec ?m s r s'" if "update_body waits key value s = append_and_reserve waits WalUpdate key value ?q s"
    by (rule append_outcome [OF inv w l(4) len room q io that res'])
  have "logged_outcome io rs ?rec ?m s r s'"
  proof (cases "is_inline (lr_raw_hash ?q)")
    case True
    then show ?thesis by (intro app) (simp add: update_body_def l(1) nf)
  next
    case ninl: False
    show ?thesis
    proof (cases "try_in_place_update key value s")
      case None
      then have "update_body waits key value s = None" by (simp add: update_body_def l(1) nf ninl)
      from plain_call(3) [of "update_body waits key value" s, OF this] res' show ?thesis by simp
    next
      case ip: (Some ips)
      obtain ir s1 where e: "ips = (ir, s1)" by (cases ips)
      note ip' = ip [unfolded e]
      from inv ip' show ?thesis
      proof (cases rule: in_place_correct)
        case absent
        then show ?thesis using Some by (simp add: kv_map_def)
      next
        case (fell entry)
        then show ?thesis by (intro app) (simp add: update_body_def l(1) nf ninl ip')
      next
        case (applied entry s2 lsn w2)
        have "update_body waits key value s = reserve_applied WalUpdate key value False s2"
          by (simp add: update_body_def l(1) nf ninl ip' applied(5-8) reserve_applied_def)
        from logged_call_outcome [of "update_body waits key value" s, OF this applied(2,4,5) q io, of ios] res' applied(3)
        show ?thesis by auto
      next
        case (refused entry s2 e2 w2)
        have "update_body waits key value s = reserve_applied WalUpdate key value False s2"
          by (simp add: update_body_def l(1) nf ninl ip' refused(5-8) reserve_applied_def)
        from logged_call_outcome [of "update_body waits key value" s, OF this refused(2,4,5) q io, of ios] res' refused(3)
        show ?thesis by auto
      qed
    qed
  qed
  then show ?thesis using Some by (simp add: op_outcome_def)
qed

lemma op_correct:
  assumes "kv_inv s recs" "waits_ok waits s" "op_fits op" "unat (tm_bytes_used (kv_t2 s)) < 2 ^ 63"
    "wal_quiet (kv_wal s) rs" "io_recoverable io" "exec_op (io # ios) waits op s = Some (r, s')"
  shows "op_outcome io op rs s r s'"
proof (cases op)
  case (OpInsert k v)
  have "length k + length v < 2 ^ 63" using assms(3) by (simp add: op_fits_def OpInsert)
  then show ?thesis using insert_outcome [OF assms(1,2) _ assms(4-6)] assms(7) by (simp add: OpInsert)
next
  case (OpUpdate k v)
  have "length k + length v < 2 ^ 63" using assms(3) by (simp add: op_fits_def OpUpdate)
  then show ?thesis using update_outcome [OF assms(1,2) _ assms(4-6)] assms(7) by (simp add: OpUpdate)
next
  case (OpRemove k)
  have "(case waits of [] \<Rightarrow> [] | ws # _ \<Rightarrow> ws) = [] \<or> unique_prefixes (si_view (kv_t1 s))"
    using assms(2) by (cases waits) (auto simp: waits_ok_def)
  then show ?thesis using remove_outcome [OF assms(1) _ assms(5,6)] assms(7) by (simp add: OpRemove)
qed

section \<open>Reading\<close>

lemma get_correct:
  assumes inv: "kv_inv s recs"
  shows "kv_map s (ident_of key) = None \<Longrightarrow> get_impl env key s = Some None"
    "kv_map s (ident_of key) = Some (key, value) \<Longrightarrow> get_impl env key s = Some (Some value)"
proof -
  note d = kv_invD [OF inv] and l = lookup_map [OF inv, of key]
  let ?r = "si_lookup (kv_t1 s) key"
  show "get_impl env key s = Some None" if "kv_map s (ident_of key) = None"
    using l(1,3) that by (simp add: get_impl_def)
  assume m: "kv_map s (ident_of key) = Some (key, value)"
  have nf: "lr_payload_bits ?r \<noteq> STORE_NOT_FOUND" and v: "si_view (kv_t1 s) (ident_of key) = Some ?r" using l(3,5) m by simp_all
  have e: "entry_kv (kv_t2 s) (ident_of key) ?r = (key, value)" using m v by (simp add: kv_map_def)
  note ok = d(4) [OF v]
  show "get_impl env key s = Some (Some value)"
  proof (cases "is_inline (lr_raw_hash ?r)")
    case True
    then show ?thesis using e ok l(1) nf by (simp add: get_impl_def entry_kv_def entry_ok_def)
  next
    case False
    let ?off = "lr_payload_bits ?r AND kPayloadOffsetMask"
    let ?v = "t2_at ?off (kv_t2 s)"
    obtain ext where rec: "recs (unat ?off) = Some ext" using ok False by (auto simp: entry_ok_def)
    have kv: "rv_key ?v = key" "rv_value ?v = value" using e False by (simp_all add: entry_kv_def t2_read_def Let_def)
    have "even (vh_version (rv_header ?v))" using t2_invD(6) [OF d(2) rec] by (simp add: t2_at_def make_record_view_def Let_def)
    then have seq: "read_t2_record_seqlock (\<lambda>_. ?v) f = Some (f ?v)" for f :: "T2RecordView \<Rightarrow> bytes option" by (intro seqlock_stable)
    have base: "b = ?v" if "try_read_base_record env (kv_t2 s) (lr_payload_bits ?r) kGet = Some b" for b
      by (rule base_record_view [OF that])
    show ?thesis
      using False l(1) nf seq kv base by (cases "try_read_base_record env (kv_t2 s) (lr_payload_bits ?r) kGet")
        (auto simp: get_impl_def Let_def byte_span_equal_def)
  qed
qed

section \<open>Every call returns\<close>

lemma stripe_returns:
  assumes q: "wal_quiet (kv_wal s) rs" and io: "io_recoverable io"
    and fn: "(\<exists>e s1. fn s = Some (Inl e, s1)) \<or> (\<exists>s1. fn s = Some (Inr no_change, s1))
      \<or> (\<exists>ty key value nc s1. fn s = reserve_applied ty key value nc s1 \<and> kv_wal s1 = kv_wal s)"
  shows "\<exists>r s'. with_key_stripe (io # ios) maybe_reorganize_if_needed fn s = Some (r, s')"
  using fn
proof (elim disjE exE conjE)
  fix ty key "value" nc s1
  assume a: "fn s = reserve_applied ty key value nc s1" "kv_wal s1 = kv_wal s"
  show ?thesis by (rule logged_call [of fn s, OF a q io, of ios]) blast+
qed (use plain_call(1,2) [of fn s] in blast)+

lemma append_returns:
  assumes inv: "kv_inv s recs" and un: "unique_prefixes (si_view (kv_t1 s))" and prev: "prev_ok (Some prev) key (kv_t1 s)"
    and len: "length key + length value < 2 ^ 63" and room: "unat (tm_bytes_used (kv_t2 s)) < 2 ^ 63" and w: "length (si_queue (kv_t1 s)) < w"
  shows "(\<exists>e s1. append_and_reserve [[w]] ty key value prev s = Some (Inl e, s1))
    \<or> (\<exists>s1. append_and_reserve [[w]] ty key value prev s = reserve_applied ty key value True s1 \<and> kv_wal s1 = kv_wal s)"
proof -
  obtain r s1 where e: "write_entry_lockfree maybe_reorganize_if_needed [[w]] key value (Some prev) s = Some (r, s1)"
    using write_entry_returns [OF inv prev un w] by blast
  have "waits_ok [[w]] s" using un by (simp add: waits_ok_def)
  from inv this prev len room e show ?thesis
    by (cases rule: write_entry_correct) (use e in \<open>auto simp: append_and_reserve_def\<close>)
qed

lemma in_place_returns:
  assumes inv: "kv_inv s recs" and q: "wal_quiet (kv_wal s) rs"
  shows "try_in_place_update key value s \<noteq> None"
proof -
  note d = kv_invD [OF inv] and l = lookup_map [OF inv, of key]
  let ?r = "si_lookup (kv_t1 s) key"
  have rr: "reserve_record WalUpdate key value (kv_wal s) \<noteq> None"
    using reserve_quiet [OF q] reserve_poisoned by (cases "poisoned (kv_wal s)") auto
  show ?thesis
  proof (cases "lr_payload_bits ?r = STORE_NOT_FOUND \<or> is_inline (lr_raw_hash ?r)")
    case True
    then show ?thesis using l(1) by (auto simp: try_in_place_update_def)
  next
    case False
    let ?off = "lr_payload_bits ?r AND kPayloadOffsetMask"
    have v: "si_view (kv_t1 s) (ident_of key) = Some ?r" using l(3,5) False by blast
    obtain e where rec: "recs (unat ?off) = Some e" using d(4) [OF v] False by (auto simp: entry_ok_def)
    have "even (vh_version (rv_header (t2_at ?off (kv_t2 s))))"
      using t2_invD(6) [OF d(2) rec] by (simp add: t2_at_def make_record_view_def Let_def)
    then have "read_t2_record_seqlock (\<lambda>_. t2_at ?off (kv_t2 s)) f = Some (f (t2_at ?off (kv_t2 s)))" for f :: "T2RecordView \<Rightarrow> bool \<times> u32"
      by (intro seqlock_stable)
    then show ?thesis using l(1) False rr
      by (auto simp: try_in_place_update_def Let_def split: option.splits sum.splits prod.splits bool.splits)
  qed
qed

lemma op_returns:
  assumes inv: "kv_inv s recs" and un: "unique_prefixes (si_view (kv_t1 s))" and fits: "op_fits op"
    and room: "unat (tm_bytes_used (kv_t2 s)) < 2 ^ 63" and q: "wal_quiet (kv_wal s) rs" and io: "io_recoverable io"
    and w: "length (si_queue (kv_t1 s)) < w"
  shows "\<exists>r s'. exec_op (io # ios) [[w]] op s = Some (r, s')"
proof (cases op)
  case (OpInsert k v)
  have len: "length k + length v < 2 ^ 63" using fits by (simp add: op_fits_def OpInsert)
  have p: "prev_ok (Some \<lparr>lr_payload_bits = STORE_NOT_FOUND, lr_raw_hash = 0\<rparr>) k (kv_t1 s)" if "kv_map s (ident_of k) = None"
    using that by (simp add: prev_ok_def kv_map_def)
  show ?thesis unfolding OpInsert exec_op.simps insert_impl_def
    by (rule stripe_returns [OF q io])
      (use append_returns [OF inv un p len room w, of WalInsert] lookup_map(2,3) [OF inv, of k] in auto)
next
  case (OpUpdate k v)
  have len: "length k + length v < 2 ^ 63" using fits by (simp add: op_fits_def OpUpdate)
  note l = lookup_map [OF inv, of k] and ar = append_returns [OF inv un lookup_map(4) [OF inv] len room w, of WalUpdate]
  obtain ir s1 where ip: "try_in_place_update k v s = Some (ir, s1)" using in_place_returns [OF inv q, of k v] by auto
  have "(\<exists>e s1. update_body [[w]] k v s = Some (Inl e, s1)) \<or> (\<exists>s1. update_body [[w]] k v s = Some (Inr no_change, s1))
      \<or> (\<exists>ty key value nc s1. update_body [[w]] k v s = reserve_applied ty key value nc s1 \<and> kv_wal s1 = kv_wal s)"
  proof (cases "lr_payload_bits (si_lookup (kv_t1 s) k) = STORE_NOT_FOUND \<or> is_inline (lr_raw_hash (si_lookup (kv_t1 s) k))")
    case True
    then show ?thesis using l(1) ar by (auto simp: update_body_def)
  next
    case False
    from inv ip show ?thesis
    proof (cases rule: in_place_correct)
      case (applied entry s2 lsn w2)
      have "update_body [[w]] k v s = reserve_applied WalUpdate k v False s2"
        using False by (simp add: update_body_def l(1) ip applied(5-8) reserve_applied_def)
      then show ?thesis using applied(5) by blast
    next
      case (fell entry)
      then have "update_body [[w]] k v s = append_and_reserve [[w]] WalUpdate k v (si_lookup (kv_t1 s) k) s"
        using False by (simp add: update_body_def l(1) ip)
      then show ?thesis using ar by auto
    qed (use False l(1) ip in \<open>auto simp: update_body_def\<close>)
  qed
  then show ?thesis unfolding OpUpdate exec_op.simps update_impl_body by (rule stripe_returns [OF q io])
next
  case (OpRemove k)
  note d = kv_invD [OF inv] and l = lookup_map [OF inv, of k]
  have cap: "0 < append_capacity (index_of (kv_t1 s) (route (kv_t1 s) (prefix_from_bytes k)))" using d(7) by (simp add: caps_ok_def)
  obtain t1 where p: "si_put_waiting [w] (kv_t1 s) k STORE_NOT_FOUND False 0 = Some (Applied, t1)"
    by (rule put_after_maintenance [OF d(1) un w cap])
  let ?r = "si_lookup (kv_t1 s) k"
  let ?s1 = "s\<lparr>kv_t1 := t1, kv_own := note_replace (lr_payload_bits ?r) (lr_raw_hash ?r) False 0 (kv_own s)\<rparr>"
  have b: "remove_body [w] k s = (if lr_payload_bits ?r = STORE_NOT_FOUND then Some (Inr no_change, s) else reserve_applied WalDelete k [] False ?s1)"
    by (simp add: remove_body_def put_tombstone_def l(1) p)
  have "\<exists>r s'. with_key_stripe (io # ios) maybe_reorganize_if_needed (remove_body [w] k) s = Some (r, s')"
  proof (cases "lr_payload_bits ?r = STORE_NOT_FOUND")
    case True
    then show ?thesis using plain_call(2) [of "remove_body [w] k" s] b by simp
  next
    case False
    have "remove_body [w] k s = reserve_applied WalDelete k [] False ?s1" using b False by simp
    moreover have "kv_wal ?s1 = kv_wal s" by simp
    ultimately show ?thesis by (intro stripe_returns [OF q io]) blast
  qed
  then show ?thesis by (simp only: OpRemove exec_op.simps remove_impl_body list.case)
qed

text \<open>With room, a working log and a well-behaved system every effective call succeeds.\<close>

lemma op_succeeds:
  assumes inv: "kv_inv s recs" and un: "unique_prefixes (si_view (kv_t1 s))" and fits: "op_fits op"
    and small: "block_count (op_key op) (op_value op) < 65536"
    and room: "unat (tm_bytes_used (kv_t2 s)) + unat (record_len (op_key op) (op_value op)) \<le> unat (tm_capacity (kv_t2 s))"
    and q: "wal_quiet (kv_wal s) rs" and io: "io_flawless io" and p: "\<not> poisoned (kv_wal s)"
    and w: "length (si_queue (kv_t1 s)) < w" and eff: "fst (spec_op op (kv_map s))"
  obtains s' where "exec_op (io # ios) [[w]] op s = Some (Inr True, s')"
    "logged_outcome io rs (next_record (op_type op) (op_key op) (op_value op) (kv_wal s)) (snd (spec_op op (kv_map s))) s (Inr True) s'"
proof -
  have r63: "unat (tm_bytes_used (kv_t2 s)) < 2 ^ 63" using room kv_invD(5) [OF inv] by simp
  have ior: "io_recoverable io" using io by (simp add: io_flawless_def)
  obtain r s' where e: "exec_op (io # ios) [[w]] op s = Some (r, s')" using op_returns [OF inv un fits r63 q ior w] by blast
  have "waits_ok [[w]] s" using un by (simp add: waits_ok_def)
  from op_correct [OF inv this fits r63 q ior e]
  have o: "logged_outcome io rs (next_record (op_type op) (op_key op) (op_value op) (kv_wal s)) (snd (spec_op op (kv_map s))) s r s'"
    using eff by (simp add: op_outcome_def)
  have "r = Inr True"
  proof (cases r)
    case (Inl er)
    then show ?thesis using o io p room small by (cases er) (auto simp: logged_outcome_def next_record_def)
  qed (use o in \<open>simp add: logged_outcome_def\<close>)
  then show ?thesis using that e o by blast
qed

lemma logged_outcomeD:
  assumes "logged_outcome io rs rec m' s (Inr True) s'"
  obtains recs' where "kv_inv s' recs'" "kv_frame s s'" "kv_map s' = m'" "\<not> poisoned (kv_wal s')" "wal_quiet (kv_wal s') (rs @ [rec])"
    "next_lsn (kv_wal s') = next_lsn (kv_wal s) + 1"
  using assms unfolding logged_outcome_def by auto

section \<open>Runs of calls\<close>

text \<open>Keys the index can tell apart by their prefix.\<close>

definition keys_apart :: "bytes set \<Rightarrow> bool" where
  "keys_apart K \<longleftrightarrow> (\<forall>k \<in> K. \<forall>k' \<in> K. fst (ident_of k) = fst (ident_of k') \<longrightarrow> ident_of k = ident_of k')"

definition store_good :: "bytes set \<Rightarrow> nat \<Rightarrow> VMemKV \<Rightarrow> WalRecord list \<Rightarrow> bool" where
  "store_good K n s rs \<longleftrightarrow> keys_apart K \<and> (\<exists>recs. kv_inv s recs) \<and> dom (kv_map s) \<subseteq> ident_of ` K
     \<and> wal_quiet (kv_wal s) rs \<and> records_ok rs \<and> unat (tm_bytes_used (kv_t2 s)) + n * 2 ^ 20 < 2 ^ 63
     \<and> (poisoned (kv_wal s) \<or> next_lsn (kv_wal s) + n < 2 ^ 64)"

definition store_step :: "(IoOutcome \<Rightarrow> bool) \<Rightarrow> bytes set \<Rightarrow> StoreOp \<Rightarrow> VMemKV \<Rightarrow> StoreError + bool \<Rightarrow> VMemKV \<Rightarrow> bool" where
  "store_step io_ok K op s r s' \<longleftrightarrow> op_key op \<in> K \<and> op_fits op
     \<and> (\<exists>io ios waits. io_ok io \<and> exec_op (io # ios) waits op s = Some (r, s'))"

lemma keys_unique:
  assumes "keys_apart K" "dom (kv_map s) \<subseteq> ident_of ` K"
  shows "unique_prefixes (si_view (kv_t1 s))"
proof -
  have "dom (si_view (kv_t1 s)) = dom (kv_map s)" by (auto simp: kv_map_def dom_def)
  then have "dom (si_view (kv_t1 s)) \<subseteq> ident_of ` K" using assms(2) by simp
  then show ?thesis using assms(1) unfolding keys_apart_def unique_prefixes_def by blast
qed

lemma good_unique: "store_good K n s rs \<Longrightarrow> unique_prefixes (si_view (kv_t1 s))"
  by (rule keys_unique [of K]) (simp_all add: store_good_def)

lemma dom_apply_record: "dom (apply_record r m) \<subseteq> insert (ident_of (wr_key r)) (dom m)"
  by (auto simp: apply_record_at dom_def split: if_splits)

text \<open>What one step leaves of the invariant, on every outcome.\<close>

lemma step_outcome:
  assumes g: "store_good K (Suc n) s rs" and st: "store_step io_recoverable K op s r s'"
  shows "\<exists>io. op_outcome io op rs s r s'" "op_fits op" "op_key op \<in> K" "kv_frame s s'" "\<exists>recs. kv_inv s' recs"
    "dom (kv_map s') \<subseteq> ident_of ` K" "unat (tm_bytes_used (kv_t2 s')) + n * 2 ^ 20 < 2 ^ 63"
proof -
  obtain recs where inv: "kv_inv s recs" and q: "wal_quiet (kv_wal s) rs" and d: "dom (kv_map s) \<subseteq> ident_of ` K"
    and used: "unat (tm_bytes_used (kv_t2 s)) + Suc n * 2 ^ 20 < 2 ^ 63"
    using g by (auto simp: store_good_def)
  obtain io ios waits where io: "io_recoverable io" "exec_op (io # ios) waits op s = Some (r, s')" and k: "op_key op \<in> K" "op_fits op"
    using st by (auto simp: store_step_def)
  have w: "waits_ok waits s" using good_unique [OF g] by (simp add: waits_ok_def)
  have u: "unat (tm_bytes_used (kv_t2 s)) < 2 ^ 63" using used by simp
  have o: "op_outcome io op rs s r s'" by (rule op_correct [OF inv w k(2) u q io])
  then show "\<exists>io. op_outcome io op rs s r s'" "op_fits op" "op_key op \<in> K" using k by blast+
  show f: "kv_frame s s'" and "\<exists>recs. kv_inv s' recs"
    using o inv by (auto simp: op_outcome_def logged_outcome_def split: if_splits)
  show "unat (tm_bytes_used (kv_t2 s')) + n * 2 ^ 20 < 2 ^ 63" using f used by (simp add: kv_frame_def)
  have "kv_map s' = kv_map s \<or> kv_map s' = snd (spec_op op (kv_map s)) \<and> fst (spec_op op (kv_map s))"
    using o by (auto simp: op_outcome_def logged_outcome_def split: if_splits sum.splits StoreError.splits)
  moreover have "wr_key (op_record op 0) = op_key op" by (simp add: op_record_def)
  ultimately have "dom (kv_map s') \<subseteq> insert (ident_of (op_key op)) (dom (kv_map s))"
    using dom_apply_record [of "op_record op 0" "kv_map s"] spec_op_record [of op "kv_map s" 0] by (elim disjE) (simp_all only:, blast)
  then show "dom (kv_map s') \<subseteq> ident_of ` K" using d k(1) by blast
qed

lemma next_op_record: "next_record (op_type op) (op_key op) (op_value op) w = op_record op (word_of_nat (next_lsn w))"
  by (simp add: next_record_def op_record_def)

lemma step_acked:
  assumes g: "store_good K (Suc n) s rs" and st: "store_step io_recoverable K op s (Inr True) s'"
  shows "\<not> poisoned (kv_wal s) \<and> fst (spec_op op (kv_map s)) \<and> kv_map s' = snd (spec_op op (kv_map s))
    \<and> (\<exists>lsn. store_good K n s' (rs @ [op_record op lsn]))"
proof -
  note o = step_outcome [OF g st]
  let ?rec = "op_record op (word_of_nat (next_lsn (kv_wal s)))"
  have l: "fst (spec_op op (kv_map s))" "\<not> poisoned (kv_wal s)" "\<not> poisoned (kv_wal s')" "kv_map s' = snd (spec_op op (kv_map s))"
      "wal_quiet (kv_wal s') (rs @ [?rec])" "next_lsn (kv_wal s') = next_lsn (kv_wal s) + 1"
    using o(1) by (auto simp: op_outcome_def logged_outcome_def next_op_record split: if_splits)
  have n: "0 < next_lsn (kv_wal s)" "next_lsn (kv_wal s) < 2 ^ 64" "next_lsn (kv_wal s') + n < 2 ^ 64" and ok: "records_ok rs"
    using g l(2,6) by (auto simp: store_good_def wal_quiet_def)
  have "0 < wr_lsn ?rec" using n(1,2) by (simp add: op_record_def word_less_nat_alt unat_of_nat)
  then have "records_ok (rs @ [?rec])" using o(2) ok by (simp add: records_ok_def record_wf_def op_record_def op_fits_def)
  then have "store_good K n s' (rs @ [?rec])" using g o(5-7) l(5) n(3) by (simp add: store_good_def)
  then show ?thesis using l by blast
qed

lemma step_not_acked:
  assumes g: "store_good K (Suc n) s rs" and st: "store_step io_recoverable K op s r s'" and r: "r \<noteq> Inr True"
  shows "store_good K n s' rs \<and> (poisoned (kv_wal s') \<or> kv_map s' = kv_map s \<and> poisoned (kv_wal s') = poisoned (kv_wal s))"
    "r = Inr False \<Longrightarrow> s' = s"
proof -
  note o = step_outcome [OF g st]
  have l: "wal_quiet (kv_wal s') rs" "poisoned (kv_wal s') \<or> kv_map s' = kv_map s \<and> kv_wal s' = kv_wal s"
    using o(1) g r by (auto simp: op_outcome_def logged_outcome_def store_good_def split: if_splits sum.splits StoreError.splits)
  then show "store_good K n s' rs \<and> (poisoned (kv_wal s') \<or> kv_map s' = kv_map s \<and> poisoned (kv_wal s') = poisoned (kv_wal s))"
    using g o(5-7) by (auto simp: store_good_def)
  show "r = Inr False \<Longrightarrow> s' = s" using o(1) by (auto simp: op_outcome_def logged_outcome_def split: if_splits)
qed

interpretation kv: durable_map "store_good K" kv_map "\<lambda>s. poisoned (kv_wal s)" "store_step io_recoverable K" for K
  by unfold_locales (blast dest: step_acked, use step_not_acked in blast, use step_not_acked(1) in blast)

section \<open>A new store is empty\<close>

definition fresh_t2 :: "u64 \<Rightarrow> T2Memory" where
  "fresh_t2 cap = T2Memory_new (replicate (unat cap) 0) cap 0"

lemma new_caps: "0 < cap \<Longrightarrow> caps_ok (ShardedT1Index_new bl cap ts pc)"
  by (simp add: caps_ok_def ShardedT1Index_new_def slot_def ShardSlot_new_def append_capacity_def T1Index_new_def note_append_region_created_def Let_def)

lemma init_inv:
  fixes w :: Wal and cap :: u64
  assumes "0 < cfg_append_cap cfg" "t2_inv mem recs" "unat (tm_capacity mem) \<le> 2 ^ 48" "unat (tm_base_boundary mem) \<le> unat (tm_bytes_used mem)"
  defines "s \<equiv> VMemKV_init cfg cap mem w"
  shows "kv_inv s recs" "kv_map s = Map.empty" "si_view (kv_t1 s) = Map.empty" "si_queue (kv_t1 s) = []"
    "kv_wal s = w" "kv_t2 s = mem" "kv_use_inline s = cfg_use_inline cfg"
proof -
  show "kv_inv s recs" using assms(1-4) own_inv_new new_caps si_new_inv by (simp add: kv_inv_def s_def VMemKV_init_def)
  show "kv_map s = Map.empty" "si_view (kv_t1 s) = Map.empty" by (simp_all add: kv_map_def s_def VMemKV_init_def si_new_inv fun_eq_iff)
  show "si_queue (kv_t1 s) = []" "kv_wal s = w" "kv_t2 s = mem" "kv_use_inline s = cfg_use_inline cfg"
    by (simp_all add: s_def VMemKV_init_def ShardedT1Index_new_def)
qed

lemma fresh_t2_inv: "t2_inv (fresh_t2 cap) Map.empty" "tm_capacity (fresh_t2 cap) = cap" "tm_bytes_used (fresh_t2 cap) = 0" "tm_base_boundary (fresh_t2 cap) = 0"
  by (simp_all add: t2_inv_def fresh_t2_def T2Memory_new_def)

definition demo_config :: StoreConfig where
  "demo_config = \<lparr>cfg_use_bloom = False, cfg_append_cap = 4, cfg_shard_target = 8, cfg_split_percent = 150,
     cfg_use_inline = True, cfg_segment_bytes = 4096\<rparr>"

definition demo_store :: VMemKV where
  "demo_store = VMemKV_init demo_config 4096 (fresh_t2 4096) (Wal_start 1 [])"

lemma quiet_start: "0 < n \<Longrightarrow> wal_quiet (Wal_start n (log_bytes rs)) rs"
  by (simp add: wal_quiet_def Wal_start_def)

lemma demo_state:
  "kv_inv demo_store Map.empty" "kv_map demo_store = Map.empty" "si_view (kv_t1 demo_store) = Map.empty" "si_queue (kv_t1 demo_store) = []"
  "tm_bytes_used (kv_t2 demo_store) = 0" "tm_capacity (kv_t2 demo_store) = 4096" "wal_quiet (kv_wal demo_store) []" "\<not> poisoned (kv_wal demo_store)"
  "next_lsn (kv_wal demo_store) = 1"
  using init_inv [of demo_config "fresh_t2 4096" Map.empty 4096 "Wal_start 1 []", folded demo_store_def] quiet_start [of 1 "[]"]
  by (simp_all add: demo_config_def Wal_start_def fresh_t2_inv)

lemma io_good_flawless: "io_flawless io_good"
  by (simp add: io_flawless_def io_recoverable_def io_good_def)

lemma demo_unique: "unique_prefixes (si_view (kv_t1 demo_store))"
  by (simp add: demo_state unique_prefixes_def)

lemma demo_insert:
  obtains s where "exec_op [io_good] [[1]] (OpInsert [7] [1, 2, 3]) demo_store = Some (Inr True, s)"
    "logged_outcome io_good [] (next_record WalInsert [7] [1, 2, 3] (kv_wal demo_store)) [ident_of [7] \<mapsto> ([7], [1, 2, 3])] demo_store (Inr True) s"
proof -
  have b: "block_count [7] [1, 2, 3] < 65536" "unat (record_len [7] [1, 2, 3]) = 32" by code_simp+
  show ?thesis
    by (rule op_succeeds [OF demo_state(1) demo_unique _ _ _ demo_state(7) io_good_flawless demo_state(8), of "OpInsert [7] [1, 2, 3]" 1 "[]"])
      (use that b in \<open>simp_all add: demo_state op_fits_def\<close>)
qed

section \<open>Properties\<close>

text \<open>
  C3: the store is a map. On a well-formed store whose log is at rest, every insert, update and
  remove that returns does what the map says: an insert of a present key, an update or remove of an
  absent one answer false and change nothing; otherwise the call answers true, the contents are the
  updated map and the record is the last one of the synced log; or it throws, and then either the
  contents and the log are unchanged (the record is too large or T2 is full) or the log has failed,
  is closed and unchanged, and the change stands in memory only. The state stays well formed and
  keeps the base region. And once the index workers have caught up, every call returns.
\<close>

theorem store_refines_map:
  assumes "kv_inv s recs" "unique_prefixes (si_view (kv_t1 s))" "op_fits op" "unat (tm_bytes_used (kv_t2 s)) < 2 ^ 63"
    "wal_quiet (kv_wal s) rs" "io_recoverable io"
  shows "(\<forall>waits r s'. exec_op (io # ios) waits op s = Some (r, s') \<longrightarrow> op_outcome io op rs s r s')
    \<and> (\<exists>w r s'. exec_op (io # ios) [[w]] op s = Some (r, s'))"
proof -
  have w: "waits_ok waits s" for waits using assms(2) by (simp add: waits_ok_def)
  have "\<exists>r s'. exec_op (io # ios) [[Suc (length (si_queue (kv_t1 s)))]] op s = Some (r, s')" by (rule op_returns [OF assms]) simp
  then show ?thesis using op_correct [OF assms(1) w assms(3-6)] by blast
qed

theorem store_refines_map_witness:
  "\<exists>s. exec_op [io_good] [[1]] (OpInsert [7] [1, 2, 3]) demo_store = Some (Inr True, s)
     \<and> kv_map s = [ident_of [7] \<mapsto> ([7], [1, 2, 3])]"
proof -
  obtain s where e: "exec_op [io_good] [[1]] (OpInsert [7] [1, 2, 3]) demo_store = Some (Inr True, s)" by (rule demo_insert)
  have "op_outcome io_good (OpInsert [7] [1, 2, 3]) [] demo_store (Inr True) s"
    using store_refines_map [OF demo_state(1) demo_unique _ _ demo_state(7), of "OpInsert [7] [1, 2, 3]" io_good "[]"] io_good_flawless e
    by (simp add: demo_state op_fits_def io_flawless_def)
  then show ?thesis using e by (simp add: op_outcome_def logged_outcome_def demo_state)
qed

text \<open>
  C8: a lookup reads the map: on a well-formed store it reports an absent key as absent, and for a
  present one delivers its value, whether the entry is inline, above the base boundary (read under the
  version check) or below it (read from the file or the mapping, as the residency probe decides).
\<close>

theorem store_get:
  assumes "kv_inv s recs"
  shows "(kv_map s (ident_of key) = None \<longrightarrow> get_impl env key s = Some None)
    \<and> (\<forall>value. kv_map s (ident_of key) = Some (key, value) \<longrightarrow> get_impl env key s = Some (Some value))"
  using get_correct [OF assms] by blast

theorem store_get_witness:
  "\<exists>s. exec_op [io_good] [[1]] (OpInsert [7] [1, 2, 3]) demo_store = Some (Inr True, s)
     \<and> get_impl \<lparr>re_policy = Trifecta, re_mappings = \<lparr>mp_scan = True, mp_scan_seq = True, mp_read_fd = True\<rparr>,
          re_resident = False, re_got = Some 40, re_stale = []\<rparr> [7] s = Some (Some [1, 2, 3])"
proof -
  obtain s where e: "exec_op [io_good] [[1]] (OpInsert [7] [1, 2, 3]) demo_store = Some (Inr True, s)"
    and o: "logged_outcome io_good [] (next_record WalInsert [7] [1, 2, 3] (kv_wal demo_store)) [ident_of [7] \<mapsto> ([7], [1, 2, 3])] demo_store (Inr True) s"
    by (rule demo_insert)
  from o obtain recs where "kv_inv s recs" "kv_map s = [ident_of [7] \<mapsto> ([7], [1, 2, 3])]" by (rule logged_outcomeD)
  then show ?thesis using e store_get [of s recs "[7]"] by simp
qed

text \<open>
  C7: the base region is immutable: whatever an insert, update or remove does, errors included, the
  bytes of the T2 file below the base boundary, which readers take without a version check, stay as
  they are, and so do the boundary itself and the checkpoint's watermark.
\<close>

theorem base_region_immutable:
  assumes "kv_inv s recs" "unique_prefixes (si_view (kv_t1 s))" "op_fits op" "unat (tm_bytes_used (kv_t2 s)) < 2 ^ 63"
    "wal_quiet (kv_wal s) rs" "io_recoverable io" "exec_op (io # ios) waits op s = Some (r, s')"
  shows "take (unat (tm_base_boundary (kv_t2 s))) (tm_base (kv_t2 s')) = take (unat (tm_base_boundary (kv_t2 s))) (tm_base (kv_t2 s))
    \<and> tm_base_boundary (kv_t2 s') = tm_base_boundary (kv_t2 s) \<and> load_watermark (kv_own s') = load_watermark (kv_own s)"
proof -
  have "waits_ok waits s" using assms(2) by (simp add: waits_ok_def)
  from op_correct [OF assms(1) this assms(3-7)] have "kv_frame s s'"
    by (auto simp: op_outcome_def logged_outcome_def split: if_splits)
  then show ?thesis unfolding kv_frame_def base_region_def load_watermark_def by metis
qed

theorem base_region_immutable_witness:
  "let s = VMemKV_init demo_config 4096 (T2Memory_new (replicate 4096 5) 4096 64) (Wal_start 1 [])
   in \<exists>w r s'. exec_op [io_good] [[w]] (OpInsert [7] (replicate 20 1)) s = Some (r, s') \<and> take 64 (tm_base (kv_t2 s')) = replicate 64 5"
proof -
  let ?m = "T2Memory_new (replicate 4096 5) 4096 64 :: T2Memory"
  define s where "s = VMemKV_init demo_config 4096 ?m (Wal_start 1 [])"
  have m: "t2_inv ?m Map.empty" "tm_capacity ?m = 4096" "tm_bytes_used ?m = 64" "tm_base_boundary ?m = 64" "tm_base ?m = replicate 4096 5"
    by (simp_all add: t2_inv_def T2Memory_new_def)
  have cap: "0 < cfg_append_cap demo_config" by (simp add: demo_config_def)
  note i = init_inv [OF cap m(1), of 4096 "Wal_start 1 []", folded s_def, simplified m, simplified]
  have u: "unique_prefixes (si_view (kv_t1 s))" using i(3) by (simp add: unique_prefixes_def)
  have q: "wal_quiet (kv_wal s) []" using quiet_start [of 1 "[]"] i(5) by simp
  have f: "op_fits (OpInsert [7] (replicate 20 1))" by (simp add: op_fits_def)
  have room: "unat (tm_bytes_used (kv_t2 s)) < 2 ^ 63" by (simp add: i(6) m)
  have io: "io_recoverable io_good" using io_good_flawless by (simp add: io_flawless_def)
  obtain r s' where e: "exec_op [io_good] [[1]] (OpInsert [7] (replicate 20 1)) s = Some (r, s')"
    using op_returns [OF i(1) u f room q io, of 1 "[]"] i(4) by auto
  from base_region_immutable [OF i(1) u f room q io e] e show ?thesis
    unfolding s_def [symmetric] Let_def by (auto simp: i(6) m)
qed

text \<open>
  C14: calls succeed. On a well-formed store with an open log, a call that changes something returns
  true when its record is small enough for the size hint and fits the rest of the T2 file, the
  system takes the log record and syncs it, and the index workers catch up; the change is then in
  the map and the record in the synced log.
\<close>

theorem store_call_succeeds:
  assumes "kv_inv s recs" "unique_prefixes (si_view (kv_t1 s))" "op_fits op" "block_count (op_key op) (op_value op) < 65536"
    "unat (tm_bytes_used (kv_t2 s)) + unat (record_len (op_key op) (op_value op)) \<le> unat (tm_capacity (kv_t2 s))"
    "wal_quiet (kv_wal s) rs" "io_flawless io" "\<not> poisoned (kv_wal s)" "length (si_queue (kv_t1 s)) < w" "fst (spec_op op (kv_map s))"
  shows "\<exists>s' recs'. exec_op (io # ios) [[w]] op s = Some (Inr True, s') \<and> kv_inv s' recs' \<and> kv_map s' = snd (spec_op op (kv_map s))
    \<and> segment (kv_wal s') = log_bytes (rs @ [next_record (op_type op) (op_key op) (op_value op) (kv_wal s)])
    \<and> synced (kv_wal s') = length (segment (kv_wal s'))"
proof -
  obtain s' where e: "exec_op (io # ios) [[w]] op s = Some (Inr True, s')"
    and o: "logged_outcome io rs (next_record (op_type op) (op_key op) (op_value op) (kv_wal s)) (snd (spec_op op (kv_map s))) s (Inr True) s'"
    by (rule op_succeeds [OF assms])
  from o show ?thesis by (rule logged_outcomeD) (use e in \<open>auto simp: wal_quiet_def\<close>)
qed

theorem store_call_succeeds_witness:
  "\<exists>s. exec_op [io_good] [[1]] (OpInsert [7] [1, 2, 3]) demo_store = Some (Inr True, s)
     \<and> segment (kv_wal s) = log_bytes [next_record WalInsert [7] [1, 2, 3] (kv_wal demo_store)]"
proof -
  have "block_count [7] [1, 2, 3] < 65536" "unat (record_len [7] [1, 2, 3]) = 32" by code_simp+
  then show ?thesis
    using store_call_succeeds [OF demo_state(1) demo_unique _ _ _ demo_state(7) io_good_flawless demo_state(8), of "OpInsert [7] [1, 2, 3]" 1 "[]"]
    by (auto simp: demo_state op_fits_def)
qed

end
