(* ===== verification/File_Io.thy ===== *)
theory File_Io
  imports Wal_Format
begin

text \<open>
  \<^verbatim>\<open>core/io.hpp\<close> and the tail of \<^verbatim>\<open>checkpoint/checkpoint.cpp\<close> that writes, syncs and closes
  one file. The system calls are the environment: a list of what each successive call returns
  (interrupted, failed, or a number of bytes it transferred, never more than were asked for and,
  for reads, than the file holds). Shown: whatever the calls return, a completed write has appended
  exactly the data, a failed one a proper prefix of it, and a completed read is the range of the
  file; the loops end as soon as the calls have made enough progress.
\<close>

section \<open>System calls\<close>

datatype SysCall = Interrupted | SysFailed | Transferred nat

datatype IoError = SysError | NoProgress | OpenFailed | RenameFailed

text \<open>\<open>None\<close>: the calls listed so far do not yet let the loop return.\<close>

type_synonym 'a io = "((IoError + SysCall list) \<times> 'a) option"

primrec write_all_exact :: "SysCall list \<Rightarrow> bytes \<Rightarrow> bytes \<Rightarrow> bytes io" where
  "write_all_exact [] out data = (if data = [] then Some (Inr [], out) else None)"
| "write_all_exact (c # cs) out data =
     (if data = [] then Some (Inr (c # cs), out)
      else case c of
             Interrupted \<Rightarrow> write_all_exact cs out data
           | SysFailed \<Rightarrow> Some (Inl SysError, out)
           | Transferred n \<Rightarrow>
               let written = min n (length data)
               in if written = 0 then Some (Inl NoProgress, out)
                  else write_all_exact cs (out @ take written data) (drop written data))"

primrec pread_exact_loop :: "SysCall list \<Rightarrow> bytes \<Rightarrow> nat \<Rightarrow> nat \<Rightarrow> bytes \<Rightarrow> bytes io" where
  "pread_exact_loop [] inp offset left acc = (if left = 0 then Some (Inr [], acc) else None)"
| "pread_exact_loop (c # cs) inp offset left acc =
     (if left = 0 then Some (Inr (c # cs), acc)
      else case c of
             Interrupted \<Rightarrow> pread_exact_loop cs inp offset left acc
           | SysFailed \<Rightarrow> Some (Inl SysError, acc)
           | Transferred n \<Rightarrow>
               let got = min n (min left (length inp - offset))
               in if got = 0 then Some (Inl NoProgress, acc)
                  else pread_exact_loop cs inp (offset + got) (left - got) (acc @ mem_read inp offset got))"

text \<open>Writing at an offset fills a gap behind the end with zeros.\<close>

definition pwrite_bytes :: "bytes \<Rightarrow> nat \<Rightarrow> bytes \<Rightarrow> bytes" where
  "pwrite_bytes out offset bs = mem_write (out @ replicate (offset + length bs - length out) 0) offset bs"

primrec pwrite_all :: "SysCall list \<Rightarrow> bytes \<Rightarrow> nat \<Rightarrow> bytes \<Rightarrow> bytes io" where
  "pwrite_all [] out offset data = (if data = [] then Some (Inr [], out) else None)"
| "pwrite_all (c # cs) out offset data =
     (if data = [] then Some (Inr (c # cs), out)
      else case c of
             Interrupted \<Rightarrow> pwrite_all cs out offset data
           | SysFailed \<Rightarrow> Some (Inl SysError, out)
           | Transferred n \<Rightarrow>
               let written = min n (length data)
               in if written = 0 then Some (Inl NoProgress, out)
                  else pwrite_all cs (pwrite_bytes out offset (take written data)) (offset + written) (drop written data))"

section \<open>Writing, syncing and closing one file\<close>

definition kSyncIntervalBytes :: nat where
  "kSyncIntervalBytes = 512 * 1024 * 1024"

lemma kSync_pos [simp]: "0 < kSyncIntervalBytes"
  by (simp add: kSyncIntervalBytes_def)

text \<open>The intermediate \<^verbatim>\<open>fdatasync\<close> and \<^verbatim>\<open>posix_fadvise\<close> calls do not affect the contents.\<close>

function write_chunks :: "SysCall list \<Rightarrow> bytes \<Rightarrow> bytes \<Rightarrow> bytes io" where
  "write_chunks calls out data =
     (if data = [] then Some (Inr calls, out)
      else case write_all_exact calls out (take kSyncIntervalBytes data) of
             None \<Rightarrow> None
           | Some (Inl e, out') \<Rightarrow> Some (Inl e, out')
           | Some (Inr cs, out') \<Rightarrow> write_chunks cs out' (drop kSyncIntervalBytes data))"
  by pat_completeness auto

termination
  by (relation "measure (\<lambda>(_, _, data). length data)") (simp_all add: kSync_pos)

declare write_chunks.simps [simp del]

definition write_fsync_close :: "SysCall list \<Rightarrow> bool \<Rightarrow> bytes \<Rightarrow> bytes \<Rightarrow> bytes io" where
  "write_fsync_close calls fsync_ok out data =
     (case write_chunks calls out data of
        Some (Inr cs, out') \<Rightarrow> if fsync_ok then Some (Inr cs, out') else Some (Inl SysError, out')
      | r \<Rightarrow> r)"

section \<open>What the loops achieve\<close>

lemma take_take_drop: "take a xs @ take k (drop a xs) = take (a + k) xs"
  by (simp add: take_add)

lemma write_all_exact_prefix:
  assumes "write_all_exact calls out data = Some (r, out')"
  shows "case r of Inr cs \<Rightarrow> out' = out @ data | Inl e \<Rightarrow> (\<exists>k < length data. out' = out @ take k data)"
  using assms
proof (induction calls arbitrary: out data)
  case (Cons c cs)
  show ?case
  proof (cases "data = []")
    case False
    show ?thesis
    proof (cases c)
      case (Transferred n)
      define w where "w = min n (length data)"
      have wl: "w \<le> length data" by (simp add: w_def)
      show ?thesis
      proof (cases "w = 0")
        case True
        then show ?thesis using Cons.prems False Transferred
          by (auto simp: w_def [symmetric] Let_def intro!: exI [of _ 0])
      next
        case w: False
        then have "write_all_exact cs (out @ take w data) (drop w data) = Some (r, out')"
          using Cons.prems False Transferred by (simp add: w_def [symmetric] Let_def)
        note IH = Cons.IH [OF this]
        show ?thesis
        proof (cases r)
          case (Inl e)
          then obtain k where "k < length data - w" "out' = out @ take (w + k) data"
            using IH wl by (auto simp: take_take_drop)
          then show ?thesis using Inl by (auto intro!: exI [of _ "w + k"])
        qed (use IH in auto)
      qed
    qed (use Cons.prems Cons.IH False in \<open>auto intro!: exI [of _ 0]\<close>)
  qed (use Cons.prems in auto)
qed (auto split: if_splits)

lemma write_chunks_prefix:
  assumes "write_chunks calls out data = Some (r, out')"
  shows "case r of Inr cs \<Rightarrow> out' = out @ data | Inl e \<Rightarrow> (\<exists>k < length data. out' = out @ take k data)"
  using assms
proof (induction calls out data rule: write_chunks.induct)
  case (1 calls out data)
  show ?case
  proof (cases "data = []")
    case False
    obtain r1 out1 where w: "write_all_exact calls out (take kSyncIntervalBytes data) = Some (r1, out1)"
      using "1.prems" False by (auto simp: write_chunks.simps [of calls] split: option.splits)
    note p = write_all_exact_prefix [OF w]
    show ?thesis
    proof (cases r1)
      case (Inl e)
      then show ?thesis using p "1.prems" False w by (auto simp: write_chunks.simps [of calls])
    next
      case (Inr cs)
      have o: "out1 = out @ take kSyncIntervalBytes data" using p Inr by simp
      have "write_chunks cs out1 (drop kSyncIntervalBytes data) = Some (r, out')"
        using "1.prems" False w Inr by (simp add: write_chunks.simps [of calls])
      note IH = "1.IH" [OF False w refl Inr this]
      show ?thesis
      proof (cases r)
        case (Inl e)
        then obtain k where k: "k < length (drop kSyncIntervalBytes data)" "out' = out1 @ take k (drop kSyncIntervalBytes data)"
          using IH by auto
        then show ?thesis using Inl o
          by (auto simp: take_take_drop intro!: exI [of _ "kSyncIntervalBytes + k"])
      qed (use IH o in auto)
    qed
  qed (use "1.prems" in \<open>auto simp: write_chunks.simps [of calls]\<close>)
qed

lemma write_fsync_close_prefix:
  assumes "write_fsync_close calls ok out data = Some (r, out')"
  shows "case r of Inr cs \<Rightarrow> out' = out @ data | Inl e \<Rightarrow> (\<exists>k \<le> length data. out' = out @ take k data)"
proof -
  obtain r1 out1 where w: "write_chunks calls out data = Some (r1, out1)"
    using assms by (auto simp: write_fsync_close_def split: option.splits)
  show ?thesis
  proof (cases r1)
    case (Inl e)
    then obtain k where "k < length data" "out1 = out @ take k data" using write_chunks_prefix [OF w] by auto
    then show ?thesis using assms w Inl by (auto simp: write_fsync_close_def intro!: exI [of _ k])
  next
    case (Inr cs)
    then show ?thesis using write_chunks_prefix [OF w] assms w
      by (auto simp: write_fsync_close_def intro!: exI [of _ "length data"] split: if_splits)
  qed
qed

lemma pread_exact_loop_range:
  assumes "pread_exact_loop calls inp offset left acc = Some (Inr cs, b)" "left = 0 \<or> offset \<le> length inp"
  shows "b = acc @ mem_read inp offset left" "left = 0 \<or> offset + left \<le> length inp"
proof -
  have "b = acc @ mem_read inp offset left \<and> (left = 0 \<or> offset + left \<le> length inp)"
    using assms
  proof (induction calls arbitrary: offset left acc)
    case (Cons c cs')
    show ?case
    proof (cases "left = 0")
      case False
      show ?thesis
      proof (cases c)
        case (Transferred n)
        define g where "g = min n (min left (length inp - offset))"
        have g: "g \<noteq> 0" "g \<le> left" "offset + g \<le> length inp"
          using Cons.prems False Transferred by (auto simp: g_def [symmetric] Let_def split: if_splits) (auto simp: g_def)
        have rec: "pread_exact_loop cs' inp (offset + g) (left - g) (acc @ mem_read inp offset g) = Some (Inr cs, b)"
          using Cons.prems(1) False Transferred g(1) by (simp add: g_def [symmetric] Let_def)
        have "mem_read inp offset left = mem_read inp offset g @ mem_read inp (offset + g) (left - g)"
          using g(2) mem_read_append [of inp offset g "left - g"] by simp
        then show ?thesis using Cons.IH [OF rec] g by auto
      qed (use Cons False in auto)
    qed (use Cons.prems in simp)
  qed (auto split: if_splits)
  then show "b = acc @ mem_read inp offset left" "left = 0 \<or> offset + left \<le> length inp" by simp_all
qed

lemma pwrite_bytes_eq:
  "pwrite_bytes out off bs = take off (out @ replicate (off - length out) 0) @ bs @ drop (off + length bs) out"
proof (cases "off \<le> length out")
  case False
  then have "off + length bs - length out = (off - length out) + length bs" by simp
  then show ?thesis using False by (simp add: pwrite_bytes_def mem_write_def replicate_add)
qed (simp add: pwrite_bytes_def mem_write_def)

lemma pwrite_bytes_append:
  "pwrite_bytes (pwrite_bytes out off a) (off + length a) b = pwrite_bytes out off (a @ b)"
proof -
  define p where "p = take off (out @ replicate (off - length out) 0)"
  have l: "length p = off" by (simp add: p_def)
  have "pwrite_bytes out off c = p @ c @ drop (off + length c) out" for c by (simp add: pwrite_bytes_eq p_def)
  then show ?thesis using l by (simp add: pwrite_bytes_eq [of "p @ a @ drop (off + length a) out"] add_ac)
qed

lemma pwrite_all_exact:
  "pwrite_all calls out offset data = Some (Inr cs, out') \<Longrightarrow> data \<noteq> [] \<Longrightarrow> out' = pwrite_bytes out offset data"
proof (induction calls arbitrary: out offset data)
  case (Cons c cs')
  show ?case
  proof (cases c)
    case (Transferred n)
    define w where "w = min n (length data)"
    have w: "w \<noteq> 0" using Cons.prems Transferred by (auto simp: w_def [symmetric] Let_def split: if_splits)
    have rec: "pwrite_all cs' (pwrite_bytes out offset (take w data)) (offset + w) (drop w data) = Some (Inr cs, out')"
      using Cons.prems Transferred w by (simp add: w_def [symmetric] Let_def)
    have l: "length (take w data) = w" "take w data \<noteq> []" using Cons.prems(2) w by (simp_all add: w_def)
    show ?thesis
    proof (cases "drop w data = []")
      case True
      then have "take w data = data" using w_def by simp
      moreover have "out' = pwrite_bytes out offset (take w data)" using rec True by (cases cs') auto
      ultimately show ?thesis by simp
    next
      case False
      show ?thesis using Cons.IH [OF rec False] pwrite_bytes_append [of out offset "take w data" "drop w data"] l(1) by simp
    qed
  qed (use Cons in auto)
qed simp

text \<open>Calls that make progress whenever they return at all.\<close>

fun progresses :: "SysCall \<Rightarrow> bool" where
  "progresses (Transferred n) \<longleftrightarrow> 0 < n"
| "progresses _ \<longleftrightarrow> False"

definition healthy :: "SysCall list \<Rightarrow> bool" where
  "healthy calls \<longleftrightarrow> (\<forall>c \<in> set calls. c = Interrupted \<or> progresses c)"

lemma write_all_exact_returns:
  assumes "healthy calls" "length data \<le> length (filter progresses calls)"
  shows "\<exists>cs. write_all_exact calls out data = Some (Inr cs, out @ data)"
  using assms
proof (induction calls arbitrary: out data)
  case (Cons c cs)
  have h: "healthy cs" using Cons.prems(1) by (simp add: healthy_def)
  show ?case
  proof (cases "data = []")
    case False
    show ?thesis
    proof (cases c)
      case (Transferred n)
      then have n: "0 < n" using Cons.prems(1) by (auto simp: healthy_def)
      have l: "length (drop (min n (length data)) data) \<le> length (filter progresses cs)"
        using Cons.prems(2) Transferred n False by (cases data) auto
      show ?thesis using Cons.IH [OF h l, of "out @ take (min n (length data)) data"] Transferred n False by (simp add: Let_def)
    qed (use Cons.IH [OF h] Cons.prems False in \<open>auto simp: healthy_def\<close>)
  qed simp
qed simp

lemma pread_exact_loop_returns:
  assumes "healthy calls" "left \<le> length (filter progresses calls)" "offset + left \<le> length inp"
  shows "\<exists>cs. pread_exact_loop calls inp offset left acc = Some (Inr cs, acc @ mem_read inp offset left)"
proof -
  have "\<exists>cs b. pread_exact_loop calls inp offset left acc = Some (Inr cs, b)"
    using assms
  proof (induction calls arbitrary: offset left acc)
    case (Cons c cs)
    have h: "healthy cs" using Cons.prems(1) by (simp add: healthy_def)
    show ?case
    proof (cases "left = 0")
      case False
      show ?thesis
      proof (cases c)
        case (Transferred n)
        define g where "g = min n (min left (length inp - offset))"
        have n: "0 < n" using Cons.prems(1) Transferred by (auto simp: healthy_def)
        then have g: "g \<noteq> 0" "g \<le> left" using False Cons.prems(3) by (auto simp: g_def)
        have "left - g \<le> length (filter progresses cs)" "offset + g + (left - g) \<le> length inp"
          using Cons.prems(2,3) Transferred n g by auto
        from Cons.IH [OF h this, of "acc @ mem_read inp offset g"] show ?thesis
          using Transferred g False by (simp add: g_def [symmetric] Let_def)
      qed (use Cons.IH [OF h] Cons.prems False in \<open>auto simp: healthy_def\<close>)
    qed simp
  qed simp
  then show ?thesis using pread_exact_loop_range(1) assms(3) by (metis add_leD1)
qed

text \<open>
  C28: \<^verbatim>\<open>write_all_exact\<close>, \<^verbatim>\<open>pread_exact\<close> and \<^verbatim>\<open>write_fsync_close\<close> are exact. Whatever the
  system calls return, and however often they are interrupted or come back short: a write that
  reports success appended (or placed at its offset) exactly the data, one that reports an error appended a prefix of it, and
  a read that reports success delivered exactly the requested range of the file. And they return:
  with calls that are only ever interrupted or make progress, as many progressing calls as there
  are bytes are enough.
\<close>

theorem exact_io_correct:
  "(\<forall>r out'. write_fsync_close calls ok out data = Some (r, out') \<longrightarrow>
      (case r of Inr cs \<Rightarrow> out' = out @ data | Inl e \<Rightarrow> (\<exists>k \<le> length data. out' = out @ take k data)))
    \<and> (\<forall>r out'. write_all_exact calls out data = Some (r, out') \<longrightarrow>
      (case r of Inr cs \<Rightarrow> out' = out @ data | Inl e \<Rightarrow> (\<exists>k < length data. out' = out @ take k data)))
    \<and> (\<forall>cs out'. data \<noteq> [] \<longrightarrow> pwrite_all calls out offset data = Some (Inr cs, out') \<longrightarrow> out' = pwrite_bytes out offset data)
    \<and> (\<forall>cs b. offset \<le> length inp \<longrightarrow> pread_exact_loop calls inp offset n [] = Some (Inr cs, b) \<longrightarrow> pread_exact inp offset n = Inr b)
    \<and> (healthy calls \<longrightarrow> length data \<le> length (filter progresses calls) \<longrightarrow>
      (\<exists>cs. write_all_exact calls out data = Some (Inr cs, out @ data)))
    \<and> (healthy calls \<longrightarrow> n \<le> length (filter progresses calls) \<longrightarrow> offset + n \<le> length inp \<longrightarrow>
      (\<exists>cs. pread_exact_loop calls inp offset n [] = Some (Inr cs, mem_read inp offset n)))"
proof (intro conjI allI impI)
  fix cs b
  assume "offset \<le> length inp" "pread_exact_loop calls inp offset n [] = Some (Inr cs, b)"
  with pread_exact_loop_range [OF this(2)] show "pread_exact inp offset n = Inr b" by (auto simp: pread_exact_def)
next
  assume "healthy calls" "n \<le> length (filter progresses calls)" "offset + n \<le> length inp"
  from pread_exact_loop_returns [OF this, of "[]"]
  show "\<exists>cs. pread_exact_loop calls inp offset n [] = Some (Inr cs, mem_read inp offset n)" by simp
qed (auto dest!: write_fsync_close_prefix write_all_exact_prefix pwrite_all_exact intro: write_all_exact_returns)

theorem exact_io_correct_witness:
  "write_all_exact [Interrupted, Transferred 2, Transferred 5, SysFailed] [9] [1, 2, 3] = Some (Inr [SysFailed], [9, 1, 2, 3])
    \<and> (\<exists>cs. write_all_exact [Transferred 1, Transferred 1] [] [4, 5] = Some (Inr cs, [4, 5]))"
proof -
  have "healthy [Transferred 1, Transferred 1]" by (simp add: healthy_def)
  with exact_io_correct [where calls = "[Transferred 1, Transferred 1]" and out = "[]" and data = "[4, 5]"]
  show ?thesis by simp
qed

end
