(* ===== verification/Checkpoint_File.thy ===== *)
theory Checkpoint_File
  imports File_Io Sharded_T1
begin

text \<open>
  \<^verbatim>\<open>checkpoint/checkpoint.hpp\<close>, \<^verbatim>\<open>checkpoint/checkpoint.cpp\<close> and \<^verbatim>\<open>checkpoint/paths.hpp\<close>: the
  sharded T1 checkpoint file (sections of entries, boundaries, trailing header), its incremental
  writer with the temporary file that is renamed at the end, its validating reader with the size
  arithmetic at 64 bits, and the manifest. Shown: what the writer completes the reader reads back;
  the path of the checkpoint never names a partial file, whatever fails; the manifest reads back and
  every corruption of a single byte of it is noticed; and an entry count whose size wraps makes
  the reader run past the mapping.
\<close>

section \<open>File layout\<close>

definition kT1ChkKeyPrefixBytes :: nat where
  "kT1ChkKeyPrefixBytes = 16"

record T1ChkEntry =
  ce_key_prefix :: bytes
  ce_hash :: u64
  ce_payload_bits :: u64

definition kT1ChkEntryBytes :: nat where
  "kT1ChkEntryBytes = 32"

definition chk_entry_bytes :: "T1ChkEntry \<Rightarrow> bytes" where
  "chk_entry_bytes e = ce_key_prefix e @ u64_le (ce_hash e) @ u64_le (ce_payload_bits e)"

definition chk_entry_of_bytes :: "bytes \<Rightarrow> T1ChkEntry" where
  "chk_entry_of_bytes b = \<lparr>ce_key_prefix = mem_read b 0 16, ce_hash = u64_of_le (mem_read b 16 8),
     ce_payload_bits = u64_of_le (mem_read b 24 8)\<rparr>"

definition kShardedT1ChkMagic :: u32 where
  "kShardedT1ChkMagic = 0x324B4C56"

definition kShardedT1ChkFormatVersion :: byte where
  "kShardedT1ChkFormatVersion = 1"

record ShardedT1ChkFileHeader =
  sh_magic :: u32
  sh_format_version :: byte
  sh_reserved :: bytes
  sh_shard_count :: u64
  sh_boundary_count :: u64
  sh_total_entry_count :: u64
  sh_checksum :: u64

definition kShardedT1ChkFileHeaderBytes :: nat where
  "kShardedT1ChkFileHeaderBytes = 40"

definition chk_header_bytes :: "ShardedT1ChkFileHeader \<Rightarrow> bytes" where
  "chk_header_bytes h = u32_le (sh_magic h) @ [sh_format_version h] @ sh_reserved h @ u64_le (sh_shard_count h)
     @ u64_le (sh_boundary_count h) @ u64_le (sh_total_entry_count h) @ u64_le (sh_checksum h)"

definition chk_header_of_bytes :: "bytes \<Rightarrow> ShardedT1ChkFileHeader" where
  "chk_header_of_bytes b = \<lparr>sh_magic = u32_of_le (mem_read b 0 4), sh_format_version = b ! 4, sh_reserved = mem_read b 5 3,
     sh_shard_count = u64_of_le (mem_read b 8 8), sh_boundary_count = u64_of_le (mem_read b 16 8),
     sh_total_entry_count = u64_of_le (mem_read b 24 8), sh_checksum = u64_of_le (mem_read b 32 8)\<rparr>"

section \<open>Paths\<close>

definition derive_manifest_path :: "string \<Rightarrow> string" where
  "derive_manifest_path t2_path = t2_path @ ''.manifest''"

definition derive_t1_chk_path :: "string \<Rightarrow> string" where
  "derive_t1_chk_path t2_path = t2_path @ ''.t1chk''"

definition derive_t2_chk_path :: "string \<Rightarrow> string" where
  "derive_t2_chk_path t2_path = t2_path @ ''.t2chk''"

section \<open>Writer\<close>

text \<open>A directory: what each path names.\<close>

type_synonym files = "string \<rightharpoonup> bytes"

record ShardedT1CheckpointWriter =
  cw_final_path :: string
  cw_temp_path :: string
  cw_fd_open :: bool
  cw_shard_count :: u64
  cw_total_entry_count :: u64
  cw_checksum :: FoldingChecksum
  cw_finished :: bool

definition writer_open :: "bool \<Rightarrow> string \<Rightarrow> files \<Rightarrow> (IoError + ShardedT1CheckpointWriter) \<times> files" where
  "writer_open open_ok path fs =
     (let temp = path @ ''.tmp''
      in if \<not> open_ok then (Inl OpenFailed, fs)
         else (Inr \<lparr>cw_final_path = path, cw_temp_path = temp, cw_fd_open = True, cw_shard_count = 0,
                 cw_total_entry_count = 0, cw_checksum = FoldingChecksum_init, cw_finished = False\<rparr>, fs(temp \<mapsto> [])))"

definition writer_destroy :: "ShardedT1CheckpointWriter \<Rightarrow> files \<Rightarrow> files" where
  "writer_destroy w fs = (if \<not> cw_finished w \<and> cw_fd_open w then fs(cw_temp_path w := None) else fs)"

definition to_chk_entry :: "EntrySnapshot \<Rightarrow> T1ChkEntry" where
  "to_chk_entry e = \<lparr>ce_key_prefix = es_key e, ce_hash = es_hash e, ce_payload_bits = es_payload e\<rparr>"

text \<open>One write to the temporary file.\<close>

definition temp_write :: "SysCall list \<Rightarrow> bytes \<Rightarrow> ShardedT1CheckpointWriter \<Rightarrow> files \<Rightarrow> files io" where
  "temp_write calls data w fs =
     map_option (\<lambda>(r, out). (r, fs(cw_temp_path w \<mapsto> out))) (write_all_exact calls (the (fs (cw_temp_path w))) data)"

definition add_shard_entries ::
  "SysCall list \<Rightarrow> T1ChkEntry list \<Rightarrow> ShardedT1CheckpointWriter \<Rightarrow> files \<Rightarrow> (ShardedT1CheckpointWriter \<times> files) io" where
  "add_shard_entries calls entries w fs =
     (let count64 = u64_le (word_of_nat (length entries));
          body = concat (map chk_entry_bytes entries)
      in case temp_write calls count64 w fs of
           None \<Rightarrow> None
         | Some (Inl e, fs1) \<Rightarrow> Some (Inl e, w, fs1)
         | Some (Inr cs, fs1) \<Rightarrow>
             let w1 = w\<lparr>cw_checksum := fc_add (cw_checksum w) count64\<rparr>;
                 counted = (\<lambda>v. v\<lparr>cw_shard_count := cw_shard_count v + 1,
                                  cw_total_entry_count := cw_total_entry_count v + word_of_nat (length entries)\<rparr>)
             in if entries = [] then Some (Inr cs, counted w1, fs1)
                else case temp_write cs body w1 fs1 of
                       None \<Rightarrow> None
                     | Some (Inl e, fs2) \<Rightarrow> Some (Inl e, w1, fs2)
                     | Some (Inr cs2, fs2) \<Rightarrow> Some (Inr cs2, counted (w1\<lparr>cw_checksum := fc_add (cw_checksum w1) body\<rparr>), fs2))"

definition add_shard ::
  "SysCall list \<Rightarrow> EntrySnapshot list \<Rightarrow> ShardedT1CheckpointWriter \<Rightarrow> files \<Rightarrow> (ShardedT1CheckpointWriter \<times> files) io" where
  "add_shard calls entries w fs = add_shard_entries calls (map to_chk_entry entries) w fs"

definition trailer_of :: "nat \<Rightarrow> ShardedT1CheckpointWriter \<Rightarrow> ShardedT1ChkFileHeader" where
  "trailer_of boundary_count w =
     (let header = \<lparr>sh_magic = kShardedT1ChkMagic, sh_format_version = kShardedT1ChkFormatVersion, sh_reserved = [0, 0, 0],
            sh_shard_count = cw_shard_count w, sh_boundary_count = word_of_nat boundary_count,
            sh_total_entry_count = cw_total_entry_count w, sh_checksum = 0\<rparr>
      in header\<lparr>sh_checksum := fc_state (fc_add_header (cw_checksum w) (chk_header_bytes header))\<rparr>)"

definition writer_finish ::
  "SysCall list \<Rightarrow> bool \<Rightarrow> bool \<Rightarrow> bytes list \<Rightarrow> ShardedT1CheckpointWriter \<Rightarrow> files \<Rightarrow> (ShardedT1CheckpointWriter \<times> files) io" where
  "writer_finish calls fsync_ok rename_ok boundaries w fs =
     (case (if boundaries = [] then Some (Inr calls, fs) else temp_write calls (concat boundaries) w fs) of
        None \<Rightarrow> None
      | Some (Inl e, fs1) \<Rightarrow> Some (Inl e, w, fs1)
      | Some (Inr cs, fs1) \<Rightarrow>
          let w1 = (if boundaries = [] then w else w\<lparr>cw_checksum := fc_add (cw_checksum w) (concat boundaries)\<rparr>);
              header = trailer_of (length boundaries) w1;
              w2 = w1\<lparr>cw_fd_open := False\<rparr>
          in case write_fsync_close cs fsync_ok (the (fs1 (cw_temp_path w))) (chk_header_bytes header) of
               None \<Rightarrow> None
             | Some (Inl e, out) \<Rightarrow> Some (Inl e, w2, fs1(cw_temp_path w \<mapsto> out))
             | Some (Inr cs2, out) \<Rightarrow>
                 let w3 = w2\<lparr>cw_finished := True\<rparr>
                 in if rename_ok then Some (Inr cs2, w3, fs1(cw_temp_path w := None, cw_final_path w \<mapsto> out))
                    else Some (Inl RenameFailed, w3, fs1(cw_temp_path w \<mapsto> out)))"

text \<open>
  A whole use of the writer, as the checkpoint makes it: open, one \<^verbatim>\<open>add_shard\<close> per shard,
  \<^verbatim>\<open>finish\<close>, and the destructor, also when a call has thrown.
\<close>

fun add_shards ::
  "SysCall list \<Rightarrow> EntrySnapshot list list \<Rightarrow> ShardedT1CheckpointWriter \<Rightarrow> files \<Rightarrow> (ShardedT1CheckpointWriter \<times> files) io" where
  "add_shards calls [] w fs = Some (Inr calls, w, fs)"
| "add_shards calls (entries # rest) w fs =
     (case add_shard calls entries w fs of
        Some (Inr cs, w1, fs1) \<Rightarrow> add_shards cs rest w1 fs1
      | r \<Rightarrow> r)"

definition write_sharded_checkpoint ::
  "SysCall list \<Rightarrow> bool \<Rightarrow> bool \<Rightarrow> bool \<Rightarrow> string \<Rightarrow> EntrySnapshot list list \<Rightarrow> bytes list \<Rightarrow> files \<Rightarrow> files io" where
  "write_sharded_checkpoint calls open_ok fsync_ok rename_ok path per_shard boundaries fs =
     (case writer_open open_ok path fs of
        (Inl e, fs1) \<Rightarrow> Some (Inl e, fs1)
      | (Inr w, fs1) \<Rightarrow>
          map_option (\<lambda>(r, w', fs2). (r, writer_destroy w' fs2))
            (case add_shards calls per_shard w fs1 of
               Some (Inr cs, w1, fs2) \<Rightarrow> writer_finish cs fsync_ok rename_ok boundaries w1 fs2
             | r \<Rightarrow> r))"

section \<open>Reader\<close>

text \<open>
  \<open>PastMapping\<close>: an access outside the mapped file, which faults. \<open>AllocFailed\<close>: reserving the
  vector of spans throws.
\<close>

datatype ChkError = ChkOpenFailed | SmallerThanTrailer | FailedValidation | PastMapping | AllocFailed

record ParsedShardSections =
  ps_entries :: "(u64 \<times> u64) list"
  ps_end_offset :: u64
  ps_seen_entries :: u64
  ps_checksum :: FoldingChecksum

definition mapped :: "bytes \<Rightarrow> u64 \<Rightarrow> u64 \<Rightarrow> bool" where
  "mapped base offset n \<longleftrightarrow> unat offset + unat n \<le> length base"

definition at_u64 :: "bytes \<Rightarrow> u64 \<Rightarrow> u64 \<Rightarrow> bytes" where
  "at_u64 base offset n = mem_read base (unat offset) (unat n)"

text \<open>The loop over the shards; \<open>Inr None\<close> is the layout violation the code returns.\<close>

fun parse_shard_sections ::
  "bytes \<Rightarrow> u64 \<Rightarrow> nat \<Rightarrow> u64 \<Rightarrow> FoldingChecksum \<Rightarrow> ChkError + ParsedShardSections option" where
  "parse_shard_sections base payload_limit 0 offset checksum =
     Inr (Some \<lparr>ps_entries = [], ps_end_offset = offset, ps_seen_entries = 0, ps_checksum = checksum\<rparr>)"
| "parse_shard_sections base payload_limit (Suc shards_left) offset checksum =
     (if offset + 8 > payload_limit then Inr None
      else if \<not> mapped base offset 8 then Inl PastMapping
      else let entry_count = u64_of_le (at_u64 base offset 8);
               checksum1 = fc_add checksum (at_u64 base offset 8);
               offset1 = offset + 8;
               entry_bytes = entry_count * word_of_nat kT1ChkEntryBytes
           in if offset1 + entry_bytes > payload_limit then Inr None
              else if entry_bytes > 0 \<and> \<not> mapped base offset1 entry_bytes then Inl PastMapping
              else let checksum2 = (if entry_bytes > 0 then fc_add checksum1 (at_u64 base offset1 entry_bytes) else checksum1)
                   in case parse_shard_sections base payload_limit shards_left (offset1 + entry_bytes) checksum2 of
                        Inr (Some p) \<Rightarrow> Inr (Some (p\<lparr>ps_entries := (offset1, entry_count) # ps_entries p,
                                                   ps_seen_entries := entry_count + ps_seen_entries p\<rparr>))
                      | r \<Rightarrow> r)"

definition parse_shard_boundaries ::
  "bytes \<Rightarrow> u64 \<Rightarrow> u64 \<Rightarrow> ShardedT1ChkFileHeader \<Rightarrow> u64 \<Rightarrow> FoldingChecksum \<Rightarrow> ChkError + (u64 \<times> FoldingChecksum) option" where
  "parse_shard_boundaries base offset payload_limit header seen_entries checksum =
     (let boundary_bytes = sh_boundary_count header * word_of_nat kT1ChkKeyPrefixBytes
      in if offset + boundary_bytes \<noteq> payload_limit \<or> seen_entries \<noteq> sh_total_entry_count header
            \<or> sh_boundary_count header + 1 \<noteq> sh_shard_count header
         then Inr None
         else if boundary_bytes > 0 \<and> \<not> mapped base offset boundary_bytes then Inl PastMapping
         else Inr (Some (offset, if boundary_bytes > 0 then fc_add checksum (at_u64 base offset boundary_bytes) else checksum)))"

record ShardedT1CheckpointFile =
  cf_mapping :: bytes
  cf_shard_entries :: "(u64 \<times> u64) list"
  cf_boundaries :: u64
  cf_boundary_count :: u64

definition ShardedT1CheckpointFile_open :: "(u64 \<Rightarrow> bool) \<Rightarrow> bytes option \<Rightarrow> ChkError + ShardedT1CheckpointFile" where
  "ShardedT1CheckpointFile_open reserve_ok content =
     (case content of
        None \<Rightarrow> Inl ChkOpenFailed
      | Some base \<Rightarrow>
          if length base < kShardedT1ChkFileHeaderBytes then Inl SmallerThanTrailer
          else let limit = length base - kShardedT1ChkFileHeaderBytes;
                   header = chk_header_of_bytes (mem_read base limit kShardedT1ChkFileHeaderBytes);
                   payload_limit = word_of_nat limit
               in if sh_magic header \<noteq> kShardedT1ChkMagic \<or> sh_format_version header \<noteq> kShardedT1ChkFormatVersion
                  then Inl FailedValidation
                  else if \<not> reserve_ok (sh_shard_count header) then Inl AllocFailed
                  else case parse_shard_sections base payload_limit (unat (sh_shard_count header)) 0 FoldingChecksum_init of
                         Inl e \<Rightarrow> Inl e
                       | Inr None \<Rightarrow> Inl FailedValidation
                       | Inr (Some sections) \<Rightarrow>
                           (case parse_shard_boundaries base (ps_end_offset sections) payload_limit header
                                   (ps_seen_entries sections) (ps_checksum sections) of
                              Inl e \<Rightarrow> Inl e
                            | Inr None \<Rightarrow> Inl FailedValidation
                            | Inr (Some (boundaries, checksum)) \<Rightarrow>
                                if fnv1a64_range (fc_state checksum) (chk_header_bytes (header\<lparr>sh_checksum := 0\<rparr>)) \<noteq> sh_checksum header
                                then Inl FailedValidation
                                else Inr \<lparr>cf_mapping = base, cf_shard_entries = ps_entries sections, cf_boundaries = boundaries,
                                        cf_boundary_count = sh_boundary_count header\<rparr>))"

definition cf_shard_count :: "ShardedT1CheckpointFile \<Rightarrow> nat" where
  "cf_shard_count f = length (cf_shard_entries f)"

text \<open>The contents of a span, read from the mapping.\<close>

definition read_array :: "(bytes \<Rightarrow> 'a) \<Rightarrow> nat \<Rightarrow> bytes \<Rightarrow> nat \<Rightarrow> nat \<Rightarrow> 'a list" where
  "read_array decode stride base offset n = map (\<lambda>i. decode (mem_read base (offset + i * stride) stride)) [0..<n]"

definition shard_entries :: "ShardedT1CheckpointFile \<Rightarrow> nat \<Rightarrow> T1ChkEntry list" where
  "shard_entries f index =
     (case cf_shard_entries f ! index of
        (offset, n) \<Rightarrow> read_array chk_entry_of_bytes kT1ChkEntryBytes (cf_mapping f) (unat offset) (unat n))"

definition cf_boundary_keys :: "ShardedT1CheckpointFile \<Rightarrow> bytes list" where
  "cf_boundary_keys f =
     read_array (\<lambda>b. b) kT1ChkKeyPrefixBytes (cf_mapping f) (unat (cf_boundaries f)) (unat (cf_boundary_count f))"

section \<open>Manifest\<close>

definition kManifestMagic :: u32 where
  "kManifestMagic = 0x314B4D56"

definition kManifestFormatVersion :: byte where
  "kManifestFormatVersion = 4"

record ManifestHeader =
  mh_magic :: u32
  mh_format_version :: byte
  mh_reserved :: bytes
  mh_generation :: u64
  mh_t2_bytes_used :: u64
  mh_checksum :: u64

record ManifestData =
  md_generation :: u64
  md_t2_bytes_used :: u64

definition kManifestHeaderBytes :: nat where
  "kManifestHeaderBytes = 32"

definition manifest_bytes :: "ManifestHeader \<Rightarrow> bytes" where
  "manifest_bytes h = u32_le (mh_magic h) @ [mh_format_version h] @ mh_reserved h @ u64_le (mh_generation h)
     @ u64_le (mh_t2_bytes_used h) @ u64_le (mh_checksum h)"

definition manifest_of_bytes :: "bytes \<Rightarrow> ManifestHeader" where
  "manifest_of_bytes b = \<lparr>mh_magic = u32_of_le (mem_read b 0 4), mh_format_version = b ! 4, mh_reserved = mem_read b 5 3,
     mh_generation = u64_of_le (mem_read b 8 8), mh_t2_bytes_used = u64_of_le (mem_read b 16 8),
     mh_checksum = u64_of_le (mem_read b 24 8)\<rparr>"

definition manifest_checksum :: "ManifestHeader \<Rightarrow> u64" where
  "manifest_checksum h = checksum_header (manifest_bytes (h\<lparr>mh_checksum := 0\<rparr>))"

definition write_via_temp_then_rename :: "SysCall list \<Rightarrow> bool \<Rightarrow> bool \<Rightarrow> bool \<Rightarrow> string \<Rightarrow> bytes \<Rightarrow> files \<Rightarrow> files io" where
  "write_via_temp_then_rename calls open_ok fsync_ok rename_ok final_path data fs =
     (let temp = final_path @ ''.tmp''
      in if \<not> open_ok then Some (Inl OpenFailed, fs)
         else case write_fsync_close calls fsync_ok [] data of
                None \<Rightarrow> None
              | Some (Inl e, out) \<Rightarrow> Some (Inl e, fs(temp \<mapsto> out))
              | Some (Inr cs, out) \<Rightarrow>
                  if rename_ok then Some (Inr cs, fs(temp := None, final_path \<mapsto> out)) else Some (Inl RenameFailed, fs(temp \<mapsto> out)))"

definition write_manifest :: "SysCall list \<Rightarrow> bool \<Rightarrow> bool \<Rightarrow> bool \<Rightarrow> string \<Rightarrow> u64 \<Rightarrow> u64 \<Rightarrow> files \<Rightarrow> files io" where
  "write_manifest calls open_ok fsync_ok rename_ok manifest_path generation t2_bytes_used fs =
     (let header = \<lparr>mh_magic = kManifestMagic, mh_format_version = kManifestFormatVersion, mh_reserved = [0, 0, 0],
            mh_generation = generation, mh_t2_bytes_used = t2_bytes_used, mh_checksum = 0\<rparr>
      in write_via_temp_then_rename calls open_ok fsync_ok rename_ok manifest_path
           (manifest_bytes (header\<lparr>mh_checksum := manifest_checksum header\<rparr>)) fs)"

definition read_manifest :: "bytes option \<Rightarrow> ManifestData option" where
  "read_manifest content =
     (case content of
        None \<Rightarrow> None
      | Some b \<Rightarrow>
          if length b < kManifestHeaderBytes then None
          else let header = manifest_of_bytes (mem_read b 0 kManifestHeaderBytes)
               in if mh_magic header \<noteq> kManifestMagic \<or> mh_format_version header \<noteq> kManifestFormatVersion then None
                  else if manifest_checksum header \<noteq> mh_checksum header then None
                  else Some \<lparr>md_generation = mh_generation header, md_t2_bytes_used = mh_t2_bytes_used header\<rparr>)"

section \<open>Checksums notice a changed byte\<close>

lemma fnv_step_inj:
  assumes "(h XOR ucast (b :: byte)) * kFnvPrime64 = (h' XOR ucast b') * kFnvPrime64"
  shows "h XOR ucast b = h' XOR ucast b'"
proof -
  have i: "kFnvPrime64 * 14886173955864302971 = 1" by (simp add: kFnvPrime64_def)
  have "(h XOR ucast b) * kFnvPrime64 * 14886173955864302971 = (h' XOR ucast b') * kFnvPrime64 * 14886173955864302971"
    using assms by simp
  then show ?thesis by (simp add: mult.assoc i)
qed

lemma xor_same_cancel: "(h :: u64) XOR c = h' XOR c \<Longrightarrow> h = h'"
  by (metis bit.xor_left_self xor.commute)

lemma xor_left_cancel: "(c :: u64) XOR h = c XOR h' \<Longrightarrow> h = h'"
  by (metis bit.xor_left_self)

lemma fnv_inj_state: "fnv1a64_update h bs = fnv1a64_update h' bs \<Longrightarrow> h = h'"
proof (induction bs arbitrary: h h')
  case (Cons b bs)
  have "(h XOR ucast b) * kFnvPrime64 = (h' XOR ucast b) * kFnvPrime64" by (rule Cons.IH) (use Cons.prems in simp)
  then show ?case by (rule xor_same_cancel [OF fnv_step_inj])
qed simp

lemma fnv_notices:
  assumes "x \<noteq> y"
  shows "fnv1a64_update h (a @ x # b) \<noteq> fnv1a64_update h (a @ y # b)"
proof
  assume e: "fnv1a64_update h (a @ x # b) = fnv1a64_update h (a @ y # b)"
  let ?g = "fnv1a64_update h a"
  have "(?g XOR ucast x) * kFnvPrime64 = (?g XOR ucast y) * kFnvPrime64"
    by (rule fnv_inj_state [of _ b]) (use e in \<open>unfold fnv1a64_append fnv1a64_update.simps\<close>)
  then have "?g XOR ucast x = ?g XOR ucast y" by (rule fnv_step_inj)
  then have u: "(ucast x :: u64) = ucast y" by (rule xor_left_cancel)
  have "x = y"
  proof (rule bit_word_eqI)
    fix n
    assume "n < LENGTH(8)"
    then show "bit x n \<longleftrightarrow> bit y n" using arg_cong [OF u, of "\<lambda>w. bit w n"] by (simp add: bit_simps)
  qed
  with assms show False by simp
qed

lemma fnv_notices_update:
  assumes "i < length xs" "c \<noteq> xs ! i"
  shows "fnv1a64_update h (xs[i := c] @ ys) \<noteq> fnv1a64_update h (xs @ ys)"
  using fnv_notices [OF assms(2), of h "take i xs" "drop (Suc i) xs @ ys"]
    id_take_nth_drop [OF assms(1)] upd_conv_take_nth_drop [OF assms(1), of c]
  by (metis append_Cons append_assoc)

section \<open>The manifest reads back\<close>

lemma length_manifest_bytes: "length (mh_reserved h) = 3 \<Longrightarrow> length (manifest_bytes h) = kManifestHeaderBytes"
  by (simp add: manifest_bytes_def kManifestHeaderBytes_def)

lemma list_of_length_3: "length xs = 3 \<Longrightarrow> \<exists>a b c. xs = [a, b, c]"
  by (cases xs; cases "tl xs"; cases "tl (tl xs)") auto

lemma manifest_roundtrip:
  assumes "length (mh_reserved h) = 3"
  shows "manifest_of_bytes (manifest_bytes h) = h"
proof -
  obtain a b c where r: "mh_reserved h = [a, b, c]" using list_of_length_3 [OF assms] by blast
  have f: "mem_read (manifest_bytes h) 0 4 = u32_le (mh_magic h)" "manifest_bytes h ! 4 = mh_format_version h"
    "mem_read (manifest_bytes h) 5 3 = mh_reserved h" "mem_read (manifest_bytes h) 8 8 = u64_le (mh_generation h)"
    "mem_read (manifest_bytes h) 16 8 = u64_le (mh_t2_bytes_used h)" "mem_read (manifest_bytes h) 24 8 = u64_le (mh_checksum h)"
    by (simp_all add: manifest_bytes_def mem_read_def r nth_append)
  show ?thesis by (rule ManifestHeader.equality) (simp_all add: manifest_of_bytes_def f)
qed

lemma mem_read_split:
  assumes "length b = 32"
  shows "b = mem_read b 0 4 @ [b ! 4] @ mem_read b 5 3 @ mem_read b 8 8 @ mem_read b 16 8 @ mem_read b 24 8"
proof -
  have "b = mem_read b 0 (4 + (1 + (3 + (8 + (8 + 8)))))" using assms by (simp add: mem_read_def)
  also have "\<dots> = mem_read b 0 4 @ mem_read b 4 1 @ mem_read b 5 3 @ mem_read b 8 8 @ mem_read b 16 8 @ mem_read b 24 8"
    by (simp only: mem_read_append) simp
  also have "mem_read b 4 1 = [b ! 4]" using assms by (simp add: mem_read_def take_Suc_conv_app_nth hd_drop_conv_nth take_Suc)
  finally show ?thesis .
qed

lemma manifest_bytes_of_bytes:
  assumes "length b = 32"
  shows "manifest_bytes ((manifest_of_bytes b)\<lparr>mh_checksum := c\<rparr>) = take 24 b @ u64_le c"
proof -
  have "take 24 b = mem_read b 0 4 @ [b ! 4] @ mem_read b 5 3 @ mem_read b 8 8 @ mem_read b 16 8"
    using assms by (subst mem_read_split [OF assms], subst take_append) simp
  then show ?thesis using assms by (simp add: manifest_bytes_def manifest_of_bytes_def codec_simps)
qed

lemma manifest_checksum_of_bytes:
  "length b = 32 \<Longrightarrow> manifest_checksum (manifest_of_bytes b) = fnv1a64_update kFnvOffsetBasis64 (take 24 b @ u64_le 0)"
  by (simp add: manifest_checksum_def manifest_bytes_of_bytes checksum_header_def)

lemma u64_of_le_inj: "length a = 8 \<Longrightarrow> length b = 8 \<Longrightarrow> u64_of_le a = u64_of_le b \<Longrightarrow> a = b"
  by (metis u64_le_u64_of_le)

lemma corrupted_manifest_refused:
  assumes "read_manifest (Some b) = Some md" "length b = kManifestHeaderBytes" "i < length b" "c \<noteq> b ! i"
  shows "read_manifest (Some (b[i := c])) = None"
proof -
  let ?b = "b[i := c]"
  have l: "length b = 32" "length ?b = 32" using assms(2) by (simp_all add: kManifestHeaderBytes_def)
  have m: "mem_read x 0 32 = x" if "length x = 32" for x :: bytes using that by (simp add: mem_read_def)
  have ok: "manifest_checksum (manifest_of_bytes b) = mh_checksum (manifest_of_bytes b)"
    using assms(1) l m by (auto simp: read_manifest_def kManifestHeaderBytes_def Let_def split: if_splits)
  have "manifest_checksum (manifest_of_bytes ?b) \<noteq> mh_checksum (manifest_of_bytes ?b)"
  proof (cases "i < 24")
    case True
    have i: "i < length (take 24 b)" "c \<noteq> take 24 b ! i" using True assms(4) l by simp_all
    have "mh_checksum (manifest_of_bytes ?b) = mh_checksum (manifest_of_bytes b)"
      using True by (simp add: manifest_of_bytes_def mem_read_def drop_update_cancel)
    moreover have "manifest_checksum (manifest_of_bytes ?b) \<noteq> manifest_checksum (manifest_of_bytes b)"
      unfolding manifest_checksum_of_bytes [OF l(1)] manifest_checksum_of_bytes [OF l(2)] take_update_swap
      by (rule fnv_notices_update [OF i])
    ultimately show ?thesis using ok by simp
  next
    case False
    have "manifest_checksum (manifest_of_bytes ?b) = manifest_checksum (manifest_of_bytes b)"
      using False by (simp add: manifest_checksum_of_bytes l)
    moreover have "mem_read ?b 24 8 \<noteq> mem_read b 24 8"
    proof
      assume e: "mem_read ?b 24 8 = mem_read b 24 8"
      have "mem_read ?b 24 8 ! (i - 24) = c" "mem_read b 24 8 ! (i - 24) = b ! i"
        using False assms(3) l by (simp_all add: mem_read_def)
      with e assms(4) show False by simp
    qed
    then have "mh_checksum (manifest_of_bytes ?b) \<noteq> mh_checksum (manifest_of_bytes b)"
      using u64_of_le_inj [of "mem_read ?b 24 8" "mem_read b 24 8"] l by (auto simp: manifest_of_bytes_def)
    ultimately show ?thesis using ok by simp
  qed
  then show ?thesis using l m by (simp add: read_manifest_def kManifestHeaderBytes_def Let_def)
qed

lemma write_manifest_reads_back:
  assumes "write_manifest calls o1 o2 o3 path gen used fs = Some (Inr cs, fs')"
  shows "read_manifest (fs' path) = Some \<lparr>md_generation = gen, md_t2_bytes_used = used\<rparr>"
    "\<exists>b. fs' path = Some b \<and> length b = kManifestHeaderBytes"
proof -
  define h where "h = \<lparr>mh_magic = kManifestMagic, mh_format_version = kManifestFormatVersion, mh_reserved = [0, 0, 0],
    mh_generation = gen, mh_t2_bytes_used = used, mh_checksum = 0\<rparr>"
  define h' where "h' = h\<lparr>mh_checksum := manifest_checksum h\<rparr>"
  obtain out where w: "write_fsync_close calls o2 [] (manifest_bytes h') = Some (Inr cs, out)" "fs' path = Some out"
    using assms
    by (auto simp: write_manifest_def write_via_temp_then_rename_def h_def [symmetric] h'_def [symmetric] Let_def
        split: if_splits option.splits sum.splits)
  have out: "out = manifest_bytes h'" using write_fsync_close_prefix [OF w(1)] by simp
  have r: "length (mh_reserved h') = 3" by (simp add: h'_def h_def)
  note rt = manifest_roundtrip [OF r] and len = length_manifest_bytes [OF r]
  have "manifest_checksum h' = mh_checksum h'" by (simp add: h'_def manifest_checksum_def h_def)
  then show "read_manifest (fs' path) = Some \<lparr>md_generation = gen, md_t2_bytes_used = used\<rparr>"
    using rt len mem_read_0_length [of "manifest_bytes h'"]
    by (simp add: w(2) out read_manifest_def Let_def) (simp add: h'_def h_def)
  show "\<exists>b. fs' path = Some b \<and> length b = kManifestHeaderBytes" using w(2) out len by simp
qed

lemma tmp_path_neq: "path @ ''.tmp'' \<noteq> path" "path \<noteq> path @ ''.tmp''"
  by simp_all

lemma write_manifest_atomic:
  assumes "write_manifest calls o1 o2 o3 path gen used fs = Some (Inl e, fs')"
  shows "fs' path = fs path"
  using assms tmp_path_neq [of path]
  by (auto simp: write_manifest_def write_via_temp_then_rename_def Let_def split: if_splits option.splits sum.splits)

text \<open>
  C20: the manifest commits a checkpoint atomically. A successful \<^verbatim>\<open>write_manifest\<close> reads back as
  the generation and the T2 size it was given; a failed one, wherever it failed, leaves the old
  manifest; a manifest in which any single byte was changed is read as absent.
\<close>

theorem manifest_commit:
  assumes "write_manifest calls o1 o2 o3 path gen used fs = Some (r, fs')"
  shows "case r of
      Inl e \<Rightarrow> read_manifest (fs' path) = read_manifest (fs path)
    | Inr cs \<Rightarrow> read_manifest (fs' path) = Some \<lparr>md_generation = gen, md_t2_bytes_used = used\<rparr>
        \<and> (\<forall>i c. i < kManifestHeaderBytes \<and> c \<noteq> the (fs' path) ! i \<longrightarrow> read_manifest (Some ((the (fs' path))[i := c])) = None)"
proof (cases r)
  case (Inl e)
  then show ?thesis using write_manifest_atomic [OF assms [unfolded Inl]] by simp
next
  case (Inr cs)
  note w = write_manifest_reads_back [OF assms [unfolded Inr]]
  then obtain b where b: "fs' path = Some b" "length b = kManifestHeaderBytes" by blast
  show ?thesis using corrupted_manifest_refused [of b] w(1) b Inr by simp
qed

theorem manifest_commit_witness:
  "\<exists>cs fs'. write_manifest [Transferred 32] True True True ''m'' 7 64 Map.empty = Some (Inr cs, fs')
    \<and> read_manifest (fs' ''m'') = Some \<lparr>md_generation = 7, md_t2_bytes_used = 64\<rparr>"
proof -
  have "\<exists>fs'. write_manifest [Transferred 32] True True True ''m'' 7 64 Map.empty = Some (Inr [], fs')"
    by (simp add: write_manifest_def write_via_temp_then_rename_def write_fsync_close_def write_chunks.simps kSyncIntervalBytes_def
        manifest_bytes_def Let_def)
  then obtain fs' where w: "write_manifest [Transferred 32] True True True ''m'' 7 64 Map.empty = Some (Inr [], fs')" by blast
  from manifest_commit [OF w] w show ?thesis by auto
qed

section \<open>The checkpoint file: what the writer produces\<close>

definition section_bytes :: "T1ChkEntry list \<Rightarrow> bytes" where
  "section_bytes es = u64_le (word_of_nat (length es)) @ concat (map chk_entry_bytes es)"

definition sections_bytes :: "T1ChkEntry list list \<Rightarrow> bytes" where
  "sections_bytes ess = concat (map section_bytes ess)"

definition trailer :: "T1ChkEntry list list \<Rightarrow> bytes list \<Rightarrow> ShardedT1ChkFileHeader" where
  "trailer ess bs =
     (let h = \<lparr>sh_magic = kShardedT1ChkMagic, sh_format_version = kShardedT1ChkFormatVersion, sh_reserved = [0, 0, 0],
            sh_shard_count = word_of_nat (length ess), sh_boundary_count = word_of_nat (length bs),
            sh_total_entry_count = word_of_nat (length (concat ess)), sh_checksum = 0\<rparr>
      in h\<lparr>sh_checksum := fnv1a64_update kFnvOffsetBasis64 (sections_bytes ess @ concat bs @ chk_header_bytes h)\<rparr>)"

definition checkpoint_bytes :: "T1ChkEntry list list \<Rightarrow> bytes list \<Rightarrow> bytes" where
  "checkpoint_bytes ess bs = sections_bytes ess @ concat bs @ chk_header_bytes (trailer ess bs)"

lemma sections_bytes_simps [simp]:
  "sections_bytes [] = []" "sections_bytes (es # ess) = section_bytes es @ sections_bytes ess"
  "sections_bytes (ess @ [es]) = sections_bytes ess @ section_bytes es"
  by (simp_all add: sections_bytes_def)

lemma temp_write_Inr:
  assumes "temp_write calls data w fs = Some (Inr cs, fs')"
  shows "fs' = fs(cw_temp_path w \<mapsto> the (fs (cw_temp_path w)) @ data)"
  using assms by (auto simp: temp_write_def dest: write_all_exact_prefix)

lemma temp_write_frame: "temp_write calls data w fs = Some (r, fs') \<Longrightarrow> p \<noteq> cw_temp_path w \<Longrightarrow> fs' p = fs p"
  by (auto simp: temp_write_def)

text \<open>The state of a writer that has written the sections \<open>ess\<close>.\<close>

definition writer_at :: "string \<Rightarrow> T1ChkEntry list list \<Rightarrow> ShardedT1CheckpointWriter \<Rightarrow> files \<Rightarrow> bool" where
  "writer_at path ess w fs \<longleftrightarrow> cw_final_path w = path \<and> cw_temp_path w = path @ ''.tmp'' \<and> cw_fd_open w
     \<and> cw_shard_count w = word_of_nat (length ess) \<and> cw_total_entry_count w = word_of_nat (length (concat ess))
     \<and> fc_state (cw_checksum w) = fnv1a64_update kFnvOffsetBasis64 (sections_bytes ess)
     \<and> fs (path @ ''.tmp'') = Some (sections_bytes ess)"

lemma add_shard_entries_Inr:
  assumes "add_shard_entries calls es w fs = Some (Inr cs, w', fs')" "writer_at path ess w fs"
  shows "writer_at path (ess @ [es]) w' fs'"
proof -
  let ?t = "path @ ''.tmp''" and ?c = "u64_le (word_of_nat (length es))" and ?b = "concat (map chk_entry_bytes es)"
  note d = assms(2) [unfolded writer_at_def]
  obtain cs1 fs1 where t1: "temp_write calls ?c w fs = Some (Inr cs1, fs1)"
    using assms(1) by (auto simp: add_shard_entries_def Let_def split: option.splits sum.splits)
  have f1: "fs1 = fs(?t \<mapsto> sections_bytes ess @ ?c)" using temp_write_Inr [OF t1] d by simp
  show ?thesis
  proof (cases "es = []")
    case True
    then show ?thesis using assms(1) t1 d f1
      by (auto simp: add_shard_entries_def Let_def writer_at_def section_bytes_def fnv1a64_append)
  next
    case False
    let ?w1 = "w\<lparr>cw_checksum := fc_add (cw_checksum w) ?c\<rparr>"
    obtain cs2 fs2 where t2: "temp_write cs1 ?b ?w1 fs1 = Some (Inr cs2, fs2)"
      using assms(1) t1 False by (auto simp: add_shard_entries_def Let_def split: option.splits sum.splits)
    have "fs2 = fs1(?t \<mapsto> (sections_bytes ess @ ?c) @ ?b)" using temp_write_Inr [OF t2] d f1 by simp
    then show ?thesis using assms(1) t1 t2 d f1 False
      by (auto simp: add_shard_entries_def Let_def writer_at_def section_bytes_def fnv1a64_append)
  qed
qed

lemma add_shard_entries_frame:
  assumes "add_shard_entries calls es w fs = Some (r, w', fs')"
  shows "cw_temp_path w' = cw_temp_path w" "cw_final_path w' = cw_final_path w" "p \<noteq> cw_temp_path w \<Longrightarrow> fs' p = fs p"
proof -
  let ?c = "u64_le (word_of_nat (length es))" and ?b = "concat (map chk_entry_bytes es)"
  let ?w1 = "w\<lparr>cw_checksum := fc_add (cw_checksum w) ?c\<rparr>"
  obtain r1 fs1 where t: "temp_write calls ?c w fs = Some (r1, fs1)"
    using assms by (auto simp: add_shard_entries_def Let_def split: option.splits)
  note f1 = temp_write_frame [OF t]
  have "cw_temp_path w' = cw_temp_path w \<and> cw_final_path w' = cw_final_path w \<and> (\<forall>p. p \<noteq> cw_temp_path w \<longrightarrow> fs' p = fs p)"
  proof (cases r1)
    case (Inl e)
    then show ?thesis using assms t f1 by (auto simp: add_shard_entries_def Let_def)
  next
    case (Inr cs)
    show ?thesis
    proof (cases "es = []")
      case True
      then show ?thesis using assms t f1 Inr by (auto simp: add_shard_entries_def Let_def)
    next
      case False
      obtain r2 fs2 where t2: "temp_write cs ?b ?w1 fs1 = Some (r2, fs2)"
        using assms t Inr False by (auto simp: add_shard_entries_def Let_def split: option.splits)
      have "fs2 p = fs1 p" if "p \<noteq> cw_temp_path w" for p using temp_write_frame [OF t2, of p] that by simp
      then show ?thesis using assms t f1 Inr False t2 by (cases r2) (auto simp: add_shard_entries_def Let_def)
    qed
  qed
  then show "cw_temp_path w' = cw_temp_path w" "cw_final_path w' = cw_final_path w" "p \<noteq> cw_temp_path w \<Longrightarrow> fs' p = fs p"
    by simp_all
qed

lemma add_shards_frame:
  assumes "add_shards calls ess w fs = Some (r, w', fs')"
  shows "cw_temp_path w' = cw_temp_path w \<and> cw_final_path w' = cw_final_path w \<and> (\<forall>p. p \<noteq> cw_temp_path w \<longrightarrow> fs' p = fs p)"
  using assms
proof (induction ess arbitrary: calls w fs)
  case (Cons es ess)
  obtain r1 w1 fs1 where a: "add_shard calls es w fs = Some (r1, w1, fs1)" using Cons.prems by (auto split: option.splits)
  note f = add_shard_entries_frame [OF a [unfolded add_shard_def]]
  show ?case
  proof (cases r1)
    case (Inl e)
    then show ?thesis using Cons.prems a f by auto
  next
    case (Inr cs)
    then have "add_shards cs ess w1 fs1 = Some (r, w', fs')" using Cons.prems a by simp
    from Cons.IH [OF this] f show ?thesis by auto
  qed
qed simp

lemma add_shards_Inr:
  assumes "add_shards calls ess w fs = Some (Inr cs, w', fs')" "writer_at path done_ess w fs"
  shows "writer_at path (done_ess @ map (map to_chk_entry) ess) w' fs'"
  using assms
proof (induction ess arbitrary: calls w fs done_ess)
  case (Cons es ess)
  obtain cs1 w1 fs1 where a: "add_shard calls es w fs = Some (Inr cs1, w1, fs1)" "add_shards cs1 ess w1 fs1 = Some (Inr cs, w', fs')"
    using Cons.prems(1) by (auto split: option.splits sum.splits)
  from Cons.IH [OF a(2) add_shard_entries_Inr [OF a(1) [unfolded add_shard_def] Cons.prems(2)]] show ?case by simp
qed simp

lemma writer_finish_Inr:
  assumes "writer_finish calls o1 o2 bs w fs = Some (Inr cs, w', fs')" "writer_at path ess w fs"
  shows "fs' path = Some (checkpoint_bytes ess bs)" "cw_finished w'"
proof -
  let ?t = "path @ ''.tmp''"
  note d = assms(2) [unfolded writer_at_def]
  define w1 where "w1 = (if bs = [] then w else w\<lparr>cw_checksum := fc_add (cw_checksum w) (concat bs)\<rparr>)"
  obtain cs1 fs1 where t: "(if bs = [] then Some (Inr calls, fs) else temp_write calls (concat bs) w fs) = Some (Inr cs1, fs1)"
    using assms(1) by (auto simp: writer_finish_def split: option.splits sum.splits)
  have f1: "fs1 ?t = Some (sections_bytes ess @ concat bs)"
    using t temp_write_Inr [of calls "concat bs" w fs] d by (cases "bs = []") auto
  have tr: "trailer_of (length bs) w1 = trailer ess bs"
    using d by (simp add: trailer_of_def trailer_def w1_def Let_def fnv1a64_append)
  obtain cs2 out where wf: "write_fsync_close cs1 o1 (sections_bytes ess @ concat bs) (chk_header_bytes (trailer ess bs)) = Some (Inr cs2, out)"
    and fs': "fs' = fs1(?t := None, path \<mapsto> out)" and w': "w' = w1\<lparr>cw_fd_open := False, cw_finished := True\<rparr>"
    using assms(1) t d f1 by (auto simp: writer_finish_def w1_def [symmetric] tr Let_def split: option.splits sum.splits if_splits)
  show "fs' path = Some (checkpoint_bytes ess bs)"
    using write_fsync_close_prefix [OF wf] by (simp add: fs' checkpoint_bytes_def)
  show "cw_finished w'" by (simp add: w')
qed

lemma write_sharded_checkpoint_Inr:
  assumes "write_sharded_checkpoint calls o1 o2 o3 path ess bs fs = Some (Inr cs, fs')"
  shows "fs' path = Some (checkpoint_bytes (map (map to_chk_entry) ess) bs)"
proof -
  obtain w where o: "writer_open o1 path fs = (Inr w, fs(path @ ''.tmp'' \<mapsto> []))" "writer_at path [] w (fs(path @ ''.tmp'' \<mapsto> []))"
    using assms by (cases o1) (auto simp: write_sharded_checkpoint_def writer_open_def writer_at_def FoldingChecksum_init_def Let_def)
  obtain cs1 w1 fs1 w2 fs2 where a: "add_shards calls ess w (fs(path @ ''.tmp'' \<mapsto> [])) = Some (Inr cs1, w1, fs1)"
    "writer_finish cs1 o2 o3 bs w1 fs1 = Some (Inr cs, w2, fs2)" "fs' = writer_destroy w2 fs2"
    using assms o(1) by (auto simp: write_sharded_checkpoint_def split: option.splits sum.splits)
  from writer_finish_Inr [OF a(2) add_shards_Inr [OF a(1) o(2)]] a(3) show ?thesis by (simp add: writer_destroy_def)
qed

lemma writer_finish_Inl:
  assumes "writer_finish calls o1 o2 bs w fs = Some (Inl e, w', fs')" "p \<noteq> cw_temp_path w"
  shows "fs' p = fs p" "cw_temp_path w' = cw_temp_path w"
proof -
  obtain r1 fs1 where t: "(if bs = [] then Some (Inr calls, fs) else temp_write calls (concat bs) w fs) = Some (r1, fs1)"
    using assms(1) by (auto simp: writer_finish_def split: option.splits)
  have f1: "fs1 p = fs p" using t temp_write_frame assms(2) by (cases "bs = []") auto
  have "fs' p = fs p \<and> cw_temp_path w' = cw_temp_path w"
  proof (cases r1)
    case (Inl e')
    then show ?thesis using assms(1) t f1 by (simp add: writer_finish_def)
  next
    case (Inr cs)
    then show ?thesis using assms t f1
      by (auto simp: writer_finish_def Let_def split: option.splits sum.splits if_splits)
  qed
  then show "fs' p = fs p" "cw_temp_path w' = cw_temp_path w" by simp_all
qed

lemma write_sharded_checkpoint_Inl:
  assumes "write_sharded_checkpoint calls o1 o2 o3 path ess bs fs = Some (Inl e, fs')"
  shows "fs' path = fs path"
proof (cases o1)
  case False
  then show ?thesis using assms by (auto simp: write_sharded_checkpoint_def writer_open_def Let_def)
next
  case True
  let ?t = "path @ ''.tmp''"
  obtain w where o: "writer_open o1 path fs = (Inr w, fs(?t \<mapsto> []))" "cw_temp_path w = ?t"
    using True by (auto simp: writer_open_def Let_def)
  obtain r1 w1 fs1 where a: "add_shards calls ess w (fs(?t \<mapsto> [])) = Some (r1, w1, fs1)"
    using assms o(1) by (auto simp: write_sharded_checkpoint_def split: option.splits)
  have f: "cw_temp_path w1 = ?t" "fs1 path = fs path" using add_shards_frame [OF a] o(2) by auto
  show ?thesis
  proof (cases r1)
    case (Inl e')
    then show ?thesis using assms o(1) a f by (auto simp: write_sharded_checkpoint_def writer_destroy_def)
  next
    case (Inr cs)
    then obtain w2 fs2 where w2: "writer_finish cs o2 o3 bs w1 fs1 = Some (Inl e, w2, fs2)" "fs' = writer_destroy w2 fs2"
      using assms o(1) a by (auto simp: write_sharded_checkpoint_def split: option.splits)
    have p: "path \<noteq> cw_temp_path w1" using f(1) by simp
    from writer_finish_Inl [OF w2(1) p] w2(2) f p show ?thesis by (simp add: writer_destroy_def)
  qed
qed

section \<open>The checkpoint file: what the reader makes of it\<close>

lemma of_nat_u64_less: "a < 2 ^ 64 \<Longrightarrow> b < 2 ^ 64 \<Longrightarrow> (word_of_nat a :: u64) < word_of_nat b \<longleftrightarrow> a < b"
  by (simp add: word_less_nat_alt unat_of_nat)

lemma unat_u64: "a < 2 ^ 64 \<Longrightarrow> unat (word_of_nat a :: u64) = a"
  by (simp add: unat_of_nat)

definition entry_wf :: "T1ChkEntry \<Rightarrow> bool" where
  "entry_wf e \<longleftrightarrow> length (ce_key_prefix e) = kT1ChkKeyPrefixBytes"

lemma entry_codec:
  assumes "entry_wf e"
  shows "length (chk_entry_bytes e) = kT1ChkEntryBytes" "chk_entry_of_bytes (chk_entry_bytes e) = e"
proof -
  have l: "length (ce_key_prefix e) = 16" using assms by (simp add: entry_wf_def kT1ChkKeyPrefixBytes_def)
  then show "length (chk_entry_bytes e) = kT1ChkEntryBytes" by (simp add: chk_entry_bytes_def kT1ChkEntryBytes_def)
  show "chk_entry_of_bytes (chk_entry_bytes e) = e"
    by (rule T1ChkEntry.equality) (use l in \<open>simp_all add: chk_entry_of_bytes_def chk_entry_bytes_def mem_read_def\<close>)
qed

lemma chk_header_roundtrip:
  assumes "length (sh_reserved h) = 3"
  shows "length (chk_header_bytes h) = kShardedT1ChkFileHeaderBytes" "chk_header_of_bytes (chk_header_bytes h) = h"
proof -
  show "length (chk_header_bytes h) = kShardedT1ChkFileHeaderBytes"
    using assms by (simp add: chk_header_bytes_def kShardedT1ChkFileHeaderBytes_def)
  obtain a b c where r: "sh_reserved h = [a, b, c]" using list_of_length_3 [OF assms] by blast
  have f: "mem_read (chk_header_bytes h) 0 4 = u32_le (sh_magic h)" "chk_header_bytes h ! 4 = sh_format_version h"
    "mem_read (chk_header_bytes h) 5 3 = sh_reserved h" "mem_read (chk_header_bytes h) 8 8 = u64_le (sh_shard_count h)"
    "mem_read (chk_header_bytes h) 16 8 = u64_le (sh_boundary_count h)" "mem_read (chk_header_bytes h) 24 8 = u64_le (sh_total_entry_count h)"
    "mem_read (chk_header_bytes h) 32 8 = u64_le (sh_checksum h)"
    by (simp_all add: chk_header_bytes_def mem_read_def r nth_append)
  show "chk_header_of_bytes (chk_header_bytes h) = h"
    by (rule ShardedT1ChkFileHeader.equality) (simp_all add: chk_header_of_bytes_def f)
qed

lemma length_concat_fixed: "\<forall>x \<in> set xs. length (f x) = n \<Longrightarrow> length (concat (map f xs)) = n * length xs"
  by (induction xs) auto

lemma read_array_concat:
  assumes "\<forall>x \<in> set xs. length (enc x) = stride \<and> dec (enc x) = x"
  shows "read_array dec stride (pre @ concat (map enc xs) @ rest) (length pre) (length xs) = xs"
  using assms
proof (induction xs arbitrary: pre)
  case (Cons x xs)
  let ?m = "pre @ concat (map enc (x # xs)) @ rest"
  have "[0..<length (x # xs)] = 0 # map Suc [0..<length xs]" by (simp add: upt_conv_Cons map_Suc_upt del: upt_Suc)
  then have "read_array dec stride ?m (length pre) (length (x # xs)) =
      dec (mem_read ?m (length pre) stride) # read_array dec stride ?m (length pre + stride) (length xs)"
    by (simp add: read_array_def comp_def add_ac)
  moreover have "mem_read ?m (length pre) stride = enc x" using Cons.prems by (simp add: mem_read_def)
  moreover have "read_array dec stride ?m (length pre + stride) (length xs) = xs"
    using Cons.IH [of "pre @ enc x"] Cons.prems by simp
  ultimately show ?case using Cons.prems by simp
qed (simp add: read_array_def)

fun spans_from :: "nat \<Rightarrow> T1ChkEntry list list \<Rightarrow> (u64 \<times> u64) list" where
  "spans_from off [] = []"
| "spans_from off (es # ess) = (word_of_nat (off + 8), word_of_nat (length es)) # spans_from (off + 8 + 32 * length es) ess"

definition read_span :: "bytes \<Rightarrow> u64 \<times> u64 \<Rightarrow> T1ChkEntry list" where
  "read_span base sp = read_array chk_entry_of_bytes kT1ChkEntryBytes base (unat (fst sp)) (unat (snd sp))"

lemma section_length:
  assumes "\<forall>e \<in> set es. entry_wf e"
  shows "length (section_bytes es) = 8 + 32 * length es" "length (concat (map chk_entry_bytes es)) = 32 * length es"
  using assms length_concat_fixed [of es chk_entry_bytes 32] entry_codec(1) by (simp_all add: section_bytes_def kT1ChkEntryBytes_def)

lemma read_spans:
  assumes "\<forall>es \<in> set ess. \<forall>e \<in> set es. entry_wf e" "length (pre @ sections_bytes ess @ rest) < 2 ^ 64"
  shows "map (read_span (pre @ sections_bytes ess @ rest)) (spans_from (length pre) ess) = ess"
  using assms
proof (induction ess arbitrary: pre)
  case (Cons es ess)
  let ?m = "pre @ sections_bytes (es # ess) @ rest"
  have wf: "\<forall>e \<in> set es. entry_wf e" using Cons.prems(1) by simp
  note sl = section_length [OF wf]
  let ?c = "u64_le (word_of_nat (length es))"
  have b: "length pre + 8 < 2 ^ 64" "length es < 2 ^ 64" using Cons.prems(2) sl by simp_all
  have m: "?m = (pre @ ?c) @ concat (map chk_entry_bytes es) @ (sections_bytes ess @ rest)" by (simp add: section_bytes_def)
  have "read_array chk_entry_of_bytes kT1ChkEntryBytes ?m (length (pre @ ?c)) (length es) = es"
    unfolding m by (rule read_array_concat) (use wf entry_codec in auto)
  then have 1: "read_span ?m (word_of_nat (length pre + 8), word_of_nat (length es)) = es"
    using unat_u64 [OF b(1)] unat_u64 [OF b(2)] by (simp add: read_span_def)
  have "map (read_span ((pre @ section_bytes es) @ sections_bytes ess @ rest)) (spans_from (length (pre @ section_bytes es)) ess) = ess"
    by (rule Cons.IH) (use Cons.prems in simp_all)
  then show ?case using 1 sl by (simp add: add.assoc)
qed simp

lemma fc_add_append [simp]: "fc_add c [] = c" "fc_add (fc_add c a) b = fc_add c (a @ b)"
  by (cases c; simp add: fc_add_def fnv1a64_range_def fnv1a64_append)+

lemma at_u64_mid:
  "length a + length b < 2 ^ 64 \<Longrightarrow> at_u64 (a @ b @ c) (word_of_nat (length a)) (word_of_nat (length b)) = b"
  by (simp add: at_u64_def unat_u64 mem_read_def)

lemma parse_section_step:
  assumes wf: "\<forall>e \<in> set es. entry_wf e" and sz: "length (pre @ section_bytes es @ rest) < 2 ^ 63"
    and L: "length pre + length (section_bytes es) \<le> L" "L \<le> length (pre @ section_bytes es @ rest)"
  shows "parse_shard_sections (pre @ section_bytes es @ rest) (word_of_nat L) (Suc k) (word_of_nat (length pre)) c =
     (case parse_shard_sections (pre @ section_bytes es @ rest) (word_of_nat L) k (word_of_nat (length (pre @ section_bytes es))) (fc_add c (section_bytes es)) of
        Inr (Some p) \<Rightarrow> Inr (Some (p\<lparr>ps_entries := (word_of_nat (length pre + 8), word_of_nat (length es)) # ps_entries p,
                                   ps_seen_entries := word_of_nat (length es) + ps_seen_entries p\<rparr>))
      | r \<Rightarrow> r)"
proof -
  let ?m = "pre @ section_bytes es @ rest" and ?c = "u64_le (word_of_nat (length es))"
  let ?b = "concat (map chk_entry_bytes es)" and ?n = "length pre"
  note sl = section_length [OF wf]
  have bnd: "?n + 8 + 32 * length es \<le> L" "L < 2 ^ 63" "?n + 8 + 32 * length es \<le> length ?m" "length ?m < 2 ^ 63"
    using sz L sl by simp_all
  have m1: "?m = pre @ ?c @ (?b @ rest)" and m2: "?m = (pre @ ?c) @ ?b @ rest"
    by (simp_all add: section_bytes_def)
  have r1: "at_u64 ?m (word_of_nat ?n) 8 = ?c" unfolding m1 using at_u64_mid [of pre ?c] bnd by simp
  have r2: "at_u64 ?m (word_of_nat (?n + 8)) (word_of_nat (32 * length es)) = ?b"
    unfolding m2 using at_u64_mid [of "pre @ ?c" ?b] bnd sl(2) by simp
  have o1: "word_of_nat ?n + 8 = (word_of_nat (?n + 8) :: u64)" by simp
  have eb: "word_of_nat (length es) * word_of_nat kT1ChkEntryBytes = (word_of_nat (32 * length es) :: u64)"
    by (simp add: kT1ChkEntryBytes_def)
  have o2: "word_of_nat (?n + 8) + word_of_nat (32 * length es) = (word_of_nat (?n + 8 + 32 * length es) :: u64)" by simp
  have g1: "\<not> (word_of_nat L :: u64) < word_of_nat (?n + 8)" "\<not> (word_of_nat L :: u64) < word_of_nat (?n + 8 + 32 * length es)"
    using bnd of_nat_u64_less [of L "?n + 8"] of_nat_u64_less [of L "?n + 8 + 32 * length es"] by simp_all
  have g2: "mapped ?m (word_of_nat ?n) 8" "mapped ?m (word_of_nat (?n + 8)) (word_of_nat (32 * length es))"
    using bnd by (simp_all only: mapped_def) (simp_all add: unat_u64 del: of_nat_add of_nat_mult)
  have pos: "(0 :: u64) < word_of_nat (32 * length es) \<longleftrightarrow> es \<noteq> []"
    using of_nat_u64_less [of 0 "32 * length es"] bnd by simp
  have pre': "length (pre @ section_bytes es) = ?n + 8 + 32 * length es" using sl by simp
  have ck: "(if (0 :: u64) < word_of_nat (32 * length es) then fc_add (fc_add c ?c) ?b else fc_add c ?c) = fc_add c (section_bytes es)"
    unfolding pos by (auto simp: section_bytes_def)
  show ?thesis
    unfolding pre' parse_shard_sections.simps Let_def r1 u64_of_le_u64_le o1 eb o2 r2 ck
    using g1 g2 by simp
qed

lemma parse_sections:
  assumes "\<forall>es \<in> set ess. \<forall>e \<in> set es. entry_wf e" "length (pre @ sections_bytes ess @ rest) < 2 ^ 63"
    "length pre + length (sections_bytes ess) \<le> L" "L \<le> length (pre @ sections_bytes ess @ rest)"
  shows "parse_shard_sections (pre @ sections_bytes ess @ rest) (word_of_nat L) (length ess) (word_of_nat (length pre)) c =
    Inr (Some \<lparr>ps_entries = spans_from (length pre) ess, ps_end_offset = word_of_nat (length pre + length (sections_bytes ess)),
      ps_seen_entries = word_of_nat (length (concat ess)), ps_checksum = fc_add c (sections_bytes ess)\<rparr>)"
  using assms
proof (induction ess arbitrary: pre c)
  case (Cons es ess)
  have wf: "\<forall>e \<in> set es. entry_wf e" using Cons.prems(1) by simp
  note sl = section_length [OF wf]
  note st = parse_section_step [OF wf, of pre "sections_bytes ess @ rest" L "length ess" c]
  note ih = Cons.IH [of "pre @ section_bytes es" "fc_add c (section_bytes es)"]
  show ?case using st ih Cons.prems sl by (simp add: add_ac)
qed simp

text \<open>A section that makes the walk read past the mapping is reached behind well-formed ones.\<close>

lemma parse_fault_behind:
  assumes "\<forall>es \<in> set ess. \<forall>e \<in> set es. entry_wf e" "length (pre @ sections_bytes ess @ rest) < 2 ^ 63"
    "length pre + length (sections_bytes ess) \<le> L" "L \<le> length (pre @ sections_bytes ess @ rest)"
    and "\<And>c. parse_shard_sections (pre @ sections_bytes ess @ rest) (word_of_nat L) k (word_of_nat (length (pre @ sections_bytes ess))) c = Inl e"
  shows "parse_shard_sections (pre @ sections_bytes ess @ rest) (word_of_nat L) (length ess + k) (word_of_nat (length pre)) c = Inl e"
  using assms
proof (induction ess arbitrary: pre c)
  case (Cons es ess)
  have wf: "\<forall>e \<in> set es. entry_wf e" using Cons.prems(1) by simp
  note sl = section_length [OF wf]
  note st = parse_section_step [OF wf, of pre "sections_bytes ess @ rest" L "length ess + k" c]
  note ih = Cons.IH [of "pre @ section_bytes es" "fc_add c (section_bytes es)"]
  show ?case using st ih Cons.prems sl by (simp add: add_ac)
qed simp

lemma checkpoint_reads_back:
  assumes wf: "\<forall>es \<in> set ess. \<forall>e \<in> set es. entry_wf e" and bs: "\<forall>b \<in> set bs. length b = kT1ChkKeyPrefixBytes"
    and n: "length ess = Suc (length bs)" and sz: "length (checkpoint_bytes ess bs) < 2 ^ 63"
    and ok: "reserve_ok (word_of_nat (length ess))"
  obtains f where "ShardedT1CheckpointFile_open reserve_ok (Some (checkpoint_bytes ess bs)) = Inr f"
    "map (shard_entries f) [0..<cf_shard_count f] = ess" "cf_boundary_keys f = bs"
proof -
  let ?B = "checkpoint_bytes ess bs" and ?h = "trailer ess bs"
  let ?L = "length (sections_bytes ess) + length (concat bs)"
  have rs: "length (sh_reserved ?h) = 3" by (simp add: trailer_def Let_def)
  note hr = chk_header_roundtrip [OF rs]
  have lb: "length (concat bs) = 16 * length bs" using length_concat_fixed [of bs "\<lambda>b. b" 16] bs by (simp add: kT1ChkKeyPrefixBytes_def)
  have B: "?B = (sections_bytes ess @ concat bs) @ chk_header_bytes ?h" by (simp add: checkpoint_bytes_def)
  have len: "length ?B = ?L + 40" using hr(1) by (simp add: B kShardedT1ChkFileHeaderBytes_def)
  have rd: "mem_read ?B ?L 40 = chk_header_bytes ?h"
    unfolding B using hr(1) by (simp add: mem_read_def kShardedT1ChkFileHeaderBytes_def)
  have h: "sh_magic ?h = kShardedT1ChkMagic" "sh_format_version ?h = kShardedT1ChkFormatVersion"
    "sh_shard_count ?h = word_of_nat (length ess)" "sh_boundary_count ?h = word_of_nat (length bs)"
    "sh_total_entry_count ?h = word_of_nat (length (concat ess))"
    by (simp_all add: trailer_def Let_def)
  have small: "length ess < 2 ^ 64" "length bs < 2 ^ 64" "length (sections_bytes ess) < 2 ^ 64" "?L < 2 ^ 64"
    using len lb sz n by simp_all
  note ps = parse_sections [OF wf, of "[]" "concat bs @ chk_header_bytes ?h" ?L FoldingChecksum_init]
  have sec: "parse_shard_sections ?B (word_of_nat ?L) (length ess) 0 FoldingChecksum_init =
    Inr (Some \<lparr>ps_entries = spans_from 0 ess, ps_end_offset = word_of_nat (length (sections_bytes ess)),
      ps_seen_entries = word_of_nat (length (concat ess)), ps_checksum = fc_add FoldingChecksum_init (sections_bytes ess)\<rparr>)"
    using ps sz len by (simp add: checkpoint_bytes_def)
  have bb: "word_of_nat (length bs) * word_of_nat kT1ChkKeyPrefixBytes = (word_of_nat (length (concat bs)) :: u64)"
    by (simp add: lb kT1ChkKeyPrefixBytes_def mult.commute)
  have pos: "(0 :: u64) < word_of_nat (length (concat bs)) \<longleftrightarrow> concat bs \<noteq> []"
    using of_nat_u64_less [of 0 "length (concat bs)"] small by simp
  have at: "at_u64 ?B (word_of_nat (length (sections_bytes ess))) (word_of_nat (length (concat bs))) = concat bs"
    unfolding checkpoint_bytes_def using at_u64_mid [of "sections_bytes ess" "concat bs"] small by simp
  have mp: "mapped ?B (word_of_nat (length (sections_bytes ess))) (word_of_nat (length (concat bs)))"
    using small len by (simp add: mapped_def unat_u64)
  have fa: "(if concat bs \<noteq> [] then fc_add (fc_add FoldingChecksum_init (sections_bytes ess)) (concat bs)
      else fc_add FoldingChecksum_init (sections_bytes ess)) = fc_add FoldingChecksum_init (sections_bytes ess @ concat bs)"
    by (cases "concat bs") (simp_all del: concat_eq_Nil_conv)
  have bnd: "parse_shard_boundaries ?B (word_of_nat (length (sections_bytes ess))) (word_of_nat ?L) ?h
      (word_of_nat (length (concat ess))) (fc_add FoldingChecksum_init (sections_bytes ess)) =
    Inr (Some (word_of_nat (length (sections_bytes ess)), fc_add FoldingChecksum_init (sections_bytes ess @ concat bs)))"
    using mp n unfolding parse_shard_boundaries_def h bb Let_def pos at fa by (simp add: add.commute)
  have ck: "fnv1a64_range (fc_state (fc_add FoldingChecksum_init (sections_bytes ess @ concat bs)))
      (chk_header_bytes (?h\<lparr>sh_checksum := 0\<rparr>)) = sh_checksum ?h"
    by (simp add: trailer_def Let_def fnv1a64_range_def FoldingChecksum_init_def fnv1a64_append)
  define f where "f = \<lparr>cf_mapping = ?B, cf_shard_entries = spans_from 0 ess,
    cf_boundaries = word_of_nat (length (sections_bytes ess)), cf_boundary_count = word_of_nat (length bs)\<rparr>"
  have o: "ShardedT1CheckpointFile_open reserve_ok (Some ?B) = Inr f"
    using sec bnd ck ok unat_u64 [OF small(1)] hr(2) rd
    by (simp add: ShardedT1CheckpointFile_open_def kShardedT1ChkFileHeaderBytes_def len Let_def h f_def)
  have sp: "map (read_span ?B) (spans_from 0 ess) = ess"
    using read_spans [OF wf, of "[]" "concat bs @ chk_header_bytes ?h"] sz by (simp add: checkpoint_bytes_def)
  have "map (shard_entries f) [0..<cf_shard_count f] = map (read_span ?B) (spans_from 0 ess)"
    by (rule nth_equalityI) (simp_all add: cf_shard_count_def f_def shard_entries_def read_span_def split_beta)
  moreover have "cf_boundary_keys f = bs"
    using read_array_concat [of bs "\<lambda>b. b" 16 "\<lambda>b. b" "sections_bytes ess" "chk_header_bytes ?h"] bs unat_u64 [OF small(2)] unat_u64 [OF small(3)]
    by (simp add: cf_boundary_keys_def f_def checkpoint_bytes_def kT1ChkKeyPrefixBytes_def)
  ultimately show ?thesis using that [OF o] sp by simp
qed

section \<open>Properties of the checkpoint file\<close>

text \<open>
  C18: a checkpoint file that was written completely reads back. When the writer's last call has
  returned without an error, the reader accepts the file and yields, shard by shard, exactly the
  entries that were added, and the boundary keys, for every number and size of shards whose file is
  below \<open>2 ^ 63\<close> bytes, however the system calls split the writes.
\<close>

theorem checkpoint_file_roundtrip:
  assumes "write_sharded_checkpoint calls o1 o2 o3 path ess bs fs = Some (Inr cs, fs')"
    and "\<forall>es \<in> set ess. \<forall>e \<in> set es. length (es_key e) = kT1ChkKeyPrefixBytes" "\<forall>b \<in> set bs. length b = kT1ChkKeyPrefixBytes"
    and "length ess = Suc (length bs)" "length (the (fs' path)) < 2 ^ 63" "reserve_ok (word_of_nat (length ess))"
  shows "\<exists>f. ShardedT1CheckpointFile_open reserve_ok (fs' path) = Inr f
    \<and> map (shard_entries f) [0..<cf_shard_count f] = map (map to_chk_entry) ess \<and> cf_boundary_keys f = bs"
proof -
  note w = write_sharded_checkpoint_Inr [OF assms(1)]
  have "\<forall>es \<in> set (map (map to_chk_entry) ess). \<forall>e \<in> set es. entry_wf e"
    using assms(2) by (auto simp: entry_wf_def to_chk_entry_def)
  from checkpoint_reads_back [OF this assms(3)] assms(4-6) w show ?thesis by (metis length_map option.sel)
qed

theorem checkpoint_file_roundtrip_witness:
  "\<exists>cs fs' f. write_sharded_checkpoint [Transferred 8, Transferred 40] True True True ''c'' [[]] [] Map.empty = Some (Inr cs, fs')
    \<and> ShardedT1CheckpointFile_open (\<lambda>n. n < 100) (fs' ''c'') = Inr f \<and> cf_boundary_keys f = []"
proof -
  have l: "length (chk_header_bytes (trailer_of n w)) = 40" for n w
    by (simp add: chk_header_bytes_def trailer_of_def Let_def)
  have ne: "chk_header_bytes (trailer_of n w) \<noteq> []" for n w using l [of n w] by auto
  have "\<exists>fs'. write_sharded_checkpoint [Transferred 8, Transferred 40] True True True ''c'' [[]] [] Map.empty = Some (Inr [], fs')"
    by (simp add: write_sharded_checkpoint_def writer_open_def add_shard_def add_shard_entries_def temp_write_def
        writer_finish_def write_fsync_close_def write_chunks.simps kSyncIntervalBytes_def Let_def ne l)
  then obtain fs' where w: "write_sharded_checkpoint [Transferred 8, Transferred 40] True True True ''c'' [[]] [] Map.empty = Some (Inr [], fs')"
    by blast
  have "length (the (fs' ''c'')) < 2 ^ 63"
    using write_sharded_checkpoint_Inr [OF w]
    by (simp add: checkpoint_bytes_def section_bytes_def chk_header_bytes_def trailer_def Let_def)
  from checkpoint_file_roundtrip [OF w _ _ _ this, of "\<lambda>n. n < 100"] w show ?thesis by auto
qed

text \<open>
  C19: the checkpoint's path never names a partial file. Whatever call of the writer fails, at
  whatever byte, after the destructor has run the path still names what it named before.
\<close>

theorem checkpoint_path_never_partial:
  assumes "write_sharded_checkpoint calls o1 o2 o3 path ess bs fs = Some (r, fs')"
  shows "fs' path = (case r of Inl e \<Rightarrow> fs path | Inr cs \<Rightarrow> Some (checkpoint_bytes (map (map to_chk_entry) ess) bs))"
  using assms write_sharded_checkpoint_Inl write_sharded_checkpoint_Inr by (cases r) auto

theorem checkpoint_path_never_partial_witness:
  "\<exists>e fs'. write_sharded_checkpoint [SysFailed] True True True ''c'' [[]] [] [''c'' \<mapsto> [5]] = Some (Inl e, fs') \<and> fs' ''c'' = Some [5]"
proof -
  have "\<exists>fs'. write_sharded_checkpoint [SysFailed] True True True ''c'' [[]] [] [''c'' \<mapsto> [5]] = Some (Inl SysError, fs')"
    using length_u64_le [of 0]
    by (cases "u64_le 0") (simp_all add: write_sharded_checkpoint_def writer_open_def add_shard_def add_shard_entries_def temp_write_def
        writer_destroy_def Let_def)
  then obtain fs' where w: "write_sharded_checkpoint [SysFailed] True True True ''c'' [[]] [] [''c'' \<mapsto> [5]] = Some (Inl SysError, fs')"
    by blast
  from checkpoint_path_never_partial [OF w] w show ?thesis by auto
qed

lemma wrapped_section:
  fixes count :: u64
  assumes "unat (count * 32) = 2 ^ 64 - d" "0 < d" "d \<le> length pre + 8" "length (pre @ u64_le count @ rest) < 2 ^ 63"
    "length pre + 8 \<le> L" "L \<le> length (pre @ u64_le count @ rest)"
  shows "parse_shard_sections (pre @ u64_le count @ rest) (word_of_nat L) (Suc k) (word_of_nat (length pre)) c = Inl PastMapping"
proof -
  let ?m = "pre @ u64_le count @ rest" and ?n = "length pre"
  have r1: "at_u64 ?m (word_of_nat ?n) 8 = u64_le count" using at_u64_mid [of pre "u64_le count" rest] assms(4) by simp
  have o1: "word_of_nat ?n + 8 = (word_of_nat (?n + 8) :: u64)" by simp
  have u: "unat (word_of_nat (?n + 8) :: u64) = ?n + 8" "unat (word_of_nat L :: u64) = L"
    using assms(4-6) by (simp_all add: unat_u64 del: of_nat_add)
  have eb: "count * word_of_nat kT1ChkEntryBytes = count * 32" by (simp add: kT1ChkEntryBytes_def)
  have d: "d < 2 ^ 63" using assms(3,4) by simp
  have "unat (word_of_nat (?n + 8) + count * 32) = (?n + 8 + (2 ^ 64 - d)) mod 2 ^ 64" unfolding unat_word_ariths(1) u assms(1) by simp
  also have "?n + 8 + (2 ^ 64 - d) = (?n + 8 - d) + 2 ^ 64" using assms(3) d by simp
  finally have w: "unat (word_of_nat (?n + 8) + count * 32) = ?n + 8 - d" using assms(4) by simp
  have g1: "\<not> (word_of_nat L :: u64) < word_of_nat (?n + 8)" "\<not> (word_of_nat L :: u64) < word_of_nat (?n + 8) + count * 32"
    unfolding word_less_nat_alt u w using assms(5) by simp_all
  have g2: "mapped ?m (word_of_nat ?n) 8" "\<not> mapped ?m (word_of_nat (?n + 8)) (count * 32)"
  proof -
    show "mapped ?m (word_of_nat ?n) 8" using assms(4) by (simp add: mapped_def unat_u64)
    show "\<not> mapped ?m (word_of_nat (?n + 8)) (count * 32)" unfolding mapped_def u assms(1) using assms(4) d by simp
  qed
  have "unat (count * 32) \<noteq> 0" unfolding assms(1) using d by simp
  then have "count * 32 > 0" by (simp add: word_greater_zero_iff unat_eq_0)
  then show ?thesis unfolding parse_shard_sections.simps Let_def r1 u64_of_le_u64_le o1 eb using g1 g2 by simp
qed

text \<open>
  C34: a damaged entry count can escape the bounds checks. Take a checkpoint file that begins with
  any well-formed sections, announces a further one and ends with a trailer of the right magic and
  version. Let the count of that section be one whose size in bytes, taken modulo \<open>2 ^ 64\<close>, lies a
  positive distance \<open>d\<close> below \<open>2 ^ 64\<close> with \<open>d\<close> at most the offset behind the count. Then the end
  offset wraps back into the file, the check passes, and folding the section into the checksum reads
  past the mapping, instead of the file being refused.
\<close>

theorem wrapped_entry_count_faults:
  fixes count :: u64 and h :: ShardedT1ChkFileHeader
  defines "content ess rest \<equiv> sections_bytes ess @ u64_le count @ rest @ chk_header_bytes h"
  assumes "\<forall>es \<in> set ess. \<forall>e \<in> set es. entry_wf e" "length (content ess rest) < 2 ^ 63"
    and "sh_magic h = kShardedT1ChkMagic" "sh_format_version h = kShardedT1ChkFormatVersion" "length (sh_reserved h) = 3"
    and "length ess < unat (sh_shard_count h)" "reserve_ok (sh_shard_count h)"
    and "unat (count * 32) = 2 ^ 64 - d" "0 < d" "d \<le> length (sections_bytes ess) + 8"
  shows "ShardedT1CheckpointFile_open reserve_ok (Some (content ess rest)) = Inl PastMapping"
proof -
  let ?S = "sections_bytes ess" and ?m = "content ess rest"
  note hr = chk_header_roundtrip [OF assms(6)]
  define L where "L = length ?S + 8 + length rest"
  have len: "length ?m = L + 40" using hr(1) by (simp add: content_def L_def kShardedT1ChkFileHeaderBytes_def)
  have rd: "mem_read ?m L 40 = chk_header_bytes h"
    using hr(1) by (simp add: content_def mem_read_def L_def kShardedT1ChkFileHeaderBytes_def)
  obtain k where k: "unat (sh_shard_count h) = length ess + Suc k" using assms(7) by (metis less_imp_Suc_add add_Suc_right)
  have m: "?m = [] @ ?S @ (u64_le count @ rest @ chk_header_bytes h)" by (simp add: content_def)
  have f: "parse_shard_sections ?m (word_of_nat L) (Suc k) (word_of_nat (length ([] @ ?S))) c = Inl PastMapping" for c
    using wrapped_section [OF assms(9-11), of "rest @ chk_header_bytes h" L k c] assms(3) len
    by (simp add: content_def L_def)
  have "parse_shard_sections ?m (word_of_nat L) (length ess + Suc k) 0 c = Inl PastMapping" for c
    using parse_fault_behind [OF assms(2), of "[]" "u64_le count @ rest @ chk_header_bytes h" L "Suc k" PastMapping c, folded m] f assms(3) len
    by (simp add: L_def)
  then show ?thesis
    using len rd assms(4,5,8) hr(2) k by (simp add: ShardedT1CheckpointFile_open_def kShardedT1ChkFileHeaderBytes_def Let_def)
qed

text \<open>One well-formed section, then a count of \<open>2 ^ 59 - 1\<close>.\<close>

theorem wrapped_entry_count_faults_witness:
  "ShardedT1CheckpointFile_open (\<lambda>n. n < 100)
     (Some (sections_bytes [[\<lparr>ce_key_prefix = replicate 16 7, ce_hash = 1, ce_payload_bits = 2\<rparr>]] @ u64_le (2 ^ 59 - 1) @ []
       @ chk_header_bytes (trailer [[], []] [replicate 16 9]))) = Inl PastMapping"
proof -
  let ?e = "\<lparr>ce_key_prefix = replicate 16 7, ce_hash = 1, ce_payload_bits = 2\<rparr>" and ?h = "trailer [[], []] [replicate 16 9]"
  have wf: "entry_wf ?e" by (simp add: entry_wf_def kT1ChkKeyPrefixBytes_def)
  have s: "length (sections_bytes [[?e]]) = 40" using section_length(1) [of "[?e]"] wf by simp
  have h: "sh_magic ?h = kShardedT1ChkMagic" "sh_format_version ?h = kShardedT1ChkFormatVersion" "sh_shard_count ?h = 2" "length (sh_reserved ?h) = 3"
    by (simp_all add: trailer_def Let_def)
  have hl: "length (chk_header_bytes ?h) = 40" using chk_header_roundtrip(1) [OF h(4)] by (simp add: kShardedT1ChkFileHeaderBytes_def)
  have u: "unat ((2 ^ 59 - 1 :: u64) * 32) = 2 ^ 64 - 32" by simp
  show ?thesis
    by (rule wrapped_entry_count_faults [OF _ _ h(1,2,4) _ _ u]) (use wf s h(3) hl in simp_all)
qed

end
