(* ===== verification/Store_Recovery.thy ===== *)
theory Store_Recovery
  imports Store Checkpoint_File
begin

text \<open>
  The constructor of \<^verbatim>\<open>vmemkv_impl.hpp\<close>: adopting a committed checkpoint and replaying the log.
  Shown: reopening after a crash gives back exactly the effect of the acknowledged calls, as long
  as the replayed records fit the T2 file; and a store whose calls all succeeded, but whose
  in-place updates no longer fit when replayed as appends, cannot be reopened.
\<close>

section \<open>Opening\<close>

definition adopted_t2_bytes_used :: "bytes option \<Rightarrow> u64 option" where
  "adopted_t2_bytes_used manifest_file = map_option md_t2_bytes_used (read_manifest manifest_file)"

definition from_chk_entry :: "T1ChkEntry \<Rightarrow> EntrySnapshot" where
  "from_chk_entry e = \<lparr>es_key = ce_key_prefix e, es_payload = ce_payload_bits e, es_hash = ce_hash e\<rparr>"

fun rebuild_accounting :: "T1ChkEntry list \<Rightarrow> T2Ownership \<Rightarrow> T2Ownership" where
  "rebuild_accounting [] own = own"
| "rebuild_accounting (e # es) own =
     rebuild_accounting es
       (if ce_payload_bits e \<noteq> STORE_NOT_FOUND \<and> \<not> is_inline (ce_hash e)
        then note_replace STORE_NOT_FOUND 0 True (ce_payload_bits e) own else own)"

datatype OpenError = OpenT2 T2OpenError | OpenWal WalError | OpenCheckpoint ChkError | OpenReplay StoreError

definition load_checkpoint_if_present ::
  "(u64 \<Rightarrow> bool) \<Rightarrow> bytes option \<Rightarrow> bytes option \<Rightarrow> VMemKV \<Rightarrow> OpenError + VMemKV" where
  "load_checkpoint_if_present can_reserve manifest_file t1_chk_file s =
     (case read_manifest manifest_file of
        None \<Rightarrow> Inr s
      | Some _ \<Rightarrow>
          (case ShardedT1CheckpointFile_open can_reserve t1_chk_file of
             Inl e \<Rightarrow> Inl (OpenCheckpoint e)
           | Inr t1_chk \<Rightarrow>
               let sections = map (shard_entries t1_chk) [0..<cf_shard_count t1_chk]
               in Inr (s\<lparr>kv_own := fold rebuild_accounting sections (kv_own s),
                         kv_t1 := load_from_checkpoint (cf_boundary_keys t1_chk) (map (map from_chk_entry) sections) (kv_t1 s)\<rparr>)))"

text \<open>One replayed record.\<close>

definition replay_one :: "nat list list \<Rightarrow> ReplayCall \<Rightarrow> VMemKV \<Rightarrow> unit call" where
  "replay_one waits c s =
     (if rc_type c = type_byte WalInsert \<or> rc_type c = type_byte WalUpdate
      then write_entry_lockfree maybe_reorganize_if_needed waits (rc_key c) (rc_value c) None s
      else if rc_type c = type_byte WalDelete
      then (case si_get_with_hash (kv_t1 s) (rc_key c) of
              None \<Rightarrow> None
            | Some old \<Rightarrow>
                map_option (\<lambda>(_, t1). (Inr (), s\<lparr>kv_t1 := t1, kv_own := note_replace (lr_payload_bits old) (lr_raw_hash old) False 0 (kv_own s)\<rparr>))
                  (si_put_waiting (case waits of [] \<Rightarrow> [] | ws # _ \<Rightarrow> ws) (kv_t1 s) (rc_key c) STORE_NOT_FOUND False 0))
      else Some (Inr (), s))"

text \<open>One list of waits per record.\<close>

fun recover_from_wal :: "nat list list list \<Rightarrow> ReplayCall list \<Rightarrow> VMemKV \<Rightarrow> unit call" where
  "recover_from_wal wss [] s = Some (Inr (), s)"
| "recover_from_wal [] (c # cs) s = None"
| "recover_from_wal (waits # wss) (c # cs) s =
     (case replay_one waits c s of
        None \<Rightarrow> None
      | Some (Inl e, s1) \<Rightarrow> Some (Inl e, s1)
      | Some (Inr _, s1) \<Rightarrow> recover_from_wal wss cs s1)"

record Disk =
  dk_manifest :: "bytes option"
  dk_t1_chk :: "bytes option"
  dk_t2 :: bytes
  dk_wal :: segments

text \<open>The constructor; \<open>None\<close>: the replay is still waiting for the index.\<close>

definition VMemKV_open :: "(u64 \<Rightarrow> bool) \<Rightarrow> nat list list list \<Rightarrow> StoreConfig \<Rightarrow> u64 \<Rightarrow> Disk \<Rightarrow> (OpenError + VMemKV) option" where
  "VMemKV_open can_reserve wss cfg t2_bytes_capacity disk =
     (case T2FlatFile_open (dk_t2 disk) t2_bytes_capacity (adopted_t2_bytes_used (dk_manifest disk)) of
        Inl e \<Rightarrow> Some (Inl (OpenT2 e))
      | Inr mem \<Rightarrow>
          (case Wal_open (dk_wal disk) of
             Inl e \<Rightarrow> Some (Inl (OpenWal e))
           | Inr w \<Rightarrow>
               let s0 = VMemKV_init cfg t2_bytes_capacity mem (Wal_start (unat (wo_next_lsn w)) (snd (last (wo_segments w))))
               in case load_checkpoint_if_present can_reserve (dk_manifest disk) (dk_t1_chk disk) s0 of
                    Inl e \<Rightarrow> Some (Inl e)
                  | Inr s1 \<Rightarrow>
                      (case replay_segments (wo_segments w) of
                         Inl e \<Rightarrow> Some (Inl (OpenWal e))
                       | Inr calls \<Rightarrow>
                           map_option (\<lambda>(r, s2). case r of Inl e \<Rightarrow> Inl (OpenReplay e) | Inr _ \<Rightarrow> Inr s2)
                             (recover_from_wal wss calls s1))))"


section \<open>Replaying a record\<close>

definition replay_cost :: "WalRecord \<Rightarrow> nat" where
  "replay_cost r = (if wr_type r = WalDelete then 0 else unat (record_len (wr_key r) (wr_value r)))"

definition record_small :: "WalRecord \<Rightarrow> bool" where
  "record_small r \<longleftrightarrow> length (wr_key r) < 2 ^ 32 \<and> length (wr_value r) < 2 ^ 32 \<and> block_count (wr_key r) (wr_value r) < 65536"

text \<open>What a replayed record leaves.\<close>

definition replayed :: "WalRecord \<Rightarrow> VMemKV \<Rightarrow> VMemKV \<Rightarrow> bool" where
  "replayed r s s' \<longleftrightarrow> (\<exists>recs. kv_inv s' recs) \<and> kv_map s' = apply_record r (kv_map s) \<and> kv_frame s s' \<and> kv_wal s' = kv_wal s
     \<and> unat (tm_bytes_used (kv_t2 s')) \<le> unat (tm_bytes_used (kv_t2 s)) + replay_cost r"

lemma type_bytes [simp]: "type_byte WalDelete \<noteq> type_byte WalInsert" "type_byte WalDelete \<noteq> type_byte WalUpdate"
  by (simp_all add: type_byte_def)

lemma replay_put:
  assumes inv: "kv_inv s recs" and un: "unique_prefixes (si_view (kv_t1 s))" and ty: "wr_type r \<noteq> WalDelete" and sm: "record_small r"
    and room: "unat (tm_bytes_used (kv_t2 s)) + replay_cost r \<le> unat (tm_capacity (kv_t2 s))" and w: "length (si_queue (kv_t1 s)) < w"
  shows "\<exists>s'. replay_one [[w]] (replay_call r) s = Some (Inr (), s') \<and> replayed r s s'"
proof -
  have p: "prev_ok None (wr_key r) (kv_t1 s)" by (simp add: prev_ok_def)
  have wo: "waits_ok [[w]] s" using un by (simp add: waits_ok_def)
  have len: "length (wr_key r) + length (wr_value r) < 2 ^ 63" using sm by (simp add: record_small_def)
  have u: "unat (tm_bytes_used (kv_t2 s)) < 2 ^ 63" using room kv_invD(5) [OF inv] by simp
  obtain res s' where e: "write_entry_lockfree maybe_reorganize_if_needed [[w]] (wr_key r) (wr_value r) None s = Some (res, s')"
    using write_entry_returns [OF inv p un w] by blast
  have c: "rc_type (replay_call r) = type_byte WalInsert \<or> rc_type (replay_call r) = type_byte WalUpdate"
    using ty by (cases "wr_type r") (simp_all add: replay_call_def)
  have o: "replay_one [[w]] (replay_call r) s = Some (res, s')" using c e by (simp add: replay_one_def) (simp add: replay_call_def)
  from inv wo p len u e show ?thesis
  proof (cases rule: write_entry_correct)
    case (written recs')
    then show ?thesis using o ty by (auto simp: replayed_def replay_cost_def apply_record_def)
  next
    case too_large
    then show ?thesis using sm by (simp add: record_small_def not_le [symmetric])
  next
    case full
    then show ?thesis using room ty by (simp add: replay_cost_def)
  qed
qed

lemma replay_delete:
  assumes inv: "kv_inv s recs" and un: "unique_prefixes (si_view (kv_t1 s))" and ty: "wr_type r = WalDelete" and w: "length (si_queue (kv_t1 s)) < w"
  shows "\<exists>s'. replay_one [[w]] (replay_call r) s = Some (Inr (), s') \<and> replayed r s s'"
proof -
  let ?k = "wr_key r"
  note d = kv_invD [OF inv] and l = lookup_map [OF inv, of ?k]
  have cap: "0 < append_capacity (index_of (kv_t1 s) (route (kv_t1 s) (prefix_from_bytes ?k)))" using d(7) by (simp add: caps_ok_def)
  obtain t1 where p: "si_put_waiting [w] (kv_t1 s) ?k STORE_NOT_FOUND False 0 = Some (Applied, t1)"
    by (rule put_after_maintenance [OF d(1) un w cap])
  let ?old = "si_lookup (kv_t1 s) ?k"
  let ?s = "s\<lparr>kv_t1 := t1, kv_own := note_replace (lr_payload_bits ?old) (lr_raw_hash ?old) False 0 (kv_own s)\<rparr>"
  have "replayed r s ?s" using tombstone_written [OF inv disjI2 [OF un] p] by (auto simp: replayed_def apply_record_def ty)
  moreover have "replay_one [[w]] (replay_call r) s = Some (Inr (), ?s)"
    using type_bytes by (simp add: replay_one_def replay_call_def ty l(1) p)
  ultimately show ?thesis by blast
qed

lemma replay_one_correct:
  assumes "kv_inv s recs" "unique_prefixes (si_view (kv_t1 s))" "wr_type r \<noteq> WalDelete \<Longrightarrow> record_small r"
    "unat (tm_bytes_used (kv_t2 s)) + replay_cost r \<le> unat (tm_capacity (kv_t2 s))" "length (si_queue (kv_t1 s)) < w"
  shows "\<exists>s'. replay_one [[w]] (replay_call r) s = Some (Inr (), s') \<and> replayed r s s'"
  using replay_put [OF assms(1,2) _ _ assms(4,5)] replay_delete [OF assms(1,2) _ assms(5)] assms(3) by blast

section \<open>Replaying the log\<close>

lemma recover_correct:
  assumes "keys_apart K" "dom (kv_map s) \<subseteq> ident_of ` K" "kv_inv s recs" "wr_key ` set rs \<subseteq> K"
    "\<forall>r \<in> set rs. wr_type r \<noteq> WalDelete \<longrightarrow> record_small r"
    "unat (tm_bytes_used (kv_t2 s)) + sum_list (map replay_cost rs) \<le> unat (tm_capacity (kv_t2 s))"
  shows "\<exists>wss s' recs'. recover_from_wal wss (map replay_call rs) s = Some (Inr (), s') \<and> kv_inv s' recs'
    \<and> kv_map s' = log_map rs (kv_map s) \<and> kv_wal s' = kv_wal s"
  using assms(2-)
proof (induction rs arbitrary: s recs)
  case (Cons r rs)
  let ?w = "Suc (length (si_queue (kv_t1 s)))"
  have "\<exists>s'. replay_one [[?w]] (replay_call r) s = Some (Inr (), s') \<and> replayed r s s'"
    by (rule replay_one_correct [OF Cons.prems(2) keys_unique [OF assms(1) Cons.prems(1)]]) (use Cons.prems in auto)
  then obtain s1 where s1: "replay_one [[?w]] (replay_call r) s = Some (Inr (), s1)" "replayed r s s1" by blast
  then obtain recs1 where i1: "kv_inv s1 recs1" "kv_map s1 = apply_record r (kv_map s)" "kv_wal s1 = kv_wal s"
    "tm_capacity (kv_t2 s1) = tm_capacity (kv_t2 s)" "unat (tm_bytes_used (kv_t2 s1)) \<le> unat (tm_bytes_used (kv_t2 s)) + replay_cost r"
    by (auto simp: replayed_def kv_frame_def)
  have d1: "dom (kv_map s1) \<subseteq> ident_of ` K" using Cons.prems(1,3) dom_apply_record [of r "kv_map s"] unfolding i1(2) by (simp, blast)
  obtain wss s' recs' where h: "recover_from_wal wss (map replay_call rs) s1 = Some (Inr (), s')" "kv_inv s' recs'"
    "kv_map s' = log_map rs (kv_map s1)" "kv_wal s' = kv_wal s1"
    using Cons.IH [OF d1 i1(1)] Cons.prems(3-5) i1(4,5) by auto
  have "recover_from_wal ([[?w]] # wss) (map replay_call (r # rs)) s = Some (Inr (), s')" using s1(1) h(1) by simp
  moreover have "kv_map s' = log_map (r # rs) (kv_map s)" "kv_wal s' = kv_wal s" using h(3,4) i1(2,3) by simp_all
  ultimately show ?case using h(2) by blast
qed (auto intro: exI [of _ "[]"])

section \<open>Opening without a checkpoint\<close>

lemma complete_last:
  assumes "n \<le> length (record_bytes r)"
  shows "take (complete_records (length (log_bytes rs) + n) (rs @ [r])) (rs @ [r]) = (if n = length (record_bytes r) then rs @ [r] else rs)"
proof -
  let ?k = "complete_records (length (log_bytes rs) + n) (rs @ [r])"
  have le: "?k \<le> length rs + 1" using complete_records_le [of "length (log_bytes rs) + n" "rs @ [r]"] by simp
  have ge: "length rs \<le> ?k" by (rule complete_records_maximal) simp_all
  show ?thesis
  proof (cases "n = length (record_bytes r)")
    case True
    have "length rs + 1 \<le> ?k" by (rule complete_records_maximal) (simp_all add: True)
    then show ?thesis using le True by simp
  next
    case False
    have "?k \<noteq> length rs + 1"
    proof
      assume "?k = length rs + 1"
      then have "length (log_bytes (rs @ [r])) \<le> length (log_bytes rs) + n"
        using complete_records_fit [of "length (log_bytes rs) + n" "rs @ [r]"] by simp
      then show False using False assms by simp
    qed
    then have "?k = length rs" using le ge by simp
    then show ?thesis using False by simp
  qed
qed

lemma open_log:
  assumes cap: "0 < cap" "unat cap \<le> 2 ^ 48" and ok: "records_ok rs" and n: "n \<le> length (log_bytes rs)"
  defines "kept \<equiv> take (complete_records n rs) rs"
  shows "VMemKV_open can_reserve wss cfg cap \<lparr>dk_manifest = None, dk_t1_chk = chk, dk_t2 = t2, dk_wal = [(g, take n (log_bytes rs))]\<rparr> =
    map_option (\<lambda>(r, s2). case r of Inl e \<Rightarrow> Inl (OpenReplay e) | Inr _ \<Rightarrow> Inr s2)
      (recover_from_wal wss (map replay_call kept)
        (VMemKV_init cfg cap (fresh_t2 cap) (Wal_start (unat (last_lsn 0 kept + 1)) (log_bytes kept))))"
proof -
  have t2: "T2FlatFile_open t2 cap (adopted_t2_bytes_used None) = Inr (fresh_t2 cap)"
    using cap unfolding word_less_nat_alt
    by (auto simp: T2FlatFile_open_def adopted_t2_bytes_used_def read_manifest_def create_empty_file_def map_file_def fresh_t2_def)
  have w: "Wal_open [(g, take n (log_bytes rs))] = Inr \<lparr>wo_segments = [segment_of (g, kept)], wo_active = g, wo_next_lsn = last_lsn 0 kept + 1\<rparr>"
    using Wal_open_torn [of "[]" g rs n] ok n by (simp add: kept_def)
  have rp: "replay_segments [segment_of (g, kept)] = Inr (map replay_call kept)"
    using replay_segments_complete [of "[(g, kept)]"] records_ok_take [OF ok] by (simp add: kept_def)
  show ?thesis
    by (simp add: VMemKV_open_def t2 w rp load_checkpoint_if_present_def read_manifest_def Let_def) (simp add: segment_of_def)
qed

section \<open>Crash and recovery\<close>

definition ops_small :: "StoreOp list \<Rightarrow> bool" where
  "ops_small ops \<longleftrightarrow> (\<forall>op \<in> set ops. block_count (op_key op) (op_value op) < 65536)"

definition ops_cost :: "StoreOp list \<Rightarrow> nat" where
  "ops_cost ops = sum_list (map (\<lambda>op. unat (record_len (op_key op) (op_value op))) ops)"

lemma logged_ops:
  assumes "list_all2 (\<lambda>op r. \<exists>lsn. r = op_record op lsn) ops rs" "records_ok rs" "ops_small ops" "op_key ` set ops \<subseteq> K"
  shows "(\<forall>r \<in> set rs. wr_type r \<noteq> WalDelete \<longrightarrow> record_small r) \<and> sum_list (map replay_cost rs) \<le> ops_cost ops \<and> wr_key ` set rs \<subseteq> K"
  using assms
proof (induction rule: list_all2_induct)
  case (Cons op ops r rs)
  obtain lsn where r: "r = op_record op lsn" using Cons.hyps(1) by blast
  have f: "wr_key r = op_key op" "wr_value r = op_value op" by (simp_all add: r op_record_def)
  have p: "records_ok rs" "ops_small ops" "op_key ` set ops \<subseteq> K" "block_count (op_key op) (op_value op) < 65536" "op_key op \<in> K" "record_wf r"
    using Cons.prems by (auto simp: records_ok_def ops_small_def)
  have "record_small r" "replay_cost r \<le> unat (record_len (op_key op) (op_value op))"
    using p by (simp_all add: record_small_def record_wf_def replay_cost_def f)
  then show ?case using Cons.IH [OF p(1-3)] p(5) by (simp add: ops_cost_def f)
qed (simp add: ops_cost_def)

lemma run_keys: "runs (store_step io_ok K) s tr s' \<Longrightarrow> op_key ` set (acknowledged tr) \<subseteq> K"
  by (induction rule: runs.induct) (auto simp: store_step_def)

lemma acknowledged_cost: "ops_cost (acknowledged tr) \<le> ops_cost (map fst tr)"
  by (induction tr) (auto simp: ops_cost_def acknowledged_def)

lemma fresh_init:
  fixes w :: Wal and cap :: u64
  assumes "0 < cfg_append_cap cfg" "unat cap \<le> 2 ^ 48"
  defines "s \<equiv> VMemKV_init cfg cap (fresh_t2 cap) w"
  shows "kv_inv s Map.empty" "kv_map s = Map.empty" "si_view (kv_t1 s) = Map.empty" "si_queue (kv_t1 s) = []"
    "kv_wal s = w" "kv_t2 s = fresh_t2 cap" "kv_use_inline s = cfg_use_inline cfg"
  using init_inv [OF assms(1) fresh_t2_inv(1), of cap cap w] assms(2) by (simp_all add: fresh_t2_inv s_def)

lemma fresh_good:
  assumes "keys_apart K" "0 < cfg_append_cap cfg" "unat cap \<le> 2 ^ 48" "n < 2 ^ 40"
  shows "store_good K n (VMemKV_init cfg cap (fresh_t2 cap) (Wal_start 1 [])) []"
proof -
  note i = fresh_init [OF assms(2,3), of "Wal_start 1 []"]
  have "wal_quiet (Wal_start 1 []) []" using quiet_start [of 1 "[]"] by simp
  then show ?thesis
    unfolding store_good_def using assms i
    by (auto simp: records_ok_def fresh_t2_inv) (simp_all add: Wal_start_def)
qed

lemma recover_fresh:
  assumes "keys_apart K" "0 < cfg_append_cap cfg" "unat cap \<le> 2 ^ 48" "wr_key ` set rs \<subseteq> K"
    "\<forall>r \<in> set rs. wr_type r \<noteq> WalDelete \<longrightarrow> record_small r" "sum_list (map replay_cost rs) \<le> unat cap"
  shows "\<exists>wss s' recs'. recover_from_wal wss (map replay_call rs) (VMemKV_init cfg cap (fresh_t2 cap) w) = Some (Inr (), s')
    \<and> kv_inv s' recs' \<and> kv_map s' = log_map rs Map.empty \<and> kv_wal s' = w"
proof -
  note i = fresh_init [OF assms(2,3), of w]
  show ?thesis using recover_correct [OF assms(1) _ i(1) assms(4,5)] i assms(3,6) by (simp add: fresh_t2_inv)
qed

text \<open>
  C2: nothing acknowledged is lost and nothing refused comes back. A new store serves any run of
  inserts, updates and removes on keys the index can tell apart; each call may be acknowledged, refused
  or fail, writes of the log may be short and its syncs may fail, but its length can always be read and
  a failed write cut off again (\<open>io_recoverable\<close>). Then the machine stops while one more record is
  being written, of which \<open>n\<close> bytes reached the log. If the records of all calls fit the T2 file side
  by side, as if none had been written in place, the store opens again, whatever the T2 file contains,
  and holds exactly the acknowledged changes in their order, with the change in flight exactly when its
  record is complete.
\<close>

theorem crash_recovery:
  fixes rec :: WalRecord
  assumes "runs (store_step io_recoverable K) (VMemKV_init cfg cap (fresh_t2 cap) (Wal_start 1 [])) tr s'"
    and "keys_apart K" "0 < cfg_append_cap cfg" "0 < cap" "unat cap \<le> 2 ^ 48" "length tr < 2 ^ 40"
    and "ops_small (acknowledged tr)" "ops_cost (map fst tr) + replay_cost rec \<le> unat cap"
    and "wr_key rec \<in> K" "record_small rec" "0 < wr_lsn rec" "n \<le> length (record_bytes rec)"
  defines "final \<equiv> acked_map (acknowledged tr) Map.empty"
  shows "\<exists>wss s2 recs. VMemKV_open can_reserve wss cfg cap
       \<lparr>dk_manifest = None, dk_t1_chk = chk, dk_t2 = t2, dk_wal = [(g, segment (kv_wal s') @ take n (record_bytes rec))]\<rparr> = Some (Inr s2)
    \<and> kv_inv s2 recs \<and> kv_map s2 = (if n = length (record_bytes rec) then apply_record rec final else final)
    \<and> (poisoned (kv_wal s') \<or> kv_map s' = final)"
proof -
  have g: "store_good K (length tr + 0) (VMemKV_init cfg cap (fresh_t2 cap) (Wal_start 1 [])) []"
    using fresh_good [OF assms(2,3,5,6)] by simp
  have m0: "kv_map (VMemKV_init cfg cap (fresh_t2 cap) (Wal_start 1 [])) = log_map [] Map.empty"
    using fresh_init(2) [OF assms(3,5)] by simp
  obtain rs where rs: "store_good K 0 s' rs" "poisoned (kv_wal s') \<or> kv_map s' = log_map rs Map.empty"
      "log_map rs Map.empty = final" "list_all2 (\<lambda>op r. \<exists>lsn. r = op_record op lsn) (acknowledged tr) rs"
    using kv.run_durable [OF assms(1) g disjI2 [OF m0]] by (auto simp: final_def)
  have ok: "records_ok rs" and seg: "segment (kv_wal s') = log_bytes rs" using rs(1) by (auto simp: store_good_def wal_quiet_def)
  note lo = logged_ops [OF rs(4) ok assms(7) run_keys [OF assms(1)]]
  have ok2: "records_ok (rs @ [rec])" using ok assms(10,11) by (simp add: records_ok_def record_small_def record_wf_def)
  let ?n = "length (log_bytes rs) + n"
  let ?kept = "if n = length (record_bytes rec) then rs @ [rec] else rs"
  have fl: "segment (kv_wal s') @ take n (record_bytes rec) = take ?n (log_bytes (rs @ [rec]))" by (simp add: seg)
  have nle: "?n \<le> length (log_bytes (rs @ [rec]))" using assms(12) by simp
  have kept: "\<forall>r \<in> set ?kept. wr_type r \<noteq> WalDelete \<longrightarrow> record_small r" "wr_key ` set ?kept \<subseteq> K"
    using lo assms(9,10) by auto
  have cost: "sum_list (map replay_cost ?kept) \<le> unat cap" using lo assms(8) acknowledged_cost [of tr] by simp
  obtain wss s2 recs where r: "recover_from_wal wss (map replay_call ?kept)
      (VMemKV_init cfg cap (fresh_t2 cap) (Wal_start (unat (last_lsn 0 ?kept + 1)) (log_bytes ?kept))) = Some (Inr (), s2)"
    "kv_inv s2 recs" "kv_map s2 = log_map ?kept Map.empty"
    using recover_fresh [OF assms(2,3,5) kept(2,1) cost] by blast
  have "VMemKV_open can_reserve wss cfg cap
      \<lparr>dk_manifest = None, dk_t1_chk = chk, dk_t2 = t2, dk_wal = [(g, segment (kv_wal s') @ take n (record_bytes rec))]\<rparr> = Some (Inr s2)"
    unfolding fl open_log [OF assms(4,5) ok2 nle] complete_last [OF assms(12)] r(1) by simp
  moreover have "kv_map s2 = (if n = length (record_bytes rec) then apply_record rec final else final)" using r(3) rs(3) by simp
  moreover have "poisoned (kv_wal s') \<or> kv_map s' = final" using rs(2,3) by simp
  ultimately show ?thesis using r(2) by (intro exI conjI)
qed

theorem crash_recovery_witness:
  "\<exists>s' wss s2. exec_op [io_good] [[1]] (OpInsert [7] [1, 2, 3]) demo_store = Some (Inr True, s')
     \<and> VMemKV_open (\<lambda>_. True) wss demo_config 4096 \<lparr>dk_manifest = None, dk_t1_chk = None, dk_t2 = [],
          dk_wal = [(1, segment (kv_wal s') @ take 5 (record_bytes \<lparr>wr_type = WalDelete, wr_lsn = 2, wr_key = [7], wr_value = []\<rparr>))]\<rparr> = Some (Inr s2)
     \<and> kv_map s2 = [ident_of [7] \<mapsto> ([7], [1, 2, 3])]"
proof -
  let ?op = "OpInsert [7] [1, 2, 3]" and ?rec = "\<lparr>wr_type = WalDelete, wr_lsn = 2, wr_key = [7], wr_value = []\<rparr>"
  obtain s' where e: "exec_op [io_good] [[1]] ?op demo_store = Some (Inr True, s')" by (rule demo_insert)
  have "store_step io_recoverable {[7]} ?op demo_store (Inr True) s'"
    using e io_good_flawless by (auto simp: store_step_def op_fits_def io_flawless_def)
  then have run: "runs (store_step io_recoverable {[7]}) demo_store [(?op, Inr True)] s'" by (rule runs.call) (rule runs.stop)
  have b: "block_count [7] [1, 2, 3] < 65536" "unat (record_len [7] [1, 2, 3]) = 32" "block_count [7] [] < 65536" by code_simp+
  have l: "length (record_bytes ?rec) = 33" by (simp add: length_record_bytes kWalRecordHeaderBytes_def)
  note c = crash_recovery [OF run [unfolded demo_store_def], of ?rec 5 "\<lambda>_. True" None "[]" 1, unfolded l]
  have "\<exists>wss s2 recs. VMemKV_open (\<lambda>_. True) wss demo_config 4096
      \<lparr>dk_manifest = None, dk_t1_chk = None, dk_t2 = [], dk_wal = [(1, segment (kv_wal s') @ take 5 (record_bytes ?rec))]\<rparr> = Some (Inr s2)
    \<and> kv_inv s2 recs \<and> kv_map s2 = [ident_of [7] \<mapsto> ([7], [1, 2, 3])] \<and> (poisoned (kv_wal s') \<or> kv_map s' = [ident_of [7] \<mapsto> ([7], [1, 2, 3])])"
    using c b by (simp add: keys_apart_def demo_config_def ops_small_def ops_cost_def replay_cost_def record_small_def)
  then show ?thesis using e by blast
qed

section \<open>Updates in place replay as appends\<close>

text \<open>The first record of an empty T2 file.\<close>

lemma first_record:
  assumes inv: "kv_inv s Map.empty" and used: "tm_bytes_used (kv_t2 s) = 0" and w: "waits_ok waits s" and prev: "prev_ok prev key (kv_t1 s)"
    and pl: "try_make_inline_payload (kv_use_inline s) key value = None" and small: "\<not> block_count key value \<ge> 65536"
    and len: "length key + length value < 2 ^ 63" and room: "unat (record_len key value) \<le> unat (tm_capacity (kv_t2 s))"
    and res: "write_entry_lockfree mr waits key value prev s = Some (r, s')"
  shows "r = Inr () \<and> kv_inv s' [0 \<mapsto> (length key, length value)] \<and> kv_map s' = (kv_map s)(ident_of key \<mapsto> (key, value))
    \<and> kv_frame s s' \<and> kv_wal s' = kv_wal s \<and> unat (tm_bytes_used (kv_t2 s')) = unat (record_len key value)
    \<and> (\<forall>e. si_view (kv_t1 s') (ident_of key) = Some e \<longrightarrow> \<not> is_inline (lr_raw_hash e) \<and> lr_payload_bits e AND kPayloadOffsetMask = 0)"
proof (cases waits)
  case Nil
  then show ?thesis using res by (simp add: write_entry_lockfree.simps)
next
  case (Cons ws rest)
  have w': "ws = [] \<or> unique_prefixes (si_view (kv_t1 s))" using w by (auto simp: waits_ok_def Cons)
  have "\<not> tm_bytes_used (kv_t2 s) + record_len key value > tm_capacity (kv_t2 s)" using room by (simp add: used not_less word_le_nat_alt)
  then obtain mem where a: "append_default (kv_t2 s) key value = (Inr 0, mem)" by (auto simp: append_default_def Let_def used)
  have u: "unat (tm_bytes_used (kv_t2 s)) < 2 ^ 63" by (simp add: used)
  from write_record_entry [OF inv w' prev pl len u small a res [unfolded Cons]] show ?thesis by (simp add: used)
qed

lemma insert_first:
  assumes inv: "kv_inv s Map.empty" and used: "tm_bytes_used (kv_t2 s) = 0" and un: "unique_prefixes (si_view (kv_t1 s))"
    and absent: "kv_map s (ident_of key) = None" and w: "length (si_queue (kv_t1 s)) < w"
    and pl: "try_make_inline_payload (kv_use_inline s) key value = None" and small: "\<not> block_count key value \<ge> 65536"
    and len: "length key + length value < 2 ^ 63" and room: "unat (record_len key value) \<le> unat (tm_capacity (kv_t2 s))"
    and q: "wal_quiet (kv_wal s) rs" and io: "io_flawless io" and p: "\<not> poisoned (kv_wal s)"
  obtains s' where "exec_op (io # ios) [[w]] (OpInsert key value) s = Some (Inr True, s')" "kv_inv s' [0 \<mapsto> (length key, length value)]"
    "kv_map s' = (kv_map s)(ident_of key \<mapsto> (key, value))" "kv_frame s s'" "wal_quiet (kv_wal s') (rs @ [next_record WalInsert key value (kv_wal s)])"
    "\<not> poisoned (kv_wal s')" "next_lsn (kv_wal s') = next_lsn (kv_wal s) + 1"
    "\<And>e. si_view (kv_t1 s') (ident_of key) = Some e \<Longrightarrow> \<not> is_inline (lr_raw_hash e) \<and> lr_payload_bits e AND kPayloadOffsetMask = 0"
proof -
  have pr: "prev_ok (Some \<lparr>lr_payload_bits = STORE_NOT_FOUND, lr_raw_hash = 0\<rparr>) key (kv_t1 s)" using absent by (simp add: prev_ok_def kv_map_def)
  have wo: "waits_ok [[w]] s" using un by (simp add: waits_ok_def)
  obtain r s1 where e: "write_entry_lockfree maybe_reorganize_if_needed [[w]] key value (Some \<lparr>lr_payload_bits = STORE_NOT_FOUND, lr_raw_hash = 0\<rparr>) s = Some (r, s1)"
    using write_entry_returns [OF inv pr un w] by blast
  note f = first_record [OF inv used wo pr pl small len room e]
  define fn where "fn = (\<lambda>s. case si_get (kv_t1 s) key of None \<Rightarrow> None
    | Some payload \<Rightarrow> if payload \<noteq> STORE_NOT_FOUND then Some (Inr no_change, s)
        else append_and_reserve [[w]] WalInsert key value \<lparr>lr_payload_bits = STORE_NOT_FOUND, lr_raw_hash = 0\<rparr> s)"
  have x: "exec_op (io # ios) [[w]] (OpInsert key value) s = with_key_stripe (io # ios) maybe_reorganize_if_needed fn s"
    by (simp add: insert_impl_def fn_def)
  have fs: "fn s = reserve_applied WalInsert key value True s1"
    using lookup_map(2,3) [OF inv, of key] absent e f by (simp add: fn_def append_and_reserve_def)
  have ior: "io_recoverable io" using io by (simp add: io_flawless_def)
  have kw: "kv_wal s1 = kv_wal s" using f by simp
  show ?thesis
  proof (rule logged_call [of fn s, OF fs kw q ior, of ios])
    fix w2
    assume a: "with_key_stripe (io # ios) maybe_reorganize_if_needed fn s =
        Some (Inr True, if True then maybe_reorganize_if_needed (s1\<lparr>kv_wal := w2\<rparr>) else s1\<lparr>kv_wal := w2\<rparr>)"
      "wal_quiet w2 (rs @ [next_record WalInsert key value (kv_wal s)])" "\<not> poisoned w2" "next_lsn w2 = next_lsn (kv_wal s) + 1"
    show ?thesis by (rule that [of "maybe_reorganize_if_needed (s1\<lparr>kv_wal := w2\<rparr>)"]) (use a f x in simp_all)
  qed (use io p in simp)
qed

lemma update_in_place:
  assumes inv: "kv_inv s recs" and v: "si_view (kv_t1 s) (ident_of key) = Some entry" and ok: "in_place_ok entry recs key value s"
    and q: "wal_quiet (kv_wal s) rs" and io: "io_flawless io" and p: "\<not> poisoned (kv_wal s)"
  obtains s' where "exec_op (io # ios) waits (OpUpdate key value) s = Some (Inr True, s')" "kv_map s' = (kv_map s)(ident_of key \<mapsto> (key, value))"
    "wal_quiet (kv_wal s') (rs @ [next_record WalUpdate key value (kv_wal s)])" "kv_inv s' recs"
proof -
  note l = lookup_map [OF inv, of key]
  have ior: "io_recoverable io" using io by (simp add: io_flawless_def)
  have m: "kv_map s (ident_of key) \<noteq> None" using v by (simp add: kv_map_def)
  have e: "si_lookup (kv_t1 s) key = entry" using l(5) [OF m] v by simp
  have nf: "lr_payload_bits entry \<noteq> STORE_NOT_FOUND" "\<not> is_inline (lr_raw_hash entry)" using l(3) m e ok by (auto simp: in_place_ok_def Let_def)
  obtain ir s1 where ip: "try_in_place_update key value s = Some (ir, s1)" using in_place_returns [OF inv q, of key "value"] by auto
  have "\<exists>s2. update_body waits key value s = reserve_applied WalUpdate key value False s2
      \<and> kv_map s2 = (kv_map s)(ident_of key \<mapsto> (key, value)) \<and> kv_wal s2 = kv_wal s \<and> kv_inv s2 recs"
    using inv ip
  proof (cases rule: in_place_correct)
    case (applied entry' s2 lsn w2)
    then show ?thesis
      by (intro exI [of _ s2]) (simp add: update_body_def l(1) e nf ip applied(5-8) reserve_applied_def)
  next
    case (refused entry' s2 er w2)
    then show ?thesis
      by (intro exI [of _ s2]) (simp add: update_body_def l(1) e nf ip refused(5-8) reserve_applied_def)
  qed (use v ok in simp_all)
  then obtain s2 where b: "update_body waits key value s = reserve_applied WalUpdate key value False s2"
    "kv_map s2 = (kv_map s)(ident_of key \<mapsto> (key, value))" "kv_wal s2 = kv_wal s" "kv_inv s2 recs" by blast
  show ?thesis
  proof (rule logged_call [of "update_body waits key value" s, OF b(1,3) q ior, of ios])
    fix w2
    assume a: "with_key_stripe (io # ios) maybe_reorganize_if_needed (update_body waits key value) s =
        Some (Inr True, if False then maybe_reorganize_if_needed (s2\<lparr>kv_wal := w2\<rparr>) else s2\<lparr>kv_wal := w2\<rparr>)"
      "wal_quiet w2 (rs @ [next_record WalUpdate key value (kv_wal s)])"
    show ?thesis by (rule that [of "s2\<lparr>kv_wal := w2\<rparr>"]) (use a b(2,4) in \<open>simp_all add: update_impl_body\<close>)
  qed (use io p in simp)
qed

text \<open>Two records that do not both fit an empty T2 file.\<close>

lemma recover_full:
  assumes inv: "kv_inv s Map.empty" and used: "tm_bytes_used (kv_t2 s) = 0" and un: "\<And>x. si_view (kv_t1 s) x = None"
    and r: "wr_type r1 \<noteq> WalDelete" "wr_type r2 \<noteq> WalDelete" "record_small r1" "record_small r2"
    and pl: "try_make_inline_payload (kv_use_inline s) (wr_key r1) (wr_value r1) = None" "try_make_inline_payload (kv_use_inline s) (wr_key r2) (wr_value r2) = None"
    and room: "replay_cost r1 \<le> unat (tm_capacity (kv_t2 s))" "unat (tm_capacity (kv_t2 s)) < replay_cost r1 + replay_cost r2"
  shows "recover_from_wal wss (map replay_call [r1, r2]) s \<noteq> Some (Inr (), s')"
    "\<exists>wss s'. recover_from_wal wss (map replay_call [r1, r2]) s = Some (Inl T2Full, s')"
proof -
  have put: "replay_one ws (replay_call r) s = write_entry_lockfree maybe_reorganize_if_needed ws (wr_key r) (wr_value r) None s"
    if "wr_type r \<noteq> WalDelete" for r s ws using that by (cases "wr_type r") (simp_all add: replay_one_def replay_call_def)
  have u: "unique_prefixes (si_view (kv_t1 s))" by (simp add: unique_prefixes_def un dom_def)
  have wo: "waits_ok ws s" for ws using u by (simp add: waits_ok_def)
  have p: "prev_ok None (wr_key r1) (kv_t1 s)" by (simp add: prev_ok_def)
  have sm: "\<not> block_count (wr_key r1) (wr_value r1) \<ge> 65536" "length (wr_key r1) + length (wr_value r1) < 2 ^ 63"
      "\<not> block_count (wr_key r2) (wr_value r2) \<ge> 65536" "length (wr_key r2) + length (wr_value r2) < 2 ^ 63"
    using r(3,4) by (auto simp: record_small_def not_le [symmetric])
  have c: "unat (record_len (wr_key r1) (wr_value r1)) = replay_cost r1" "unat (record_len (wr_key r2) (wr_value r2)) = replay_cost r2"
    using r(1,2) by (simp_all add: replay_cost_def)
  have second: "\<exists>s2. replay_one (w # ws) (replay_call r2) s1 = Some (Inl T2Full, s2)" if s1: "replay_one ws1 (replay_call r1) s = Some (x, s1)" for ws1 x s1 w ws
  proof -
    have f: "kv_frame s s1" "unat (tm_bytes_used (kv_t2 s1)) = replay_cost r1"
      using first_record [OF inv used wo p pl(1) sm(1,2) _ s1 [unfolded put [OF r(1)]]] room(1) by (simp_all add: c)
    have "replay_cost r2 \<le> 2 ^ 20" using record_len_small [OF sm(4,3)] by (simp add: c)
    then show ?thesis unfolding put [OF r(2)]
      by (intro write_entry_full) (use f pl(2) sm(3) room kv_invD(5) [OF inv] in \<open>simp_all add: kv_frame_def c\<close>)
  qed
  have first: "x = Inr ()" if "replay_one ws1 (replay_call r1) s = Some (x, s1)" for ws1 x s1
    using first_record [OF inv used wo p pl(1) sm(1,2) _ that [unfolded put [OF r(1)]]] room(1) by (simp add: c)
  have stuck: "replay_one [] (replay_call r2) s1 = None" for s1 unfolding put [OF r(2)] by (simp add: write_entry_lockfree.simps)
  show "recover_from_wal wss (map replay_call [r1, r2]) s \<noteq> Some (Inr (), s')"
  proof (cases wss)
    case (Cons ws1 wss1)
    show ?thesis
    proof (cases "replay_one ws1 (replay_call r1) s")
      case (Some y)
      obtain x s1 where y: "y = (x, s1)" by (cases y)
      have rest: "recover_from_wal wss (map replay_call [r1, r2]) s = recover_from_wal wss1 [replay_call r2] s1"
        using Some first [of ws1 x s1] by (simp add: Cons y)
      show ?thesis
      proof (cases wss1)
        case c1: (Cons ws2 wss2)
        show ?thesis unfolding rest c1 
        proof (cases ws2)
          case c2: (Cons w ws)
          obtain s2 where "replay_one (w # ws) (replay_call r2) s1 = Some (Inl T2Full, s2)" using second [OF Some [unfolded y]] by blast
          then show "recover_from_wal (ws2 # wss2) [replay_call r2] s1 \<noteq> Some (Inr (), s')" by (simp add: c2)
        qed (simp add: stuck)
      qed (simp only: rest, simp)
    qed (simp add: Cons)
  qed simp
  let ?w = "Suc (length (si_queue (kv_t1 s)))"
  obtain x s1 where x: "replay_one [[?w]] (replay_call r1) s = Some (x, s1)"
    using write_entry_returns [OF inv p u, of ?w] unfolding put [OF r(1)] by blast
  obtain s2 where "replay_one [[0]] (replay_call r2) s1 = Some (Inl T2Full, s2)" using second [OF x] by blast
  then have "recover_from_wal [[[?w]], [[0]]] (map replay_call [r1, r2]) s = Some (Inl T2Full, s2)" using x first [OF x] by simp
  then show "\<exists>wss s'. recover_from_wal wss (map replay_call [r1, r2]) s = Some (Inl T2Full, s')" by blast
qed

text \<open>An insert and an update that fits its slot, both acknowledged.\<close>

lemma insert_then_update:
  assumes cfg: "0 < cfg_append_cap cfg" "unat cap \<le> 2 ^ 48" and len: "length key < 2 ^ 32" "length v1 < 2 ^ 32" "length v2 \<le> length v1"
    and b: "block_count key v1 < 65536" and pl: "try_make_inline_payload (cfg_use_inline cfg) key v1 = None"
    and room: "unat (record_len key v1) \<le> unat cap" and io: "io_flawless io"
  defines "s0 \<equiv> VMemKV_init cfg cap (fresh_t2 cap) (Wal_start 1 [])"
  obtains s1 s2 where "exec_op [io] [[1]] (OpInsert key v1) s0 = Some (Inr True, s1)" "exec_op [io] [[1]] (OpUpdate key v2) s1 = Some (Inr True, s2)"
    "kv_inv s2 [0 \<mapsto> (length key, length v1)]" "kv_map s2 (ident_of key) = Some (key, v2)"
    "segment (kv_wal s2) = log_bytes [op_record (OpInsert key v1) 1, op_record (OpUpdate key v2) 2]"
proof -
  note i = fresh_init [OF cfg, of "Wal_start 1 []", folded s0_def]
  have u: "unique_prefixes (si_view (kv_t1 s0))" by (simp add: i(3) unique_prefixes_def)
  have q: "wal_quiet (kv_wal s0) []" using quiet_start [of 1 "[]"] by (simp add: i(5))
  have np: "\<not> poisoned (kv_wal s0)" "next_lsn (kv_wal s0) = 1" unfolding i(5) by (simp_all add: Wal_start_def)
  have sm: "\<not> block_count key v1 \<ge> 65536" "length key + length v1 < 2 ^ 63" using len b by (simp_all add: not_le)
  obtain s1 where s1: "exec_op [io] [[1]] (OpInsert key v1) s0 = Some (Inr True, s1)" "kv_inv s1 [0 \<mapsto> (length key, length v1)]"
    "kv_map s1 = (kv_map s0)(ident_of key \<mapsto> (key, v1))" "kv_frame s0 s1" "wal_quiet (kv_wal s1) ([] @ [next_record WalInsert key v1 (kv_wal s0)])"
    "\<not> poisoned (kv_wal s1)" "next_lsn (kv_wal s1) = next_lsn (kv_wal s0) + 1"
    "\<And>e. si_view (kv_t1 s1) (ident_of key) = Some e \<Longrightarrow> \<not> is_inline (lr_raw_hash e) \<and> lr_payload_bits e AND kPayloadOffsetMask = 0"
    by (rule insert_first [OF i(1) _ u _ _ _ sm _ q io np(1), where w = 1 and ios = "[]"])
      (use i pl room in \<open>simp_all add: fresh_t2_inv\<close>)
  obtain entry where v: "si_view (kv_t1 s1) (ident_of key) = Some entry" and kv: "entry_kv (kv_t2 s1) (ident_of key) entry = (key, v1)"
    using fun_cong [OF s1(3), of "ident_of key"] by (auto simp: kv_map_def)
  have ok: "in_place_ok entry [0 \<mapsto> (length key, length v1)] key v2 s1"
  proof -
    note o = s1(8) [OF v]
    have "rv_key (t2_at 0 (kv_t2 s1)) = key" using kv o by (simp add: entry_kv_def t2_read_def Let_def)
    moreover have "tm_base_boundary (kv_t2 s1) = 0" "load_watermark (kv_own s1) = 0"
      using s1(4) i(6) by (simp_all add: kv_frame_def load_watermark_def fresh_t2_inv) (simp add: s0_def VMemKV_init_def T2Ownership_new_def)
    ultimately show ?thesis using o len(3) by (simp add: in_place_ok_def Let_def)
  qed
  obtain s2 where s2: "exec_op [io] [[1]] (OpUpdate key v2) s1 = Some (Inr True, s2)" "kv_map s2 = (kv_map s1)(ident_of key \<mapsto> (key, v2))"
    "wal_quiet (kv_wal s2) ([next_record WalInsert key v1 (kv_wal s0)] @ [next_record WalUpdate key v2 (kv_wal s1)])" "kv_inv s2 [0 \<mapsto> (length key, length v1)]"
    by (rule update_in_place [OF s1(2) v ok s1(5) [simplified] io s1(6)])
  have "segment (kv_wal s2) = log_bytes [op_record (OpInsert key v1) 1, op_record (OpUpdate key v2) 2]"
    using s2(3) by (simp add: wal_quiet_def next_record_def op_record_def s1(7) np(2))
  then show ?thesis using that [OF s1(1) s2(1,4)] s2(2) by simp
qed

text \<open>
  C39: an acknowledged store that cannot be opened again. In-place updates are logged as updates and
  replayed as appends. A key is inserted and then updated with a value that fits its slot; both calls
  are acknowledged, and the T2 file holds one record. When the two records do not fit the file side
  by side, the constructor fails on the log of this store with the error of a full T2 file, and it
  never succeeds.
\<close>

theorem in_place_update_blocks_reopen:
  assumes "0 < cfg_append_cap cfg" "0 < cap" "unat cap \<le> 2 ^ 48" "length key < 2 ^ 32" "length v1 < 2 ^ 32" "length v2 \<le> length v1"
    and "block_count key v1 < 65536" "block_count key v2 < 65536"
    and "try_make_inline_payload (cfg_use_inline cfg) key v1 = None" "try_make_inline_payload (cfg_use_inline cfg) key v2 = None"
    and "unat (record_len key v1) \<le> unat cap" "unat cap < unat (record_len key v1) + unat (record_len key v2)" "io_flawless io"
  shows "\<exists>s1 s2. exec_op [io] [[1]] (OpInsert key v1) (VMemKV_init cfg cap (fresh_t2 cap) (Wal_start 1 [])) = Some (Inr True, s1)
    \<and> exec_op [io] [[1]] (OpUpdate key v2) s1 = Some (Inr True, s2) \<and> get_impl env key s2 = Some (Some v2)
    \<and> (let disk = \<lparr>dk_manifest = None, dk_t1_chk = chk, dk_t2 = t2, dk_wal = [(1, segment (kv_wal s2))]\<rparr>
       in (\<forall>wss s. VMemKV_open can_reserve wss cfg cap disk \<noteq> Some (Inr s))
          \<and> (\<exists>wss. VMemKV_open can_reserve wss cfg cap disk = Some (Inl (OpenReplay T2Full))))"
proof -
  define s0 where "s0 = VMemKV_init cfg cap (fresh_t2 cap) (Wal_start 1 [])"
  let ?r1 = "op_record (OpInsert key v1) 1" and ?r2 = "op_record (OpUpdate key v2) 2"
  obtain s1 s2 where a: "exec_op [io] [[1]] (OpInsert key v1) s0 = Some (Inr True, s1)" "exec_op [io] [[1]] (OpUpdate key v2) s1 = Some (Inr True, s2)"
    "kv_inv s2 [0 \<mapsto> (length key, length v1)]" "kv_map s2 (ident_of key) = Some (key, v2)" "segment (kv_wal s2) = log_bytes [?r1, ?r2]"
    by (rule insert_then_update [OF assms(1,3-7,9,11,13), folded s0_def])
  have rok: "records_ok [?r1, ?r2]" using assms(4-6) by (simp add: records_ok_def record_wf_def op_record_def)
  have fl: "take (length (log_bytes [?r1, ?r2])) (log_bytes [?r1, ?r2]) = segment (kv_wal s2)" by (simp only: a(5) take_all)
  note op = open_log [OF assms(2,3) rok order.refl, of can_reserve _ cfg chk t2 1, unfolded fl complete_records_all, unfolded take_all [OF order.refl]]
  define w where "w = Wal_start (unat (last_lsn 0 [?r1, ?r2] + 1)) (log_bytes [?r1, ?r2])"
  note j = fresh_init [OF assms(1,3), of w]
  have rf: "recover_from_wal wss (map replay_call [?r1, ?r2]) (VMemKV_init cfg cap (fresh_t2 cap) w) \<noteq> Some (Inr (), s')"
    "\<exists>wss s'. recover_from_wal wss (map replay_call [?r1, ?r2]) (VMemKV_init cfg cap (fresh_t2 cap) w) = Some (Inl T2Full, s')" for wss s'
    by (rule recover_full [OF j(1)]; use j assms in \<open>simp add: fresh_t2_inv op_record_def record_small_def replay_cost_def\<close>)+
  have "get_impl env key s2 = Some (Some v2)" by (rule get_correct(2) [OF a(3,4)])
  moreover have "VMemKV_open can_reserve wss cfg cap \<lparr>dk_manifest = None, dk_t1_chk = chk, dk_t2 = t2, dk_wal = [(1, segment (kv_wal s2))]\<rparr> \<noteq> Some (Inr s)" for wss s
    unfolding op w_def [symmetric] using rf(1) by (auto split: sum.splits)
  moreover have "\<exists>wss. VMemKV_open can_reserve wss cfg cap \<lparr>dk_manifest = None, dk_t1_chk = chk, dk_t2 = t2, dk_wal = [(1, segment (kv_wal s2))]\<rparr> = Some (Inl (OpenReplay T2Full))"
    unfolding op w_def [symmetric] using rf(2) by force
  ultimately show ?thesis using a(1,2) unfolding Let_def s0_def [symmetric] by blast
qed

theorem in_place_update_blocks_reopen_witness:
  "\<exists>s1 s2. exec_op [io_good] [[1]] (OpInsert [7] (replicate 20 1)) (VMemKV_init demo_config 64 (fresh_t2 64) (Wal_start 1 [])) = Some (Inr True, s1)
     \<and> exec_op [io_good] [[1]] (OpUpdate [7] (replicate 20 2)) s1 = Some (Inr True, s2)
     \<and> (\<exists>wss. VMemKV_open (\<lambda>_. True) wss demo_config 64 \<lparr>dk_manifest = None, dk_t1_chk = None, dk_t2 = [], dk_wal = [(1, segment (kv_wal s2))]\<rparr>
          = Some (Inl (OpenReplay T2Full)))"
proof -
  have "block_count [7] (replicate 20 1) < 65536" "block_count [7] (replicate 20 2) < 65536"
    "try_make_inline_payload True [7] (replicate 20 1) = None" "try_make_inline_payload True [7] (replicate 20 2) = None"
    "unat (record_len [7] (replicate 20 1)) = 48" "unat (record_len [7] (replicate 20 2)) = 48" by code_simp+
  then show ?thesis
    using in_place_update_blocks_reopen [of demo_config 64 "[7]" "replicate 20 1" "replicate 20 2" io_good
      "\<lparr>re_policy = Trifecta, re_mappings = \<lparr>mp_scan = True, mp_scan_seq = True, mp_read_fd = True\<rparr>, re_resident = False, re_got = Some 40, re_stale = []\<rparr>"
      None "[]" "\<lambda>_. True"] io_good_flawless
    unfolding Let_def by (simp add: demo_config_def del: exec_op.simps) blast
qed

end
