(* ===== verification/Checkpoint_Cycle.thy ===== *)
theory Checkpoint_Cycle
  imports Store_Recovery
begin

text \<open>
  \<^verbatim>\<open>vmemkv/checkpoint_coordinator.hpp\<close>: one checkpoint cycle over the store, its files and its log
  directory, with the failures of every system call, and the sequence of calls and checkpoints a
  store lives through. Shown: whenever the machine stops, the store opens again with the contents it
  had; and a checkpoint that fails to write while it merges a shard leaves that shard blocked.
\<close>

section \<open>The store and what it has on disk\<close>

text \<open>
  \<open>wd_files\<close>: the manifest and the index checkpoint, by path; \<open>wd_t2_file\<close>: the T2 bytes that
  reached the disk; \<open>wd_retired\<close>: the log segments besides the active one, ascending.
\<close>

record World =
  wd_store :: VMemKV
  wd_files :: files
  wd_t2_file :: bytes
  wd_retired :: segments
  wd_active :: nat
  wd_checkpoint_count :: nat

datatype CkptError = MsyncFailed | CkptIo IoError | CkptWal WalError

text \<open>The answers of the system to one cycle.\<close>

record CkptEnv =
  ck_msync_ok :: bool
  ck_page :: nat
  ck_calls :: "SysCall list"
  ck_open_ok :: bool
  ck_fsync_ok :: bool
  ck_rename_ok :: bool
  ck_manifest_open_ok :: bool
  ck_manifest_fsync_ok :: bool
  ck_manifest_rename_ok :: bool
  ck_segment_open_ok :: bool

section \<open>Phases\<close>

record CheckpointTarget =
  ct_old_base_boundary :: u64
  ct_target :: u64

definition capture_checkpoint_target :: "T2Memory \<Rightarrow> CheckpointTarget" where
  "capture_checkpoint_target mem = \<lparr>ct_old_base_boundary = tm_base_boundary mem, ct_target = tm_bytes_used mem\<rparr>"

text \<open>\<^verbatim>\<open>msync\<close> fails with \<^verbatim>\<open>ENOMEM\<close> when the range reaches beyond the pages of the mapping.\<close>

definition msync_target_range :: "bool \<Rightarrow> nat \<Rightarrow> T2Memory \<Rightarrow> u64 \<Rightarrow> u64 \<Rightarrow> bytes \<Rightarrow> bytes option" where
  "msync_target_range ok page mem old_base_boundary target t2_file =
     (if target \<le> old_base_boundary then Some t2_file
      else let aligned_start = unat old_base_boundary - unat old_base_boundary mod page;
               mapped_end = (unat (tm_capacity mem) + page - 1) div page * page
           in if \<not> ok \<or> unat target > mapped_end then None
              else Some (mem_write t2_file aligned_start (mem_read (tm_base mem) aligned_start (unat target - aligned_start))))"

text \<open>
  \<^verbatim>\<open>checkpoint_all_shards\<close> with the checkpoint writer as per-shard callback. The callback of a shard
  that is merged runs inside \<^verbatim>\<open>reorganize\<close>, before the new sorted region is published: when it throws,
  the reorganisation stops there (\<open>abandoned\<close>). A shard whose reorganisation is marked as running is
  retried without end.
\<close>

definition abandoned :: "T1Index \<Rightarrow> T1Index" where
  "abandoned t = fst (reorg_run (\<lambda>m. m) 5 (t, reorg_pc.Idle))"

fun publish_shards ::
  "SysCall list \<Rightarrow> nat list \<Rightarrow> ShardedT1Index \<Rightarrow> ShardedT1CheckpointWriter \<Rightarrow> files
   \<Rightarrow> ((IoError + SysCall list) \<times> ShardedT1Index \<times> ShardedT1CheckpointWriter \<times> files) option" where
  "publish_shards calls [] si w fs = Some (Inr calls, si, w, fs)"
| "publish_shards calls (a # as) si w fs =
     (let t = sl_index (slot si a)
      in if append_size t = 0
         then case add_shard calls (dump_sorted_region t) w fs of
                None \<Rightarrow> None
              | Some (Inl e, w1, fs1) \<Rightarrow> Some (Inl e, si, w1, fs1)
              | Some (Inr cs, w1, fs1) \<Rightarrow> publish_shards cs as si w1 fs1
         else case reorganize (\<lambda>m. m) t of
                (_, None) \<Rightarrow> None
              | (t', Some merged) \<Rightarrow>
                  (case add_shard calls merged w fs of
                     None \<Rightarrow> None
                   | Some (Inl e, w1, fs1) \<Rightarrow> Some (Inl e, upd_slot a (\<lambda>s. s\<lparr>sl_index := abandoned t\<rparr>) si, w1, fs1)
                   | Some (Inr cs, w1, fs1) \<Rightarrow>
                       publish_shards cs as (upd_slot a (\<lambda>s. s\<lparr>sl_index := t', sl_tombstones := 0\<rparr>) si) w1 fs1))"

definition publish_t1_checkpoint ::
  "CkptEnv \<Rightarrow> string \<Rightarrow> u64 \<Rightarrow> u64 \<Rightarrow> ShardedT1Index \<Rightarrow> files \<Rightarrow> ((IoError + unit) \<times> ShardedT1Index \<times> files) option" where
  "publish_t1_checkpoint env t2_path checkpoint_lsn target si fs =
     (case writer_open (ck_open_ok env) (derive_t1_chk_path t2_path) fs of
        (Inl e, fs1) \<Rightarrow> Some (Inl e, si, fs1)
      | (Inr w, fs1) \<Rightarrow>
          (case publish_shards (ck_calls env) (dir_shards (si_directory si)) (si\<lparr>si_splits_paused := True\<rparr>) w fs1 of
             None \<Rightarrow> None
           | Some (Inl e, si1, w1, fs2) \<Rightarrow> Some (Inl e, si1\<lparr>si_splits_paused := False\<rparr>, writer_destroy w1 fs2)
           | Some (Inr cs, si1, w1, fs2) \<Rightarrow>
               let si2 = si1\<lparr>si_splits_paused := False\<rparr>
               in case writer_finish cs (ck_fsync_ok env) (ck_rename_ok env) (dir_boundaries (si_directory si)) w1 fs2 of
                    None \<Rightarrow> None
                  | Some (Inl e, w2, fs3) \<Rightarrow> Some (Inl e, si2, writer_destroy w2 fs3)
                  | Some (Inr cs2, w2, fs3) \<Rightarrow>
                      (case write_manifest cs2 (ck_manifest_open_ok env) (ck_manifest_fsync_ok env) (ck_manifest_rename_ok env)
                              (derive_manifest_path t2_path) checkpoint_lsn target fs3 of
                         None \<Rightarrow> None
                       | Some (Inl e, fs4) \<Rightarrow> Some (Inl e, si2, writer_destroy w2 fs4)
                       | Some (Inr _, fs4) \<Rightarrow> Some (Inr (), si2, writer_destroy w2 fs4))))"

text \<open>\<^verbatim>\<open>rotate_segment\<close> on the whole log; \<open>None\<close>: it waits for the leadership.\<close>

definition rotate_log :: "bool \<Rightarrow> World \<Rightarrow> ((WalError + unit) \<times> World) option" where
  "rotate_log open_ok wd =
     (let wal = kv_wal (wd_store wd);
          with_wal = (\<lambda>w. wd\<lparr>wd_store := (wd_store wd)\<lparr>kv_wal := w\<rparr>\<rparr>)
      in if poisoned wal then Some (Inl WalPoisoned, wd)
         else if flushing wal then None
         else let new_generation = wd_active wd + 1
              in if \<not> open_ok \<or> new_generation \<in> fst ` set (wd_retired wd)
                 then map_option (\<lambda>w. (Inl SegmentOpenFailed, with_wal w))
                        (fail_all_pending_and_release_leadership SegmentOpenFailed (wal\<lparr>flushing := True\<rparr>))
                 else let retired = wd_retired wd @ [(wd_active wd, segment wal)];
                          kept = (if new_generation \<ge> 2 then filter (\<lambda>(g, _). g \<noteq> new_generation - 2) retired else retired)
                      in Some (Inr (), (with_wal (wal\<lparr>segment := [], synced := 0\<rparr>))\<lparr>wd_retired := kept, wd_active := new_generation\<rparr>))"

section \<open>The cycle\<close>

text \<open>
  Up to the point where the new boundary is stored: the numbers are captured, the range is claimed
  and synced, and the index checkpoint and the manifest are published.
\<close>

definition checkpoint_publish :: "CkptEnv \<Rightarrow> string \<Rightarrow> World \<Rightarrow> ((CkptError + unit) \<times> World) option" where
  "checkpoint_publish env t2_path wd =
     (let s = wd_store wd;
          checkpoint_lsn = word_of_nat (next_lsn (kv_wal s)) - 1;
          ct = capture_checkpoint_target (kv_t2 s);
          s1 = s\<lparr>kv_own := claim_watermark (ct_target ct) (kv_own s)\<rparr>;
          reverted = (\<lambda>v. v\<lparr>kv_own := revert_watermark (ct_old_base_boundary ct) (kv_own v)\<rparr>)
      in case msync_target_range (ck_msync_ok env) (ck_page env) (kv_t2 s1) (ct_old_base_boundary ct) (ct_target ct) (wd_t2_file wd) of
           None \<Rightarrow> Some (Inl MsyncFailed, wd\<lparr>wd_store := reverted s1\<rparr>)
         | Some t2_file \<Rightarrow>
             (case publish_t1_checkpoint env t2_path checkpoint_lsn (ct_target ct) (kv_t1 s1) (wd_files wd) of
                None \<Rightarrow> None
              | Some (Inl e, t1, fs) \<Rightarrow>
                  Some (Inl (CkptIo e), wd\<lparr>wd_store := reverted (s1\<lparr>kv_t1 := t1\<rparr>), wd_files := fs, wd_t2_file := t2_file\<rparr>)
              | Some (Inr _, t1, fs) \<Rightarrow>
                  Some (Inr (), wd\<lparr>wd_store := s1\<lparr>kv_t1 := t1, kv_t2 := (kv_t2 s1)\<lparr>tm_base_boundary := ct_target ct\<rparr>\<rparr>,
                                   wd_files := fs, wd_t2_file := t2_file\<rparr>)))"

text \<open>The rest of a cycle.\<close>

definition checkpoint_rotate :: "CkptEnv \<Rightarrow> World \<Rightarrow> ((CkptError + unit) \<times> World) option" where
  "checkpoint_rotate env wd =
     (case rotate_log (ck_segment_open_ok env) wd of
        None \<Rightarrow> None
      | Some (Inl e, wd2) \<Rightarrow> Some (Inl (CkptWal e), wd2)
      | Some (Inr _, wd2) \<Rightarrow> Some (Inr (), wd2\<lparr>wd_checkpoint_count := wd_checkpoint_count wd2 + 1\<rparr>))"

definition checkpoint_internal :: "CkptEnv \<Rightarrow> string \<Rightarrow> World \<Rightarrow> ((CkptError + unit) \<times> World) option" where
  "checkpoint_internal env t2_path wd =
     (case checkpoint_publish env t2_path wd of
        None \<Rightarrow> None
      | Some (Inl e, wd1) \<Rightarrow> Some (Inl e, wd1)
      | Some (Inr _, wd1) \<Rightarrow> checkpoint_rotate env wd1)"

datatype ReorgMode = T1Only | CheckpointMode

definition reorganize_internal :: "CkptEnv \<Rightarrow> string \<Rightarrow> ReorgMode \<Rightarrow> World \<Rightarrow> ((CkptError + unit) \<times> World) option" where
  "reorganize_internal env t2_path mode wd =
     (case mode of
        CheckpointMode \<Rightarrow> checkpoint_internal env t2_path wd
      | T1Only \<Rightarrow>
          map_option (\<lambda>(_, t1). (Inr (), wd\<lparr>wd_store := (wd_store wd)\<lparr>kv_t1 := t1\<rparr>\<rparr>)) (checkpoint_all_shards (kv_t1 (wd_store wd))))"

text \<open>A caller that meets no other cycle.\<close>

definition run_reorganize :: "CkptEnv \<Rightarrow> string \<Rightarrow> ReorgMode \<Rightarrow> World \<Rightarrow> ((CkptError + unit) \<times> World) option" where
  "run_reorganize env t2_path mode wd =
     (if mode \<noteq> CheckpointMode \<and> si_append_size (kv_t1 (wd_store wd)) = 0 then Some (Inr (), wd)
      else reorganize_internal env t2_path mode wd)"

section \<open>What a cycle writes\<close>

lemma publish_shards_ok:
  "publish_shards calls as si w fs = Some (Inr cs, si', w', fs') \<Longrightarrow>
   \<exists>ess. checkpoint_shards as si = Some (ess, si') \<and> add_shards calls ess w fs = Some (Inr cs, w', fs')"
proof (induction as arbitrary: calls si w fs)
  case (Cons a as)
  let ?t = "sl_index (slot si a)"
  show ?case
  proof (cases "append_size ?t = 0")
    case True
    obtain cs1 w1 fs1 where s: "add_shard calls (dump_sorted_region ?t) w fs = Some (Inr cs1, w1, fs1)" "publish_shards cs1 as si w1 fs1 = Some (Inr cs, si', w', fs')"
      using Cons.prems True by (auto simp: Let_def split: option.splits sum.splits)
    obtain ess where h: "checkpoint_shards as si = Some (ess, si')" "add_shards cs1 ess w1 fs1 = Some (Inr cs, w', fs')"
      using Cons.IH [OF s(2)] by blast
    then show ?thesis using s(1) True by (intro exI [of _ "dump_sorted_region ?t # ess"]) (simp add: checkpoint_shard_def)
  next
    case False
    obtain t' merged where r: "reorganize (\<lambda>m. m) ?t = (t', Some merged)"
      using Cons.prems False by (cases "reorganize (\<lambda>m. m) ?t"; cases "snd (reorganize (\<lambda>m. m) ?t)") (auto simp: Let_def)
    let ?si = "upd_slot a (\<lambda>s. s\<lparr>sl_index := t', sl_tombstones := 0\<rparr>) si"
    obtain cs1 w1 fs1 where s: "add_shard calls merged w fs = Some (Inr cs1, w1, fs1)" "publish_shards cs1 as ?si w1 fs1 = Some (Inr cs, si', w', fs')"
      using Cons.prems False by (auto simp: Let_def r split: option.splits sum.splits)
    obtain ess where h: "checkpoint_shards as ?si = Some (ess, si')" "add_shards cs1 ess w1 fs1 = Some (Inr cs, w', fs')"
      using Cons.IH [OF s(2)] by blast
    have "reorganize_until_captured a si = Some (merged, upd_slot a (\<lambda>s. s\<lparr>sl_index := t'\<rparr>) si)"
      by (subst reorganize_until_captured.simps) (simp add: r)
    moreover have "upd_slot a (\<lambda>s. s\<lparr>sl_tombstones := 0\<rparr>) (upd_slot a (\<lambda>s. s\<lparr>sl_index := t'\<rparr>) si) = ?si" by (simp add: upd_slot_def)
    ultimately have "checkpoint_shard a si = Some (merged, ?si)" using False by (simp add: checkpoint_shard_def)
    then show ?thesis using s(1) h by (intro exI [of _ "merged # ess"]) simp
  qed
qed simp


lemma write_manifest_other:
  assumes "write_manifest calls o1 o2 o3 path gen used fs = Some (r, fs')" "p \<noteq> path" "p \<noteq> path @ ''.tmp''"
  shows "fs' p = fs p"
  using assms by (auto simp: write_manifest_def write_via_temp_then_rename_def Let_def split: if_splits option.splits sum.splits)

lemma paths_apart: "derive_t1_chk_path p \<noteq> derive_manifest_path p" "derive_t1_chk_path p \<noteq> derive_manifest_path p @ ''.tmp''"
  by (simp_all add: derive_t1_chk_path_def derive_manifest_path_def)

lemma finished_no_destroy:
  assumes "writer_finish calls o1 o2 bs w fs = Some (Inr cs, w', fs')"
  shows "writer_destroy w' fs'' = fs''"
  using assms by (auto simp: writer_finish_def writer_destroy_def Let_def split: if_splits option.splits sum.splits)

text \<open>A cycle that wrote everything.\<close>

lemma publish_files:
  assumes pub: "publish_t1_checkpoint env path lsn target si fs = Some (Inr (), si', fs')"
  obtains ess where "checkpoint_all_shards si = Some ((ess, bounds si), si')"
    "fs' (derive_t1_chk_path path) = Some (checkpoint_bytes (map (map to_chk_entry) ess) (bounds si))"
    "read_manifest (fs' (derive_manifest_path path)) = Some \<lparr>md_generation = lsn, md_t2_bytes_used = target\<rparr>"
proof -
  let ?p = "derive_t1_chk_path path"
  obtain w fs1 where o: "writer_open (ck_open_ok env) ?p fs = (Inr w, fs1)"
    using pub by (cases "writer_open (ck_open_ok env) ?p fs"; cases "fst (writer_open (ck_open_ok env) ?p fs)") (auto simp: publish_t1_checkpoint_def)
  obtain cs si1 w1 fs2 where p: "publish_shards (ck_calls env) (shards si) (si\<lparr>si_splits_paused := True\<rparr>) w fs1 = Some (Inr cs, si1, w1, fs2)"
    using pub by (auto simp: publish_t1_checkpoint_def o split: option.splits sum.splits)
  obtain cs2 w2 fs3 where f: "writer_finish cs (ck_fsync_ok env) (ck_rename_ok env) (bounds si) w1 fs2 = Some (Inr cs2, w2, fs3)"
    using pub by (auto simp: publish_t1_checkpoint_def o p Let_def split: option.splits sum.splits)
  obtain cs3 fs4 where m: "write_manifest cs2 (ck_manifest_open_ok env) (ck_manifest_fsync_ok env) (ck_manifest_rename_ok env)
      (derive_manifest_path path) lsn target fs3 = Some (Inr cs3, fs4)" and s': "si' = si1\<lparr>si_splits_paused := False\<rparr>" "fs' = fs4"
    using pub finished_no_destroy [OF f] by (auto simp: publish_t1_checkpoint_def o p f Let_def split: option.splits sum.splits)
  obtain ess where e: "checkpoint_shards (shards si) (si\<lparr>si_splits_paused := True\<rparr>) = Some (ess, si1)" "add_shards (ck_calls env) ess w fs1 = Some (Inr cs, w1, fs2)"
    using publish_shards_ok [OF p] by blast
  have c: "checkpoint_all_shards si = Some ((ess, bounds si), si')" by (simp add: checkpoint_all_shards_def e(1) s'(1))
  have "write_sharded_checkpoint (ck_calls env) (ck_open_ok env) (ck_fsync_ok env) (ck_rename_ok env) ?p ess (bounds si) fs = Some (Inr cs2, fs3)"
    using finished_no_destroy [OF f] by (simp add: write_sharded_checkpoint_def o e(2) f)
  from write_sharded_checkpoint_Inr [OF this] have "fs' ?p = Some (checkpoint_bytes (map (map to_chk_entry) ess) (bounds si))"
    using write_manifest_other [OF m paths_apart] by (simp add: s'(2))
  then show ?thesis using that [OF c] write_manifest_reads_back(1) [OF m] s'(2) by simp
qed

lemma publish_ok:
  assumes inv: "si_inv si" and pub: "publish_t1_checkpoint env path lsn target si fs = Some (Inr (), si', fs')"
  obtains ess where "list_all2 snapshot_for (map (index_of si) (shards si)) ess" "si_inv si'" "si_directory si' = si_directory si"
    "si_view si' = si_view si" "fs' (derive_t1_chk_path path) = Some (checkpoint_bytes (map (map to_chk_entry) ess) (bounds si))"
    "read_manifest (fs' (derive_manifest_path path)) = Some \<lparr>md_generation = lsn, md_t2_bytes_used = target\<rparr>"
    "checkpoint_all_shards si = Some ((ess, bounds si), si')"
proof -
  obtain ess where f: "checkpoint_all_shards si = Some ((ess, bounds si), si')"
    "fs' (derive_t1_chk_path path) = Some (checkpoint_bytes (map (map to_chk_entry) ess) (bounds si))"
    "read_manifest (fs' (derive_manifest_path path)) = Some \<lparr>md_generation = lsn, md_t2_bytes_used = target\<rparr>"
    by (rule publish_files [OF pub])
  obtain ess' si'' where a: "checkpoint_all_shards si = Some ((ess', bounds si), si'')" "list_all2 snapshot_for (map (index_of si) (shards si)) ess'"
    "si_inv si''" "si_directory si'' = si_directory si" "si_view si'' = si_view si"
    by (rule checkpoint_all_correct [OF inv])
  have eq: "ess' = ess" "si'' = si'" using a(1) f(1) by auto
  show ?thesis using that [OF a(2)] a(3-5) eq f by simp
qed

section \<open>A cycle whose system calls work succeeds\<close>

text \<open>Calls that are at worst interrupted and make progress at least \<open>k\<close> times.\<close>

definition able :: "nat \<Rightarrow> SysCall list \<Rightarrow> bool" where
  "able k calls \<longleftrightarrow> healthy calls \<and> k \<le> length (filter progresses calls)"

lemma write_all_exact_able:
  "able (length data + k) calls \<Longrightarrow> \<exists>cs. write_all_exact calls out data = Some (Inr cs, out @ data) \<and> able k cs"
proof (induction calls arbitrary: out data)
  case Nil
  then show ?case by (simp add: able_def)
next
  case (Cons c cs)
  show ?case
  proof (cases "data = []")
    case True
    then show ?thesis using Cons.prems by simp
  next
    case False
    show ?thesis
    proof (cases c)
      case Interrupted
      then show ?thesis using Cons.IH [of data out] Cons.prems False by (simp add: able_def healthy_def)
    next
      case SysFailed
      then show ?thesis using Cons.prems by (simp add: able_def healthy_def)
    next
      case (Transferred n)
      define m where "m = min n (length data)"
      have n: "0 < n" using Cons.prems Transferred by (auto simp: able_def healthy_def)
      then have m: "0 < m" "m \<le> length data" using False by (simp_all add: m_def)
      then have "able (length (drop m data) + k) cs" using Cons.prems Transferred n by (auto simp: able_def healthy_def)
      from Cons.IH [OF this, of "out @ take m data"] show ?thesis
        using Transferred False m by (simp add: m_def [symmetric] Let_def)
    qed
  qed
qed

lemma write_chunks_able:
  "able (length data + k) calls \<Longrightarrow> \<exists>cs. write_chunks calls out data = Some (Inr cs, out @ data) \<and> able k cs"
proof (induction calls out data rule: write_chunks.induct)
  case (1 calls out data)
  let ?c = "take kSyncIntervalBytes data" and ?d = "drop kSyncIntervalBytes data"
  show ?case
  proof (cases "data = []")
    case True
    then show ?thesis using 1(2) by (simp add: write_chunks.simps)
  next
    case False
    have "length ?c + (length ?d + k) = length data + k" by simp
    then have "able (length ?c + (length ?d + k)) calls" using 1(2) by metis
    then obtain cs where c: "write_all_exact calls out ?c = Some (Inr cs, out @ ?c)" "able (length ?d + k) cs"
      using write_all_exact_able by blast
    obtain cs' where "write_chunks cs (out @ ?c) ?d = Some (Inr cs', (out @ ?c) @ ?d)" "able k cs'"
      using 1(1) [OF False c(1) refl refl c(2)] by blast
    then show ?thesis by (subst write_chunks.simps) (simp add: False c(1))
  qed
qed

lemma temp_write_able:
  assumes "able (length data + k) calls"
  obtains cs fs' where "temp_write calls data w fs = Some (Inr cs, fs')" "able k cs"
  using write_all_exact_able [OF assms, of "the (fs (cw_temp_path w))"] by (auto simp: temp_write_def)

lemma add_shard_able:
  assumes a: "able (length (section_bytes (map to_chk_entry es)) + k) calls"
  obtains cs w' fs' where "add_shard calls es w fs = Some (Inr cs, w', fs')" "able k cs"
proof -
  let ?es = "map to_chk_entry es"
  have l: "length (section_bytes ?es) + k = length (u64_le (word_of_nat (length ?es))) + (length (concat (map chk_entry_bytes ?es)) + k)"
    by (simp add: section_bytes_def)
  obtain cs1 fs1 where t: "temp_write calls (u64_le (word_of_nat (length ?es))) w fs = Some (Inr cs1, fs1)"
    "able (length (concat (map chk_entry_bytes ?es)) + k) cs1"
    by (rule temp_write_able [OF a [unfolded l]])
  show ?thesis
  proof (cases "es = []")
    case True
    then show ?thesis using t that by (simp add: add_shard_def add_shard_entries_def Let_def)
  next
    case False
    let ?w = "w\<lparr>cw_checksum := fc_add (cw_checksum w) (u64_le (word_of_nat (length ?es)))\<rparr>"
    obtain cs2 fs2 where t2: "temp_write cs1 (concat (map chk_entry_bytes ?es)) ?w fs1 = Some (Inr cs2, fs2)" "able k cs2"
      by (rule temp_write_able [OF t(2)])
    then show ?thesis using t(1) False that unfolding add_shard_def add_shard_entries_def Let_def by simp
  qed
qed

lemma publish_shards_able:
  assumes "si_inv si" "set as \<subseteq> set (shards si)" "checkpoint_shards as si = Some (ess, si')"
    "able (length (sections_bytes (map (map to_chk_entry) ess)) + k) calls"
  obtains cs w' fs' where "publish_shards calls as si w fs = Some (Inr cs, si', w', fs')" "able k cs"
  using assms
proof (induction as arbitrary: si ess calls w fs thesis)
  case (Cons a as)
  let ?t = "index_of si a"
  have a: "a \<in> set (shards si)" using Cons.prems(3) by simp
  obtain es si1 where c: "checkpoint_shard a si = Some (es, si1)" "si_inv si1" "si_directory si1 = si_directory si"
    by (rule checkpoint_shard_correct [OF Cons.prems(2) a])
  obtain ess' where r: "checkpoint_shards as si1 = Some (ess', si')" "ess = es # ess'" using Cons.prems(4) c(1) by (auto split: bind_splits)
  have ab: "able (length (section_bytes (map to_chk_entry es)) + (length (sections_bytes (map (map to_chk_entry) ess')) + k)) calls"
    using Cons.prems(5) r(2) by (simp add: add.assoc)
  obtain cs1 w1 fs1 where s: "add_shard calls es w fs = Some (Inr cs1, w1, fs1)" "able (length (sections_bytes (map (map to_chk_entry) ess')) + k) cs1"
    by (rule add_shard_able [OF ab])
  have sub: "set as \<subseteq> set (shards si1)" using Cons.prems(3) c(3) by simp
  obtain cs w' fs' where p: "publish_shards cs1 as si1 w1 fs1 = Some (Inr cs, si', w', fs')" "able k cs"
    by (rule Cons.IH [OF _ c(2) sub r(1) s(2)])
  show ?case
  proof (cases "append_size ?t = 0")
    case True
    then have "es = dump_sorted_region ?t" "si1 = si" using c(1) by (auto simp: checkpoint_shard_def)
    then show ?thesis using Cons.prems(1) p s(1) True by (simp add: Let_def)
  next
    case False
    obtain t merged where m: "reorganize_until_captured a si = Some (merged, upd_slot a (\<lambda>s. s\<lparr>sl_index := t\<rparr>) si)"
      "reorganize (\<lambda>m. m) ?t = (t, Some merged)"
      by (rule reorganize_slot [OF si_slot(2) [OF Cons.prems(2) a]])
    have "es = merged" "si1 = upd_slot a (\<lambda>s. s\<lparr>sl_index := t, sl_tombstones := 0\<rparr>) si"
      using c(1) m(1) False by (auto simp: checkpoint_shard_def upd_slot_def)
    then show ?thesis using Cons.prems(1) p s(1) m(2) False by (simp add: Let_def)
  qed
qed simp

lemma writer_finish_able:
  assumes a: "able (length (concat bs) + (40 + k)) calls"
  obtains cs w' fs' where "writer_finish calls True True bs w fs = Some (Inr cs, w', fs')" "able k cs"
proof -
  obtain cs1 fs1 where t: "(if bs = [] then Some (Inr calls, fs) else temp_write calls (concat bs) w fs) = Some (Inr cs1, fs1)" "able (40 + k) cs1"
    using a temp_write_able [OF a, of w fs] by (cases "bs = []") auto
  let ?w = "if bs = [] then w else w\<lparr>cw_checksum := fc_add (cw_checksum w) (concat bs)\<rparr>"
  let ?h = "chk_header_bytes (trailer_of (length bs) ?w)"
  have "length ?h = 40" by (simp add: chk_header_bytes_def trailer_of_def Let_def)
  then obtain cs2 where c: "write_chunks cs1 (the (fs1 (cw_temp_path w))) ?h = Some (Inr cs2, the (fs1 (cw_temp_path w)) @ ?h)" "able k cs2"
    using write_chunks_able [of ?h k cs1] t(2) by metis
  show ?thesis using that c(2) unfolding writer_finish_def t(1) Let_def write_fsync_close_def option.case sum.case prod.case c(1) by simp
qed

lemma write_manifest_able:
  assumes a: "able 32 calls"
  obtains cs fs' where "write_manifest calls True True True path gen used fs = Some (Inr cs, fs')"
proof -
  define h where "h = \<lparr>mh_magic = kManifestMagic, mh_format_version = kManifestFormatVersion, mh_reserved = [0, 0, 0],
            mh_generation = gen, mh_t2_bytes_used = used, mh_checksum = 0\<rparr>"
  let ?b = "manifest_bytes (h\<lparr>mh_checksum := manifest_checksum h\<rparr>)"
  have "length ?b = 32" by (simp add: h_def manifest_bytes_def)
  then obtain cs where "write_chunks calls [] ?b = Some (Inr cs, [] @ ?b)" using write_chunks_able [of ?b 0 calls "[]"] a by auto
  then show ?thesis using that
    by (simp add: write_manifest_def write_via_temp_then_rename_def write_fsync_close_def Let_def h_def [symmetric])
qed

text \<open>The answers of a system that refuses nothing.\<close>

definition env_willing :: "CkptEnv \<Rightarrow> bool" where
  "env_willing env \<longleftrightarrow> ck_msync_ok env \<and> 0 < ck_page env \<and> ck_open_ok env \<and> ck_fsync_ok env \<and> ck_rename_ok env
     \<and> ck_manifest_open_ok env \<and> ck_manifest_fsync_ok env \<and> ck_manifest_rename_ok env \<and> ck_segment_open_ok env"

lemma publish_able:
  assumes p: "\<And>w fs. \<exists>cs w1 fs2. publish_shards (ck_calls env) (shards si) (si\<lparr>si_splits_paused := True\<rparr>) w fs = Some (Inr cs, si1, w1, fs2)
      \<and> able (length (concat (bounds si)) + (40 + 32)) cs"
    and ok: "env_willing env"
  obtains fs' where "publish_t1_checkpoint env path lsn target si fs = Some (Inr (), si1\<lparr>si_splits_paused := False\<rparr>, fs')"
proof -
  obtain w fs1 where o: "writer_open (ck_open_ok env) (derive_t1_chk_path path) fs = (Inr w, fs1)"
    using ok by (simp add: writer_open_def Let_def env_willing_def)
  obtain cs w1 fs2 where p: "publish_shards (ck_calls env) (shards si) (si\<lparr>si_splits_paused := True\<rparr>) w fs1 = Some (Inr cs, si1, w1, fs2)"
    "able (length (concat (bounds si)) + (40 + 32)) cs" using p [of w fs1] by blast
  obtain cs2 w2 fs3 where f: "writer_finish cs True True (bounds si) w1 fs2 = Some (Inr cs2, w2, fs3)" "able 32 cs2" by (rule writer_finish_able [OF p(2)])
  obtain cs3 fs4 where m: "write_manifest cs2 True True True (derive_manifest_path path) lsn target fs3 = Some (Inr cs3, fs4)"
    by (rule write_manifest_able [OF f(2)])
  show ?thesis
    by (rule that [of "writer_destroy w2 fs4"])
      (use o p(1) f(1) m ok in \<open>simp add: publish_t1_checkpoint_def Let_def env_willing_def\<close>)
qed

lemma checkpoint_able:
  fixes wd :: World
  defines "s \<equiv> wd_store wd"
  assumes p: "\<And>w fs. \<exists>cs w1 fs2. publish_shards (ck_calls env) (shards (kv_t1 s)) ((kv_t1 s)\<lparr>si_splits_paused := True\<rparr>) w fs = Some (Inr cs, si1, w1, fs2)
      \<and> able (length (concat (bounds (kv_t1 s))) + (40 + 32)) cs"
    and used: "tm_bytes_used (kv_t2 s) \<le> tm_capacity (kv_t2 s)" and ok: "env_willing env"
    and wal: "\<not> poisoned (kv_wal s)" "\<not> flushing (kv_wal s)" "Suc (wd_active wd) \<notin> fst ` set (wd_retired wd)"
  shows "\<exists>wd'. checkpoint_internal env path wd = Some (Inr (), wd')"
proof -
  let ?cap = "unat (tm_capacity (kv_t2 s))" and ?p = "ck_page env" and ?t1 = "si1\<lparr>si_splits_paused := False\<rparr>"
  have pg: "0 < ?p" using ok by (simp add: env_willing_def)
  have "?cap \<le> (?cap + ?p - 1) div ?p * ?p"
    using pg div_mult_mod_eq [of "?cap + ?p - 1" ?p] mod_less_divisor [OF pg, of "?cap + ?p - 1"] by linarith
  then have "\<exists>t2. msync_target_range True ?p (kv_t2 s) (tm_base_boundary (kv_t2 s)) (tm_bytes_used (kv_t2 s)) (wd_t2_file wd) = Some t2"
    using used by (auto simp: msync_target_range_def Let_def word_le_nat_alt)
  then obtain t2 where m: "msync_target_range True ?p (kv_t2 s) (tm_base_boundary (kv_t2 s)) (tm_bytes_used (kv_t2 s)) (wd_t2_file wd) = Some t2" by blast
  obtain fs where pu: "publish_t1_checkpoint env path (word_of_nat (next_lsn (kv_wal s)) - 1) (tm_bytes_used (kv_t2 s)) (kv_t1 s) (wd_files wd) = Some (Inr (), ?t1, fs)"
    by (rule publish_able [OF p ok])
  have "\<exists>wd2. rotate_log True (wd\<lparr>wd_store := (s\<lparr>kv_own := own, kv_t1 := ?t1, kv_t2 := mem\<rparr>), wd_files := fs, wd_t2_file := t2\<rparr>) = Some (Inr (), wd2)" for own mem
    using wal by (auto simp: rotate_log_def Let_def s_def)
  then obtain wd2 where r: "rotate_log True (wd\<lparr>wd_store := (s\<lparr>kv_own := claim_watermark (tm_bytes_used (kv_t2 s)) (kv_own s), kv_t1 := ?t1,
      kv_t2 := (kv_t2 s)\<lparr>tm_base_boundary := tm_bytes_used (kv_t2 s)\<rparr>\<rparr>), wd_files := fs, wd_t2_file := t2\<rparr>) = Some (Inr (), wd2)"
    by blast
  have "checkpoint_internal env path wd = Some (Inr (), wd2\<lparr>wd_checkpoint_count := wd_checkpoint_count wd2 + 1\<rparr>)"
    unfolding checkpoint_internal_def checkpoint_publish_def checkpoint_rotate_def Let_def s_def [symmetric] using ok
    by (simp add: capture_checkpoint_target_def m pu r env_willing_def)
  then show ?thesis by blast
qed

text \<open>A well-formed index, with as many progressing calls as both files have bytes.\<close>

lemma inv_able:
  assumes inv: "si_inv si" and c: "checkpoint_all_shards si = Some ((ess, bs), si')"
    and a: "able (length (checkpoint_bytes (map (map to_chk_entry) ess) bs) + 32) calls"
  obtains si1 where "\<And>w fs. \<exists>cs w1 fs2. publish_shards calls (shards si) (si\<lparr>si_splits_paused := True\<rparr>) w fs = Some (Inr cs, si1, w1, fs2)
      \<and> able (length (concat (bounds si)) + (40 + 32)) cs" "si' = si1\<lparr>si_splits_paused := False\<rparr>"
proof -
  let ?S = "map (map to_chk_entry) ess"
  obtain si1 where e: "checkpoint_shards (shards si) (si\<lparr>si_splits_paused := True\<rparr>) = Some (ess, si1)" "si' = si1\<lparr>si_splits_paused := False\<rparr>"
    and b: "bs = bounds si"
    using c by (auto simp: checkpoint_all_shards_def Let_def)
  have l: "length (checkpoint_bytes ?S bs) + 32 = length (sections_bytes ?S) + (length (concat bs) + (40 + 32))"
    by (simp add: checkpoint_bytes_def chk_header_bytes_def trailer_def)
  have "\<exists>cs w1 fs2. publish_shards calls (shards si) (si\<lparr>si_splits_paused := True\<rparr>) w fs = Some (Inr cs, si1, w1, fs2)
      \<and> able (length (concat bs) + (40 + 32)) cs" for w fs
    by (rule publish_shards_able [OF _ _ e(1) a [unfolded l]]) (use inv in auto)
  then show ?thesis using that e(2) b by blast
qed

section \<open>What loading a checkpoint gives\<close>

text \<open>The segment accounting, entry by entry.\<close>

lemma rebuild_inv:
  assumes "own_inv own m" "distinct (map es_ident es)" "\<forall>e \<in> set es. m (es_ident e) = None \<and> is_live (es_payload e)"
  shows "own_inv (rebuild_accounting (map to_chk_entry es) own) (m ++ keyed_map es_ident es_result es)"
  using assms
proof (induction es arbitrary: own m)
  case (Cons e es)
  let ?own = "note_replace STORE_NOT_FOUND 0 (\<not> is_inline (es_hash e)) (es_payload e) own"
  have st: "rebuild_accounting (map to_chk_entry (e # es)) own = rebuild_accounting (map to_chk_entry es) ?own"
    using Cons.prems(3) by (simp add: to_chk_entry_def is_live_def note_replace_def)
  have o: "own_inv ?own (m(es_ident e \<mapsto> es_result e))"
    by (rule note_replace_inv [OF Cons.prems(1)]) (use Cons.prems(3) in \<open>simp_all add: es_result_def\<close>)
  have n: "\<forall>ea \<in> set es. (m(es_ident e \<mapsto> es_result e)) (es_ident ea) = None \<and> is_live (es_payload ea)"
    using Cons.prems(2,3) by (metis fun_upd_apply image_eqI list.set_map distinct.simps(2) list.simps(9) list.set_intros(2))
  have d: "distinct (map es_ident es)" using Cons.prems(2) by simp
  note Cons.IH [OF o d n]
  moreover have "m(es_ident e \<mapsto> es_result e) ++ keyed_map es_ident es_result es = m ++ keyed_map es_ident es_result (e # es)"
    using Cons.prems(2) keyed_map_None [of es_ident es_result es "es_ident e"] by (auto simp: fun_eq_iff map_add_def split: option.splits)
  ultimately show ?case by (simp only: st)
qed simp

lemma snapshotD:
  assumes "snapshot_for t es"
  shows "shard_inv t" "distinct (map es_ident es)" "keyed_map es_ident es_result es = live_view t"
    "\<And>e. e \<in> set es \<Longrightarrow> es_ident e \<in> dom (live_view t) \<and> is_live (es_payload e) \<and> length (es_key e) = kStoreKeyBytes"
proof -
  show i: "shard_inv t" "distinct (map es_ident es)" "keyed_map es_ident es_result es = live_view t"
    using assms strict_map_distinct by (auto simp: snapshot_for_def)
  fix e
  assume e: "e \<in> set es"
  have "live_view t (es_ident e) = Some (es_result e)"
    unfolding i(3) [symmetric] keyed_map_Some [OF i(2)] using e by blast
  then show "es_ident e \<in> dom (live_view t) \<and> is_live (es_payload e) \<and> length (es_key e) = kStoreKeyBytes"
    using merged_keys(2) [OF i(3,1) e] by (auto simp: live_view_def live_only_Some es_result_def)
qed

text \<open>All sections: after the first \<open>j\<close> the counters stand for the entries routed to them.\<close>

lemma rebuild_all:
  assumes inv: "si_inv si" and ess: "list_all2 snapshot_for (map (index_of si) (shards si)) ess" and own: "own_inv own Map.empty"
  shows "own_inv (fold rebuild_accounting (map (map to_chk_entry) ess) own) (si_view si)"
proof -
  note d = si_invD(1) [OF inv]
  have len: "length ess = length (shards si)" using list_all2_lengthD [OF ess] by simp
  define part where "part j x = (if upper_bound (bounds si) (fst x) < j then si_view si x else None)" for j x
  have "j \<le> length ess \<Longrightarrow> own_inv (fold rebuild_accounting (map (map to_chk_entry) (take j ess)) own) (part j)" for j
  proof (induction j)
    case 0
    have "part 0 = Map.empty" by (simp add: part_def fun_eq_iff)
    then show ?case using own by simp
  next
    case (Suc j)
    let ?t = "index_of si (shards si ! j)"
    have j: "j < length ess" "j < length (shards si)" using Suc.prems len by simp_all
    have sn: "snapshot_for ?t (ess ! j)" using ess j by (auto simp: list_all2_conv_all_nth)
    note sd = snapshotD [OF sn]
    have rt: "upper_bound (bounds si) (fst x) = j" if "x \<in> dom (live_view ?t)" for x
      using si_routes [OF inv nth_mem [OF j(2)]] that route_iff [OF d j(2)] unfolding routes_to_def by blast
    have "own_inv (rebuild_accounting (map to_chk_entry (ess ! j)) (fold rebuild_accounting (map (map to_chk_entry) (take j ess)) own))
        (part j ++ keyed_map es_ident es_result (ess ! j))"
    proof (rule rebuild_inv [OF _ sd(2)])
      show "own_inv (fold rebuild_accounting (map (map to_chk_entry) (take j ess)) own) (part j)" using Suc by simp
      show "\<forall>e \<in> set (ess ! j). part j (es_ident e) = None \<and> is_live (es_payload e)"
        using sd(4) rt by (auto simp: part_def)
    qed
    moreover have "part j ++ keyed_map es_ident es_result (ess ! j) = part (Suc j)"
    proof
      fix x
      show "(part j ++ keyed_map es_ident es_result (ess ! j)) x = part (Suc j) x"
        unfolding sd(3) using rt [of x]
        by (cases "live_view ?t x") (auto simp: part_def map_add_def si_view_def route_nth domIff less_Suc_eq)
    qed
    ultimately show ?case using j by (simp add: take_Suc_conv_app_nth)
  qed
  from this [of "length ess"] have "own_inv (fold rebuild_accounting (map (map to_chk_entry) ess) own) (part (length ess))" by simp
  moreover have "part (length ess) = si_view si" using route_in(2) [OF d] len by (auto simp: part_def fun_eq_iff)
  ultimately show ?thesis by simp
qed

lemma load_caps:
  assumes "si_queue s0 = []" "0 < si_append_cap s0" "length ess = Suc (length bs)"
  shows "caps_ok (load_from_checkpoint bs ess s0)"
proof -
  obtain as s1 where l: "load_shards ess s0 = (as, s1)" by (cases "load_shards ess s0")
  note c = load_shards_correct [OF l]
  have "0 < append_capacity (sl_index (slot s1 (as ! j)))" if "j < length ess" for j
    using c that assms(2) by (simp add: ShardSlot_new_def loaded_shard_def append_capacity_def load_sorted_region_from_checkpoint_def
        T1Index_new_def note_append_region_created_def Let_def)
  moreover have "upper_bound bs k < length ess" for k using upper_bound_le [of bs k] assms(3) by simp
  ultimately show ?thesis by (simp add: caps_ok_def load_from_checkpoint_def l shard_for_def slot_def)
qed

text \<open>A T2 file whose used prefix is the memory's holds the same records.\<close>

lemma mem_read_prefix: "take u m = take u m' \<Longrightarrow> off + n \<le> u \<Longrightarrow> mem_read m off n = mem_read m' off n"
proof -
  assume e: "take u m = take u m'" and le: "off + n \<le> u"
  have "mem_read x off n = take n (drop off (take u x))" for x :: bytes
    using le by (simp add: mem_read_def drop_take min_def)
  then show ?thesis using e by simp
qed

lemma adopt_prefix:
  assumes inv: "t2_inv mem recs" and len: "length b = unat (tm_capacity mem)" and pre: "take (unat (tm_bytes_used mem)) b = take (unat (tm_bytes_used mem)) (tm_base mem)"
  shows "t2_inv (T2Memory_new b (tm_capacity mem) (tm_bytes_used mem)) recs"
    "\<And>p e. recs p = Some e \<Longrightarrow> t2_read (T2Memory_new b (tm_capacity mem) (tm_bytes_used mem)) p = t2_read mem p"
proof -
  let ?m = "T2Memory_new b (tm_capacity mem) (tm_bytes_used mem)"
  have f: "tm_base ?m = b" "tm_capacity ?m = tm_capacity mem" "tm_bytes_used ?m = tm_bytes_used mem" by (simp_all add: T2Memory_new_def)
  have eq: "mem_read (tm_base mem) p (24 + fst e + snd e) = mem_read b p (24 + fst e + snd e)" if "recs p = Some e" for p e
    by (rule mem_read_prefix [OF pre [symmetric]]) (use t2_invD(5) [OF inv that] in \<open>simp add: extent_end_def\<close>)
  have hd: "read_header b p = read_header (tm_base mem) p" if "recs p = Some e" for p e
    by (rule read_header_cong [OF sym]) (use mem_read_sub [OF eq [OF that], of 0 24] in simp)
  show "t2_inv ?m recs"
  proof (rule t2_inv_keep [OF inv])
    fix p e
    assume r: "recs p = Some e"
    show "vh_key_len (read_header (tm_base ?m) p) = vh_key_len (read_header (tm_base mem) p)
      \<and> vh_alloc_len (read_header (tm_base ?m) p) = vh_alloc_len (read_header (tm_base mem) p)
      \<and> unat (vh_value_len (read_header (tm_base ?m) p)) \<le> snd e \<and> even (vh_version (read_header (tm_base ?m) p))"
      using t2_invD(3,6) [OF inv r] unfolding f(1) hd [OF r] by blast
  qed (use f len t2_inv_len [OF inv] in simp_all)
  show "t2_read ?m p = t2_read mem p" if r: "recs p = Some e" for p e
    using record_view_cong [OF eq [OF r] refl t2_invD(1,3) [OF inv r]] off_u64 [OF inv r] by (simp add: t2_read_def t2_at_def f Let_def)
qed

lemma from_to_chk [simp]: "from_chk_entry (to_chk_entry e) = e"
  by (simp add: from_chk_entry_def to_chk_entry_def)

lemma load_correct:
  fixes w :: Wal
  assumes inv: "kv_inv sc recs" and ess: "list_all2 snapshot_for (map (index_of (kv_t1 sc)) (shards (kv_t1 sc))) ess"
    and cfg: "0 < cfg_append_cap cfg" "cfg_use_inline cfg = kv_use_inline sc"
    and t2: "length b = unat (tm_capacity (kv_t2 sc))"
      "take (unat (tm_bytes_used (kv_t2 sc))) b = take (unat (tm_bytes_used (kv_t2 sc))) (tm_base (kv_t2 sc))"
  defines "s0 \<equiv> VMemKV_init cfg (tm_capacity (kv_t2 sc)) (T2Memory_new b (tm_capacity (kv_t2 sc)) (tm_bytes_used (kv_t2 sc))) w"
  defines "s1 \<equiv> s0\<lparr>kv_own := fold rebuild_accounting (map (map to_chk_entry) ess) (kv_own s0),
    kv_t1 := load_from_checkpoint (bounds (kv_t1 sc)) ess (kv_t1 s0)\<rparr>"
  shows "kv_inv s1 recs" "kv_map s1 = kv_map sc" "kv_wal s1 = w" "tm_bytes_used (kv_t2 s1) = tm_bytes_used (kv_t2 sc)"
    "tm_capacity (kv_t2 s1) = tm_capacity (kv_t2 sc)"
proof -
  let ?m = "T2Memory_new b (tm_capacity (kv_t2 sc)) (tm_bytes_used (kv_t2 sc))"
  note d = kv_invD [OF inv] and a = adopt_prefix [OF kv_invD(2) [OF inv] t2]
  have s1: "kv_t2 s1 = ?m" "kv_use_inline s1 = kv_use_inline sc" "kv_wal s1 = w" by (simp_all add: s1_def s0_def VMemKV_init_def cfg(2))
  have q: "si_queue (kv_t1 s0) = []" "0 < si_append_cap (kv_t1 s0)" using cfg(1) by (simp_all add: s0_def VMemKV_init_def ShardedT1Index_new_def)
  note l = load_from_checkpoint_correct [OF d(1) ess q(1)]
  have t1: "kv_t1 s1 = load_from_checkpoint (bounds (kv_t1 sc)) ess (kv_t1 s0)" by (simp add: s1_def)
  have n: "length ess = Suc (length (bounds (kv_t1 sc)))"
    using list_all2_lengthD [OF ess] si_invD(1) [OF d(1)] by (simp add: dir_inv_def)
  have own: "own_inv (kv_own s1) (si_view (kv_t1 sc))"
    using rebuild_all [OF d(1) ess, of "kv_own s0"] own_inv_new by (simp add: s1_def s0_def VMemKV_init_def)
  have kv: "entry_kv ?m x r = entry_kv (kv_t2 sc) x r" if "si_view (kv_t1 sc) x = Some r" for x r
    by (rule entry_kv_cong) (use d(4) [OF that] a(2) in \<open>auto simp: entry_ok_def\<close>)
  have ok: "entry_ok (kv_use_inline sc) ?m recs x r" if "si_view (kv_t1 sc) x = Some r" for x r
    using d(4) [OF that] kv [OF that] by (auto simp: entry_ok_def)
  show "kv_inv s1 recs"
    unfolding kv_inv_def s1(1,2) t1 l(2) using l(1) load_caps [OF q n] a(1) own ok d(5) by (auto simp: T2Memory_new_def)
  show "kv_map s1 = kv_map sc"
  proof
    fix x
    show "kv_map s1 x = kv_map sc x" using kv [of x] by (cases "si_view (kv_t1 sc) x") (simp_all add: kv_map_def s1(1) t1 l(2))
  qed
  show "kv_wal s1 = w" by (rule s1(3))
  show "tm_bytes_used (kv_t2 s1) = tm_bytes_used (kv_t2 sc)" "tm_capacity (kv_t2 s1) = tm_capacity (kv_t2 sc)"
    by (simp_all add: s1(1) T2Memory_new_def)
qed

section \<open>A store's life\<close>

definition fresh_world :: "StoreConfig \<Rightarrow> u64 \<Rightarrow> World" where
  "fresh_world cfg cap = \<lparr>wd_store = VMemKV_init cfg cap (fresh_t2 cap) (Wal_start 1 []), wd_files = Map.empty,
     wd_t2_file = replicate (unat cap) 0, wd_retired = [], wd_active = 1, wd_checkpoint_count = 0\<rparr>"

text \<open>The boundaries of the directory are \<^verbatim>\<open>StoreKey\<close> arrays, and the file has a size the reader can address.\<close>

definition checkpoint_fits :: "string \<Rightarrow> World \<Rightarrow> World \<Rightarrow> bool" where
  "checkpoint_fits path wd wd' \<longleftrightarrow> (\<forall>b \<in> set (bounds (kv_t1 (wd_store wd))). length b = kT1ChkKeyPrefixBytes)
     \<and> length (the (wd_files wd' (derive_t1_chk_path path))) < 2 ^ 63"

text \<open>
  Calls run at any time, also while a cycle has published its checkpoint and not yet rotated the log
  (\<open>True\<close>): their records are newer than the checkpoint and land in the segment about to be retired.
\<close>

inductive life :: "bytes set \<Rightarrow> string \<Rightarrow> World \<Rightarrow> nat \<Rightarrow> bool \<Rightarrow> World \<Rightarrow> bool" for K path wd0 where
  born: "life K path wd0 0 False wd0"
| call: "life K path wd0 n cycle wd \<Longrightarrow> store_step io_recoverable K op (wd_store wd) r s' \<Longrightarrow> block_count (op_key op) (op_value op) < 65536
    \<Longrightarrow> life K path wd0 (Suc n) cycle (wd\<lparr>wd_store := s'\<rparr>)"
| publish: "life K path wd0 n False wd \<Longrightarrow> checkpoint_publish env path wd = Some (Inr (), wd') \<Longrightarrow> checkpoint_fits path wd wd'
    \<Longrightarrow> life K path wd0 (Suc n) True wd'"
| rotate: "life K path wd0 n True wd \<Longrightarrow> checkpoint_rotate env wd = Some (Inr (), wd') \<Longrightarrow> life K path wd0 (Suc n) False wd'"

text \<open>The checkpoint on disk, taken at a moment when the store held \<open>mc\<close>.\<close>

definition disk_base :: "string \<Rightarrow> World \<Rightarrow> kvs \<Rightarrow> bool" where
  "disk_base path wd mc \<longleftrightarrow>
     (let mem = kv_t2 (wd_store wd); used = tm_base_boundary mem
      in take (unat used) (wd_t2_file wd) = take (unat used) (tm_base mem) \<and>
         (case read_manifest (wd_files wd (derive_manifest_path path)) of
            None \<Rightarrow> mc = Map.empty \<and> used = 0
          | Some md \<Rightarrow> \<exists>sc recs ess. kv_inv sc recs \<and> kv_map sc = mc \<and> list_all2 snapshot_for (map (index_of (kv_t1 sc)) (shards (kv_t1 sc))) ess
              \<and> wd_files wd (derive_t1_chk_path path) = Some (checkpoint_bytes (map (map to_chk_entry) ess) (bounds (kv_t1 sc)))
              \<and> length (checkpoint_bytes (map (map to_chk_entry) ess) (bounds (kv_t1 sc))) < 2 ^ 63
              \<and> (\<forall>b \<in> set (bounds (kv_t1 sc)). length b = kT1ChkKeyPrefixBytes)
              \<and> md_t2_bytes_used md = used \<and> tm_bytes_used (kv_t2 sc) = used
              \<and> tm_capacity (kv_t2 sc) = tm_capacity mem \<and> kv_use_inline sc = kv_use_inline (wd_store wd)
              \<and> take (unat used) (tm_base (kv_t2 sc)) = take (unat used) (tm_base mem)))"

definition world_good :: "bytes set \<Rightarrow> string \<Rightarrow> StoreConfig \<Rightarrow> u64 \<Rightarrow> nat \<Rightarrow> bool \<Rightarrow> World \<Rightarrow> kvs \<Rightarrow> (nat \<times> WalRecord list) list \<Rightarrow> WalRecord list \<Rightarrow> bool" where
  "world_good K path cfg cap n cycle wd mc old rs \<longleftrightarrow> store_good K n (wd_store wd) rs
     \<and> (poisoned (kv_wal (wd_store wd)) \<or> kv_map (wd_store wd) = log_map (concat (map snd old) @ rs) mc)
     \<and> (cycle \<longrightarrow> poisoned (kv_wal (wd_store wd)) \<or> kv_map (wd_store wd) = log_map rs mc)
     \<and> wd_retired wd = map segment_of old \<and> (\<forall>gr \<in> set old. Suc (fst gr) = wd_active wd \<and> records_ok (snd gr))
     \<and> (\<forall>r \<in> set (concat (map snd old) @ rs). (wr_type r \<noteq> WalDelete \<longrightarrow> record_small r) \<and> wr_key r \<in> K)
     \<and> dom mc \<subseteq> ident_of ` K \<and> disk_base path wd mc \<and> 0 < wd_active wd \<and> length (wd_t2_file wd) = unat cap
     \<and> tm_capacity (kv_t2 (wd_store wd)) = cap \<and> kv_use_inline (wd_store wd) = cfg_use_inline cfg"

lemma fresh_world_good:
  assumes "keys_apart K" "0 < cfg_append_cap cfg" "unat cap \<le> 2 ^ 48" "n < 2 ^ 40"
  shows "world_good K path cfg cap n False (fresh_world cfg cap) Map.empty [] []"
proof -
  note i = fresh_init [OF assms(2,3), of "Wal_start 1 []"]
  have "read_manifest None = None" by (simp add: read_manifest_def)
  then show ?thesis
    using fresh_good [OF assms] i by (simp add: world_good_def fresh_world_def disk_base_def Let_def fresh_t2_inv)
qed

text \<open>Calls.\<close>

lemma disk_base_frame:
  assumes "disk_base path wd mc" "kv_frame (wd_store wd) s'"
  shows "disk_base path (wd\<lparr>wd_store := s'\<rparr>) mc"
proof -
  have f: "tm_base_boundary (kv_t2 s') = tm_base_boundary (kv_t2 (wd_store wd))" "tm_capacity (kv_t2 s') = tm_capacity (kv_t2 (wd_store wd))"
    "kv_use_inline s' = kv_use_inline (wd_store wd)"
    "take (unat (tm_base_boundary (kv_t2 (wd_store wd)))) (tm_base (kv_t2 s')) = take (unat (tm_base_boundary (kv_t2 (wd_store wd)))) (tm_base (kv_t2 (wd_store wd)))"
    using assms(2) unfolding kv_frame_def base_region_def by metis+
  show ?thesis using assms(1) unfolding disk_base_def Let_def
    by (cases "read_manifest (wd_files wd (derive_manifest_path path))") (simp_all add: f)
qed

lemma call_good:
  assumes g: "world_good K path cfg cap (Suc n) cycle wd mc old rs" and st: "store_step io_recoverable K op (wd_store wd) r s'"
    and b: "block_count (op_key op) (op_value op) < 65536"
  shows "\<exists>rs'. world_good K path cfg cap n cycle (wd\<lparr>wd_store := s'\<rparr>) mc old rs'"
proof -
  have sg: "store_good K (Suc n) (wd_store wd) rs" using g by (simp add: world_good_def)
  note o = step_outcome [OF sg st]
  have db: "disk_base path (wd\<lparr>wd_store := s'\<rparr>) mc" using g o(4) disk_base_frame by (simp add: world_good_def)
  have fr: "tm_capacity (kv_t2 s') = cap" "kv_use_inline s' = cfg_use_inline cfg" using g o(4) by (simp_all add: world_good_def kv_frame_def)
  show ?thesis
  proof (cases "r = Inr True")
    case True
    obtain lsn where a: "\<not> poisoned (kv_wal (wd_store wd))" "fst (spec_op op (kv_map (wd_store wd)))" "kv_map s' = snd (spec_op op (kv_map (wd_store wd)))"
      "store_good K n s' (rs @ [op_record op lsn])"
      using step_acked [OF sg st [unfolded True]] by blast
    have m: "kv_map s' = log_map (concat (map snd old) @ rs @ [op_record op lsn]) mc"
      "cycle \<longrightarrow> kv_map s' = log_map (rs @ [op_record op lsn]) mc"
      using a(1,3) spec_op_record [OF a(2), of lsn] g by (auto simp: world_good_def)
    have "record_small (op_record op lsn)" "wr_key (op_record op lsn) \<in> K"
      using o(2,3) b by (simp_all add: record_small_def op_record_def op_fits_def)
    then show ?thesis using g a(4) m db fr by (intro exI [of _ "rs @ [op_record op lsn]"]) (auto simp: world_good_def)
  next
    case False
    note na = step_not_acked(1) [OF sg st False]
    then show ?thesis using g db fr by (intro exI [of _ rs]) (auto simp: world_good_def)
  qed
qed

text \<open>Checkpoints.\<close>

lemma checkpoint_shard_caps:
  assumes inv: "si_inv si" and a: "a \<in> set (shards si)" and c: "checkpoint_shard a si = Some (es, si1)"
  shows "append_capacity (index_of si1 b) = append_capacity (index_of si b)"
proof (cases "append_size (index_of si a) = 0")
  case True
  then show ?thesis using c by (simp add: checkpoint_shard_def)
next
  case False
  obtain t merged where m: "reorganize_until_captured a si = Some (merged, upd_slot a (\<lambda>s. s\<lparr>sl_index := t\<rparr>) si)"
    "t1_append_cap t = t1_append_cap (index_of si a)"
    by (rule reorganize_slot [OF si_slot(2) [OF inv a]])
  then show ?thesis using c False by (auto simp: checkpoint_shard_def append_capacity_def)
qed

lemma checkpoint_shards_caps:
  assumes "si_inv si" "set as \<subseteq> set (shards si)" "checkpoint_shards as si = Some (ess, si1)"
  shows "append_capacity (index_of si1 b) = append_capacity (index_of si b)"
  using assms
proof (induction as arbitrary: si ess)
  case (Cons a as)
  have a: "a \<in> set (shards si)" using Cons.prems(2) by simp
  obtain es si2 where c: "checkpoint_shard a si = Some (es, si2)" "si_inv si2" "si_directory si2 = si_directory si"
    by (rule checkpoint_shard_correct [OF Cons.prems(1) a])
  obtain ess' where r: "checkpoint_shards as si2 = Some (ess', si1)" using Cons.prems(3) c(1) by (auto split: bind_splits)
  have sub: "set as \<subseteq> set (shards si2)" using Cons.prems(2) c(3) by simp
  show ?case using Cons.IH [OF c(2) sub r] checkpoint_shard_caps [OF Cons.prems(1) a c(1)] by simp
qed simp

lemma checkpoint_all_caps:
  assumes inv: "si_inv si" and c: "checkpoint_all_shards si = Some (w, si')" and d: "si_directory si' = si_directory si" and ok: "caps_ok si"
  shows "caps_ok si'"
proof -
  obtain ess si1 where e: "checkpoint_shards (shards si) (si\<lparr>si_splits_paused := True\<rparr>) = Some (ess, si1)" "si' = si1\<lparr>si_splits_paused := False\<rparr>"
    using c by (auto simp: checkpoint_all_shards_def Let_def)
  have "append_capacity (index_of si1 b) = append_capacity (index_of (si\<lparr>si_splits_paused := True\<rparr>) b)" for b
    by (rule checkpoint_shards_caps [OF _ _ e(1)]) (use inv in simp_all)
  then have "append_capacity (index_of si' b) = append_capacity (index_of si b)" for b by (simp add: e(2) slot_def)
  then show ?thesis using ok d by (simp add: caps_ok_def)
qed

text \<open>After \<^verbatim>\<open>msync\<close> the used prefix is on disk.\<close>

lemma msync_prefix:
  assumes m: "msync_target_range ok page mem old target t2 = Some t2'" and le: "unat old \<le> unat target"
    and pre: "take (unat old) t2 = take (unat old) (tm_base mem)" and len: "length t2 = length (tm_base mem)"
  shows "take (unat target) t2' = take (unat target) (tm_base mem)" "length t2' = length t2"
proof -
  let ?a = "unat old - unat old mod page"
  have "take (unat target) t2' = take (unat target) (tm_base mem) \<and> length t2' = length t2"
  proof (cases "target \<le> old")
    case True
    then have "unat target = unat old" using le by (simp add: word_le_nat_alt)
    then show ?thesis using m True pre by (simp add: msync_target_range_def)
  next
    case False
    have t: "t2' = mem_write t2 ?a (mem_read (tm_base mem) ?a (unat target - ?a))"
      using m False by (auto simp: msync_target_range_def Let_def split: if_splits)
    have a: "?a \<le> unat old" "?a \<le> unat target" using le by simp_all
    have p: "take ?a t2 = take ?a (tm_base mem)" using arg_cong [OF pre, of "take ?a"] a(1) by (simp add: min_def)
    have "take ?a (tm_base mem) @ take (unat target - ?a) (drop ?a (tm_base mem)) = take (unat target) (tm_base mem)"
      using a(2) by (metis le_add_diff_inverse take_add)
    then have e: "t2' = take (unat target) (tm_base mem) @ drop (?a + length (take (unat target - ?a) (drop ?a (tm_base mem)))) t2"
      unfolding t mem_write_def mem_read_def p by (metis append.assoc)
    show ?thesis using e len a by (auto simp: min_def)
  qed
  then show "take (unat target) t2' = take (unat target) (tm_base mem)" "length t2' = length t2" by blast+
qed

lemma own_inv_watermark [simp]: "own_inv (own\<lparr>own_watermark := x\<rparr>) m = own_inv own m"
  by (simp add: own_inv_def segment_count_def seg_live_def contrib_def in_segment_def seg_index_def)

text \<open>A publication that succeeded, phase by phase.\<close>

lemma publish_phases:
  assumes "checkpoint_publish env path wd = Some (Inr (), wd')"
  obtains t2_file t1 fs where
    "msync_target_range (ck_msync_ok env) (ck_page env) (kv_t2 (wd_store wd)) (tm_base_boundary (kv_t2 (wd_store wd))) (tm_bytes_used (kv_t2 (wd_store wd))) (wd_t2_file wd) = Some t2_file"
    "publish_t1_checkpoint env path (word_of_nat (next_lsn (kv_wal (wd_store wd))) - 1) (tm_bytes_used (kv_t2 (wd_store wd))) (kv_t1 (wd_store wd)) (wd_files wd) = Some (Inr (), t1, fs)"
    "wd' = wd\<lparr>wd_store := (wd_store wd)\<lparr>kv_own := (kv_own (wd_store wd))\<lparr>own_watermark := tm_bytes_used (kv_t2 (wd_store wd))\<rparr>,
        kv_t1 := t1, kv_t2 := (kv_t2 (wd_store wd))\<lparr>tm_base_boundary := tm_bytes_used (kv_t2 (wd_store wd))\<rparr>\<rparr>, wd_files := fs, wd_t2_file := t2_file\<rparr>"
proof -
  let ?s = "wd_store wd"
  obtain t2_file where m: "msync_target_range (ck_msync_ok env) (ck_page env) (kv_t2 ?s) (tm_base_boundary (kv_t2 ?s)) (tm_bytes_used (kv_t2 ?s)) (wd_t2_file wd) = Some t2_file"
    using assms by (auto simp: checkpoint_publish_def Let_def capture_checkpoint_target_def claim_watermark_def split: option.splits)
  obtain t1 fs where p: "publish_t1_checkpoint env path (word_of_nat (next_lsn (kv_wal ?s)) - 1) (tm_bytes_used (kv_t2 ?s)) (kv_t1 ?s) (wd_files wd) = Some (Inr (), t1, fs)"
    using assms by (auto simp: checkpoint_publish_def Let_def capture_checkpoint_target_def claim_watermark_def m split: option.splits sum.splits)
  note a = assms [unfolded checkpoint_publish_def Let_def capture_checkpoint_target_def claim_watermark_def, simplified, unfolded m, simplified, unfolded p, simplified]
  show ?thesis using a by (auto intro!: that [OF m p])
qed

lemma checkpoint_phases:
  assumes "checkpoint_internal env path wd = Some (Inr (), wd')"
  obtains t2_file t1 fs wd2 where
    "msync_target_range (ck_msync_ok env) (ck_page env) (kv_t2 (wd_store wd)) (tm_base_boundary (kv_t2 (wd_store wd))) (tm_bytes_used (kv_t2 (wd_store wd))) (wd_t2_file wd) = Some t2_file"
    "publish_t1_checkpoint env path (word_of_nat (next_lsn (kv_wal (wd_store wd))) - 1) (tm_bytes_used (kv_t2 (wd_store wd))) (kv_t1 (wd_store wd)) (wd_files wd) = Some (Inr (), t1, fs)"
    "rotate_log (ck_segment_open_ok env) (wd\<lparr>wd_store := (wd_store wd)\<lparr>kv_own := (kv_own (wd_store wd))\<lparr>own_watermark := tm_bytes_used (kv_t2 (wd_store wd))\<rparr>,
        kv_t1 := t1, kv_t2 := (kv_t2 (wd_store wd))\<lparr>tm_base_boundary := tm_bytes_used (kv_t2 (wd_store wd))\<rparr>\<rparr>, wd_files := fs, wd_t2_file := t2_file\<rparr>) = Some (Inr (), wd2)"
    "wd' = wd2\<lparr>wd_checkpoint_count := wd_checkpoint_count wd2 + 1\<rparr>"
proof -
  obtain wd1 where p: "checkpoint_publish env path wd = Some (Inr (), wd1)" "checkpoint_rotate env wd1 = Some (Inr (), wd')"
    using assms by (auto simp: checkpoint_internal_def split: option.splits sum.splits)
  obtain wd2 where r: "rotate_log (ck_segment_open_ok env) wd1 = Some (Inr (), wd2)" "wd' = wd2\<lparr>wd_checkpoint_count := wd_checkpoint_count wd2 + 1\<rparr>"
    using p(2) by (auto simp: checkpoint_rotate_def split: option.splits sum.splits)
  show ?thesis by (rule publish_phases [OF p(1)]) (use r that in blast)
qed

lemma rotate_ok:
  assumes "rotate_log ok wd = Some (Inr (), wd')" "\<forall>gb \<in> set (wd_retired wd). Suc (fst gb) = wd_active wd" "0 < wd_active wd"
  shows "wd' = wd\<lparr>wd_store := (wd_store wd)\<lparr>kv_wal := (kv_wal (wd_store wd))\<lparr>segment := [], synced := 0\<rparr>\<rparr>,
      wd_retired := [(wd_active wd, segment (kv_wal (wd_store wd)))], wd_active := Suc (wd_active wd)\<rparr>"
    "\<not> poisoned (kv_wal (wd_store wd))"
proof -
  have f: "filter (\<lambda>(g, _). g \<noteq> Suc (wd_active wd) - 2) (wd_retired wd @ [(wd_active wd, b)]) = [(wd_active wd, b)]" for b
    using assms(2,3) by (auto simp: filter_empty_conv)
  show "wd' = wd\<lparr>wd_store := (wd_store wd)\<lparr>kv_wal := (kv_wal (wd_store wd))\<lparr>segment := [], synced := 0\<rparr>\<rparr>,
      wd_retired := [(wd_active wd, segment (kv_wal (wd_store wd)))], wd_active := Suc (wd_active wd)\<rparr>"
    "\<not> poisoned (kv_wal (wd_store wd))"
    using assms(1,3) f by (auto simp: rotate_log_def Let_def split: if_splits)
qed

lemma publish_good:
  assumes g: "world_good K path cfg cap (Suc n) False wd mc old rs" and c: "checkpoint_publish env path wd = Some (Inr (), wd')"
    and fits: "checkpoint_fits path wd wd'"
  shows "world_good K path cfg cap n True wd' (kv_map (wd_store wd)) old rs" "kv_map (wd_store wd') = kv_map (wd_store wd)"
proof -
  let ?s = "wd_store wd"
  let ?u = "tm_bytes_used (kv_t2 ?s)"
  have sg: "store_good K (Suc n) ?s rs" using g by (simp add: world_good_def)
  obtain recs where inv: "kv_inv ?s recs" using sg by (auto simp: store_good_def)
  note d = kv_invD [OF inv]
  obtain t2_file t1 fs where p:
    "msync_target_range (ck_msync_ok env) (ck_page env) (kv_t2 ?s) (tm_base_boundary (kv_t2 ?s)) ?u (wd_t2_file wd) = Some t2_file"
    "publish_t1_checkpoint env path (word_of_nat (next_lsn (kv_wal ?s)) - 1) ?u (kv_t1 ?s) (wd_files wd) = Some (Inr (), t1, fs)"
    "wd' = wd\<lparr>wd_store := ?s\<lparr>kv_own := (kv_own ?s)\<lparr>own_watermark := ?u\<rparr>,
        kv_t1 := t1, kv_t2 := (kv_t2 ?s)\<lparr>tm_base_boundary := ?u\<rparr>\<rparr>, wd_files := fs, wd_t2_file := t2_file\<rparr>"
    by (rule publish_phases [OF c])
  obtain ess where e: "list_all2 snapshot_for (map (index_of (kv_t1 ?s)) (shards (kv_t1 ?s))) ess" "si_inv t1" "si_directory t1 = si_directory (kv_t1 ?s)"
    "si_view t1 = si_view (kv_t1 ?s)" "fs (derive_t1_chk_path path) = Some (checkpoint_bytes (map (map to_chk_entry) ess) (bounds (kv_t1 ?s)))"
    "read_manifest (fs (derive_manifest_path path)) = Some \<lparr>md_generation = word_of_nat (next_lsn (kv_wal ?s)) - 1, md_t2_bytes_used = ?u\<rparr>"
    "checkpoint_all_shards (kv_t1 ?s) = Some ((ess, bounds (kv_t1 ?s)), t1)"
    by (rule publish_ok [OF d(1) p(2)])
  let ?s' = "wd_store wd'"
  have s': "?s' = ?s\<lparr>kv_own := (kv_own ?s)\<lparr>own_watermark := ?u\<rparr>, kv_t1 := t1, kv_t2 := (kv_t2 ?s)\<lparr>tm_base_boundary := ?u\<rparr>\<rparr>"
    by (simp add: p(3))
  have wd': "wd_files wd' = fs" "wd_t2_file wd' = t2_file" "wd_retired wd' = wd_retired wd" "wd_active wd' = wd_active wd"
    by (simp_all add: p(3))
  have ek: "entry_kv ((kv_t2 ?s)\<lparr>tm_base_boundary := ?u\<rparr>) = entry_kv (kv_t2 ?s)" by (simp add: entry_kv_def t2_read_def t2_at_def fun_eq_iff)
  show km: "kv_map ?s' = kv_map ?s" by (simp add: kv_map_def s' e(4) ek fun_eq_iff)
  have t2i: "t2_inv ((kv_t2 ?s)\<lparr>tm_base_boundary := ?u\<rparr>) recs"
    by (rule t2_inv_keep [OF d(2)]) (use t2_invD(3,6) [OF d(2)] in simp_all)
  have inv': "kv_inv ?s' recs"
    using d checkpoint_all_caps [OF d(1) e(7) e(3) d(7)] e(2) t2i unfolding kv_inv_def s' by (simp add: e(4) entry_ok_def ek)
  have log: "poisoned (kv_wal ?s) \<or> kv_map ?s = log_map (concat (map snd old) @ rs) (kv_map ?s) \<and> kv_map ?s = log_map rs (kv_map ?s)"
    using g log_map_again [of "concat (map snd old) @ rs" mc] log_map_again [of rs "log_map (concat (map snd old)) mc"]
    by (auto simp: world_good_def)
  have sg': "store_good K n ?s' rs"
    using sg inv' km unfolding store_good_def by (auto simp: s')
  have lenb: "length (tm_base (kv_t2 ?s)) = unat cap" "length (wd_t2_file wd) = unat cap" using t2_inv_len [OF d(2)] g by (simp_all add: world_good_def)
  have pre: "take (unat (tm_base_boundary (kv_t2 ?s))) (wd_t2_file wd) = take (unat (tm_base_boundary (kv_t2 ?s))) (tm_base (kv_t2 ?s))"
    using g by (simp add: world_good_def disk_base_def Let_def)
  note ms = msync_prefix [OF p(1) d(6) pre]
  have db: "disk_base path wd' (kv_map ?s)"
    unfolding disk_base_def Let_def wd' e(6) option.case
    using inv e(1,5) fits ms(1) lenb by (auto simp: s' checkpoint_fits_def wd')
  have dm: "dom (kv_map ?s) \<subseteq> ident_of ` K" using sg by (simp add: store_good_def)
  have lp: "poisoned (kv_wal ?s') \<or> kv_map ?s' = log_map (concat (map snd old) @ rs) (kv_map ?s) \<and> kv_map ?s' = log_map rs (kv_map ?s)"
    using log unfolding km by (simp add: s')
  show "world_good K path cfg cap n True wd' (kv_map ?s) old rs"
    using g sg' lp db ms(2) lenb dm unfolding world_good_def wd' by (auto simp: s')
qed

lemma rotate_good:
  assumes g: "world_good K path cfg cap (Suc n) True wd mc old rs" and c: "checkpoint_rotate env wd = Some (Inr (), wd')"
  shows "world_good K path cfg cap n False wd' mc [(wd_active wd, rs)] []" "kv_map (wd_store wd') = kv_map (wd_store wd)"
proof -
  let ?s = "wd_store wd"
  obtain wd2 where r: "rotate_log (ck_segment_open_ok env) wd = Some (Inr (), wd2)" "wd' = wd2\<lparr>wd_checkpoint_count := wd_checkpoint_count wd2 + 1\<rparr>"
    using c by (auto simp: checkpoint_rotate_def split: option.splits sum.splits)
  have ret: "\<forall>gb \<in> set (wd_retired wd). Suc (fst gb) = wd_active wd" "0 < wd_active wd"
    using g by (auto simp: world_good_def segment_of_def)
  note ro = rotate_ok [OF r(1) ret]
  have s': "wd_store wd' = ?s\<lparr>kv_wal := (kv_wal ?s)\<lparr>segment := [], synced := 0\<rparr>\<rparr>" using ro(1) r(2) by simp
  have wd': "wd_files wd' = wd_files wd" "wd_t2_file wd' = wd_t2_file wd" "wd_retired wd' = [(wd_active wd, segment (kv_wal ?s))]" "wd_active wd' = Suc (wd_active wd)"
    using ro(1) r(2) by simp_all
  show km: "kv_map (wd_store wd') = kv_map ?s" unfolding s' by simp
  have sg: "store_good K (Suc n) ?s rs" "kv_map ?s = log_map rs mc" using g ro(2) by (auto simp: world_good_def)
  have seg: "segment (kv_wal ?s) = log_bytes rs" "records_ok rs" using sg(1) by (simp_all add: store_good_def wal_quiet_def)
  have sg': "store_good K n (wd_store wd') []"
    using sg(1) km ro(2) unfolding store_good_def by (auto simp: s' records_ok_def wal_quiet_def)
  have "disk_base path wd mc" using g by (simp add: world_good_def)
  then have db: "disk_base path wd' mc"
    unfolding disk_base_def Let_def wd' s' by (cases "read_manifest (wd_files wd (derive_manifest_path path))") simp_all
  have lp: "kv_map (wd_store wd') = log_map (concat (map snd [(wd_active wd, rs)]) @ []) mc" using sg(2) km by simp
  show "world_good K path cfg cap n False wd' mc [(wd_active wd, rs)] []"
    using g sg' lp db seg unfolding world_good_def wd' by (auto simp: segment_of_def s')
qed

lemma life_good:
  assumes "life K path wd0 n cycle wd" "world_good K path cfg cap (n + m) False wd0 mc0 old0 rs0"
  shows "\<exists>mc old rs. world_good K path cfg cap m cycle wd mc old rs"
  using assms
proof (induction arbitrary: m rule: life.induct)
  case born
  then show ?case by auto
next
  case (call n cycle wd op r s')
  obtain mc old rs where "world_good K path cfg cap (Suc m) cycle wd mc old rs" using call.IH [of "Suc m"] call.prems by auto
  from call_good [OF this call.hyps(2,3)] show ?case by blast
next
  case (publish n wd env wd')
  obtain mc old rs where "world_good K path cfg cap (Suc m) False wd mc old rs" using publish.IH [of "Suc m"] publish.prems by auto
  from publish_good(1) [OF this publish.hyps(2,3)] show ?case by blast
next
  case (rotate n wd env wd')
  obtain mc old rs where "world_good K path cfg cap (Suc m) True wd mc old rs" using rotate.IH [of "Suc m"] rotate.prems by auto
  from rotate_good(1) [OF this rotate.hyps(2)] show ?case by blast
qed

section \<open>Opening again\<close>

text \<open>Before the replay the store holds what the checkpoint held.\<close>

lemma loaded_store:
  fixes w :: Wal
  assumes base: "disk_base path wd mc" and cap: "0 < cap" "unat cap \<le> 2 ^ 48" "tm_capacity (kv_t2 (wd_store wd)) = cap"
    and cfg: "0 < cfg_append_cap cfg" "kv_use_inline (wd_store wd) = cfg_use_inline cfg" and res: "\<And>n. can_reserve n"
    and t2: "length t2 = unat cap" "take (unat (tm_base_boundary (kv_t2 (wd_store wd)))) t2 = take (unat (tm_base_boundary (kv_t2 (wd_store wd)))) (wd_t2_file wd)"
  obtains mem s1 recs where "T2FlatFile_open t2 cap (adopted_t2_bytes_used (wd_files wd (derive_manifest_path path))) = Inr mem"
    "load_checkpoint_if_present can_reserve (wd_files wd (derive_manifest_path path)) (wd_files wd (derive_t1_chk_path path)) (VMemKV_init cfg cap mem w) = Inr s1"
    "kv_inv s1 recs" "kv_map s1 = mc" "kv_wal s1 = w" "tm_bytes_used (kv_t2 s1) = tm_base_boundary (kv_t2 (wd_store wd))" "tm_capacity (kv_t2 s1) = cap"
proof (cases "read_manifest (wd_files wd (derive_manifest_path path))")
  case None
  have b: "mc = Map.empty" "tm_base_boundary (kv_t2 (wd_store wd)) = 0" using base None by (simp_all add: disk_base_def Let_def)
  note i = fresh_init [OF cfg(1) cap(2), of w]
  have "cap \<noteq> 0" using cap(1) by auto
  then have "T2FlatFile_open t2 cap None = Inr (fresh_t2 cap)"
    using cap(2) by (simp add: T2FlatFile_open_def create_empty_file_def map_file_def fresh_t2_def)
  then show ?thesis
    by (intro that [of "fresh_t2 cap" "VMemKV_init cfg cap (fresh_t2 cap) w" Map.empty])
      (use i b None in \<open>simp_all add: adopted_t2_bytes_used_def load_checkpoint_if_present_def fresh_t2_inv\<close>)
next
  case (Some md)
  let ?u = "tm_base_boundary (kv_t2 (wd_store wd))"
  obtain sc recs ess where sc: "kv_inv sc recs" "kv_map sc = mc" "list_all2 snapshot_for (map (index_of (kv_t1 sc)) (shards (kv_t1 sc))) ess"
    "wd_files wd (derive_t1_chk_path path) = Some (checkpoint_bytes (map (map to_chk_entry) ess) (bounds (kv_t1 sc)))"
    "length (checkpoint_bytes (map (map to_chk_entry) ess) (bounds (kv_t1 sc))) < 2 ^ 63"
    "\<forall>b \<in> set (bounds (kv_t1 sc)). length b = kT1ChkKeyPrefixBytes"
    "md_t2_bytes_used md = ?u" "tm_bytes_used (kv_t2 sc) = ?u" "tm_capacity (kv_t2 sc) = cap" "kv_use_inline sc = cfg_use_inline cfg"
    "take (unat ?u) (tm_base (kv_t2 sc)) = take (unat ?u) (wd_t2_file wd)"
    using base Some cap(3) cfg(2) by (auto simp: disk_base_def Let_def)
  have n: "length ess = Suc (length (bounds (kv_t1 sc)))"
    using list_all2_lengthD [OF sc(3)] si_invD(1) [OF kv_invD(1) [OF sc(1)]] by (simp add: dir_inv_def)
  have "\<forall>es \<in> set ess. \<exists>t. snapshot_for t es" using sc(3) by (metis list_all2_conv_all_nth in_set_conv_nth)
  then have wf: "\<forall>es \<in> set (map (map to_chk_entry) ess). \<forall>e \<in> set es. entry_wf e"
    using snapshotD(4) by (fastforce simp: entry_wf_def to_chk_entry_def kT1ChkKeyPrefixBytes_def kStoreKeyBytes_def)
  obtain f where f: "ShardedT1CheckpointFile_open can_reserve (wd_files wd (derive_t1_chk_path path)) = Inr f"
    "map (shard_entries f) [0..<cf_shard_count f] = map (map to_chk_entry) ess" "cf_boundary_keys f = bounds (kv_t1 sc)"
    unfolding sc(4) by (rule checkpoint_reads_back [OF wf sc(6) _ sc(5), of can_reserve]) (use n res in simp_all)
  let ?m = "T2Memory_new t2 cap ?u"
  have o: "T2FlatFile_open t2 cap (adopted_t2_bytes_used (wd_files wd (derive_manifest_path path))) = Inr ?m"
    using Some t2(1) by (simp add: adopted_t2_bytes_used_def T2FlatFile_open_def map_file_def sc(7))
  have t2': "take (unat (tm_bytes_used (kv_t2 sc))) t2 = take (unat (tm_bytes_used (kv_t2 sc))) (tm_base (kv_t2 sc))" "length t2 = unat (tm_capacity (kv_t2 sc))"
    using t2 sc(8,9,11) by simp_all
  note l = load_correct [OF sc(1,3) cfg(1) sc(10) [symmetric] t2'(2,1), of w, unfolded sc(8,9)]
  have mm: "map (map from_chk_entry) (map (map to_chk_entry) ess) = ess" by (simp add: comp_def)
  show ?thesis
    by (rule that [OF o _ l(1) l(2) [unfolded sc(2)] l(3-5)])
      (use Some f mm in \<open>simp add: load_checkpoint_if_present_def Let_def del: map_map\<close>)
qed

lemma cost_bytes: "record_wf r \<Longrightarrow> replay_cost r \<le> length (record_bytes r)"
proof -
  assume "record_wf r"
  then have "unat (record_len (wr_key r) (wr_value r)) = aligned_size (24 + length (wr_key r) + length (wr_value r))"
    by (intro record_len_unat) (simp add: record_wf_def)
  then show ?thesis
    using aligned_size_bounds(2) [of "24 + length (wr_key r) + length (wr_value r)"]
    by (simp add: replay_cost_def length_record_bytes kWalRecordHeaderBytes_def)
qed

lemma costs_bytes: "records_ok rs \<Longrightarrow> sum_list (map replay_cost rs) \<le> length (log_bytes rs)"
proof (induction rs)
  case (Cons r rs)
  have "records_ok rs" "record_wf r" using Cons.prems by (simp_all add: records_ok_def)
  then show ?case using Cons.IH cost_bytes [of r] by simp
qed simp

lemma open_world:
  fixes wd :: World and rec :: WalRecord
  assumes g: "world_good K path cfg cap 0 cycle wd mc old rs" and cap: "0 < cap" and cfg: "0 < cfg_append_cap cfg" and res: "\<And>n. can_reserve n"
    and t2: "length t2 = unat cap" "take (unat (tm_base_boundary (kv_t2 (wd_store wd)))) t2 = take (unat (tm_base_boundary (kv_t2 (wd_store wd)))) (wd_t2_file wd)"
    and rec: "wr_key rec \<in> K" "record_small rec" "0 < wr_lsn rec" "n \<le> length (record_bytes rec)"
    and room: "unat (tm_base_boundary (kv_t2 (wd_store wd))) + length (log_bytes (concat (map snd old) @ rs)) + length (record_bytes rec) \<le> unat cap"
  defines "kept \<equiv> concat (map snd old) @ (if n = length (record_bytes rec) then rs @ [rec] else rs)"
  shows "\<exists>wss s2 recs. VMemKV_open can_reserve wss cfg cap
       \<lparr>dk_manifest = wd_files wd (derive_manifest_path path), dk_t1_chk = wd_files wd (derive_t1_chk_path path), dk_t2 = t2,
        dk_wal = wd_retired wd @ [(wd_active wd, segment (kv_wal (wd_store wd)) @ take n (record_bytes rec))]\<rparr> = Some (Inr s2)
    \<and> kv_inv s2 recs \<and> kv_map s2 = log_map kept mc"
proof -
  let ?s = "wd_store wd" and ?all = "concat (map snd old)"
  have sg: "keys_apart K" "wal_quiet (kv_wal ?s) rs" "records_ok rs" "\<exists>recs. kv_inv ?s recs" using g by (auto simp: world_good_def store_good_def)
  have w: "wd_retired wd = map segment_of old" "\<forall>gr \<in> set old. fst gr \<noteq> wd_active wd \<and> records_ok (snd gr)" "dom mc \<subseteq> ident_of ` K"
    "disk_base path wd mc" "tm_capacity (kv_t2 ?s) = cap" "kv_use_inline ?s = cfg_use_inline cfg"
    and sm: "\<forall>r \<in> set (?all @ rs). (wr_type r \<noteq> WalDelete \<longrightarrow> record_small r) \<and> wr_key r \<in> K"
    using g by (auto simp: world_good_def)
  have cap48: "unat cap \<le> 2 ^ 48" using sg(4) w(5) kv_invD(5) by metis
  have seg: "segment (kv_wal ?s) @ take n (record_bytes rec) = take (length (log_bytes rs) + n) (log_bytes (rs @ [rec]))"
    using sg(2) by (simp add: wal_quiet_def)
  have ok: "records_ok (rs @ [rec])" using sg(3) rec(2,3) by (simp add: records_ok_def record_small_def record_wf_def)
  have nle: "length (log_bytes rs) + n \<le> length (log_bytes (rs @ [rec]))" using rec(4) by simp
  let ?k = "if n = length (record_bytes rec) then rs @ [rec] else rs"
  note wo = Wal_open_torn [OF w(2) ok nle, unfolded complete_last [OF rec(4)], folded w(1) seg]
  have okk: "records_ok ?k" using sg(3) ok by simp
  then have rp: "replay_segments (map segment_of (old @ [(wd_active wd, ?k)])) = Inr (map replay_call kept)"
    using replay_segments_complete [of "old @ [(wd_active wd, ?k)]"] w(2) by (auto simp: kept_def)
  define wal where "wal = Wal_start (unat (last_lsn 0 (?all @ ?k) + 1)) (log_bytes ?k)"
  obtain mem s1 recs where l: "T2FlatFile_open t2 cap (adopted_t2_bytes_used (wd_files wd (derive_manifest_path path))) = Inr mem"
    "load_checkpoint_if_present can_reserve (wd_files wd (derive_manifest_path path)) (wd_files wd (derive_t1_chk_path path)) (VMemKV_init cfg cap mem wal) = Inr s1"
    "kv_inv s1 recs" "kv_map s1 = mc" "kv_wal s1 = wal" "tm_bytes_used (kv_t2 s1) = tm_base_boundary (kv_t2 ?s)" "tm_capacity (kv_t2 s1) = cap"
    by (rule loaded_store [OF w(4) cap cap48 w(5) cfg w(6) res t2])
  have kk: "records_ok kept" "wr_key ` set kept \<subseteq> K" "\<forall>r \<in> set kept. wr_type r \<noteq> WalDelete \<longrightarrow> record_small r"
    using w(2) okk sm rec(1,2) by (auto simp: kept_def records_ok_def)
  have "length (log_bytes kept) \<le> length (log_bytes (?all @ rs)) + length (record_bytes rec)" by (simp add: kept_def)
  then have room': "unat (tm_bytes_used (kv_t2 s1)) + sum_list (map replay_cost kept) \<le> unat (tm_capacity (kv_t2 s1))"
    using costs_bytes [OF kk(1)] room unfolding l(6,7) by linarith
  have dm: "dom (kv_map s1) \<subseteq> ident_of ` K" using w(3) l(4) by simp
  obtain wss s2 recs2 where r: "recover_from_wal wss (map replay_call kept) s1 = Some (Inr (), s2)" "kv_inv s2 recs2" "kv_map s2 = log_map kept mc"
    using recover_correct [OF sg(1) dm l(3) kk(2,3) room'] l(4) by auto
  have "snd (last (map segment_of (old @ [(wd_active wd, ?k)]))) = log_bytes ?k" by (simp add: segment_of_def)
  then have "VMemKV_open can_reserve wss cfg cap
       \<lparr>dk_manifest = wd_files wd (derive_manifest_path path), dk_t1_chk = wd_files wd (derive_t1_chk_path path), dk_t2 = t2,
        dk_wal = wd_retired wd @ [(wd_active wd, segment (kv_wal ?s) @ take n (record_bytes rec))]\<rparr> = Some (Inr s2)"
    unfolding VMemKV_open_def Disk.simps l(1) sum.case wo WalOpen.simps rp
    using l(2) r(1) by (simp add: wal_def Let_def)
  then show ?thesis using r(2,3) by blast
qed

lemma segments_bytes: "sum_list (map (\<lambda>gb. length (snd gb)) (map segment_of old)) = length (log_bytes (concat (map snd old)))"
  by (induction old) (simp_all add: segment_of_def)

text \<open>
  C1: the durability cycle of the store. Take any life of a new store: inserts, updates and removes
  with whatever outcomes, as long as \<^verbatim>\<open>fstat\<close> and \<^verbatim>\<open>ftruncate\<close> of the log answer (\<open>io_recoverable\<close>),
  and any number of checkpoints, each of which syncs T2, merges the index, replaces the index
  checkpoint and the manifest, and later rotates the log and deletes the segment before the last.
  Calls also run between the publication and the rotation of a cycle; their records are newer than
  the checkpoint and sit in the segment the rotation retires. Let the log still be open, and let the
  machine stop while one more record is being written, inside or outside a cycle, with any number of
  its bytes on disk and anything in T2 above the base boundary. When the log segments on disk fit T2
  behind that boundary, opening the store succeeds, and it holds exactly the contents it had, with
  the change in flight when its record is complete. So no rotation deletes a record the checkpoint
  lacks.
\<close>

theorem checkpoint_recovery:
  fixes wd :: World and rec :: WalRecord
  assumes "life K path (fresh_world cfg cap) N cycle wd" "keys_apart K" "0 < cfg_append_cap cfg" "0 < cap" "unat cap \<le> 2 ^ 48" "N < 2 ^ 40"
    and "\<not> poisoned (kv_wal (wd_store wd))" "\<forall>n. can_reserve n"
    and "length t2 = unat cap" "take (unat (tm_base_boundary (kv_t2 (wd_store wd)))) t2 = take (unat (tm_base_boundary (kv_t2 (wd_store wd)))) (wd_t2_file wd)"
    and "wr_key rec \<in> K" "record_small rec" "0 < wr_lsn rec" "n \<le> length (record_bytes rec)"
    and "unat (tm_base_boundary (kv_t2 (wd_store wd))) + sum_list (map (\<lambda>gb. length (snd gb)) (wd_retired wd))
      + length (segment (kv_wal (wd_store wd))) + length (record_bytes rec) \<le> unat cap"
  shows "\<exists>wss s2 recs. VMemKV_open can_reserve wss cfg cap
       \<lparr>dk_manifest = wd_files wd (derive_manifest_path path), dk_t1_chk = wd_files wd (derive_t1_chk_path path), dk_t2 = t2,
        dk_wal = wd_retired wd @ [(wd_active wd, segment (kv_wal (wd_store wd)) @ take n (record_bytes rec))]\<rparr> = Some (Inr s2)
    \<and> kv_inv s2 recs
    \<and> kv_map s2 = (if n = length (record_bytes rec) then apply_record rec (kv_map (wd_store wd)) else kv_map (wd_store wd))"
proof -
  have "world_good K path cfg cap (N + 0) False (fresh_world cfg cap) Map.empty [] []"
    using fresh_world_good [OF assms(2,3,5)] assms(6) by simp
  from life_good [OF assms(1) this] obtain mc old rs where g: "world_good K path cfg cap 0 cycle wd mc old rs" by blast
  have m: "kv_map (wd_store wd) = log_map (concat (map snd old) @ rs) mc" "wd_retired wd = map segment_of old"
    "segment (kv_wal (wd_store wd)) = log_bytes rs"
    using g assms(7) by (auto simp: world_good_def store_good_def wal_quiet_def)
  have room: "unat (tm_base_boundary (kv_t2 (wd_store wd))) + length (log_bytes (concat (map snd old) @ rs)) + length (record_bytes rec) \<le> unat cap"
    using assms(15) unfolding m(2,3) segments_bytes by simp
  have k: "log_map (concat (map snd old) @ (if n = length (record_bytes rec) then rs @ [rec] else rs)) mc
      = (if n = length (record_bytes rec) then apply_record rec (kv_map (wd_store wd)) else kv_map (wd_store wd))"
    by (simp add: m(1))
  show ?thesis using open_world [OF g assms(4,3) _ assms(9-14) room, of can_reserve] assms(8) unfolding k by blast
qed

text \<open>A checkpoint of the empty store with an insert before its rotation.\<close>

definition demo_env :: CkptEnv where
  "demo_env = \<lparr>ck_msync_ok = True, ck_page = 4096, ck_calls = replicate 80 (Transferred 1), ck_open_ok = True, ck_fsync_ok = True, ck_rename_ok = True,
     ck_manifest_open_ok = True, ck_manifest_fsync_ok = True, ck_manifest_rename_ok = True, ck_segment_open_ok = True\<rparr>"

lemma demo_sections: "checkpoint_all_shards (kv_t1 demo_store) = Some (([[]], []), kv_t1 demo_store)"
proof -
  have "append_size (T1Index_new False 4) = 0" "dump_sorted_region (T1Index_new False 4) = []" by code_simp+
  then show ?thesis
    by (simp add: checkpoint_all_shards_def demo_store_def VMemKV_init_def demo_config_def ShardedT1Index_new_def checkpoint_shard_def slot_def ShardSlot_new_def)
qed

lemma demo_publish:
  obtains wd where "checkpoint_publish demo_env path (fresh_world demo_config 4096) = Some (Inr (), wd)"
    "checkpoint_fits path (fresh_world demo_config 4096) wd" "kv_t1 (wd_store wd) = kv_t1 demo_store" "kv_wal (wd_store wd) = kv_wal demo_store"
    "tm_bytes_used (kv_t2 (wd_store wd)) = 0" "tm_base_boundary (kv_t2 (wd_store wd)) = 0" "wd_retired wd = []" "wd_active wd = 1"
proof -
  let ?w = "fresh_world demo_config 4096"
  have s: "wd_store ?w = demo_store" "wd_retired ?w = []" "wd_active ?w = 1" by (simp_all add: fresh_world_def demo_store_def)
  have len: "length (checkpoint_bytes [[]] []) = 48"
    by (simp add: checkpoint_bytes_def section_bytes_def chk_header_bytes_def trailer_def)
  have ab: "able (length (checkpoint_bytes (map (map to_chk_entry) [[]]) []) + 32) (ck_calls demo_env)"
    using len by (simp add: able_def healthy_def demo_env_def)
  obtain si1 where p: "\<And>w fs. \<exists>cs w1 fs2. publish_shards (ck_calls demo_env) (shards (kv_t1 demo_store)) ((kv_t1 demo_store)\<lparr>si_splits_paused := True\<rparr>) w fs = Some (Inr cs, si1, w1, fs2)
      \<and> able (length (concat (bounds (kv_t1 demo_store))) + (40 + 32)) cs"
    by (rule inv_able [OF kv_invD(1) [OF demo_state(1)] demo_sections ab]) blast
  have "\<exists>wd. checkpoint_internal demo_env path ?w = Some (Inr (), wd)"
    by (rule checkpoint_able [of demo_env ?w si1, unfolded s, OF p]) (use demo_state in \<open>simp_all add: demo_env_def env_willing_def wal_quiet_def\<close>)
  then obtain wd where c: "checkpoint_publish demo_env path ?w = Some (Inr (), wd)"
    by (auto simp: checkpoint_internal_def split: option.splits sum.splits)
  obtain t2_file t1 fs where p:
    "publish_t1_checkpoint demo_env path (word_of_nat (next_lsn (kv_wal demo_store)) - 1) (tm_bytes_used (kv_t2 demo_store)) (kv_t1 demo_store) (wd_files ?w) = Some (Inr (), t1, fs)"
    "wd = ?w\<lparr>wd_store := demo_store\<lparr>kv_own := (kv_own demo_store)\<lparr>own_watermark := tm_bytes_used (kv_t2 demo_store)\<rparr>,
        kv_t1 := t1, kv_t2 := (kv_t2 demo_store)\<lparr>tm_base_boundary := tm_bytes_used (kv_t2 demo_store)\<rparr>\<rparr>, wd_files := fs, wd_t2_file := t2_file\<rparr>"
    by (rule publish_phases [OF c, unfolded s]) (rule that)
  obtain ess where e: "fs (derive_t1_chk_path path) = Some (checkpoint_bytes (map (map to_chk_entry) ess) (bounds (kv_t1 demo_store)))"
    "checkpoint_all_shards (kv_t1 demo_store) = Some ((ess, bounds (kv_t1 demo_store)), t1)"
    by (rule publish_ok [OF kv_invD(1) [OF demo_state(1)] p(1)])
  have t: "ess = [[]]" "bounds (kv_t1 demo_store) = []" "t1 = kv_t1 demo_store" using e(2) demo_sections by auto
  show ?thesis
    by (rule that [OF c]) (use p(2) demo_state e(1) t len s in \<open>simp_all add: checkpoint_fits_def\<close>)
qed

theorem checkpoint_recovery_witness:
  "\<exists>wd1 s' wd wss s2. checkpoint_publish demo_env ''t2'' (fresh_world demo_config 4096) = Some (Inr (), wd1)
     \<and> exec_op [io_good] [[1]] (OpInsert [7] [1, 2, 3]) (wd_store wd1) = Some (Inr True, s')
     \<and> checkpoint_rotate demo_env (wd1\<lparr>wd_store := s'\<rparr>) = Some (Inr (), wd)
     \<and> VMemKV_open (\<lambda>_. True) wss demo_config 4096
         \<lparr>dk_manifest = wd_files wd (derive_manifest_path ''t2''), dk_t1_chk = wd_files wd (derive_t1_chk_path ''t2''), dk_t2 = wd_t2_file wd,
          dk_wal = wd_retired wd @ [(wd_active wd, segment (kv_wal (wd_store wd)) @ take 5 (record_bytes \<lparr>wr_type = WalDelete, wr_lsn = 2, wr_key = [7], wr_value = []\<rparr>))]\<rparr>
         = Some (Inr s2)
     \<and> kv_map s2 = [ident_of [7] \<mapsto> ([7], [1, 2, 3])]"
proof -
  let ?w0 = "fresh_world demo_config 4096" and ?op = "OpInsert [7] [1, 2, 3]" and ?K = "{[7 :: byte]}"
  let ?rec = "\<lparr>wr_type = WalDelete, wr_lsn = 2, wr_key = [7], wr_value = []\<rparr>"
  obtain wd1 where c: "checkpoint_publish demo_env ''t2'' ?w0 = Some (Inr (), wd1)" "checkpoint_fits ''t2'' ?w0 wd1"
    "kv_t1 (wd_store wd1) = kv_t1 demo_store" "kv_wal (wd_store wd1) = kv_wal demo_store" "tm_bytes_used (kv_t2 (wd_store wd1)) = 0"
    "tm_base_boundary (kv_t2 (wd_store wd1)) = 0" "wd_retired wd1 = []" "wd_active wd1 = 1"
    by (rule demo_publish)
  have k: "keys_apart ?K" "0 < cfg_append_cap demo_config" by (simp_all add: keys_apart_def demo_config_def)
  have "world_good ?K ''t2'' demo_config 4096 (Suc 1) False ?w0 Map.empty [] []" by (rule fresh_world_good [OF k]) simp_all
  note g = publish_good [OF this c(1,2)]
  have "wd_store ?w0 = demo_store" by (simp add: fresh_world_def demo_store_def)
  then have m: "kv_map (wd_store wd1) = Map.empty" using g(2) demo_state(2) by simp
  have g1: "store_good ?K 1 (wd_store wd1) []" "tm_capacity (kv_t2 (wd_store wd1)) = 4096" "length (wd_t2_file wd1) = 4096"
    using g(1) by (simp_all add: world_good_def)
  obtain recs where inv: "kv_inv (wd_store wd1) recs" and q: "wal_quiet (kv_wal (wd_store wd1)) []" using g1(1) by (auto simp: store_good_def)
  have b: "block_count [7] [1, 2, 3] < 65536" "unat (record_len [7] [1, 2, 3]) = 32" "block_count [7] [] < 65536" by code_simp+
  have un: "unique_prefixes (si_view (kv_t1 (wd_store wd1)))" using demo_unique c(3) by simp
  have np: "\<not> poisoned (kv_wal (wd_store wd1))" using c(4) demo_state by simp
  obtain s' where e: "exec_op [io_good] [[1]] ?op (wd_store wd1) = Some (Inr True, s')"
    "logged_outcome io_good [] (next_record WalInsert [7] [1, 2, 3] (kv_wal (wd_store wd1))) [ident_of [7] \<mapsto> ([7], [1, 2, 3])] (wd_store wd1) (Inr True) s'"
    by (rule op_succeeds [OF inv un _ _ _ q io_good_flawless np, of ?op 1 "[]"])
      (use that m b c(3,5) g1(2) demo_state(4) in \<open>simp_all add: op_fits_def\<close>)
  have s': "kv_map s' = [ident_of [7] \<mapsto> ([7], [1, 2, 3])]" "\<not> poisoned (kv_wal s')" "tm_base_boundary (kv_t2 s') = 0" "\<not> flushing (kv_wal s')"
    "segment (kv_wal s') = record_bytes (next_record WalInsert [7] [1, 2, 3] (kv_wal (wd_store wd1)))"
    using e(2) c(6) by (simp_all add: logged_outcome_def kv_frame_def wal_quiet_def)
  let ?wd1 = "wd1\<lparr>wd_store := s'\<rparr>"
  let ?wd = "wd1\<lparr>wd_store := s'\<lparr>kv_wal := (kv_wal s')\<lparr>segment := [], synced := 0\<rparr>\<rparr>, wd_retired := [(1, segment (kv_wal s'))], wd_active := 2,
      wd_checkpoint_count := wd_checkpoint_count wd1 + 1\<rparr>"
  have ro: "checkpoint_rotate demo_env ?wd1 = Some (Inr (), ?wd)"
    using s'(2,4) c(7,8) by (simp add: checkpoint_rotate_def rotate_log_def demo_env_def Let_def)
  have "store_step io_recoverable ?K ?op (wd_store wd1) (Inr True) s'" using e(1) io_good_flawless by (auto simp: store_step_def op_fits_def io_flawless_def)
  then have "life ?K ''t2'' ?w0 (Suc (Suc 0)) True ?wd1" by (rule life.call [OF life.publish [OF life.born c(1,2)]]) (use b in simp)
  then have lf: "life ?K ''t2'' ?w0 (Suc (Suc (Suc 0))) False ?wd" by (rule life.rotate) (rule ro)
  have l: "length (record_bytes ?rec) = 33" "length (segment (kv_wal s')) = 36" by (simp_all add: s'(5) length_record_bytes kWalRecordHeaderBytes_def next_record_def)
  note r = checkpoint_recovery [OF lf k, of "\<lambda>_. True" "wd_t2_file wd1" ?rec 5]
  have "\<exists>wss s2 recs. VMemKV_open (\<lambda>_. True) wss demo_config 4096
       \<lparr>dk_manifest = wd_files ?wd (derive_manifest_path ''t2''), dk_t1_chk = wd_files ?wd (derive_t1_chk_path ''t2''), dk_t2 = wd_t2_file wd1,
        dk_wal = wd_retired ?wd @ [(wd_active ?wd, segment (kv_wal (wd_store ?wd)) @ take 5 (record_bytes ?rec))]\<rparr> = Some (Inr s2)
      \<and> kv_inv s2 recs \<and> kv_map s2 = (if 5 = length (record_bytes ?rec) then apply_record ?rec (kv_map (wd_store ?wd)) else kv_map (wd_store ?wd))"
    by (rule r) (use s' l b g1(3) in \<open>simp_all add: record_small_def\<close>)
  then obtain wss s2 where o: "VMemKV_open (\<lambda>_. True) wss demo_config 4096
       \<lparr>dk_manifest = wd_files ?wd (derive_manifest_path ''t2''), dk_t1_chk = wd_files ?wd (derive_t1_chk_path ''t2''), dk_t2 = wd_t2_file ?wd,
        dk_wal = wd_retired ?wd @ [(wd_active ?wd, segment (kv_wal (wd_store ?wd)) @ take 5 (record_bytes ?rec))]\<rparr> = Some (Inr s2)"
    "kv_map s2 = [ident_of [7] \<mapsto> ([7], [1, 2, 3])]"
    using s'(1) l(1) by auto
  show ?thesis by (intro exI conjI) (rule c(1) e(1) ro o)+
qed

end
