(* ===== verification/Checkpoint_Failure.thy ===== *)
theory Checkpoint_Failure
  imports Checkpoint_Cycle
begin

text \<open>
  What a checkpoint that fails inside the merge of a shard leaves behind. Shown: the entries of that
  shard's append region stay readable but are missing from every later checkpoint, so that two later
  successful checkpoints delete the only durable copy of them.
\<close>

section \<open>An abandoned merge\<close>

lemma abandoned_state:
  assumes "\<not> t1_reorg_in_progress t" "t1_active t < t1_next_gen t"
  shows "t1_reorg_in_progress (abandoned t)" "append_size (abandoned t) = 0" "sorted_cur (abandoned t) = sorted_cur t"
  using assms
  by (simp_all add: abandoned_def eval_nat_numeral reorg_prepare_def note_append_region_created_def
      Let_def append_size_def ar_size_def ag_new_def ar_new_def)

lemma abandoned_shard:
  assumes "shard_inv t"
  shows "live_view (abandoned t) = live_view t" "append_size (abandoned t) = 0" "dump_sorted_region (abandoned t) = dump_sorted_region t"
    "reorganize (\<lambda>m. m) (abandoned t) = (abandoned t, None)"
proof -
  note d = shard_invD [OF assms]
  have "t1_active t < t1_next_gen t" using d(2) by (simp add: t1_inv_def)
  note a = abandoned_state [OF d(6) this]
  show "live_view (abandoned t) = live_view t" using reorg_run_inv [OF d(1), of 5] by (simp add: abandoned_def)
  show "append_size (abandoned t) = 0" "dump_sorted_region (abandoned t) = dump_sorted_region t"
    "reorganize (\<lambda>m. m) (abandoned t) = (abandoned t, None)"
    using a by (simp_all add: dump_sorted_region_def reorganize_def)
qed

text \<open>The first write of a section fails.\<close>

lemma add_shard_fails: "add_shard (SysFailed # cs) es w fs = Some (Inl SysError, w, fs(cw_temp_path w \<mapsto> the (fs (cw_temp_path w))))"
  by (simp add: add_shard_def add_shard_entries_def temp_write_def Let_def u64_le_def)

text \<open>A store of one shard that has never merged, and its world.\<close>

definition unmerged :: "nat \<Rightarrow> World \<Rightarrow> bool" where
  "unmerged a wd \<longleftrightarrow> si_directory (kv_t1 (wd_store wd)) = \<lparr>dir_boundaries = [], dir_shards = [a]\<rparr>
     \<and> dump_sorted_region (index_of (kv_t1 (wd_store wd)) a) = []"

definition log_ready :: "World \<Rightarrow> bool" where
  "log_ready wd \<longleftrightarrow> \<not> poisoned (kv_wal (wd_store wd)) \<and> \<not> flushing (kv_wal (wd_store wd)) \<and> 0 < wd_active wd
     \<and> (\<forall>g \<in> fst ` set (wd_retired wd). Suc g = wd_active wd)"

definition t2_ready :: "World \<Rightarrow> bool" where
  "t2_ready wd \<longleftrightarrow> (let mem = kv_t2 (wd_store wd)
     in tm_bytes_used mem \<le> tm_capacity mem \<and> tm_base_boundary mem \<le> tm_bytes_used mem \<and> length (tm_base mem) = unat (tm_capacity mem)
        \<and> length (wd_t2_file wd) = length (tm_base mem)
        \<and> take (unat (tm_base_boundary mem)) (wd_t2_file wd) = take (unat (tm_base_boundary mem)) (tm_base mem))"

lemma msync_returns:
  assumes "t2_ready wd" "0 < page"
  obtains t2 where "msync_target_range True page (kv_t2 (wd_store wd)) (tm_base_boundary (kv_t2 (wd_store wd))) (tm_bytes_used (kv_t2 (wd_store wd))) (wd_t2_file wd) = Some t2"
    "take (unat (tm_bytes_used (kv_t2 (wd_store wd)))) t2 = take (unat (tm_bytes_used (kv_t2 (wd_store wd)))) (tm_base (kv_t2 (wd_store wd)))"
    "length t2 = length (wd_t2_file wd)"
proof -
  let ?m = "kv_t2 (wd_store wd)" and ?cap = "unat (tm_capacity (kv_t2 (wd_store wd)))"
  have r: "tm_bytes_used ?m \<le> tm_capacity ?m" "unat (tm_base_boundary ?m) \<le> unat (tm_bytes_used ?m)" "length (wd_t2_file wd) = length (tm_base ?m)"
    "take (unat (tm_base_boundary ?m)) (wd_t2_file wd) = take (unat (tm_base_boundary ?m)) (tm_base ?m)"
    using assms(1) by (simp_all add: t2_ready_def Let_def word_le_nat_alt)
  have "?cap \<le> (?cap + page - 1) div page * page"
    using assms(2) div_mult_mod_eq [of "?cap + page - 1" page] mod_less_divisor [OF assms(2), of "?cap + page - 1"] by linarith
  then have "\<exists>t2. msync_target_range True page ?m (tm_base_boundary ?m) (tm_bytes_used ?m) (wd_t2_file wd) = Some t2"
    using r(1) by (auto simp: msync_target_range_def Let_def word_le_nat_alt)
  then obtain t2 where m: "msync_target_range True page ?m (tm_base_boundary ?m) (tm_bytes_used ?m) (wd_t2_file wd) = Some t2" by blast
  show ?thesis by (rule that [OF m msync_prefix [OF m r(2,4,3)]])
qed

lemma failing_checkpoint:
  assumes un: "unmerged a wd" and sh: "shard_inv (index_of (kv_t1 (wd_store wd)) a)" and ap: "append_size (index_of (kv_t1 (wd_store wd)) a) \<noteq> 0"
    and lr: "log_ready wd" and t2: "t2_ready wd" and env: "ck_msync_ok env" "0 < ck_page env" "ck_open_ok env" "ck_calls env = SysFailed # cs"
  obtains wd' where "checkpoint_internal env path wd = Some (Inl (CkptIo SysError), wd')" "unmerged a wd'"
    "append_size (index_of (kv_t1 (wd_store wd')) a) = 0" "kv_map (wd_store wd') = kv_map (wd_store wd)" "log_ready wd'" "t2_ready wd'"
    "kv_t2 (wd_store wd') = kv_t2 (wd_store wd)" "kv_use_inline (wd_store wd') = kv_use_inline (wd_store wd)"
proof -
  let ?s = "wd_store wd" and ?m = "kv_t2 (wd_store wd)"
  let ?t = "index_of (kv_t1 ?s) a"
  obtain t2f where m: "msync_target_range True (ck_page env) ?m (tm_base_boundary ?m) (tm_bytes_used ?m) (wd_t2_file wd) = Some t2f"
    "take (unat (tm_bytes_used ?m)) t2f = take (unat (tm_bytes_used ?m)) (tm_base ?m)" "length t2f = length (wd_t2_file wd)"
    by (rule msync_returns [OF t2 env(2)])
  note ab = abandoned_shard [OF sh]
  obtain t' merged where r: "reorganize (\<lambda>m. m) ?t = (t', Some merged)" using shard_invD(6) [OF sh] by (simp add: reorganize_def)
  define t1 where "t1 = (upd_slot a (\<lambda>s. s\<lparr>sl_index := abandoned ?t\<rparr>) ((kv_t1 ?s)\<lparr>si_splits_paused := True\<rparr>))\<lparr>si_splits_paused := False\<rparr>"
  have dir: "si_directory (kv_t1 ?s) = \<lparr>dir_boundaries = [], dir_shards = [a]\<rparr>" "dump_sorted_region ?t = []" using un by (simp_all add: unmerged_def)
  obtain w fs1 where o: "writer_open True (derive_t1_chk_path path) (wd_files wd) = (Inr w, fs1)" by (simp add: writer_open_def Let_def)
  have sl: "sl_index (slot ((kv_t1 ?s)\<lparr>si_splits_paused := True\<rparr>) a) = ?t" by (simp add: slot_def)
  have "publish_shards (SysFailed # cs) [a] ((kv_t1 ?s)\<lparr>si_splits_paused := True\<rparr>) w fs1 =
      Some (Inl SysError, upd_slot a (\<lambda>s. s\<lparr>sl_index := abandoned ?t\<rparr>) ((kv_t1 ?s)\<lparr>si_splits_paused := True\<rparr>), w, fs1(cw_temp_path w \<mapsto> the (fs1 (cw_temp_path w))))"
    using ap by (simp add: Let_def sl r add_shard_fails)
  then have p: "\<exists>fs. publish_t1_checkpoint env path lsn target (kv_t1 ?s) (wd_files wd) = Some (Inl SysError, t1, fs)" for lsn target
    by (simp add: publish_t1_checkpoint_def env(3,4) o dir(1) t1_def)
  then obtain fs where p: "publish_t1_checkpoint env path (word_of_nat (next_lsn (kv_wal ?s)) - 1) (tm_bytes_used ?m) (kv_t1 ?s) (wd_files wd) = Some (Inl SysError, t1, fs)"
    by blast
  let ?own = "revert_watermark (tm_base_boundary ?m) (claim_watermark (tm_bytes_used ?m) (kv_own ?s))"
  let ?wd = "wd\<lparr>wd_store := ?s\<lparr>kv_own := ?own, kv_t1 := t1\<rparr>, wd_files := fs, wd_t2_file := t2f\<rparr>"
  have c: "checkpoint_internal env path wd = Some (Inl (CkptIo SysError), ?wd)"
    unfolding checkpoint_internal_def checkpoint_publish_def Let_def using env(1) by (simp add: capture_checkpoint_target_def m(1) p)
  have ix: "index_of t1 b = (if b = a then abandoned ?t else index_of (kv_t1 ?s) b)" for b by (simp add: t1_def slot_def upd_slot_def)
  have dt: "si_directory t1 = si_directory (kv_t1 ?s)" by (simp add: t1_def)
  have v: "si_view t1 = si_view (kv_t1 ?s)"
    by (simp add: fun_eq_iff si_view_def dt ix ab(1))
  have tt: "take (unat (tm_base_boundary ?m)) t2f = take (unat (tm_base_boundary ?m)) (tm_base ?m)"
    using arg_cong [OF m(2), of "take (unat (tm_base_boundary ?m))"] t2 by (simp add: t2_ready_def Let_def word_le_nat_alt min_def)
  show ?thesis
    by (rule that [OF c])
      (use dir ix dt ab lr t2 m(3) tt in \<open>simp_all add: unmerged_def log_ready_def t2_ready_def Let_def kv_map_def v fun_eq_iff\<close>)
qed

text \<open>A store whose append region is empty writes its sorted region.\<close>

lemma empty_checkpoint:
  assumes un: "unmerged a wd" and ap: "append_size (index_of (kv_t1 (wd_store wd)) a) = 0" and lr: "log_ready wd" and t2: "t2_ready wd"
    and env: "env_willing env" "able 80 (ck_calls env)"
  obtains wd' where "checkpoint_internal env path wd = Some (Inr (), wd')" "unmerged a wd'"
    "append_size (index_of (kv_t1 (wd_store wd')) a) = 0" "kv_map (wd_store wd') = kv_map (wd_store wd)" "log_ready wd'" "t2_ready wd'"
    "wd_files wd' (derive_t1_chk_path path) = Some (checkpoint_bytes [[]] [])"
    "\<exists>lsn. read_manifest (wd_files wd' (derive_manifest_path path)) = Some \<lparr>md_generation = lsn, md_t2_bytes_used = tm_bytes_used (kv_t2 (wd_store wd))\<rparr>"
    "kv_t2 (wd_store wd') = (kv_t2 (wd_store wd))\<lparr>tm_base_boundary := tm_bytes_used (kv_t2 (wd_store wd))\<rparr>"
    "segment (kv_wal (wd_store wd')) = []" "wd_retired wd' = [(wd_active wd, segment (kv_wal (wd_store wd)))]" "wd_active wd' = Suc (wd_active wd)"
    "kv_use_inline (wd_store wd') = kv_use_inline (wd_store wd)"
proof -
  let ?s = "wd_store wd" and ?m = "kv_t2 (wd_store wd)"
  let ?t = "index_of (kv_t1 ?s) a" and ?si = "(kv_t1 ?s)\<lparr>si_splits_paused := True\<rparr>"
  have dir: "si_directory (kv_t1 ?s) = \<lparr>dir_boundaries = [], dir_shards = [a]\<rparr>" "dump_sorted_region ?t = []" using un by (simp_all add: unmerged_def)
  have sl: "sl_index (slot ?si a) = ?t" by (simp add: slot_def)
  have able: "able (length (section_bytes (map to_chk_entry [])) + (40 + 32)) (ck_calls env)" using env(2) by (simp add: section_bytes_def)
  have "\<exists>cs w1 fs2. publish_shards (ck_calls env) (shards (kv_t1 ?s)) ?si w fs = Some (Inr cs, ?si, w1, fs2)
      \<and> able (length (concat (bounds (kv_t1 ?s))) + (40 + 32)) cs" for w fs
  proof -
    obtain cs w1 fs2 where "add_shard (ck_calls env) [] w fs = Some (Inr cs, w1, fs2)" "able (40 + 32) cs"
      by (rule add_shard_able [OF able])
    then show ?thesis using ap dir by (simp add: Let_def sl)
  qed
  note ok = checkpoint_able [where wd = wd, OF this _ env(1)]
  have "\<exists>wd'. checkpoint_internal env path wd = Some (Inr (), wd')"
    by (rule ok) (use lr t2 in \<open>auto simp: log_ready_def t2_ready_def Let_def\<close>)
  then obtain wd' where c: "checkpoint_internal env path wd = Some (Inr (), wd')" by blast
  obtain t2_file t1 fs wd2 where p:
    "msync_target_range (ck_msync_ok env) (ck_page env) ?m (tm_base_boundary ?m) (tm_bytes_used ?m) (wd_t2_file wd) = Some t2_file"
    "publish_t1_checkpoint env path (word_of_nat (next_lsn (kv_wal ?s)) - 1) (tm_bytes_used ?m) (kv_t1 ?s) (wd_files wd) = Some (Inr (), t1, fs)"
    "rotate_log (ck_segment_open_ok env) (wd\<lparr>wd_store := ?s\<lparr>kv_own := (kv_own ?s)\<lparr>own_watermark := tm_bytes_used ?m\<rparr>,
        kv_t1 := t1, kv_t2 := ?m\<lparr>tm_base_boundary := tm_bytes_used ?m\<rparr>\<rparr>, wd_files := fs, wd_t2_file := t2_file\<rparr>) = Some (Inr (), wd2)"
    "wd' = wd2\<lparr>wd_checkpoint_count := wd_checkpoint_count wd2 + 1\<rparr>"
    by (rule checkpoint_phases [OF c])
  obtain ess where e: "checkpoint_all_shards (kv_t1 ?s) = Some ((ess, bounds (kv_t1 ?s)), t1)"
    "fs (derive_t1_chk_path path) = Some (checkpoint_bytes (map (map to_chk_entry) ess) (bounds (kv_t1 ?s)))"
    "read_manifest (fs (derive_manifest_path path)) = Some \<lparr>md_generation = word_of_nat (next_lsn (kv_wal ?s)) - 1, md_t2_bytes_used = tm_bytes_used ?m\<rparr>"
    by (rule publish_files [OF p(2)])
  have "checkpoint_all_shards (kv_t1 ?s) = Some (([[]], []), ?si\<lparr>si_splits_paused := False\<rparr>)"
    using ap dir by (simp add: checkpoint_all_shards_def checkpoint_shard_def Let_def sl)
  then have t: "ess = [[]]" "bounds (kv_t1 ?s) = []" "t1 = (kv_t1 ?s)\<lparr>si_splits_paused := False\<rparr>" using e(1) by auto
  note r = rotate_ok [OF p(3)]
  have wd: "wd_store wd' = ?s\<lparr>kv_own := (kv_own ?s)\<lparr>own_watermark := tm_bytes_used ?m\<rparr>, kv_t1 := t1, kv_t2 := ?m\<lparr>tm_base_boundary := tm_bytes_used ?m\<rparr>,
      kv_wal := (kv_wal ?s)\<lparr>segment := [], synced := 0\<rparr>\<rparr>" "wd_files wd' = fs" "wd_t2_file wd' = t2_file"
    "wd_retired wd' = [(wd_active wd, segment (kv_wal ?s))]" "wd_active wd' = Suc (wd_active wd)"
    using r p(4) lr by (simp_all add: log_ready_def)
  have ix: "index_of t1 b = index_of (kv_t1 ?s) b" "si_directory t1 = si_directory (kv_t1 ?s)" for b by (simp_all add: t slot_def)
  have v: "si_view t1 = si_view (kv_t1 ?s)" by (simp add: t)
  have ek: "entry_kv (?m\<lparr>tm_base_boundary := tm_bytes_used ?m\<rparr>) = entry_kv ?m" by (simp add: entry_kv_def t2_read_def t2_at_def fun_eq_iff)
  have km: "kv_map (wd_store wd') = kv_map ?s" by (simp add: kv_map_def wd(1) v ek fun_eq_iff)
  have b: "unat (tm_base_boundary ?m) \<le> unat (tm_bytes_used ?m)" "take (unat (tm_base_boundary ?m)) (wd_t2_file wd) = take (unat (tm_base_boundary ?m)) (tm_base ?m)"
    "length (wd_t2_file wd) = length (tm_base ?m)" using t2 by (simp_all add: t2_ready_def Let_def word_le_nat_alt)
  note ms = msync_prefix [OF p(1) b]
  show ?thesis
    by (rule that [OF c _ _ km])
      (use wd e(2,3) t ms lr t2 ap dir ix b in \<open>simp_all add: unmerged_def log_ready_def t2_ready_def Let_def\<close>)
qed

section \<open>Opening afterwards\<close>

lemma empty_disk_base:
  fixes wd :: World and cfg :: StoreConfig
  assumes "wd_files wd (derive_t1_chk_path path) = Some (checkpoint_bytes [[]] [])"
    "read_manifest (wd_files wd (derive_manifest_path path)) = Some \<lparr>md_generation = lsn, md_t2_bytes_used = tm_bytes_used (kv_t2 (wd_store wd))\<rparr>"
    "tm_base_boundary (kv_t2 (wd_store wd)) = tm_bytes_used (kv_t2 (wd_store wd))" "t2_ready wd" "unat (tm_capacity (kv_t2 (wd_store wd))) \<le> 2 ^ 48"
    "0 < cfg_append_cap cfg" "kv_use_inline (wd_store wd) = cfg_use_inline cfg"
  shows "disk_base path wd Map.empty"
proof -
  let ?m = "kv_t2 (wd_store wd)"
  let ?sc = "VMemKV_init cfg 0 ?m (Wal_start 1 [])"
  have "t2_inv ?m Map.empty" using assms(4) by (simp add: t2_inv_def t2_ready_def Let_def)
  note i = init_inv [OF assms(6) this assms(5), of 0 "Wal_start 1 []"]
  have d: "shards (kv_t1 ?sc) = [0]" "bounds (kv_t1 ?sc) = []" "index_of (kv_t1 ?sc) 0 = T1Index_new (cfg_use_bloom cfg) (cfg_append_cap cfg)"
    by (simp_all add: VMemKV_init_def ShardedT1Index_new_def slot_def ShardSlot_new_def)
  have "shard_inv (index_of (kv_t1 ?sc) 0)" by (rule si_slot(2) [OF kv_invD(1) [OF i(1)]]) (use d assms(3) in simp_all)
  moreover have "live_view (index_of (kv_t1 ?sc) 0) = Map.empty"
  proof
    fix x :: ident
    have "route (kv_t1 ?sc) (fst x) = 0" using d by (simp add: route_nth upper_bound_def partition_point_def)
    then show "live_view (index_of (kv_t1 ?sc) 0) x = None" using fun_cong [OF i(3), of x] assms(3) by (simp add: si_view_def)
  qed
  ultimately have "list_all2 snapshot_for (map (index_of (kv_t1 ?sc)) (shards (kv_t1 ?sc))) [[]]"
    unfolding d(1) by (simp add: snapshot_for_def keyed_map_def)
  moreover have "length (checkpoint_bytes [[]] []) < 2 ^ 63"
    by (simp add: checkpoint_bytes_def section_bytes_def chk_header_bytes_def trailer_def)
  moreover have "take (unat (tm_bytes_used ?m)) (wd_t2_file wd) = take (unat (tm_bytes_used ?m)) (tm_base ?m)"
    using assms(3,4) by (simp add: t2_ready_def Let_def)
  ultimately show ?thesis
    unfolding disk_base_def Let_def assms(2) option.case
    using i assms d by (intro conjI exI [of _ ?sc] exI [of _ Map.empty] exI [of _ "[[]]"]) simp_all
qed

lemma open_empty:
  fixes wd :: World
  assumes base: "disk_base path wd Map.empty" and t2: "t2_ready wd" and cap: "0 < cap" "unat cap \<le> 2 ^ 48" "tm_capacity (kv_t2 (wd_store wd)) = cap"
    and cfg: "0 < cfg_append_cap cfg" "kv_use_inline (wd_store wd) = cfg_use_inline cfg" and res: "\<And>n. can_reserve n" and g: "g \<noteq> g'"
  shows "\<exists>s2. VMemKV_open can_reserve [] cfg cap \<lparr>dk_manifest = wd_files wd (derive_manifest_path path),
      dk_t1_chk = wd_files wd (derive_t1_chk_path path), dk_t2 = wd_t2_file wd, dk_wal = [(g, []), (g', [])]\<rparr> = Some (Inr s2) \<and> kv_map s2 = Map.empty"
proof -
  have "Wal_open [(g, []), (g', [])] = Inr \<lparr>wo_segments = [(g, []), (g', [])], wo_active = g', wo_next_lsn = 1\<rparr>"
    using Wal_open_torn [of "[(g, [])]" g' "[]" 0] g by (simp add: records_ok_def segment_of_def)
  moreover have "replay_segments [(g, []), (g', [])] = Inr []"
    using replay_segments_complete [of "[(g, []), (g', [])]"] by (simp add: records_ok_def segment_of_def)
  moreover obtain mem s1 where "T2FlatFile_open (wd_t2_file wd) cap (adopted_t2_bytes_used (wd_files wd (derive_manifest_path path))) = Inr mem"
    "load_checkpoint_if_present can_reserve (wd_files wd (derive_manifest_path path)) (wd_files wd (derive_t1_chk_path path))
      (VMemKV_init cfg cap mem (Wal_start 1 [])) = Inr s1" "kv_map s1 = Map.empty"
  proof (rule loaded_store [OF base cap cfg, of can_reserve "wd_t2_file wd" "Wal_start 1 []"])
    show "length (wd_t2_file wd) = unat cap" using t2 cap(3) by (simp add: t2_ready_def Let_def)
  qed (use res in auto)
  ultimately show ?thesis by (simp add: VMemKV_open_def Let_def)
qed

text \<open>
  C36: a failed checkpoint loses data. Take a store whose shard has entries in its append region and
  none in its sorted region. A checkpoint whose first write to the index checkpoint fails reports the
  error, but \<^verbatim>\<open>T1Index::reorganize\<close> is left in the middle: the entries stay in the frozen append
  region, readable, with an empty active region in front. Every later checkpoint then takes the
  shortcut for an empty append region and writes the sorted region alone. After two later checkpoints,
  both successful, the log records are deleted, and the store, which still reads every pair, opens
  again empty.
\<close>

theorem failed_checkpoint_loses_data:
  fixes wd :: World
  assumes "unmerged a wd" "shard_inv (index_of (kv_t1 (wd_store wd)) a)" "append_size (index_of (kv_t1 (wd_store wd)) a) \<noteq> 0" "log_ready wd" "t2_ready wd"
    and "ck_msync_ok env0" "0 < ck_page env0" "ck_open_ok env0" "ck_calls env0 = SysFailed # cs"
    and "env_willing env" "able 80 (ck_calls env)" "\<forall>n. can_reserve n"
    and "0 < cfg_append_cap cfg" "kv_use_inline (wd_store wd) = cfg_use_inline cfg" "tm_capacity (kv_t2 (wd_store wd)) = cap" "0 < cap" "unat cap \<le> 2 ^ 48"
  shows "\<exists>wd1 wd2 wd3 s2. checkpoint_internal env0 path wd = Some (Inl (CkptIo SysError), wd1)
    \<and> checkpoint_internal env path wd1 = Some (Inr (), wd2) \<and> checkpoint_internal env path wd2 = Some (Inr (), wd3)
    \<and> kv_map (wd_store wd3) = kv_map (wd_store wd)
    \<and> VMemKV_open can_reserve [] cfg cap
        \<lparr>dk_manifest = wd_files wd3 (derive_manifest_path path), dk_t1_chk = wd_files wd3 (derive_t1_chk_path path), dk_t2 = wd_t2_file wd3,
         dk_wal = wd_retired wd3 @ [(wd_active wd3, segment (kv_wal (wd_store wd3)))]\<rparr> = Some (Inr s2)
    \<and> kv_map s2 = Map.empty"
proof -
  obtain wd1 where 1: "checkpoint_internal env0 path wd = Some (Inl (CkptIo SysError), wd1)" "unmerged a wd1"
    "append_size (index_of (kv_t1 (wd_store wd1)) a) = 0" "kv_map (wd_store wd1) = kv_map (wd_store wd)" "log_ready wd1" "t2_ready wd1"
    "kv_t2 (wd_store wd1) = kv_t2 (wd_store wd)" "kv_use_inline (wd_store wd1) = kv_use_inline (wd_store wd)"
    by (rule failing_checkpoint [OF assms(1-9)])
  obtain wd2 where 2: "checkpoint_internal env path wd1 = Some (Inr (), wd2)" "unmerged a wd2"
    "append_size (index_of (kv_t1 (wd_store wd2)) a) = 0" "kv_map (wd_store wd2) = kv_map (wd_store wd1)" "log_ready wd2" "t2_ready wd2"
    "kv_t2 (wd_store wd2) = (kv_t2 (wd_store wd1))\<lparr>tm_base_boundary := tm_bytes_used (kv_t2 (wd_store wd1))\<rparr>" "segment (kv_wal (wd_store wd2)) = []"
    "kv_use_inline (wd_store wd2) = kv_use_inline (wd_store wd1)"
    by (rule empty_checkpoint [OF 1(2,3,5,6) assms(10,11)])
  obtain wd3 lsn where 3: "checkpoint_internal env path wd2 = Some (Inr (), wd3)" "kv_map (wd_store wd3) = kv_map (wd_store wd2)" "t2_ready wd3"
    "wd_files wd3 (derive_t1_chk_path path) = Some (checkpoint_bytes [[]] [])"
    "read_manifest (wd_files wd3 (derive_manifest_path path)) = Some \<lparr>md_generation = lsn, md_t2_bytes_used = tm_bytes_used (kv_t2 (wd_store wd2))\<rparr>"
    "kv_t2 (wd_store wd3) = (kv_t2 (wd_store wd2))\<lparr>tm_base_boundary := tm_bytes_used (kv_t2 (wd_store wd2))\<rparr>"
    "segment (kv_wal (wd_store wd3)) = []" "wd_retired wd3 = [(wd_active wd2, segment (kv_wal (wd_store wd2)))]" "wd_active wd3 = Suc (wd_active wd2)"
    "kv_use_inline (wd_store wd3) = kv_use_inline (wd_store wd2)"
    by (rule empty_checkpoint [OF 2(2,3,5,6) assms(10,11)]) blast
  have i: "kv_use_inline (wd_store wd3) = cfg_use_inline cfg" and c: "tm_capacity (kv_t2 (wd_store wd3)) = cap"
    using 1 2 3 assms(14,15) by simp_all
  have "disk_base path wd3 Map.empty" by (rule empty_disk_base [OF 3(4) _ _ 3(3) _ assms(13) i]) (use 3 c assms(17) in simp_all)
  from open_empty [OF this 3(3) assms(16,17) c assms(13) i, of can_reserve "wd_active wd2" "wd_active wd3"] assms(12) 3(9)
  obtain s2 where "VMemKV_open can_reserve [] cfg cap \<lparr>dk_manifest = wd_files wd3 (derive_manifest_path path),
      dk_t1_chk = wd_files wd3 (derive_t1_chk_path path), dk_t2 = wd_t2_file wd3, dk_wal = [(wd_active wd2, []), (wd_active wd3, [])]\<rparr> = Some (Inr s2)"
    "kv_map s2 = Map.empty" by auto
  then show ?thesis using 1(1,4) 2(1,4) 3(1,2) by (intro exI [of _ wd1] exI [of _ wd2] exI [of _ wd3] exI [of _ s2]) (simp add: 2(8) 3(7,8))
qed

text \<open>The first insert of a new store: its entry lies in the append region.\<close>

lemma insert_inline_index:
  assumes "exec_op ios (ws # wss) (OpInsert k v) s = Some (Inr True, s')" "try_make_inline_payload (kv_use_inline s) k v = Some (p, n)"
    "si_put_turn (kv_t1 s) k p True n = Some (Inr (Applied, t1))"
  shows "kv_t1 s' = t1" "kv_t2 s' = kv_t2 s"
  using assms
  by (auto simp: insert_impl_def with_key_stripe_def append_and_reserve_def write_entry_lockfree.simps [of _ "ws # wss"] si_put_waiting.simps prev_entry_def
      reserve_applied_def no_change_def maybe_reorganize_if_needed_def Let_def split: option.splits sum.splits if_splits prod.splits)

lemma put_append_frame:
  assumes "ar_tail (ag_region (active_gen t)) < ar_capacity (ag_region (active_gen t))" "ar_tail (ag_region (active_gen t)) < t1_append_cap t"
  obtains t' where "put_append t prefix hash stored v = (Applied, t')" "sorted_cur t' = sorted_cur t" "append_size t' = Suc (append_size t)"
  using assms
  by (auto simp: put_append_def publish_append_index_def upd_region_def upd_append_slot_def append_size_def ar_size_def ar_reserve_def
      ar_publish_def ar_update_bounds_def Let_def split: prod.splits option.splits if_splits)

lemma put_new:
  assumes "0 < cap"
  obtains t where "t1_put (T1Index_new b cap) key v inl n = Some (Applied, t)" "append_size t = 1" "dump_sorted_region t = []"
proof -
  let ?t = "T1Index_new b cap" and ?p = "prefix_from_bytes key" and ?h = "hash_full_key key"
  let ?sh = "if inl then embed_metadata ?h n else ?h"
  have g: "active_gen ?t = ag_new cap" "t1_immutable ?t = None" "t1_frozen ?t = None" "sorted_cur ?t = SortedRegion_empty b" "t1_append_cap ?t = cap"
    by (simp_all add: T1Index_new_def note_append_region_created_def Let_def)
  have "ht_lookup (ht_new cap) (ar_view (ar_new cap)) x = None" for x
    using append_index.lookup_Some [OF ht_inv_new] by (metis empty_iff ht_stored_new not_Some_eq)
  then have "resolve ?t ?p ?h = rs_none"
    by (simp add: resolve_def find_gen_def g resolve_sorted_def find_sorted_def SortedRegion_empty_def ag_new_def
        find_gen_lookup [OF ht_inv_new])
  then have e: "t1_put ?t key v inl n = Some (put_append ?t ?p ?h ?sh v)"
    by (simp add: t1_put_def prepare_key_and_hash_def put_with_stored_hash.simps put_turn_def rs_found_def rs_none_def)
  obtain t where t: "put_append ?t ?p ?h ?sh v = (Applied, t)" "sorted_cur t = sorted_cur ?t" "append_size t = Suc (append_size ?t)"
    by (rule put_append_frame [of ?t]) (use assms in \<open>simp_all add: g ag_new_def ar_new_def\<close>)
  show ?thesis
    by (rule that [of t]) (use e t g in \<open>simp_all add: append_size_def ar_size_def ag_new_def ar_new_def dump_sorted_region_def walk_sorted_region_def
        SortedRegion_empty_def\<close>)
qed

lemma demo_turn:
  assumes "t1_put (T1Index_new False 4) [7] p inl n = Some (Applied, t)" "p \<noteq> STORE_NOT_FOUND"
  shows "si_put_turn (kv_t1 demo_store) [7] p inl n = Some (Inr (Applied, upd_slot 0 (\<lambda>s. s\<lparr>sl_index := t\<rparr>) (kv_t1 demo_store)))"
proof -
  have r: "si_resolve WriteMode (kv_t1 demo_store) (prefix_from_bytes [7]) = Some 0"
    using si_resolve_route [OF kv_invD(1) [OF demo_state(1)]]
    by (simp add: demo_store_def VMemKV_init_def ShardedT1Index_new_def shard_for_def upper_bound_def partition_point_def)
  have s: "slot (kv_t1 demo_store) 0 = ShardSlot_new (T1Index_new False 4)"
    by (simp add: demo_store_def VMemKV_init_def ShardedT1Index_new_def slot_def demo_config_def)
  have "append_size (T1Index_new False 4) < maintenance_soft_threshold (append_capacity (T1Index_new False 4)) False" by code_simp
  then have q: "request_maintenance_if_needed 0 (kv_t1 demo_store) = kv_t1 demo_store"
    by (simp add: request_maintenance_if_needed_def s) (simp add: demo_store_def VMemKV_init_def ShardedT1Index_new_def demo_config_def ShardSlot_new_def)
  show ?thesis using assms by (simp add: si_put_turn_def r q s ShardSlot_new_def Let_def)
qed

lemma demo_inline: "try_make_inline_payload True [7] [1, 2, 3] = Some (197121, 3)"
proof -
  have z: "mem_write (u64_le 0) 0 [1, 2, 3] = [1, 2, 3, 0, 0, 0, 0, 0 :: byte]" by code_simp
  have "u64_of_le [1, 2, 3, 0, 0, 0, 0, 0] = 197121" by (simp add: u64_of_le_def)
  then show ?thesis
    by (simp add: try_make_inline_payload_def z Let_def kStoreKeyBytes_def kInlineValueByteCount_def STORE_NOT_FOUND_def)
qed

theorem failed_checkpoint_loses_data_witness:
  "\<exists>wd1 wd2 wd3 s s2. exec_op [io_good] [[1]] (OpInsert [7] [1, 2, 3]) demo_store = Some (Inr True, s)
     \<and> checkpoint_internal (demo_env\<lparr>ck_calls := [SysFailed]\<rparr>) ''t2'' ((fresh_world demo_config 4096)\<lparr>wd_store := s\<rparr>) = Some (Inl (CkptIo SysError), wd1)
     \<and> checkpoint_internal demo_env ''t2'' wd1 = Some (Inr (), wd2) \<and> checkpoint_internal demo_env ''t2'' wd2 = Some (Inr (), wd3)
     \<and> kv_map (wd_store wd3) = [ident_of [7] \<mapsto> ([7], [1, 2, 3])]
     \<and> VMemKV_open (\<lambda>_. True) [] demo_config 4096
         \<lparr>dk_manifest = wd_files wd3 (derive_manifest_path ''t2''), dk_t1_chk = wd_files wd3 (derive_t1_chk_path ''t2''), dk_t2 = wd_t2_file wd3,
          dk_wal = wd_retired wd3 @ [(wd_active wd3, segment (kv_wal (wd_store wd3)))]\<rparr> = Some (Inr s2)
     \<and> kv_map s2 = Map.empty"
proof -
  obtain s where e: "exec_op [io_good] [[1]] (OpInsert [7] [1, 2, 3]) demo_store = Some (Inr True, s)"
    "logged_outcome io_good [] (next_record WalInsert [7] [1, 2, 3] (kv_wal demo_store)) [ident_of [7] \<mapsto> ([7], [1, 2, 3])] demo_store (Inr True) s"
    by (rule demo_insert)
  obtain recs where inv: "kv_inv s recs" using e(2) by (auto simp: logged_outcome_def)
  obtain p n where pn: "try_make_inline_payload True [7] [1, 2, 3] = Some (p, n)" using demo_inline by blast
  have live: "p \<noteq> STORE_NOT_FOUND" using inline_decodes [OF pn] by (auto simp: is_live_def)
  obtain t where t: "t1_put (T1Index_new False 4) [7] p True n = Some (Applied, t)" "append_size t = 1" "dump_sorted_region t = []"
    by (rule put_new [of 4]) simp_all
  have inl: "kv_use_inline demo_store = True" by (simp add: demo_store_def VMemKV_init_def demo_config_def)
  have t1: "kv_t1 s = upd_slot 0 (\<lambda>x. x\<lparr>sl_index := t\<rparr>) (kv_t1 demo_store)"
    by (rule insert_inline_index(1) [OF e(1) _ demo_turn [OF t(1) live]]) (simp add: inl pn)
  let ?wd = "(fresh_world demo_config 4096)\<lparr>wd_store := s\<rparr>"
  have dir: "si_directory (kv_t1 demo_store) = \<lparr>dir_boundaries = [], dir_shards = [0]\<rparr>" by (simp add: demo_store_def VMemKV_init_def ShardedT1Index_new_def)
  have un: "unmerged 0 ?wd" using t(3) dir by (simp add: unmerged_def t1)
  have sh: "shard_inv (index_of (kv_t1 (wd_store ?wd)) 0)" using si_slot(2) [OF kv_invD(1) [OF inv], of 0] dir by (simp add: t1)
  have lr: "log_ready ?wd" using e(2) by (simp add: log_ready_def logged_outcome_def wal_quiet_def fresh_world_def)
  have t2: "kv_t2 s = fresh_t2 4096"
    using insert_inline_index(2) [OF e(1) _ demo_turn [OF t(1) live]] pn inl by (simp add: demo_store_def VMemKV_init_def)
  have tr: "t2_ready ?wd" by (simp add: t2_ready_def t2 fresh_world_def fresh_t2_inv Let_def) (simp add: fresh_t2_def T2Memory_new_def)
  have fr: "kv_use_inline s" "kv_map s = [ident_of [7] \<mapsto> ([7], [1, 2, 3])]"
    using e(2) inl by (simp_all add: logged_outcome_def kv_frame_def)
  have ab: "able 80 (ck_calls demo_env)" by (simp add: able_def healthy_def demo_env_def)
  have ap: "append_size (index_of (kv_t1 (wd_store ?wd)) 0) \<noteq> 0" using t(2) by (simp add: t1)
  have "\<exists>wd1 wd2 wd3 s2. checkpoint_internal (demo_env\<lparr>ck_calls := [SysFailed]\<rparr>) ''t2'' ?wd = Some (Inl (CkptIo SysError), wd1)
     \<and> checkpoint_internal demo_env ''t2'' wd1 = Some (Inr (), wd2) \<and> checkpoint_internal demo_env ''t2'' wd2 = Some (Inr (), wd3)
     \<and> kv_map (wd_store wd3) = kv_map (wd_store ?wd)
     \<and> VMemKV_open (\<lambda>_. True) [] demo_config 4096
         \<lparr>dk_manifest = wd_files wd3 (derive_manifest_path ''t2''), dk_t1_chk = wd_files wd3 (derive_t1_chk_path ''t2''), dk_t2 = wd_t2_file wd3,
          dk_wal = wd_retired wd3 @ [(wd_active wd3, segment (kv_wal (wd_store wd3)))]\<rparr> = Some (Inr s2)
     \<and> kv_map s2 = Map.empty"
    by (rule failed_checkpoint_loses_data [OF un sh ap lr tr])
      (use ab fr t2 in \<open>simp_all add: demo_env_def env_willing_def demo_config_def fresh_t2_inv\<close>)
  then show ?thesis using e(1) fr(2) by auto
qed

end
