(* ===== verification/Defrag.thy ===== *)
theory Defrag
  imports Store
begin

text \<open>
  \<^verbatim>\<open>vmemkv/defrag_controller.hpp\<close>: relocation of live records out of garbage-heavy frozen segments and
  hole punching of the segments evacuated by the cycle before, with the group awaiter of
  \<^verbatim>\<open>vmemkv/write_path.hpp\<close>. Shown: a cycle never changes what the store holds, whatever the log and the
  system answer, as long as no live record of an earlier segment reaches into a segment that is
  punched; if one does, the next cycle destroys it; and a forced cycle may wait for ever.
\<close>

section \<open>State\<close>

record DefragState =
  df_running :: bool
  df_pending_punch :: "u64 list"
  df_pending_punch_count :: nat
  df_last_checkpoint :: u64
  df_last_overhead_bp :: u64
  df_punch_probed :: bool
  df_punch_supported :: bool
  df_cycle_count :: u64
  df_last_moved_bytes :: u64
  df_last_punched_bytes :: u64

definition DefragState_init :: DefragState where
  "DefragState_init = \<lparr>df_running = False, df_pending_punch = [], df_pending_punch_count = 0, df_last_checkpoint = 0, df_last_overhead_bp = 0,
     df_punch_probed = False, df_punch_supported = True, df_cycle_count = 0, df_last_moved_bytes = 0, df_last_punched_bytes = 0\<rparr>"

definition kPunchSlopBytes :: u64 where
  "kPunchSlopBytes = push_bit 20 1"

definition kDefragScanLo :: bytes where
  "kDefragScanLo = replicate 16 0"

definition kDefragScanHi :: bytes where
  "kDefragScanHi = replicate 16 0xFF"

definition kDefragSpaceOverheadPercent :: u64 where
  "kDefragSpaceOverheadPercent = 20"

definition TMPFS_MAGIC :: u64 where
  "TMPFS_MAGIC = 0x01021994"

section \<open>Triggers\<close>

text \<open>\<open>fs\<close>: the type \<^verbatim>\<open>statfs\<close> reports, \<open>None\<close> when it fails.\<close>

definition punch_supported :: "u64 option \<Rightarrow> DefragState \<Rightarrow> bool \<times> DefragState" where
  "punch_supported fs st =
     (let st1 = (if df_punch_probed st then st
                 else st\<lparr>df_punch_supported := (case fs of None \<Rightarrow> True | Some t \<Rightarrow> t \<noteq> TMPFS_MAGIC), df_punch_probed := True\<rparr>)
      in (df_punch_supported st1, st1))"

definition scan_wanted :: "DefragState \<Rightarrow> u64 \<Rightarrow> u64 \<Rightarrow> bool" where
  "scan_wanted st overhead_bp checkpoint_count =
     (if overhead_bp < 500 then False
      else let threshold_bp = (100 - kDefragSpaceOverheadPercent) * 100;
               last_bp = df_last_overhead_bp st
           in if overhead_bp \<ge> threshold_bp \<and> last_bp < threshold_bp then True
              else if overhead_bp \<ge> last_bp + 500 then True
              else checkpoint_count \<noteq> df_last_checkpoint st)"

definition defrag_wanted :: "DefragState \<Rightarrow> T2Ownership \<Rightarrow> T2Memory \<Rightarrow> bool \<Rightarrow> u64 \<Rightarrow> bool" where
  "defrag_wanted st own mem recovering checkpoint_count =
     (if recovering then False
      else if df_pending_punch_count st > 0 then True
      else let used = tm_bytes_used mem; live = own_live_total own
           in if used = 0 then False
              else if live \<ge> used then False
              else scan_wanted st ((used - live) * 10000 div used) checkpoint_count)"

section \<open>Punching\<close>

definition is_evacuated_segment :: "T2Ownership \<Rightarrow> T2Memory \<Rightarrow> u64 \<Rightarrow> bool" where
  "is_evacuated_segment own mem seg =
     (if unat seg \<ge> segment_count own then False
      else if seg_live own (unat seg) \<noteq> 0 then False
      else (seg + 1) * own_segment_bytes own \<le> tm_base_boundary mem)"

text \<open>What the system answers to the punch of one segment.\<close>

record PunchAnswer =
  pa_fd :: "nat option"
  pa_seek :: seek_answer
  pa_ok :: bool

fun punch_loop :: "(u64 \<Rightarrow> PunchAnswer) \<Rightarrow> T2Ownership \<Rightarrow> u64 list \<Rightarrow> u64 list \<Rightarrow> u64 \<Rightarrow> T2Memory \<Rightarrow> u64 list \<times> u64 \<times> bool \<times> T2Memory" where
  "punch_loop ans own [] punched punched_bytes mem = (punched, punched_bytes, False, mem)"
| "punch_loop ans own (seg # segs) punched punched_bytes mem =
     (if \<not> is_evacuated_segment own mem seg then punch_loop ans own segs punched punched_bytes mem
      else case punch mem (seg * own_segment_bytes own) (own_segment_bytes own) (pa_fd (ans seg)) (pa_seek (ans seg)) (pa_ok (ans seg)) of
             ((outcome, calls), mem1) \<Rightarrow>
               (case outcome of
                  Punched \<Rightarrow> punch_loop ans own segs (punched @ [seg]) (punched_bytes + own_segment_bytes own) mem1
                | AlreadyHollow \<Rightarrow> punch_loop ans own segs (punched @ [seg]) punched_bytes mem1
                | PunchFailed \<Rightarrow> (punched, punched_bytes, True, mem1)))"

definition punch_evacuated_segments ::
  "(u64 \<Rightarrow> PunchAnswer) \<Rightarrow> DefragState \<Rightarrow> T2Ownership \<Rightarrow> T2Memory \<Rightarrow> u64 \<times> DefragState \<times> T2Memory" where
  "punch_evacuated_segments ans st own mem =
     (case punch_loop ans own (df_pending_punch st) [] 0 mem of
        (punched, punched_bytes, punch_failed, mem1) \<Rightarrow>
          let st1 = (if punch_failed then st\<lparr>df_punch_supported := False, df_pending_punch := []\<rparr>
                     else st\<lparr>df_pending_punch := foldl (\<lambda>pending seg. filter (\<lambda>x. x \<noteq> seg) pending) (df_pending_punch st) punched\<rparr>)
          in (punched_bytes, st1\<lparr>df_pending_punch_count := length (df_pending_punch st1)\<rparr>, mem1))"

section \<open>Victims\<close>

record Victim =
  vi_seg :: u64
  vi_garbage :: u64

definition victim_of :: "T2Ownership \<Rightarrow> u64 \<Rightarrow> u64 \<Rightarrow> u64 \<Rightarrow> Victim option" where
  "victim_of own base used seg =
     (let seg_start = seg * own_segment_bytes own;
          seg_end = seg_start + own_segment_bytes own
      in if seg_end > base \<or> seg_start \<ge> used then None
         else let seg_used = min seg_end used - seg_start;
                  live = min (seg_live own (unat seg)) seg_used
              in if seg_used > live \<and> (seg_used - live) * 2 \<ge> seg_used then Some \<lparr>vi_seg = seg, vi_garbage = seg_used - live\<rparr> else None)"

fun take_victims :: "u64 \<Rightarrow> T2Ownership \<Rightarrow> u64 \<Rightarrow> Victim list \<Rightarrow> u64 list" where
  "take_victims max_move own est_move [] = []"
| "take_victims max_move own est_move (v # vs) =
     (if est_move \<ge> max_move then []
      else vi_seg v # take_victims max_move own (est_move + min (seg_live own (unat (vi_seg v))) (own_segment_bytes own)) vs)"

text \<open>
  \<open>order\<close>: the \<^verbatim>\<open>std::sort\<close> by descending garbage, which may order equal victims either way.
\<close>

definition select_victims :: "(Victim list \<Rightarrow> Victim list) \<Rightarrow> u64 \<Rightarrow> T2Ownership \<Rightarrow> u64 \<Rightarrow> u64 \<Rightarrow> u64 list" where
  "select_victims order max_move own base used =
     sort (take_victims max_move own 0 (order (List.map_filter (victim_of own base used) (map word_of_nat [0..<segment_count own]))))"

definition frozen_aligned :: "ValueRecordHeader \<Rightarrow> u64" where
  "frozen_aligned h = align_up (word_of_nat sizeof_ValueRecordHeader + ucast (vh_key_len h) + ucast (vh_value_len h)) kDefaultAlignmentBytes"

definition victim_offset :: "T2Ownership \<Rightarrow> u64 list \<Rightarrow> u64 \<Rightarrow> T2Memory \<Rightarrow> scan_hit \<Rightarrow> u64 option" where
  "victim_offset own victim_segs used mem hit =
     (case hit of (index_key, payload, hash) \<Rightarrow>
        if payload = STORE_NOT_FOUND \<or> is_inline hash then None
        else let off = payload AND kPayloadOffsetMask
             in if off \<ge> used then None
                else let seg = seg_index own off
                     in if seg \<in> set victim_segs then Some off
                        else if unat (seg + 1) < segment_count own \<and> seg + 1 \<in> set victim_segs
                        then let span_start = (seg + 1) * own_segment_bytes own
                             in if off + kPunchSlopBytes \<ge> span_start \<and> off < span_start
                                then let aligned = frozen_aligned (rv_header (t2_at off mem))
                                     in if off + aligned > span_start then Some off else None
                                else None
                        else None)"

definition collect_victim_offsets :: "u64 list \<Rightarrow> u64 \<Rightarrow> VMemKV \<Rightarrow> u64 list option" where
  "collect_victim_offsets victim_segs used s =
     map_option (\<lambda>hits. remdups_adj (sort (List.map_filter (victim_offset (kv_own s) victim_segs used (kv_t2 s)) hits)))
       (si_scan (kv_t1 s) kDefragScanLo kDefragScanHi)"

section \<open>Relocating\<close>

text \<open>The bytes moved and the reserved record, if the entry was still at its offset.\<close>

definition relocate_offset :: "nat list list \<Rightarrow> u64 \<Rightarrow> VMemKV \<Rightarrow> (u64 \<times> nat option) call" where
  "relocate_offset waits bucket_offset s =
     (let frozen = t2_at (bucket_offset AND kPayloadOffsetMask) (kv_t2 s);
          record_aligned = frozen_aligned (rv_header frozen);
          key_span = rv_key frozen; value_span = rv_value frozen
      in case si_get_with_hash (kv_t1 s) key_span of
           None \<Rightarrow> None
         | Some cur \<Rightarrow>
             if lr_payload_bits cur = STORE_NOT_FOUND \<or> is_inline (lr_raw_hash cur)
                \<or> lr_payload_bits cur AND kPayloadOffsetMask \<noteq> bucket_offset AND kPayloadOffsetMask
             then Some (Inr (0, None), s)
             else (case write_entry_lockfree maybe_reorganize_if_needed waits key_span value_span (Some cur) s of
                     None \<Rightarrow> None
                   | Some (Inl e, s1) \<Rightarrow> Some (Inl e, s1)
                   | Some (Inr _, s1) \<Rightarrow>
                       (case reserve_record WalUpdate key_span value_span (kv_wal s1) of
                          None \<Rightarrow> None
                        | Some (Inl e, w) \<Rightarrow> Some (Inl (LogFailed e), s1\<lparr>kv_wal := w\<rparr>)
                        | Some (Inr lsn, w) \<Rightarrow> Some (Inr (record_aligned, Some lsn), s1\<lparr>kv_wal := w\<rparr>))))"

text \<open>
  The group awaiter: the records it still has to await. A failed \<^verbatim>\<open>drain\<close> leaves the list as it is,
  and the destructor drains again. \<open>ioss\<close>: the system's answers to each await.
\<close>

record WalGroupAwaiter =
  ga_pendings :: "nat list"

definition awaiter_add :: "nat \<Rightarrow> WalGroupAwaiter \<Rightarrow> WalGroupAwaiter" where
  "awaiter_add pending aw = aw\<lparr>ga_pendings := ga_pendings aw @ [pending]\<rparr>"

definition awaiter_size :: "WalGroupAwaiter \<Rightarrow> nat" where
  "awaiter_size aw = length (ga_pendings aw)"

fun await_each :: "IoOutcome list list \<Rightarrow> nat list \<Rightarrow> Wal \<Rightarrow> ((WalError + unit) \<times> IoOutcome list list \<times> Wal) option" where
  "await_each ioss [] w = Some (Inr (), ioss, w)"
| "await_each [] (p # ps) w = None"
| "await_each (ios # ioss) (p # ps) w =
     (case await_durable ios p w of
        None \<Rightarrow> None
      | Some (Inl e, w1) \<Rightarrow> Some (Inl e, ioss, w1)
      | Some (Inr _, w1) \<Rightarrow> await_each ioss ps w1)"

definition awaiter_drain :: "IoOutcome list list \<Rightarrow> WalGroupAwaiter \<Rightarrow> Wal \<Rightarrow> ((WalError + unit) \<times> IoOutcome list list \<times> WalGroupAwaiter \<times> Wal) option" where
  "awaiter_drain ioss aw w =
     map_option (\<lambda>(r, ioss1, w1). (r, ioss1, (case r of Inr _ \<Rightarrow> aw\<lparr>ga_pendings := []\<rparr> | Inl _ \<Rightarrow> aw), w1)) (await_each ioss (ga_pendings aw) w)"

definition awaiter_destroy :: "IoOutcome list list \<Rightarrow> WalGroupAwaiter \<Rightarrow> Wal \<Rightarrow> Wal option" where
  "awaiter_destroy ioss aw w =
     (if ga_pendings aw \<noteq> [] then map_option (\<lambda>(_, _, _, w1). w1) (awaiter_drain ioss aw w) else Some w)"

definition kDefragAwaitEveryNRelocates :: nat where
  "kDefragAwaitEveryNRelocates = 1024"

text \<open>The loop over the collected offsets; \<open>wss\<close>: one list of waits per offset.\<close>

fun relocate_loop ::
  "u64 \<Rightarrow> nat list list list \<Rightarrow> IoOutcome list list \<Rightarrow> u64 list \<Rightarrow> u64 \<Rightarrow> WalGroupAwaiter \<Rightarrow> VMemKV
   \<Rightarrow> ((StoreError + u64) \<times> IoOutcome list list \<times> WalGroupAwaiter \<times> VMemKV) option" where
  "relocate_loop max_move wss ioss [] moved aw s = Some (Inr moved, ioss, aw, s)"
| "relocate_loop max_move [] ioss (off # offs) moved aw s = None"
| "relocate_loop max_move (waits # wss) ioss (off # offs) moved aw s =
     (case relocate_offset waits off s of
        None \<Rightarrow> None
      | Some (Inl e, s1) \<Rightarrow> Some (Inl e, ioss, aw, s1)
      | Some (Inr (bytes, pending), s1) \<Rightarrow>
          let moved1 = moved + bytes;
              aw1 = (case pending of None \<Rightarrow> aw | Some p \<Rightarrow> awaiter_add p aw)
          in case (if awaiter_size aw1 \<ge> kDefragAwaitEveryNRelocates then awaiter_drain ioss aw1 (kv_wal s1) else Some (Inr (), ioss, aw1, kv_wal s1)) of
               None \<Rightarrow> None
             | Some (Inl e, ioss1, aw2, w) \<Rightarrow> Some (Inl (LogFailed e), ioss1, aw2, s1\<lparr>kv_wal := w\<rparr>)
             | Some (Inr _, ioss1, aw2, w) \<Rightarrow>
                 if moved1 \<ge> max_move then Some (Inr moved1, ioss1, aw2, s1\<lparr>kv_wal := w\<rparr>)
                 else relocate_loop max_move wss ioss1 offs moved1 aw2 (s1\<lparr>kv_wal := w\<rparr>))"

definition relocate_phase ::
  "u64 \<Rightarrow> nat list list list \<Rightarrow> IoOutcome list list \<Rightarrow> u64 list \<Rightarrow> u64 \<Rightarrow> VMemKV \<Rightarrow> u64 call" where
  "relocate_phase max_move wss ioss victim_segs used s =
     (case collect_victim_offsets victim_segs used s of
        None \<Rightarrow> None
      | Some offsets \<Rightarrow>
          (case relocate_loop max_move wss ioss offsets 0 \<lparr>ga_pendings = []\<rparr> s of
             None \<Rightarrow> None
           | Some (Inl e, ioss1, aw, s1) \<Rightarrow> map_option (\<lambda>w. (Inl e, s1\<lparr>kv_wal := w\<rparr>)) (awaiter_destroy ioss1 aw (kv_wal s1))
           | Some (Inr moved, ioss1, aw, s1) \<Rightarrow>
               (case awaiter_drain ioss1 aw (kv_wal s1) of
                  None \<Rightarrow> None
                | Some (Inl e, ioss2, aw2, w) \<Rightarrow> map_option (\<lambda>w'. (Inl (LogFailed e), s1\<lparr>kv_wal := w'\<rparr>)) (awaiter_destroy ioss2 aw2 w)
                | Some (Inr _, ioss2, aw2, w) \<Rightarrow> map_option (\<lambda>w'. (Inr moved, s1\<lparr>kv_wal := w'\<rparr>)) (awaiter_destroy ioss2 aw2 w))))"

definition queue_evacuated_victims :: "T2Ownership \<Rightarrow> u64 list \<Rightarrow> DefragState \<Rightarrow> DefragState" where
  "queue_evacuated_victims own victim_segs st =
     (let pending = df_pending_punch st @ filter (\<lambda>seg. unat seg < segment_count own \<and> seg_live own (unat seg) = 0) victim_segs
      in st\<lparr>df_pending_punch := pending, df_pending_punch_count := length pending\<rparr>)"

section \<open>The cycle\<close>

record DefragEnv =
  de_statfs :: "u64 option"
  de_punch :: "u64 \<Rightarrow> PunchAnswer"
  de_order :: "Victim list \<Rightarrow> Victim list"
  de_max_move :: u64
  de_waits :: "nat list list list"
  de_ios :: "IoOutcome list list"

definition space_overhead_bp :: "T2Ownership \<Rightarrow> u64 \<Rightarrow> u64" where
  "space_overhead_bp own used =
     (let live = own_live_total own in if used = 0 \<or> live \<ge> used then 0 else (used - live) * 10000 div used)"

text \<open>
  The result and the two states; a cycle that finds another one running returns false, and a cycle that throws leaves its markers alone.
\<close>

definition defrag_cycle :: "DefragEnv \<Rightarrow> u64 \<Rightarrow> bool \<Rightarrow> DefragState \<Rightarrow> VMemKV \<Rightarrow> ((StoreError + bool) \<times> DefragState \<times> VMemKV) option" where
  "defrag_cycle env checkpoint_count force st s =
     (if df_running st then Some (Inr False, st, s)
      else case punch_supported (de_statfs env) st of
        (supported, st0) \<Rightarrow>
          if \<not> supported then Some (Inr False, st0, s)
          else let mem = kv_t2 s; base = tm_base_boundary mem; used = tm_bytes_used mem
               in case punch_evacuated_segments (de_punch env) st0 (kv_own s) mem of
                    (punched_bytes, st1, mem1) \<Rightarrow>
                      let s1 = s\<lparr>kv_t2 := mem1\<rparr>;
                          overhead_bp = space_overhead_bp (kv_own s) used;
                          wanted = (force \<or> scan_wanted st1 overhead_bp checkpoint_count);
                          finish = (\<lambda>moved st. st\<lparr>df_cycle_count := df_cycle_count st + 1, df_last_moved_bytes := moved, df_last_punched_bytes := punched_bytes\<rparr>);
                          scanned = (\<lambda>st. st\<lparr>df_last_checkpoint := checkpoint_count, df_last_overhead_bp := overhead_bp\<rparr>)
                      in if \<not> wanted then Some (Inr False, finish 0 st1, s1)
                         else let victim_segs = select_victims (de_order env) (de_max_move env) (kv_own s1) base used
                              in if victim_segs = [] then Some (Inr True, finish 0 (scanned st1), s1)
                                 else (case relocate_phase (de_max_move env) (de_waits env) (de_ios env) victim_segs used s1 of
                                         None \<Rightarrow> None
                                       | Some (Inl e, s2) \<Rightarrow> Some (Inl e, st1, s2)
                                       | Some (Inr moved, s2) \<Rightarrow>
                                           Some (Inr True, finish moved (scanned (queue_evacuated_victims (kv_own s2) victim_segs st1)), s2)))"

text \<open>
  The forced cycle of \<^verbatim>\<open>vmemkv_impl.hpp\<close>. A turn: the answers of the system to the cycle, and what the other
  threads do to the state during the sleep after it; no turns left means that the call has not returned.
\<close>

fun defragment_loop ::
  "(DefragEnv \<times> (DefragState \<times> VMemKV \<Rightarrow> DefragState \<times> VMemKV)) list \<Rightarrow> bool \<Rightarrow> u64 \<Rightarrow> DefragState \<Rightarrow> VMemKV
   \<Rightarrow> ((StoreError + bool) \<times> DefragState \<times> VMemKV) option" where
  "defragment_loop [] recovering checkpoint_count st s = None"
| "defragment_loop ((env, others) # turns) recovering checkpoint_count st s =
     (if recovering then Some (Inr False, st, s)
      else case defrag_cycle env checkpoint_count True st s of
             None \<Rightarrow> None
           | Some (Inl e, st1, s1) \<Rightarrow> Some (Inl e, st1, s1)
           | Some (Inr scanned, st1, s1) \<Rightarrow>
               if scanned then Some (Inr True, st1, s1)
               else case others (st1, s1) of (st2, s2) \<Rightarrow> defragment_loop turns recovering checkpoint_count st2 s2)"

definition defragment ::
  "u64 option \<Rightarrow> (DefragEnv \<times> (DefragState \<times> VMemKV \<Rightarrow> DefragState \<times> VMemKV)) list \<Rightarrow> bool \<Rightarrow> u64 \<Rightarrow> DefragState \<Rightarrow> VMemKV
   \<Rightarrow> ((StoreError + bool) \<times> DefragState \<times> VMemKV) option" where
  "defragment fs turns recovering checkpoint_count st s =
     (case punch_supported fs st of
        (supported, st1) \<Rightarrow> if \<not> supported then Some (Inr False, st1, s) else defragment_loop turns recovering checkpoint_count st1 s)"

section \<open>A counter of zero\<close>

text \<open>The segments the accounting knows lie in the address range.\<close>

definition seg_layout :: "T2Ownership \<Rightarrow> bool" where
  "seg_layout own \<longleftrightarrow> 0 < own_segment_bytes own \<and> segment_count own * unat (own_segment_bytes own) < 2 ^ 64"

lemma seg_span:
  assumes "seg_layout own" "unat seg < segment_count own"
  shows "unat (seg * own_segment_bytes own) = unat seg * unat (own_segment_bytes own)"
    "unat ((seg + 1) * own_segment_bytes own) = Suc (unat seg) * unat (own_segment_bytes own)"
proof -
  let ?b = "unat (own_segment_bytes own)"
  have le: "Suc (unat seg) * ?b < 2 ^ 64" using assms mult_right_mono [of "Suc (unat seg)" "segment_count own" ?b] by (simp add: seg_layout_def)
  have b: "0 < ?b" using assms(1) by (simp add: seg_layout_def word_less_nat_alt)
  have s: "Suc (unat seg) < 2 ^ 64" using le b by (metis le_less_trans mult.right_neutral mult_le_mono2 Suc_leI One_nat_def)
  then have "unat (seg + 1) = Suc (unat seg)" by (simp add: unat_word_ariths)
  then show "unat ((seg + 1) * own_segment_bytes own) = Suc (unat seg) * ?b" using le by (simp add: unat_word_ariths)
  have "unat seg * ?b < 2 ^ 64" using le by simp
  then show "unat (seg * own_segment_bytes own) = unat seg * ?b" by (simp add: unat_word_ariths)
qed

text \<open>The T2 entries of a store, and where they are.\<close>

definition entry_off :: "LookupResult \<Rightarrow> nat" where
  "entry_off r = unat (lr_payload_bits r AND kPayloadOffsetMask)"

definition t2_entries :: "VMemKV \<Rightarrow> ident set" where
  "t2_entries s = {x. \<exists>r. si_view (kv_t1 s) x = Some r \<and> \<not> is_inline (lr_raw_hash r)}"

lemma t2_entryD:
  assumes "kv_inv s recs" "si_view (kv_t1 s) x = Some r" "\<not> is_inline (lr_raw_hash r)"
  obtains e where "recs (entry_off r) = Some e" "ident_of (fst (t2_read (kv_t2 s) (entry_off r))) = x" "hint_bytes (lr_payload_bits r) \<noteq> 0"
    "kv_map s x = Some (t2_read (kv_t2 s) (entry_off r))"
  using kv_invD(4) [OF assms(1,2)] assms(2,3) that by (auto simp: entry_ok_def entry_off_def entry_kv_def kv_map_def)

lemma hint_small: "unat (hint_bytes p) \<le> 2 ^ 20"
proof -
  have "unat (drop_bit 48 p) = unat p div 2 ^ 48" by (simp add: unat_drop_bit_eq drop_bit_nat_def)
  then have "unat (drop_bit 48 p) < 2 ^ 16" using unat_less_2p [of p] by (simp add: less_mult_imp_div_less)
  then show ?thesis by (simp add: hint_bytes_def kPayloadSizeShift_def kRecordBlockAlignment_def unat_word_ariths)
qed

lemma t2_entries_card:
  assumes inv: "kv_inv s recs"
  shows "card (t2_entries s) * 24 \<le> 2 ^ 48"
proof -
  let ?off = "\<lambda>x. entry_off (the (si_view (kv_t1 s) x))"
  note d = kv_invD [OF inv]
  have fin: "finite (t2_entries s)"
    by (rule finite_subset [of _ "dom (si_view (kv_t1 s))"]) (use d(3) in \<open>auto simp: t2_entries_def own_inv_def\<close>)
  have at: "\<exists>e. recs (?off x) = Some e \<and> ident_of (fst (t2_read (kv_t2 s) (?off x))) = x" if x: "x \<in> t2_entries s" for x
  proof -
    obtain r where r: "si_view (kv_t1 s) x = Some r" "\<not> is_inline (lr_raw_hash r)" using x by (auto simp: t2_entries_def)
    show ?thesis by (rule t2_entryD [OF inv r]) (use r in auto)
  qed
  let ?E = "\<lambda>x. {?off x ..< ?off x + 24}"
  have dis: "?E x \<inter> ?E y = {}" if xy: "x \<in> t2_entries s" "y \<in> t2_entries s" "x \<noteq> y" for x y
  proof -
    obtain e where e: "recs (?off x) = Some e" "ident_of (fst (t2_read (kv_t2 s) (?off x))) = x" using at [OF xy(1)] by blast
    obtain e' where e': "recs (?off y) = Some e'" "ident_of (fst (t2_read (kv_t2 s) (?off y))) = y" using at [OF xy(2)] by blast
    have "?off x \<noteq> ?off y" using e(2) e'(2) xy(3) by force
    then consider "?off x < ?off y" | "?off y < ?off x" by linarith
    then have "?off x + 24 \<le> ?off y \<or> ?off y + 24 \<le> ?off x"
      using t2_inv_disjoint [OF d(2) e(1) e'(1)] t2_inv_disjoint [OF d(2) e'(1) e(1)] by cases (simp_all add: extent_end_def)
    then show ?thesis by auto
  qed
  have "?E x \<subseteq> {..<2 ^ 48}" if x: "x \<in> t2_entries s" for x
  proof -
    obtain e where "recs (?off x) = Some e" using at [OF x] by blast
    from t2_invD(4) [OF d(2) this] have "?off x + 24 \<le> 2 ^ 48" using t2_inv_len [OF d(2)] d(5) by (simp add: extent_end_def)
    then show ?thesis by auto
  qed
  then have "(\<Union>x \<in> t2_entries s. ?E x) \<subseteq> {..<2 ^ 48}" by blast
  then have "card (\<Union>x \<in> t2_entries s. ?E x) \<le> 2 ^ 48" using card_mono [of "{..<2 ^ 48 :: nat}"] by simp
  moreover have "card (\<Union>x \<in> t2_entries s. ?E x) = (\<Sum>x \<in> t2_entries s. card (?E x))"
    by (rule card_UN_disjoint [OF fin]) (use dis in auto)
  ultimately show ?thesis by simp
qed

lemma counted_bytes:
  assumes inv: "kv_inv s recs"
  shows "(\<Sum>x \<in> dom (si_view (kv_t1 s)). unat (contrib (kv_own s) n (the (si_view (kv_t1 s) x)))) < 2 ^ 64"
proof -
  let ?f = "\<lambda>x. unat (contrib (kv_own s) n (the (si_view (kv_t1 s) x)))" and ?D = "dom (si_view (kv_t1 s))"
  have fin: "finite ?D" using kv_invD(3) [OF inv] by (simp add: own_inv_def)
  have sub: "t2_entries s \<subseteq> ?D" by (auto simp: t2_entries_def)
  have "sum ?f ?D = sum ?f (t2_entries s)"
    by (rule sum.mono_neutral_right [OF fin sub]) (auto simp: t2_entries_def contrib_def in_segment_def)
  also have "\<dots> \<le> card (t2_entries s) * 2 ^ 20"
    using sum_bounded_above [of "t2_entries s" ?f "2 ^ 20"] hint_small by (auto simp: contrib_def)
  finally show ?thesis using t2_entries_card [OF inv] by simp
qed

text \<open>The header of a live record tells where it ends.\<close>

lemma record_end_kv:
  assumes inv: "kv_inv s recs" and x: "si_view (kv_t1 s) x = Some r" "\<not> is_inline (lr_raw_hash r)" and kv: "kv_map s x = Some (k, v)"
  shows "unat (vh_key_len (read_header (tm_base (kv_t2 s)) (entry_off r))) = length k"
    "unat (vh_value_len (read_header (tm_base (kv_t2 s)) (entry_off r))) = length v"
    "entry_off r + 24 + length k + length v \<le> length (tm_base (kv_t2 s))"
proof -
  let ?m = "kv_t2 s" and ?o = "entry_off r"
  let ?h = "read_header (tm_base ?m) ?o"
  obtain e where e: "recs ?o = Some e" "kv_map s x = Some (t2_read ?m ?o)" by (rule t2_entryD [OF inv x])
  have rd: "rv_key (make_record_view (tm_base ?m) ?o) = k" "rv_value (make_record_view (tm_base ?m) ?o) = v"
    using e(2) kv by (simp_all add: t2_read_def t2_at_def entry_off_def Let_def)
  have ext: "?o + 24 + unat (vh_key_len ?h) + unat (vh_value_len ?h) \<le> length (tm_base ?m)"
    using t2_invD(1,3,4) [OF kv_invD(2) [OF inv] e(1)] by (simp add: extent_end_def)
  show kl: "unat (vh_key_len ?h) = length k" and vl: "unat (vh_value_len ?h) = length v"
    using rd [symmetric] ext by (simp_all add: make_record_view_def Let_def header_size)
  show "?o + 24 + length k + length v \<le> length (tm_base ?m)" using ext by (simp add: kl vl)
qed

text \<open>No live record of an earlier segment reaches into the segment.\<close>

definition record_end :: "T2Memory \<Rightarrow> nat \<Rightarrow> nat" where
  "record_end mem off = off + 24 + unat (vh_key_len (read_header (tm_base mem) off)) + unat (vh_value_len (read_header (tm_base mem) off))"

definition no_overhang :: "VMemKV \<Rightarrow> u64 \<Rightarrow> bool" where
  "no_overhang s seg \<longleftrightarrow> (\<forall>x r. si_view (kv_t1 s) x = Some r \<and> \<not> is_inline (lr_raw_hash r)
     \<longrightarrow> entry_off r < unat (seg * own_segment_bytes (kv_own s)) \<longrightarrow> record_end (kv_t2 s) (entry_off r) \<le> unat (seg * own_segment_bytes (kv_own s)))"

lemma no_overhang_cong:
  assumes "si_view (kv_t1 s') = si_view (kv_t1 s)" "own_segment_bytes (kv_own s') = own_segment_bytes (kv_own s)"
    and "\<And>x r. si_view (kv_t1 s) x = Some r \<Longrightarrow> \<not> is_inline (lr_raw_hash r) \<Longrightarrow> record_end (kv_t2 s') (entry_off r) = record_end (kv_t2 s) (entry_off r)"
  shows "no_overhang s' = no_overhang s"
proof (rule ext)
  fix seg
  show "no_overhang s' seg = no_overhang s seg"
    unfolding no_overhang_def assms(1,2) using assms(3) by (intro arg_cong [of _ _ All] ext) (auto cong: conj_cong imp_cong)
qed

lemma evacuated_outside:
  assumes inv: "kv_inv s recs" and lay: "seg_layout (kv_own s)" and ev: "is_evacuated_segment (kv_own s) mem seg"
    and x: "si_view (kv_t1 s) x = Some r" "\<not> is_inline (lr_raw_hash r)"
  shows "entry_off r < unat (seg * own_segment_bytes (kv_own s)) \<or> unat ((seg + 1) * own_segment_bytes (kv_own s)) \<le> entry_off r"
proof -
  let ?own = "kv_own s" and ?b = "unat (own_segment_bytes (kv_own s))"
  have c: "unat seg < segment_count ?own" "seg_live ?own (unat seg) = 0" using ev by (auto simp: is_evacuated_segment_def split: if_splits)
  have h: "hint_bytes (lr_payload_bits r) \<noteq> 0" by (rule t2_entryD [OF inv x])
  let ?D = "dom (si_view (kv_t1 s))" and ?f = "\<lambda>x. unat (contrib ?own (unat seg) (the (si_view (kv_t1 s) x)))"
  have own: "finite ?D" "seg_live ?own (unat seg) = (\<Sum>x \<in> ?D. contrib ?own (unat seg) (the (si_view (kv_t1 s) x)))"
    using kv_invD(3) [OF inv] c(1) by (auto simp: own_inv_def)
  have "word_of_nat (sum ?f ?D) = (0 :: u64)" using own(2) c(2) by simp
  then have "sum ?f ?D = 0" using unat_small [OF counted_bytes [OF inv, of "unat seg"]] by simp
  then have "?f x = 0" using own(1) x(1) by (metis domI sum_eq_0_iff)
  then have "\<not> in_segment ?own (unat seg) r" using x(1) h by (auto simp: contrib_def unat_eq_0)
  then have ne: "entry_off r div ?b \<noteq> unat seg" using x(2) by (simp add: in_segment_def seg_index_def entry_off_def unat_div)
  have b: "0 < ?b" using lay by (simp add: seg_layout_def word_less_nat_alt)
  show ?thesis
  proof (cases "entry_off r div ?b < unat seg")
    case True
    then have "entry_off r < unat seg * ?b" using b by (simp add: div_less_iff_less_mult)
    then show ?thesis using seg_span(1) [OF lay c(1)] by simp
  next
    case False
    then have "Suc (unat seg) \<le> entry_off r div ?b" using ne by simp
    then have "Suc (unat seg) * ?b \<le> entry_off r" using b by (simp add: less_eq_div_iff_mult_less_eq)
    then show ?thesis using seg_span(2) [OF lay c(1)] by simp
  qed
qed

text \<open>What a punch leaves of the records outside the range.\<close>

lemma punch_view:
  fixes mem :: T2Memory
  assumes len: "a + n \<le> length (tm_base mem)" and out: "record_end mem p \<le> a \<or> a + n \<le> p"
  defines "mem' \<equiv> mem\<lparr>tm_base := mem_write (tm_base mem) a (replicate n 0)\<rparr>"
  shows "make_record_view (tm_base mem') p = make_record_view (tm_base mem) p"
proof -
  let ?k = "unat (vh_key_len (read_header (tm_base mem) p))" and ?v = "unat (vh_value_len (read_header (tm_base mem) p))"
  have b: "tm_base mem' = mem_write (tm_base mem) a (replicate n 0)" by (simp add: mem'_def)
  have eq: "mem_read (tm_base mem') p (24 + ?k + ?v) = mem_read (tm_base mem) p (24 + ?k + ?v)"
    unfolding b by (rule mem_read_write_disjoint) (use len out in \<open>auto simp: record_end_def\<close>)
  show ?thesis by (rule record_view_cong [OF eq [symmetric] refl refl order_refl])
qed

lemma punched_store:
  assumes inv: "kv_inv s recs" and len: "a + n \<le> unat (tm_capacity (kv_t2 s))"
    and out: "\<And>x r. si_view (kv_t1 s) x = Some r \<Longrightarrow> \<not> is_inline (lr_raw_hash r) \<Longrightarrow> record_end (kv_t2 s) (entry_off r) \<le> a \<or> a + n \<le> entry_off r"
  defines "mem' \<equiv> (kv_t2 s)\<lparr>tm_base := mem_write (tm_base (kv_t2 s)) a (replicate n 0)\<rparr>"
  shows "\<exists>recs'. kv_inv (s\<lparr>kv_t2 := mem'\<rparr>) recs'" "kv_map (s\<lparr>kv_t2 := mem'\<rparr>) = kv_map s"
    "no_overhang (s\<lparr>kv_t2 := mem'\<rparr>) = no_overhang s"
proof -
  note d = kv_invD [OF inv]
  let ?m = "kv_t2 s"
  have lb: "a + n \<le> length (tm_base ?m)" using len t2_inv_len [OF d(2)] by simp
  define keep where "keep p \<longleftrightarrow> record_end ?m p \<le> a \<or> a + n \<le> p" for p
  have v: "make_record_view (tm_base mem') p = make_record_view (tm_base ?m) p" if "keep p" for p
    unfolding mem'_def by (rule punch_view [OF lb]) (use that in \<open>simp add: keep_def\<close>)
  have h: "read_header (tm_base mem') p = read_header (tm_base ?m) p" if "keep p" for p
    using arg_cong [OF v [OF that], of rv_header] by (simp add: make_record_view_def Let_def)
  define recs' where "recs' p = (if keep p then recs p else None)" for p
  have t2: "t2_inv ?m recs'" using d(2) unfolding t2_inv_def recs'_def by (auto split: if_splits)
  have t2': "t2_inv mem' recs'"
  proof (rule t2_inv_keep [OF t2])
    fix p e
    assume "recs' p = Some e"
    then have p: "keep p" "recs p = Some e" by (auto simp: recs'_def split: if_splits)
    show "vh_key_len (read_header (tm_base mem') p) = vh_key_len (read_header (tm_base ?m) p)
      \<and> vh_alloc_len (read_header (tm_base mem') p) = vh_alloc_len (read_header (tm_base ?m) p)
      \<and> unat (vh_value_len (read_header (tm_base mem') p)) \<le> snd e \<and> even (vh_version (read_header (tm_base mem') p))"
      using h [OF p(1)] t2_invD(3,6) [OF d(2) p(2)] by simp
  qed (use lb in \<open>simp_all add: mem'_def\<close>)
  have k: "keep (entry_off r)" if "si_view (kv_t1 s) x = Some r" "\<not> is_inline (lr_raw_hash r)" for x r
    using out [OF that] by (simp add: keep_def)
  have rd: "t2_read mem' (entry_off r) = t2_read ?m (entry_off r)" if "si_view (kv_t1 s) x = Some r" "\<not> is_inline (lr_raw_hash r)" for x r
    using v [OF k [OF that]] by (simp add: t2_read_def t2_at_def entry_off_def Let_def)
  have ek: "entry_kv mem' x r = entry_kv ?m x r" if "si_view (kv_t1 s) x = Some r" for x r
    by (rule entry_kv_cong) (use rd [OF that] in \<open>simp add: entry_off_def\<close>)
  have ok: "entry_ok (kv_use_inline s) mem' recs' x r" if "si_view (kv_t1 s) x = Some r" for x r
    using d(4) [OF that] ek [OF that] k [OF that] by (auto simp: entry_ok_def recs'_def entry_off_def)
  show "\<exists>recs'. kv_inv (s\<lparr>kv_t2 := mem'\<rparr>) recs'"
    using d t2' ok by (intro exI [of _ recs']) (auto simp: kv_inv_def mem'_def)
  show "kv_map (s\<lparr>kv_t2 := mem'\<rparr>) = kv_map s"
  proof
    fix x
    show "kv_map (s\<lparr>kv_t2 := mem'\<rparr>) x = kv_map s x" using ek [of x] by (cases "si_view (kv_t1 s) x") (simp_all add: kv_map_def)
  qed
  have re: "record_end mem' (entry_off r) = record_end ?m (entry_off r)" if "si_view (kv_t1 s) x = Some r" "\<not> is_inline (lr_raw_hash r)" for x r
    using h [OF k [OF that]] by (simp add: record_end_def)
  show "no_overhang (s\<lparr>kv_t2 := mem'\<rparr>) = no_overhang s" by (rule no_overhang_cong) (use re in auto)
qed

text \<open>What punching leaves alone.\<close>

definition punch_frame :: "T2Memory \<Rightarrow> T2Memory \<Rightarrow> bool" where
  "punch_frame mem mem' \<longleftrightarrow> tm_capacity mem' = tm_capacity mem \<and> tm_bytes_used mem' = tm_bytes_used mem \<and> tm_base_boundary mem' = tm_base_boundary mem"

lemma punch_one:
  assumes inv: "kv_inv s recs" and lay: "seg_layout (kv_own s)" and ev: "is_evacuated_segment (kv_own s) (kv_t2 s) seg" and no: "no_overhang s seg"
    and p: "punch (kv_t2 s) (seg * own_segment_bytes (kv_own s)) (own_segment_bytes (kv_own s)) fd seek ok = (oc, mem')"
  shows "(\<exists>recs'. kv_inv (s\<lparr>kv_t2 := mem'\<rparr>) recs') \<and> kv_map (s\<lparr>kv_t2 := mem'\<rparr>) = kv_map s
    \<and> no_overhang (s\<lparr>kv_t2 := mem'\<rparr>) = no_overhang s \<and> punch_frame (kv_t2 s) mem'"
proof -
  let ?b = "own_segment_bytes (kv_own s)" and ?m = "kv_t2 s"
  let ?a = "unat (seg * ?b)"
  have c: "unat seg < segment_count (kv_own s)" using ev by (auto simp: is_evacuated_segment_def split: if_splits)
  note sp = seg_span [OF lay c]
  have e: "?a + unat ?b = unat ((seg + 1) * ?b)" using sp by simp
  have out: "record_end ?m (entry_off r) \<le> ?a \<or> ?a + unat ?b \<le> entry_off r" if "si_view (kv_t1 s) x = Some r" "\<not> is_inline (lr_raw_hash r)" for x r
    using evacuated_outside [OF inv lay ev that] no that unfolding e no_overhang_def by blast
  consider "mem' = ?m" | "mem' = ?m\<lparr>tm_base := mem_write (tm_base ?m) ?a (replicate (unat ?b) 0)\<rparr>" "\<not> seg * ?b + ?b > tm_capacity ?m"
    using p by (auto simp: punch_def split: if_splits option.splits prod.splits)
  then show ?thesis
  proof cases
    case 1
    then have "s\<lparr>kv_t2 := mem'\<rparr> = s" by simp
    then show ?thesis using inv 1 by (auto simp: punch_frame_def)
  next
    case 2
    have "seg * ?b + ?b = (seg + 1) * ?b" by (simp add: algebra_simps)
    then have "?a + unat ?b \<le> unat (tm_capacity ?m)" using 2(2) e by (simp add: word_less_nat_alt not_less)
    note ps = punched_store [OF inv this out, folded 2(1)]
    have "punch_frame ?m mem'" unfolding 2(1) by (simp add: punch_frame_def)
    then show ?thesis by (intro conjI ps)
  qed
qed

text \<open>The loop over the queue.\<close>

lemma punch_loop_ok:
  assumes "kv_inv s recs" "seg_layout (kv_own s)" "\<And>seg. seg \<in> set segs \<Longrightarrow> is_evacuated_segment (kv_own s) (kv_t2 s) seg \<Longrightarrow> no_overhang s seg"
    and "punch_loop ans (kv_own s) segs punched bytes (kv_t2 s) = (punched', bytes', failed, mem')"
  shows "(\<exists>recs'. kv_inv (s\<lparr>kv_t2 := mem'\<rparr>) recs') \<and> kv_map (s\<lparr>kv_t2 := mem'\<rparr>) = kv_map s \<and> punch_frame (kv_t2 s) mem'"
  using assms
proof (induction segs arbitrary: s recs punched bytes)
  case Nil
  then show ?case by (auto simp: punch_frame_def)
next
  case (Cons seg segs)
  let ?b = "own_segment_bytes (kv_own s)"
  show ?case
  proof (cases "is_evacuated_segment (kv_own s) (kv_t2 s) seg")
    case False
    show ?thesis by (rule Cons.IH [OF Cons.prems(1,2)]) (use Cons.prems(3,4) False in auto)
  next
    case True
    obtain oc calls mem1 where p: "punch (kv_t2 s) (seg * ?b) ?b (pa_fd (ans seg)) (pa_seek (ans seg)) (pa_ok (ans seg)) = ((oc, calls), mem1)"
      by (metis prod.exhaust)
    have no: "no_overhang s seg" by (rule Cons.prems(3)) (use True in auto)
    let ?s1 = "s\<lparr>kv_t2 := mem1\<rparr>"
    obtain recs1 where one: "kv_inv ?s1 recs1" "kv_map ?s1 = kv_map s" "no_overhang ?s1 = no_overhang s" "punch_frame (kv_t2 s) mem1"
      using punch_one [OF Cons.prems(1,2) True no p] by blast
    have ev: "is_evacuated_segment (kv_own s) mem1 sg = is_evacuated_segment (kv_own s) (kv_t2 s) sg" for sg
      using one(4) by (simp add: is_evacuated_segment_def punch_frame_def)
    note run = Cons.prems(4) [unfolded punch_loop.simps, simplified True p, simplified]
    show ?thesis
    proof (cases "oc = PunchFailed")
      case True
      then have "mem' = mem1" using run by simp
      then show ?thesis using one by blast
    next
      case False
      obtain pu bs where go: "punch_loop ans (kv_own s) segs pu bs mem1 = (punched', bytes', failed, mem')"
        using run False by (cases oc) auto
      have "(\<exists>recs'. kv_inv (?s1\<lparr>kv_t2 := mem'\<rparr>) recs') \<and> kv_map (?s1\<lparr>kv_t2 := mem'\<rparr>) = kv_map ?s1 \<and> punch_frame (kv_t2 ?s1) mem'"
        by (rule Cons.IH [OF one(1)]) (use Cons.prems(2,3) ev one(3) go in auto)
      then show ?thesis using one(2,4) by (simp add: punch_frame_def)
    qed
  qed
qed

section \<open>A relocation changes no contents\<close>

lemma dom_kv_map: "dom (kv_map s) = dom (si_view (kv_t1 s))"
  by (auto simp: kv_map_def)

lemma unique_same_map:
  assumes "unique_prefixes (si_view (kv_t1 s))" "kv_map s' = kv_map s"
  shows "unique_prefixes (si_view (kv_t1 s'))"
  using assms dom_kv_map [of s] dom_kv_map [of s'] by (simp add: unique_prefixes_def)

text \<open>A write keeps the shape of the accounting.\<close>

definition same_segs :: "VMemKV \<Rightarrow> VMemKV \<Rightarrow> bool" where
  "same_segs s s' \<longleftrightarrow> own_segment_bytes (kv_own s') = own_segment_bytes (kv_own s) \<and> segment_count (kv_own s') = segment_count (kv_own s)"

lemma same_segs_refl [simp]: "same_segs s s"
  by (simp add: same_segs_def)

lemma same_segs_trans: "same_segs s s1 \<Longrightarrow> same_segs s1 s2 \<Longrightarrow> same_segs s s2"
  by (simp add: same_segs_def)

lemma note_replace_segs [simp]:
  "own_segment_bytes (note_replace a b c d own) = own_segment_bytes own" "segment_count (note_replace a b c d own) = segment_count own"
  by (simp_all add: note_replace_def add_live_def subtract_live_def segment_count_def Let_def)

lemma write_entry_segs:
  assumes "\<And>s. kv_own (mr s) = kv_own s" "write_entry_lockfree mr waits key v prev s = Some (r, s')"
  shows "same_segs s s'"
  using assms(2)
proof (induction waits arbitrary: s)
  case Nil
  then show ?case by (simp add: write_entry_lockfree.simps)
next
  case (Cons ws rest)
  have "same_segs s s'" if "write_entry_lockfree mr rest key v prev (mr s1) = Some (r, s')" "same_segs s s1" for s1
    using Cons.IH [OF that(1)] that(2) assms(1) by (simp add: same_segs_def)
  then show ?case using Cons.prems
    by (subst (asm) write_entry_lockfree.simps) (auto simp: same_segs_def Let_def split: option.splits prod.splits sum.splits if_splits)
qed

text \<open>The store after a step of a relocation.\<close>

definition relocated :: "VMemKV \<Rightarrow> nat \<Rightarrow> VMemKV \<Rightarrow> bool" where
  "relocated s n s' \<longleftrightarrow> (\<exists>recs'. kv_inv s' recs') \<and> same_segs s s' \<and> kv_map s' = kv_map s \<and> base_region (kv_t2 s') = base_region (kv_t2 s)
     \<and> tm_base_boundary (kv_t2 s') = tm_base_boundary (kv_t2 s) \<and> tm_capacity (kv_t2 s') = tm_capacity (kv_t2 s)
     \<and> unat (tm_bytes_used (kv_t2 s)) \<le> unat (tm_bytes_used (kv_t2 s')) \<and> unat (tm_bytes_used (kv_t2 s')) \<le> unat (tm_bytes_used (kv_t2 s)) + n * 2 ^ 20"

lemma relocated_wal [simp]: "relocated s n (s'\<lparr>kv_wal := w\<rparr>) = relocated s n s'" "relocated (s\<lparr>kv_wal := w\<rparr>) n s' = relocated s n s'"
  by (simp_all add: relocated_def same_segs_def)

lemma relocated_refl: "kv_inv s recs \<Longrightarrow> relocated s n s"
  by (auto simp: relocated_def)

lemma relocated_trans: "relocated s n s1 \<Longrightarrow> relocated s1 k s2 \<Longrightarrow> relocated s (n + k) s2"
  by (auto simp: relocated_def algebra_simps intro: same_segs_trans)

lemma relocate_offset_ok:
  assumes inv: "kv_inv s recs" and uq: "unique_prefixes (si_view (kv_t1 s))" and room: "unat (tm_bytes_used (kv_t2 s)) < 2 ^ 63"
    and res: "relocate_offset waits off s = Some (r, s')"
  shows "relocated s 1 s'"
proof -
  let ?o = "off AND kPayloadOffsetMask"
  define fr where "fr = t2_at ?o (kv_t2 s)"
  let ?k = "rv_key fr" and ?v = "rv_value fr"
  let ?cur = "si_lookup (kv_t1 s) ?k"
  note lk = lookup_map [OF inv, of ?k]
  show ?thesis
  proof (cases "lr_payload_bits ?cur = STORE_NOT_FOUND \<or> is_inline (lr_raw_hash ?cur) \<or> lr_payload_bits ?cur AND kPayloadOffsetMask \<noteq> ?o")
    case True
    then have "s' = s" using res lk(1) by (auto simp: relocate_offset_def fr_def [symmetric] Let_def)
    then show ?thesis using relocated_refl [OF inv] by simp
  next
    case False
    then have present: "si_view (kv_t1 s) (ident_of ?k) = Some ?cur" using lk(3,5) by auto
    have "kv_map s (ident_of ?k) = Some (t2_read (kv_t2 s) (unat ?o))" using False present by (simp add: kv_map_def entry_kv_def)
    then have same: "(kv_map s)(ident_of ?k \<mapsto> (?k, ?v)) = kv_map s" by (simp add: t2_read_def fr_def Let_def fun_upd_idem)
    have len: "length ?k + length ?v < 2 ^ 63"
      using unat_less_2p [of "vh_key_len (rv_header fr)"] unat_less_2p [of "vh_value_len (rv_header fr)"]
      by (simp add: fr_def t2_at_def make_record_view_def Let_def mem_read_def)
    have w: "waits_ok waits s" using uq by (simp add: waits_ok_def)
    obtain wr s1 where we: "write_entry_lockfree maybe_reorganize_if_needed waits ?k ?v (Some ?cur) s = Some (wr, s1)"
      using res False lk(1) by (auto simp: relocate_offset_def fr_def [symmetric] Let_def split: option.splits)
    have fin: "relocated s 1 s1 \<Longrightarrow> ?thesis"
      using res False lk(1) we by (auto simp: relocate_offset_def fr_def [symmetric] Let_def split: option.splits sum.splits prod.splits)
    have "same_segs s s1" by (rule write_entry_segs [OF _ we]) (simp add: maybe_reorganize_if_needed_def Let_def)
    then have mk: "relocated s 1 s1" if "kv_inv s1 recs1" "kv_map s1 = kv_map s" "kv_frame s s1" for recs1
      using that by (auto simp: relocated_def kv_frame_def)
    from inv w lk(4) len room we show ?thesis
    proof (cases rule: write_entry_correct)
      case (written recs')
      show ?thesis by (rule fin [OF mk [OF written(2)]]) (use written same in auto)
    next
      case too_large
      then show ?thesis using fin relocated_refl [OF inv] by simp
    next
      case full
      then show ?thesis using fin mk by blast
    qed
  qed
qed

lemma relocate_loop_ok:
  assumes "kv_inv s recs" "unique_prefixes (si_view (kv_t1 s))" "unat (tm_bytes_used (kv_t2 s)) + length wss * 2 ^ 20 < 2 ^ 63"
    and "relocate_loop max_move wss ioss offs moved aw s = Some (r, ioss', aw', s')"
  shows "relocated s (length wss) s'"
  using assms
proof (induction max_move wss ioss offs moved aw s arbitrary: recs rule: relocate_loop.induct)
  case (1 max_move wss ioss moved aw s)
  then show ?case using relocated_refl by auto
next
  case (2 max_move ioss off offs moved aw s)
  then show ?case by simp
next
  case (3 max_move waits wss ioss off offs moved aw s)
  note run = "3.prems"(4)
  obtain r1 s1 where ro: "relocate_offset waits off s = Some (r1, s1)" using run by (cases "relocate_offset waits off s") auto
  have one: "relocated s 1 s1" by (rule relocate_offset_ok [OF "3.prems"(1,2) _ ro]) (use "3.prems"(3) in simp)
  have step: "relocated s (length (waits # wss)) s1" using one by (auto simp: relocated_def)
  show ?case
  proof (cases r1)
    case (Inl e)
    then show ?thesis using run ro step by simp
  next
    case (Inr bp)
    obtain b pending where bp: "bp = (b, pending)" by (cases bp)
    define aw1 where "aw1 = (case pending of None \<Rightarrow> aw | Some p \<Rightarrow> awaiter_add p aw)"
    define dr where "dr = (if awaiter_size aw1 \<ge> kDefragAwaitEveryNRelocates then awaiter_drain ioss aw1 (kv_wal s1) else Some (Inr (), ioss, aw1, kv_wal s1))"
    note run1 = run [unfolded relocate_loop.simps, unfolded ro Inr bp, simplified, folded aw1_def, unfolded Let_def, folded dr_def]
    obtain d ioss1 aw2 w where dr: "dr = Some (d, ioss1, aw2, w)" using run1 by (cases dr) auto
    show ?thesis
    proof (cases "(\<exists>e. d = Inl e) \<or> moved + b \<ge> max_move")
      case True
      then have "s' = s1\<lparr>kv_wal := w\<rparr>" using run1 by (auto simp: dr split: if_splits sum.splits)
      then show ?thesis using step by simp
    next
      case False
      then have d: "d = Inr ()" "\<not> moved + b \<ge> max_move" by (cases d; simp)+
      have go: "relocate_loop max_move wss ioss1 offs (moved + b) aw2 (s1\<lparr>kv_wal := w\<rparr>) = Some (r, ioss', aw', s')"
        using run1 d by (simp add: dr)
      obtain recs1 where i1: "kv_inv (s1\<lparr>kv_wal := w\<rparr>) recs1" using one by (auto simp: relocated_def)
      have "relocated (s1\<lparr>kv_wal := w\<rparr>) (length wss) s'"
        by (rule "3.IH" [OF ro refl Inr bp [symmetric] refl aw1_def dr [unfolded dr_def] refl d(1) refl refl d(2) i1 _ _ go])
          (use one "3.prems"(2,3) unique_same_map [of s s1] in \<open>simp_all add: relocated_def\<close>)
      then show ?thesis using relocated_trans [OF one] by simp
    qed
  qed
qed

lemma relocate_phase_ok:
  assumes "kv_inv s recs" "unique_prefixes (si_view (kv_t1 s))" "unat (tm_bytes_used (kv_t2 s)) + length wss * 2 ^ 20 < 2 ^ 63"
    and run: "relocate_phase max_move wss ioss victim_segs used s = Some (r, s')"
  shows "relocated s (length wss) s'"
proof -
  obtain offs where "collect_victim_offsets victim_segs used s = Some offs" using run by (auto simp: relocate_phase_def split: option.splits)
  note run1 = run [unfolded relocate_phase_def, unfolded this option.case]
  obtain r1 ioss1 aw s1 where lp: "relocate_loop max_move wss ioss offs 0 \<lparr>ga_pendings = []\<rparr> s = Some (r1, ioss1, aw, s1)"
    using run1 by (auto split: option.splits)
  note ok = relocate_loop_ok [OF assms(1-3) lp]
  obtain w where "s' = s1\<lparr>kv_wal := w\<rparr>" using run1 by (auto simp: lp split: option.splits sum.splits prod.splits)
  then show ?thesis using ok by simp
qed

text \<open>A cycle punches, then perhaps relocates.\<close>

lemma punch_phase_ok:
  assumes "kv_inv s recs" "seg_layout (kv_own s)" "\<And>seg. seg \<in> set (df_pending_punch st) \<Longrightarrow> is_evacuated_segment (kv_own s) (kv_t2 s) seg \<Longrightarrow> no_overhang s seg"
    and run: "punch_evacuated_segments ans st (kv_own s) (kv_t2 s) = (n, st', mem')"
  shows "(\<exists>recs'. kv_inv (s\<lparr>kv_t2 := mem'\<rparr>) recs') \<and> kv_map (s\<lparr>kv_t2 := mem'\<rparr>) = kv_map s \<and> punch_frame (kv_t2 s) mem'"
proof -
  obtain pu b f where lp: "punch_loop ans (kv_own s) (df_pending_punch st) [] 0 (kv_t2 s) = (pu, b, f, mem')"
    using run by (auto simp: punch_evacuated_segments_def Let_def split: prod.splits)
  show ?thesis by (rule punch_loop_ok [OF assms(1-3) lp])
qed

lemma defrag_cycle_ok:
  assumes inv: "kv_inv s recs" and uq: "unique_prefixes (si_view (kv_t1 s))" and lay: "seg_layout (kv_own s)"
    and no: "\<And>seg. seg \<in> set (df_pending_punch st) \<Longrightarrow> is_evacuated_segment (kv_own s) (kv_t2 s) seg \<Longrightarrow> no_overhang s seg"
    and room: "unat (tm_bytes_used (kv_t2 s)) + length (de_waits env) * 2 ^ 20 < 2 ^ 63"
    and run: "defrag_cycle env ckpts force st s = Some (r, st', s')"
  shows "(\<exists>recs'. kv_inv s' recs') \<and> kv_map s' = kv_map s"
proof (cases "df_running st \<or> \<not> fst (punch_supported (de_statfs env) st)")
  case True
  then have "s' = s" using run by (auto simp: defrag_cycle_def split: if_splits prod.splits)
  then show ?thesis using inv by blast
next
  case False
  then have notrun: "\<not> df_running st" by blast
  obtain st0 where ps: "punch_supported (de_statfs env) st = (True, st0)" using False by (cases "punch_supported (de_statfs env) st") auto
  then have "df_pending_punch st0 = df_pending_punch st" by (auto simp: punch_supported_def Let_def)
  note no0 = no [folded this]
  obtain n st1 mem1 where pe: "punch_evacuated_segments (de_punch env) st0 (kv_own s) (kv_t2 s) = (n, st1, mem1)" by (metis prod.exhaust)
  let ?s1 = "s\<lparr>kv_t2 := mem1\<rparr>"
  obtain recs1 where p1: "kv_inv ?s1 recs1" "kv_map ?s1 = kv_map s" "punch_frame (kv_t2 s) mem1"
    using punch_phase_ok [OF inv lay no0 pe] by blast
  note run1 = run [unfolded defrag_cycle_def ps Let_def prod.case pe]
  show ?thesis
  proof (cases "s' = ?s1")
    case True
    then show ?thesis using p1 by blast
  next
    case False
    obtain vs rr where rp: "relocate_phase (de_max_move env) (de_waits env) (de_ios env) vs (tm_bytes_used (kv_t2 s)) ?s1 = Some (rr, s')"
      using run1 False notrun by (simp split: if_split_asm option.splits sum.splits prod.splits)
    have "relocated ?s1 (length (de_waits env)) s'"
      by (rule relocate_phase_ok [OF p1(1) _ _ rp]) (use uq room p1(3) in \<open>simp_all add: punch_frame_def\<close>)
    then show ?thesis using p1(2) by (simp add: relocated_def)
  qed
qed

section \<open>Punching a segment a live record reaches into\<close>

lemma zeroed_value:
  assumes inv: "kv_inv s recs" and x: "si_view (kv_t1 s) x = Some r" "\<not> is_inline (lr_raw_hash r)"
    and kv: "kv_map s x = Some (k, v)" and i: "i < length v" "v ! i \<noteq> 0"
    and at: "a \<le> entry_off r + 24 + length k + i" "entry_off r + 24 + length k + i < a + n" "entry_off r + 24 + length k \<le> a"
    and len: "a + n \<le> unat (tm_capacity (kv_t2 s))"
  shows "kv_map (s\<lparr>kv_t2 := (kv_t2 s)\<lparr>tm_base := mem_write (tm_base (kv_t2 s)) a (replicate n 0)\<rparr>\<rparr>) x \<noteq> kv_map s x"
proof -
  let ?m = "kv_t2 s" and ?o = "entry_off r"
  define mem' where "mem' = ?m\<lparr>tm_base := mem_write (tm_base ?m) a (replicate n 0)\<rparr>"
  obtain e where e: "recs ?o = Some e" "kv_map s x = Some (t2_read ?m ?o)" by (rule t2_entryD [OF inv x])
  let ?h = "read_header (tm_base ?m) ?o"
  have lb: "a + n \<le> length (tm_base ?m)" using len t2_inv_len [OF kv_invD(2) [OF inv]] by simp
  have rd: "rv_key (make_record_view (tm_base ?m) ?o) = k" "rv_value (make_record_view (tm_base ?m) ?o) = v"
    using e(2) kv by (simp_all add: t2_read_def t2_at_def entry_off_def Let_def)
  note end_ = record_end_kv [OF inv x kv]
  have hd: "read_header (tm_base mem') ?o = ?h"
    by (rule read_header_cong) (use lb at(3) in \<open>simp add: mem'_def mem_read_write_disjoint\<close>)
  note kl = end_(1) and vl = end_(2) and ext = end_(3)
  let ?p = "?o + 24 + length k"
  have lm: "length (tm_base mem') = length (tm_base ?m)" using lb by (simp add: mem'_def)
  have "rv_value (make_record_view (tm_base mem') ?o) ! i = tm_base mem' ! (?p + i)"
    using ext i(1) by (simp add: make_record_view_def Let_def header_size hd kl vl mem_read_def lm)
  also have "\<dots> = 0" using lb at ext i(1) by (simp add: mem'_def nth_mem_write kl vl)
  finally have "rv_value (make_record_view (tm_base mem') ?o) \<noteq> v" using i(2) by auto
  then have "t2_read mem' ?o \<noteq> (k, v)" by (simp add: t2_read_def t2_at_def entry_off_def Let_def)
  then show ?thesis using x kv by (simp add: kv_map_def entry_kv_def entry_off_def mem'_def)
qed

lemma scan_wanted_cong:
  assumes "df_last_checkpoint st' = df_last_checkpoint st" "df_last_overhead_bp st' = df_last_overhead_bp st"
  shows "scan_wanted st' = scan_wanted st"
  unfolding scan_wanted_def assms ..

text \<open>The next cycle punches what was queued.\<close>

lemma punch_cycle:
  assumes c: "unat seg < segment_count (kv_own s)" "seg_live (kv_own s) (unat seg) = 0" "(seg + 1) * own_segment_bytes (kv_own s) \<le> tm_base_boundary (kv_t2 s)"
    and lay: "seg_layout (kv_own s)" and fit: "(seg + 1) * own_segment_bytes (kv_own s) \<le> tm_capacity (kv_t2 s)"
    and st: "\<not> df_running st" "df_punch_probed st" "df_punch_supported st" "df_pending_punch st = []"
    and os: "pa_fd (de_punch env seg) = Some fd" "pa_seek (de_punch env seg) = DataAt d" "d < unat ((seg + 1) * own_segment_bytes (kv_own s))" "pa_ok (de_punch env seg)"
    and idle: "\<not> scan_wanted st (space_overhead_bp (kv_own s) (tm_bytes_used (kv_t2 s))) ckpts"
  shows "\<exists>st'. defrag_cycle env ckpts False (queue_evacuated_victims (kv_own s) [seg] st) s = Some (Inr False, st',
    s\<lparr>kv_t2 := (kv_t2 s)\<lparr>tm_base := mem_write (tm_base (kv_t2 s)) (unat (seg * own_segment_bytes (kv_own s))) (replicate (unat (own_segment_bytes (kv_own s))) 0)\<rparr>\<rparr>)"
proof -
  let ?b = "own_segment_bytes (kv_own s)"
  define st0 where "st0 = queue_evacuated_victims (kv_own s) [seg] st"
  have q: "df_pending_punch st0 = [seg]" "\<not> df_running st0" "punch_supported (de_statfs env) st0 = (True, st0)"
    "df_last_checkpoint st0 = df_last_checkpoint st" "df_last_overhead_bp st0 = df_last_overhead_bp st"
    using c st by (simp_all add: st0_def queue_evacuated_victims_def punch_supported_def Let_def)
  have b: "?b \<noteq> 0" using lay by (auto simp: seg_layout_def)
  have e: "seg * ?b + ?b = (seg + 1) * ?b" by (simp add: algebra_simps)
  have ev: "is_evacuated_segment (kv_own s) (kv_t2 s) seg" using c by (simp add: is_evacuated_segment_def)
  have d: "\<not> unat (seg * ?b) + unat ?b \<le> d" using os(3) seg_span [OF lay c(1)] by simp
  have p: "punch (kv_t2 s) (seg * ?b) ?b (pa_fd (de_punch env seg)) (pa_seek (de_punch env seg)) (pa_ok (de_punch env seg))
    = ((Punched, [OsOpen fd, OsSeek fd, OsFallocate fd, OsClose fd, OsDontneed]), (kv_t2 s)\<lparr>tm_base := mem_write (tm_base (kv_t2 s)) (unat (seg * ?b)) (replicate (unat ?b) 0)\<rparr>)"
    using b fit d unfolding punch_def os e by (simp add: os(4) not_less)
  define st1 where "st1 = st0\<lparr>df_pending_punch := [], df_pending_punch_count := 0\<rparr>"
  have fl: "df_last_checkpoint st1 = df_last_checkpoint st" "df_last_overhead_bp st1 = df_last_overhead_bp st" by (simp_all add: st1_def q)
  have pe: "punch_evacuated_segments (de_punch env) st0 (kv_own s) (kv_t2 s)
    = (?b, st1, (kv_t2 s)\<lparr>tm_base := mem_write (tm_base (kv_t2 s)) (unat (seg * ?b)) (replicate (unat ?b) 0)\<rparr>)"
    by (simp add: punch_evacuated_segments_def q(1) ev p st1_def Let_def)
  have "\<not> scan_wanted st1 (space_overhead_bp (kv_own s) (tm_bytes_used (kv_t2 s))) ckpts"
    using idle unfolding scan_wanted_cong [OF fl] .
  then show ?thesis unfolding st0_def [symmetric] defrag_cycle_def q(3) Let_def prod.case pe using q(2) by simp
qed

section \<open>Demonstration stores\<close>

text \<open>A cycle that last ran at full overhead finds nothing new to scan for.\<close>

lemma space_overhead_le:
  assumes "unat used < 2 ^ 50"
  shows "space_overhead_bp own used \<le> 10000"
proof (cases "used = 0 \<or> own_live_total own \<ge> used")
  case False
  then have "own_live_total own \<le> used" by (meson linorder_le_cases)
  then have "unat (used - own_live_total own) \<le> unat used" by (simp add: unat_sub)
  moreover have "unat (d * 10000) \<le> unat d * 10000" for d :: u64 by (simp add: unat_word_ariths)
  ultimately have "unat ((used - own_live_total own) * 10000) \<le> unat used * 10000" by (meson le_trans mult_le_mono1)
  then have "unat ((used - own_live_total own) * 10000 div used) \<le> (unat used * 10000) div unat used" unfolding unat_div by (rule div_le_mono)
  also have "\<dots> = 10000" using False by (simp add: unat_eq_0)
  finally show ?thesis using False by (simp add: space_overhead_bp_def Let_def word_le_nat_alt)
qed (auto simp: space_overhead_bp_def Let_def)

definition idle_state :: DefragState where
  "idle_state = DefragState_init\<lparr>df_punch_probed := True, df_last_overhead_bp := 10000\<rparr>"

lemma idle_no_scan:
  assumes "unat used < 2 ^ 50"
  shows "\<not> scan_wanted idle_state (space_overhead_bp own used) 0"
proof -
  have "\<not> (10500 :: u64) \<le> space_overhead_bp own used" using space_overhead_le [OF assms, of own] by (simp add: word_le_nat_alt)
  then show ?thesis by (simp add: scan_wanted_def idle_state_def DefragState_init_def kDefragSpaceOverheadPercent_def Let_def)
qed

definition punching_env :: DefragEnv where
  "punching_env = \<lparr>de_statfs = None, de_punch = (\<lambda>_. \<lparr>pa_fd = Some 3, pa_seek = DataAt 0, pa_ok = True\<rparr>), de_order = (\<lambda>vs. vs), de_max_move = 64,
     de_waits = [], de_ios = []\<rparr>"

text \<open>A store with segments of 32 bytes over a given T2 memory, and one insert into it.\<close>

definition seg_store :: "T2Memory \<Rightarrow> VMemKV" where
  "seg_store mem = VMemKV_init (demo_config\<lparr>cfg_segment_bytes := 32\<rparr>) 4096 mem (Wal_start 1 [])"

lemma insert_written:
  assumes "exec_op ios waits (OpInsert k v) s = Some (Inr True, s')"
  obtains s1 where "write_entry_lockfree maybe_reorganize_if_needed waits k v (Some \<lparr>lr_payload_bits = STORE_NOT_FOUND, lr_raw_hash = 0\<rparr>) s = Some (Inr (), s1)"
    "kv_t1 s' = kv_t1 s1" "kv_t2 s' = kv_t2 s1" "kv_own s' = kv_own s1" "kv_use_inline s' = kv_use_inline s1"
  using assms that
  by (auto simp: insert_impl_def with_key_stripe_def append_and_reserve_def reserve_applied_def maybe_reorganize_if_needed_def no_change_def Let_def
      split: option.splits sum.splits prod.splits if_splits)

lemma seg_insert:
  fixes mem :: T2Memory
  assumes m: "t2_inv mem Map.empty" "tm_capacity mem = 4096" "unat (tm_base_boundary mem) \<le> unat (tm_bytes_used mem)" "unat (tm_bytes_used mem) \<le> 64"
  obtains s recs where "exec_op [io_good] [[1]] (OpInsert [7] (replicate 39 1)) (seg_store mem) = Some (Inr True, s)"
    "kv_inv s recs" "kv_map s = [ident_of [7] \<mapsto> ([7], replicate 39 1)]" "tm_capacity (kv_t2 s) = 4096"
    "unat (tm_bytes_used (kv_t2 s)) \<le> unat (tm_bytes_used mem) + 64" "own_segment_bytes (kv_own s) = 32" "segment_count (kv_own s) = 128"
    "tm_base_boundary (kv_t2 s) = tm_base_boundary mem"
proof -
  let ?v = "replicate 39 1 :: bytes" and ?s = "seg_store mem"
  have b: "block_count [7] ?v < 65536" "unat (record_len [7] ?v) = 64" by code_simp+
  have cap: "0 < cfg_append_cap (demo_config\<lparr>cfg_segment_bytes := 32\<rparr>)" by (simp add: demo_config_def)
  note i = init_inv [OF cap m(1) _ m(3), of 4096 "Wal_start 1 []", folded seg_store_def, unfolded m(2), simplified]
  have u: "unique_prefixes (si_view (kv_t1 ?s))" using i(3) by (simp add: unique_prefixes_def)
  have q: "wal_quiet (kv_wal ?s) []" "\<not> poisoned (kv_wal ?s)" using quiet_start [of 1 "[]"] by (simp_all add: i(5) Wal_start_def)
  obtain s where e: "exec_op [io_good] [[1]] (OpInsert [7] ?v) ?s = Some (Inr True, s)"
    by (rule op_succeeds [OF i(1) u _ _ _ q(1) io_good_flawless q(2), of "OpInsert [7] ?v" 1 "[]"])
      (use b m i(2,4,6) in \<open>simp_all add: op_fits_def\<close>)
  obtain s1 where s1: "write_entry_lockfree maybe_reorganize_if_needed [[1]] [7] ?v (Some \<lparr>lr_payload_bits = STORE_NOT_FOUND, lr_raw_hash = 0\<rparr>) ?s = Some (Inr (), s1)"
    "kv_t1 s = kv_t1 s1" "kv_t2 s = kv_t2 s1" "kv_own s = kv_own s1" "kv_use_inline s = kv_use_inline s1" by (rule insert_written [OF e])
  have w: "waits_ok [[1]] ?s" using u by (simp add: waits_ok_def)
  have pv: "prev_ok (Some \<lparr>lr_payload_bits = STORE_NOT_FOUND, lr_raw_hash = 0\<rparr>) [7] (kv_t1 ?s)" by (simp add: prev_ok_def i(3))
  have o: "own_segment_bytes (kv_own s1) = 32 \<and> segment_count (kv_own s1) = 128"
    using write_entry_segs [OF _ s1(1)]
    by (simp add: same_segs_def maybe_reorganize_if_needed_def Let_def seg_store_def VMemKV_init_def T2Ownership_new_def segment_count_def)
  have room: "unat (tm_bytes_used (kv_t2 ?s)) < 2 ^ 63" using m(4) by (simp add: i(6))
  have len: "length [7 :: byte] + length ?v < 2 ^ 63" by simp
  from i(1) w pv len room s1(1) show ?thesis
  proof (cases rule: write_entry_correct)
    case (written recs')
    have "kv_map s = kv_map s1" by (simp add: kv_map_def fun_eq_iff s1)
    then show ?thesis
      by (intro that [of s recs', OF e]) (use written o i m b s1 in \<open>simp_all add: kv_inv_def kv_frame_def\<close>)
  qed simp_all
qed

text \<open>The first record of a store with segments of 32 bytes, of 64 bytes, reaches into the second segment.\<close>

lemma straddling_record:
  obtains s recs r where "exec_op [io_good] [[1]] (OpInsert [7] (replicate 39 1)) (seg_store (fresh_t2 4096)) = Some (Inr True, s)"
    "kv_inv s recs" "kv_map s = [ident_of [7] \<mapsto> ([7], replicate 39 1)]" "tm_capacity (kv_t2 s) = 4096" "tm_bytes_used (kv_t2 s) = 64"
    "own_segment_bytes (kv_own s) = 32" "segment_count (kv_own s) = 128"
    "si_view (kv_t1 s) = [ident_of [7] \<mapsto> r]" "\<not> is_inline (lr_raw_hash r)" "entry_off r = 0" "seg_live (kv_own s) 1 = 0"
proof -
  let ?x = "ident_of [7]" and ?v = "replicate 39 1 :: bytes"
  obtain s recs where s: "exec_op [io_good] [[1]] (OpInsert [7] ?v) (seg_store (fresh_t2 4096)) = Some (Inr True, s)"
    "kv_inv s recs" "kv_map s = [?x \<mapsto> ([7], ?v)]" "tm_capacity (kv_t2 s) = 4096"
    "unat (tm_bytes_used (kv_t2 s)) \<le> unat (tm_bytes_used (fresh_t2 4096)) + 64" "own_segment_bytes (kv_own s) = 32" "segment_count (kv_own s) = 128"
    by (rule seg_insert [of "fresh_t2 4096"]) (simp_all add: fresh_t2_inv)
  have dom: "dom (si_view (kv_t1 s)) = {?x}" by (simp add: dom_kv_map [symmetric] s(3))
  then obtain r where r: "si_view (kv_t1 s) ?x = Some r" by auto
  have view: "si_view (kv_t1 s) = [?x \<mapsto> r]" using dom r by (metis dom_eq_singleton_conv fun_upd_same option.inject)
  have kv: "entry_kv (kv_t2 s) ?x r = ([7], ?v)" using fun_cong [OF s(3), of ?x] r by (simp add: kv_map_def)
  have ni: "\<not> is_inline (lr_raw_hash r)"
  proof
    assume "is_inline (lr_raw_hash r)"
    then have "copy_inline_value (lr_payload_bits r) (decode_size (lr_raw_hash r)) = ?v" using kv by (simp add: entry_kv_def)
    from arg_cong [OF this, of length] show False by (simp add: copy_inline_value_def)
  qed
  note d = kv_invD [OF s(2)]
  obtain e where e: "recs (entry_off r) = Some e" by (rule t2_entryD [OF s(2) r ni])
  let ?h = "read_header (tm_base (kv_t2 s)) (entry_off r)"
  have ext: "entry_off r + 24 + unat (vh_key_len ?h) + unat (vh_value_len ?h) \<le> unat (tm_bytes_used (kv_t2 s))"
    "unat (tm_bytes_used (kv_t2 s)) \<le> length (tm_base (kv_t2 s)) \<or> entry_off r + 24 + unat (vh_key_len ?h) + unat (vh_value_len ?h) \<le> length (tm_base (kv_t2 s))"
    using t2_invD(1,3,4,5) [OF d(2) e] by (simp_all add: extent_end_def)
  have rd: "mem_read (tm_base (kv_t2 s)) (entry_off r + 24) (unat (vh_key_len ?h)) = [7]"
    "mem_read (tm_base (kv_t2 s)) (entry_off r + 24 + unat (vh_key_len ?h)) (unat (vh_value_len ?h)) = ?v"
    using kv ni by (simp_all add: entry_kv_def t2_read_def t2_at_def make_record_view_def entry_off_def header_size Let_def)
  have "unat (vh_key_len ?h) = 1" "unat (vh_value_len ?h) = 39"
    using arg_cong [OF rd(1), of length] arg_cong [OF rd(2), of length] ext t2_invD(1,3,4) [OF d(2) e] by (simp_all add: extent_end_def)
  then have off: "entry_off r = 0" "unat (tm_bytes_used (kv_t2 s)) = 64" using ext(1) s(5) by (simp_all add: fresh_t2_inv)
  have "contrib (kv_own s) 1 r = 0" using off(1) by (simp add: contrib_def in_segment_def seg_index_def entry_off_def unat_eq_0)
  then have live: "seg_live (kv_own s) 1 = 0" using d(3) s(7) by (simp add: own_inv_def view)
  have "tm_bytes_used (kv_t2 s) = 64" using off(2) by (simp add: word_unat_eq_iff)
  then show ?thesis using that [of s recs r] s view ni off(1) live by blast
qed

section \<open>Properties\<close>

text \<open>
  C9: defragmentation never changes what the store holds. Whatever the system answers to the
  punches, the log and the pauses of the index, in whatever order equal victims are taken and
  wherever the cycle stops (another cycle running, no support for holes, nothing to scan, a full T2,
  a failed log), the store after the cycle is well formed and maps every key to the key and value it
  had, as long as no live record of an earlier segment reaches into a queued segment that is punched.
\<close>

theorem defrag_preserves_contents:
  assumes "kv_inv s recs" "unique_prefixes (si_view (kv_t1 s))" "seg_layout (kv_own s)"
    and "\<forall>seg \<in> set (df_pending_punch st). is_evacuated_segment (kv_own s) (kv_t2 s) seg \<longrightarrow> no_overhang s seg"
    and "unat (tm_bytes_used (kv_t2 s)) + length (de_waits env) * 2 ^ 20 < 2 ^ 63"
    and "defrag_cycle env checkpoint_count force st s = Some (r, st', s')"
  shows "(\<exists>recs'. kv_inv s' recs') \<and> kv_map s' = kv_map s"
  by (rule defrag_cycle_ok [OF assms(1-3) _ assms(5,6)]) (use assms(4) in blast)

theorem defrag_preserves_contents_witness:
  "\<exists>s st' s'. exec_op [io_good] [[1]] (OpInsert [7] (replicate 39 1)) (seg_store (T2Memory_new (replicate 4096 5) 4096 64)) = Some (Inr True, s)
     \<and> defrag_cycle punching_env 0 False (idle_state\<lparr>df_pending_punch := [0]\<rparr>) s = Some (Inr False, st', s')
     \<and> kv_map s' (ident_of [7]) = Some ([7], replicate 39 1)"
proof -
  let ?m = "T2Memory_new (replicate 4096 5) 4096 64 :: T2Memory" and ?st = "idle_state\<lparr>df_pending_punch := [0]\<rparr>"
  have m: "t2_inv ?m Map.empty" "tm_capacity ?m = 4096" "unat (tm_base_boundary ?m) \<le> unat (tm_bytes_used ?m)" "unat (tm_bytes_used ?m) \<le> 64"
    by (simp_all add: t2_inv_def T2Memory_new_def)
  obtain s recs where s: "exec_op [io_good] [[1]] (OpInsert [7] (replicate 39 1)) (seg_store ?m) = Some (Inr True, s)"
    "kv_inv s recs" "kv_map s = [ident_of [7] \<mapsto> ([7], replicate 39 1)]" "tm_capacity (kv_t2 s) = 4096"
    "unat (tm_bytes_used (kv_t2 s)) \<le> unat (tm_bytes_used ?m) + 64" "own_segment_bytes (kv_own s) = 32" "segment_count (kv_own s) = 128"
    by (rule seg_insert [OF m])
  have uq: "unique_prefixes (si_view (kv_t1 s))" unfolding unique_prefixes_def dom_kv_map [symmetric] s(3) by auto
  have used: "unat (tm_bytes_used (kv_t2 s)) < 2 ^ 50" using s(5) m(4) by simp
  obtain n st1 mem1 where pe: "punch_evacuated_segments (de_punch punching_env) ?st (kv_own s) (kv_t2 s) = (n, st1, mem1)" by (metis prod.exhaust)
  have fl: "df_last_checkpoint st1 = df_last_checkpoint idle_state" "df_last_overhead_bp st1 = df_last_overhead_bp idle_state"
    using pe by (auto simp: punch_evacuated_segments_def Let_def split: prod.splits if_splits)
  have ns: "\<not> scan_wanted st1 (space_overhead_bp (kv_own s) (tm_bytes_used (kv_t2 s))) 0"
    using idle_no_scan [OF used, of "kv_own s"] unfolding scan_wanted_cong [OF fl] .
  have ps: "punch_supported (de_statfs punching_env) ?st = (True, ?st)" "\<not> df_running ?st"
    by (simp_all add: punch_supported_def idle_state_def DefragState_init_def)
  obtain st' s' where run: "defrag_cycle punching_env 0 False ?st s = Some (Inr False, st', s')"
    unfolding defrag_cycle_def ps(1) Let_def prod.case pe using ps(2) ns by simp
  have "kv_map s' = kv_map s"
    using defrag_preserves_contents [OF s(2) uq _ _ _ run] used s(6,7) by (simp add: seg_layout_def no_overhang_def punching_env_def)
  then show ?thesis using s(1,3) run by auto
qed

text \<open>
  C37: a counter of zero is not enough to punch. When a segment's counter is zero but the value of a
  live record of an earlier segment reaches into it (a relocation stopped by its move budget leaves
  such records behind), the segment is queued, the next cycle punches it and the value is lost.
\<close>

theorem punched_overhang_lost:
  assumes "kv_inv s recs" "seg_layout (kv_own s)"
    and "unat seg < segment_count (kv_own s)" "seg_live (kv_own s) (unat seg) = 0"
    and "(seg + 1) * own_segment_bytes (kv_own s) \<le> tm_base_boundary (kv_t2 s)" "(seg + 1) * own_segment_bytes (kv_own s) \<le> tm_capacity (kv_t2 s)"
    and "si_view (kv_t1 s) x = Some r" "\<not> is_inline (lr_raw_hash r)" "kv_map s x = Some (k, v)" "i < length v" "v ! i \<noteq> 0"
    and "entry_off r + 24 + length k \<le> unat (seg * own_segment_bytes (kv_own s))"
    and "unat (seg * own_segment_bytes (kv_own s)) \<le> entry_off r + 24 + length k + i"
    and "entry_off r + 24 + length k + i < unat ((seg + 1) * own_segment_bytes (kv_own s))"
    and "\<not> df_running st" "df_punch_probed st" "df_punch_supported st" "df_pending_punch st = []"
    and "pa_fd (de_punch env seg) = Some fd" "pa_seek (de_punch env seg) = DataAt d" "d < unat ((seg + 1) * own_segment_bytes (kv_own s))" "pa_ok (de_punch env seg)"
    and "\<not> scan_wanted st (space_overhead_bp (kv_own s) (tm_bytes_used (kv_t2 s))) checkpoint_count"
  shows "\<exists>st' s'. defrag_cycle env checkpoint_count False (queue_evacuated_victims (kv_own s) [seg] st) s = Some (Inr False, st', s')
    \<and> kv_map s' x \<noteq> kv_map s x"
proof -
  let ?b = "own_segment_bytes (kv_own s)"
  note sp = seg_span [OF assms(2,3)]
  have fit: "unat (seg * ?b) + unat ?b \<le> unat (tm_capacity (kv_t2 s))" using assms(6) sp by (simp add: word_le_nat_alt)
  have bnd: "entry_off r + 24 + length k + i < unat (seg * ?b) + unat ?b" using assms(14) sp by simp
  note lost = zeroed_value [OF assms(1,7-11,13) bnd assms(12) fit]
  from punch_cycle [OF assms(3-5,2,6,15-23)] show ?thesis using lost by blast
qed

theorem punched_overhang_lost_witness:
  "\<exists>s st' s'. exec_op [io_good] [[1]] (OpInsert [7] (replicate 39 1)) (seg_store (fresh_t2 4096)) = Some (Inr True, s)
     \<and> defrag_cycle punching_env 0 False (queue_evacuated_victims (kv_own s) [1] idle_state) (s\<lparr>kv_t2 := (kv_t2 s)\<lparr>tm_base_boundary := 64\<rparr>\<rparr>) = Some (Inr False, st', s')
     \<and> kv_map s (ident_of [7]) = Some ([7], replicate 39 1) \<and> kv_map s' (ident_of [7]) \<noteq> Some ([7], replicate 39 1)"
proof -
  obtain s recs r where s: "exec_op [io_good] [[1]] (OpInsert [7] (replicate 39 1)) (seg_store (fresh_t2 4096)) = Some (Inr True, s)"
    "kv_inv s recs" "kv_map s = [ident_of [7] \<mapsto> ([7], replicate 39 1)]" "tm_capacity (kv_t2 s) = 4096" "tm_bytes_used (kv_t2 s) = 64"
    "own_segment_bytes (kv_own s) = 32" "segment_count (kv_own s) = 128"
    "si_view (kv_t1 s) = [ident_of [7] \<mapsto> r]" "\<not> is_inline (lr_raw_hash r)" "entry_off r = 0" "seg_live (kv_own s) 1 = 0"
    by (rule straddling_record)
  let ?s = "s\<lparr>kv_t2 := (kv_t2 s)\<lparr>tm_base_boundary := 64\<rparr>\<rparr>"
  have rd: "t2_read ((kv_t2 s)\<lparr>tm_base_boundary := 64\<rparr>) p = t2_read (kv_t2 s) p" for p by (simp add: t2_read_def t2_at_def)
  have ek: "entry_kv ((kv_t2 s)\<lparr>tm_base_boundary := 64\<rparr>) = entry_kv (kv_t2 s)" by (simp add: entry_kv_def rd fun_eq_iff)
  have map: "kv_map ?s = kv_map s" by (simp add: kv_map_def ek fun_eq_iff)
  have inv: "kv_inv ?s recs" using kv_invD [OF s(2)] s(5) by (auto simp: kv_inv_def entry_ok_def ek t2_inv_def)
  have ns: "\<not> scan_wanted idle_state (space_overhead_bp (kv_own s) 64) 0" by (rule idle_no_scan) simp
  have st: "\<not> df_running idle_state" "df_punch_probed idle_state" "df_punch_supported idle_state" "df_pending_punch idle_state = []"
    by (simp_all add: idle_state_def DefragState_init_def)
  obtain st' s' where "defrag_cycle punching_env 0 False (queue_evacuated_victims (kv_own ?s) [1] idle_state) ?s = Some (Inr False, st', s')"
    "kv_map s' (ident_of [7]) \<noteq> kv_map ?s (ident_of [7])"
    using punched_overhang_lost [OF inv, of 1 "ident_of [7]" r "[7]" "replicate 39 1" 10 idle_state punching_env 3 0 0] s ns st map
    by (auto simp: seg_layout_def punching_env_def)
  then show ?thesis using s(1,3) map by auto
qed

section \<open>A latch during the wait\<close>

definition latched_off :: "DefragState \<times> VMemKV \<Rightarrow> bool" where
  "latched_off p \<longleftrightarrow> df_punch_probed (fst p) \<and> \<not> df_punch_supported (fst p)"

lemma latched_loop:
  assumes "\<forall>(env, others) \<in> set turns. \<forall>p. latched_off p \<longrightarrow> latched_off (others p)" "latched_off (st, s)"
  shows "defragment_loop turns False checkpoint_count st s = None"
  using assms
proof (induction turns arbitrary: st s)
  case (Cons turn turns)
  obtain env others where t: "turn = (env, others)" by (cases turn)
  have "defrag_cycle env checkpoint_count True st s = Some (Inr False, st, s)"
    using Cons.prems(2) by (simp add: defrag_cycle_def punch_supported_def latched_off_def)
  moreover have "latched_off (others (st, s))" using Cons.prems unfolding t by auto
  then have "case others (st, s) of (st2, s2) \<Rightarrow> defragment_loop turns False checkpoint_count st2 s2 = None"
    using Cons.IH Cons.prems(1) by (cases "others (st, s)") simp
  ultimately show ?case by (simp add: t split: prod.splits)
qed simp

text \<open>The background cycle ends while the caller sleeps; its punch fails.\<close>

definition failing_env :: DefragEnv where
  "failing_env = punching_env\<lparr>de_punch := (\<lambda>_. \<lparr>pa_fd = None, pa_seek = SeekOther, pa_ok = False\<rparr>)\<rparr>"

definition background_cycle :: "DefragState \<times> VMemKV \<Rightarrow> DefragState \<times> VMemKV" where
  "background_cycle p = (case defrag_cycle failing_env 0 False ((fst p)\<lparr>df_running := False\<rparr>) (snd p) of Some (r, q) \<Rightarrow> q | None \<Rightarrow> p)"

lemma latched_background: "latched_off p \<Longrightarrow> latched_off (background_cycle p)"
  by (cases p) (simp add: background_cycle_def latched_off_def defrag_cycle_def punch_supported_def)

lemma failed_punch_latches:
  fixes mem :: T2Memory
  defines "mem \<equiv> T2Memory_new (replicate 4096 5) 4096 64"
  shows "latched_off (background_cycle (idle_state\<lparr>df_running := True, df_pending_punch := [0]\<rparr>, seg_store mem))"
proof -
  let ?s = "seg_store mem" and ?st = "idle_state\<lparr>df_pending_punch := [0], df_running := False\<rparr>"
  have own: "kv_own ?s = T2Ownership_new 32 128" "kv_t2 ?s = mem" by (simp_all add: seg_store_def VMemKV_init_def)
  have ev: "is_evacuated_segment (kv_own ?s) mem 0"
    unfolding own(1) by (simp add: is_evacuated_segment_def T2Ownership_new_def segment_count_def seg_live_def) (simp add: mem_def T2Memory_new_def)
  have p: "punch mem 0 32 None SeekOther False = ((PunchFailed, []), mem)" by (simp add: punch_def)
  have pe: "punch_evacuated_segments (de_punch failing_env) ?st (kv_own ?s) mem
      = (0, ?st\<lparr>df_punch_supported := False, df_pending_punch := [], df_pending_punch_count := 0\<rparr>, mem)"
    using ev by (simp add: punch_evacuated_segments_def failing_env_def own T2Ownership_new_def p Let_def)
  have ns: "\<not> scan_wanted idle_state (space_overhead_bp (kv_own ?s) (tm_bytes_used mem)) 0" by (rule idle_no_scan) (simp add: mem_def T2Memory_new_def)
  have ns': "\<not> scan_wanted (?st\<lparr>df_punch_supported := False, df_pending_punch := [], df_pending_punch_count := 0\<rparr>) (space_overhead_bp (kv_own ?s) (tm_bytes_used mem)) 0"
    using ns by (subst scan_wanted_cong [where st = idle_state]) simp_all
  have ps: "punch_supported (de_statfs failing_env) ?st = (True, ?st)" by (simp add: punch_supported_def idle_state_def DefragState_init_def)
  have "\<exists>st'. defrag_cycle failing_env 0 False ?st ?s = Some (Inr False, st', ?s\<lparr>kv_t2 := mem\<rparr>) \<and> df_punch_probed st' \<and> \<not> df_punch_supported st'"
    unfolding defrag_cycle_def own(2) ps Let_def prod.case pe using ns' by (simp add: idle_state_def)
  then show ?thesis by (auto simp: background_cycle_def latched_off_def)
qed

text \<open>
  C38: a forced defragmentation may wait for ever. When it loses the race to a background cycle and
  that cycle's punch fails, which switches hole punching off for good, every later turn of the caller
  finds punching unsupported, and however long it runs the call does not return.
\<close>

theorem defragment_waits_forever:
  assumes "df_punch_probed st" "df_punch_supported st" "df_running st" "latched_off (others (st, s))"
    and "\<forall>(env, others) \<in> set turns. \<forall>p. latched_off p \<longrightarrow> latched_off (others p)"
  shows "defragment fs ((env, others) # turns) False checkpoint_count st s = None"
proof -
  obtain st2 s2 where o: "others (st, s) = (st2, s2)" by (cases "others (st, s)")
  have "defragment_loop turns False checkpoint_count st2 s2 = None" by (rule latched_loop [OF assms(5)]) (use assms(4) o in simp)
  then show ?thesis using assms(1-3) o by (simp add: defragment_def punch_supported_def defrag_cycle_def)
qed

theorem defragment_waits_forever_witness:
  "defragment None (replicate 1000 (punching_env, background_cycle)) False 0 (idle_state\<lparr>df_running := True, df_pending_punch := [0]\<rparr>)
     (seg_store (T2Memory_new (replicate 4096 5) 4096 64)) = None"
proof -
  let ?st = "idle_state\<lparr>df_running := True, df_pending_punch := [0]\<rparr>"
  have st: "df_punch_probed ?st" "df_punch_supported ?st" "df_running ?st" by (simp_all add: idle_state_def DefragState_init_def)
  have "\<forall>(env, others) \<in> set (replicate 999 (punching_env, background_cycle)). \<forall>p. latched_off p \<longrightarrow> latched_off (others p)"
    using latched_background by auto
  moreover have "replicate 1000 (punching_env, background_cycle) = (punching_env, background_cycle) # replicate 999 (punching_env, background_cycle)"
    using replicate_Suc [of 999 "(punching_env, background_cycle)"] by simp
  ultimately show ?thesis using defragment_waits_forever [where others = background_cycle, OF st failed_punch_latches] by simp
qed

end
