(* ===== verification/Defrag_Evacuate.thy ===== *)
theory Defrag_Evacuate
  imports Defrag
begin

text \<open>
  What a relocation achieves (\<^verbatim>\<open>vmemkv/defrag_controller.hpp\<close>): when it runs through all offsets it
  collected, no live entry is left in a victim segment and no live record reaches into one, so that
  every victim is queued and may be punched.
\<close>

section \<open>The scan finds every live entry\<close>

lemma view_hash:
  assumes "si_inv si" "si_view si x = Some r"
  shows "clean_hash (lr_raw_hash r) = snd x"
proof -
  let ?t = "index_of si (route si (fst x))"
  have "shard_inv ?t" using si_invD(1,2) [OF assms(1)] route_in(1) by (auto simp: slots_inv_def)
  note sh = shard_invD(2,3) [OF this]
  have "live_view ?t x = Some r" using assms(2) by (simp add: si_view_def)
  then obtain n where "live_only (region_map ?t n) x = Some r" using live_view_region [OF sh(2)] by blast
  then have "region_map ?t n x = Some r" by (simp add: live_only_Some)
  then show ?thesis by (rule region_map_hash [OF sh(1)])
qed

definition scannable :: "ShardedT1Index \<Rightarrow> bool" where
  "scannable si \<longleftrightarrow> (\<forall>a \<in> set (shards si). prefix_unique (index_of si a))"

lemma scan_covers:
  assumes inv: "kv_inv s recs" and un: "scannable (kv_t1 s)"
  obtains hits where "si_scan (kv_t1 s) kDefragScanLo kDefragScanHi = Some hits"
    "\<And>x r. si_view (kv_t1 s) x = Some r \<Longrightarrow> (fst x, lr_payload_bits r, lr_raw_hash r) \<in> set hits"
    "\<And>k p h. (k, p, h) \<in> set hits \<Longrightarrow> \<exists>x. si_view (kv_t1 s) x = Some \<lparr>lr_payload_bits = p, lr_raw_hash = h\<rparr>"
proof -
  note d = kv_invD [OF inv]
  obtain hits where h: "si_scan (kv_t1 s) kDefragScanLo kDefragScanHi = Some hits" and "sorted_wrt (<) (map fst hits)"
    and hits: "\<And>k p h. (k, p, h) \<in> set hits \<longleftrightarrow> prefix_from_bytes kDefragScanLo \<le> k \<and> k \<le> prefix_from_bytes kDefragScanHi
        \<and> si_view (kv_t1 s) (k, clean_hash h) = Some \<lparr>lr_payload_bits = p, lr_raw_hash = h\<rparr>"
    by (rule si_scan_exact [OF d(1) un [unfolded scannable_def], where lo = kDefragScanLo and hi = kDefragScanHi]) blast
  have lo: "prefix_from_bytes kDefragScanLo = replicate kStoreKeyBytes 0" "prefix_from_bytes kDefragScanHi = replicate kStoreKeyBytes 0xFF"
    by (simp_all add: prefix_from_bytes_full kDefragScanLo_def kDefragScanHi_def kStoreKeyBytes_def)
  have "(fst x, lr_payload_bits r, lr_raw_hash r) \<in> set hits" if x: "si_view (kv_t1 s) x = Some r" for x r
  proof -
    have "fst (ident_of (fst (entry_kv (kv_t2 s) x r))) = fst x" using d(4) [OF x] by (simp add: entry_ok_def)
    then have "length (fst x) = kStoreKeyBytes" by (metis fst_conv length_prefix prepare_key_and_hash_def)
    from key_bounds [OF this] have "replicate kStoreKeyBytes 0 \<le> fst x \<and> fst x \<le> replicate kStoreKeyBytes 0xFF" by (simp add: in_range_def)
    moreover have "si_view (kv_t1 s) (fst x, clean_hash (lr_raw_hash r)) = Some r" using x view_hash [OF d(1) x] by simp
    ultimately show ?thesis using hits [of "fst x" "lr_payload_bits r" "lr_raw_hash r"] by (simp add: lo)
  qed
  then show ?thesis using that h hits by blast
qed

section \<open>What is collected\<close>

lemma aligned_end:
  assumes inv: "kv_inv s recs" and x: "si_view (kv_t1 s) x = Some r" "\<not> is_inline (lr_raw_hash r)" and kv: "kv_map s x = Some (k, v)"
    and short: "24 + length k + length v \<le> 2 ^ 20"
  shows "24 + length k + length v \<le> unat (frozen_aligned (rv_header (t2_at (lr_payload_bits r AND kPayloadOffsetMask) (kv_t2 s))))"
    "unat (frozen_aligned (rv_header (t2_at (lr_payload_bits r AND kPayloadOffsetMask) (kv_t2 s)))) < 2 ^ 21"
proof -
  let ?h = "rv_header (t2_at (lr_payload_bits r AND kPayloadOffsetMask) (kv_t2 s))"
  let ?raw = "word_of_nat sizeof_ValueRecordHeader + ucast (vh_key_len ?h) + ucast (vh_value_len ?h) :: u64"
  have h: "?h = read_header (tm_base (kv_t2 s)) (entry_off r)" by (simp add: t2_at_def make_record_view_def entry_off_def Let_def)
  note re = record_end_kv [OF inv x kv]
  have "unat ?raw = 24 + length k + length v"
    using re(1,2) short by (simp add: h unat_word_ariths header_size unsigned_ucast_eq take_bit_eq_mod)
  moreover from this have "unat ?raw + 7 < 2 ^ 64" using short by simp
  note align_up_8_bounds [OF this]
  ultimately show "24 + length k + length v \<le> unat (frozen_aligned ?h)" "unat (frozen_aligned ?h) < 2 ^ 21"
    using short by (simp_all add: frozen_aligned_def kDefaultAlignmentBytes_def)
qed

text \<open>Segments are at least as long as the longest record.\<close>

definition long_segments :: "VMemKV \<Rightarrow> bool" where
  "long_segments s \<longleftrightarrow> seg_layout (kv_own s) \<and> 2 ^ 20 \<le> unat (own_segment_bytes (kv_own s))
     \<and> (\<forall>x k v. kv_map s x = Some (k, v) \<longrightarrow> 24 + length k + length v \<le> 2 ^ 20)"

text \<open>An entry of a victim, or one that reaches into it, is collected.\<close>

lemma in_victim_collected:
  assumes r: "is_live (lr_payload_bits r)" "\<not> is_inline (lr_raw_hash r)" "entry_off r < unat used" and seg: "seg \<in> set vs"
    and at: "seg_index own (lr_payload_bits r AND kPayloadOffsetMask) = seg"
  shows "victim_offset own vs used mem (k, lr_payload_bits r, lr_raw_hash r) = Some (lr_payload_bits r AND kPayloadOffsetMask)"
  using assms by (simp add: victim_offset_def is_live_def Let_def entry_off_def word_le_nat_alt)

lemma overhang_collected:
  assumes inv: "kv_inv s recs" and long: "long_segments s" and x: "si_view (kv_t1 s) x = Some r" "\<not> is_inline (lr_raw_hash r)"
    and used: "entry_off r < unat used" and seg: "seg \<in> set vs" "unat seg < segment_count (kv_own s)"
    and over: "entry_off r < unat (seg * own_segment_bytes (kv_own s))" "unat (seg * own_segment_bytes (kv_own s)) < record_end (kv_t2 s) (entry_off r)"
  shows "victim_offset (kv_own s) vs used (kv_t2 s) (fst x, lr_payload_bits r, lr_raw_hash r) = Some (lr_payload_bits r AND kPayloadOffsetMask)"
proof -
  let ?own = "kv_own s" and ?off = "lr_payload_bits r AND kPayloadOffsetMask"
  let ?b = "own_segment_bytes ?own" and ?sg = "seg_index ?own ?off"
  have live: "is_live (lr_payload_bits r)" using si.view_live [OF kv_invD(1) [OF inv] x(1)] .
  have lay: "seg_layout ?own" and b: "2 ^ 20 \<le> unat ?b" using long by (simp_all add: long_segments_def)
  obtain k v where kv: "kv_map s x = Some (k, v)" using x by (cases "entry_kv (kv_t2 s) x r") (simp add: kv_map_def)
  have short: "24 + length k + length v \<le> 2 ^ 20" using long kv unfolding long_segments_def by blast
  note re = record_end_kv [OF inv x kv] and al = aligned_end [OF inv x kv short]
  have en: "record_end (kv_t2 s) (entry_off r) = entry_off r + 24 + length k + length v" by (simp add: record_end_def re)
  note sp = seg_span(1) [OF lay seg(2)]
  have o: "unat ?off = entry_off r" by (simp add: entry_off_def)
  have o48: "entry_off r < 2 ^ 48" using re(3) t2_inv_len [OF kv_invD(2) [OF inv]] kv_invD(5) [OF inv] by simp
  show ?thesis
  proof (cases "?sg \<in> set vs")
    case True
    show ?thesis by (rule in_victim_collected [OF live x(2) used True refl])
  next
    case False
    have lt: "entry_off r < unat seg * unat ?b" "unat seg * unat ?b < entry_off r + 2 ^ 20 + 1" using over en short sp by simp_all
    obtain n where n: "unat seg = Suc n" using lt(1) by (cases "unat seg") auto
    have "n * unat ?b \<le> entry_off r" using lt(2) b by (simp add: n)
    then have "entry_off r div unat ?b = n" using lt(1) by (intro div_nat_eqI) (simp_all add: n mult.commute)
    then have sg: "unat ?sg = n" by (simp add: seg_index_def unat_div o)
    have "unat (?sg + 1) = Suc n" using unat_less_2p [of seg] by (simp add: unat_word_ariths sg n)
    then have nx: "?sg + 1 = seg" using n by (simp add: word_unat_eq_iff)
    have slop: "seg * ?b \<le> ?off + kPunchSlopBytes"
      using lt(2) sp o48 by (simp add: word_le_nat_alt unat_word_ariths o kPunchSlopBytes_def)
    have tail: "seg * ?b < ?off + frozen_aligned (rv_header (t2_at ?off (kv_t2 s)))"
      using over(2) en al o48 by (simp add: word_less_nat_alt unat_word_ariths o)
    have "\<not> used \<le> ?off" "?off < seg * ?b" using used over(1) o by (simp_all add: word_le_nat_alt word_less_nat_alt)
    then show ?thesis using False live x(2) seg nx slop tail by (simp add: victim_offset_def is_live_def Let_def)
  qed
qed

section \<open>What a relocation leaves\<close>

text \<open>Writing an entry moves this entry only, inline or to the frontier.\<close>

lemma write_entry_view:
  assumes inv: "kv_inv s recs" and w: "waits_ok waits s" and prev: "prev_ok prev key (kv_t1 s)"
    and len: "length key + length v < 2 ^ 63" and room: "unat (tm_bytes_used (kv_t2 s)) < 2 ^ 63"
    and res: "write_entry_lockfree mr waits key v prev s = Some (Inr (), s')"
  shows "y \<noteq> ident_of key \<Longrightarrow> si_view (kv_t1 s') y = si_view (kv_t1 s) y"
    "si_view (kv_t1 s') (ident_of key) = Some e \<Longrightarrow> is_inline (lr_raw_hash e) \<or> entry_off e = unat (tm_bytes_used (kv_t2 s))"
proof -
  obtain ws rest where c: "waits = ws # rest" using res by (cases waits) (simp_all add: write_entry_lockfree.simps)
  have w': "ws = [] \<or> unique_prefixes (si_view (kv_t1 s))" using w by (auto simp: waits_ok_def c)
  note d = kv_invD [OF inv] and res' = res [unfolded c]
  have put: "\<exists>p inl n. (pl \<noteq> None \<longrightarrow> inl) \<and> si_view (kv_t1 s') = put_view (si_view (kv_t1 s)) key p (stored_hash key inl n)"
    if pl: "pl = try_make_inline_payload (kv_use_inline s) key v" for pl
  proof -
    obtain p inl n pr t1 where t: "si_put_waiting ws (kv_t1 s) key p inl n = Some (pr, t1)" "pr = Applied \<longrightarrow> kv_t1 s' = t1" "pl \<noteq> None \<longrightarrow> inl"
      using res' unfolding write_entry_lockfree.simps [of mr "ws # rest"] pl
      by (auto simp: Let_def split: option.splits prod.splits sum.splits if_splits)
    then show ?thesis using si_put_waiting_correct [OF d(1) w' t(1)] by blast
  qed
  show "si_view (kv_t1 s') y = si_view (kv_t1 s) y" if "y \<noteq> ident_of key" using put [OF refl] that by (auto simp: put_view_def)
  show "is_inline (lr_raw_hash e) \<or> entry_off e = unat (tm_bytes_used (kv_t2 s))" if e: "si_view (kv_t1 s') (ident_of key) = Some e"
  proof (cases "try_make_inline_payload (kv_use_inline s) key v")
    case (Some pn)
    then obtain p n where "si_view (kv_t1 s') = put_view (si_view (kv_t1 s)) key p (stored_hash key True n)" using put [OF refl] by auto
    then show ?thesis using e by (auto simp: put_view_def stored_hash_def split: if_splits)
  next
    case None
    note turn = res' [unfolded write_entry_lockfree.simps [of mr "ws # rest"] list.case None option.case]
    have small: "\<not> block_count key v \<ge> 65536" using turn by (auto split: if_splits)
    obtain off mem where app: "append_default (kv_t2 s) key v = (Inr off, mem)" using turn by (auto split: if_splits prod.splits sum.splits)
    note wr = write_record_entry [OF inv w' prev None len room small app res']
    show ?thesis using wr(7) wr(8) [OF e] by (simp add: entry_off_def)
  qed
qed

text \<open>Every T2 entry afterwards is one of before, or lies at or above the frontier of before.\<close>

definition only_moved :: "VMemKV \<Rightarrow> VMemKV \<Rightarrow> bool" where
  "only_moved s s' \<longleftrightarrow> (\<forall>x r. si_view (kv_t1 s') x = Some r \<and> \<not> is_inline (lr_raw_hash r)
     \<longrightarrow> si_view (kv_t1 s) x = Some r \<or> unat (tm_bytes_used (kv_t2 s)) \<le> entry_off r)"

definition nothing_at :: "VMemKV \<Rightarrow> nat \<Rightarrow> bool" where
  "nothing_at s off \<longleftrightarrow> (\<forall>x r. si_view (kv_t1 s) x = Some r \<and> \<not> is_inline (lr_raw_hash r) \<longrightarrow> entry_off r \<noteq> off)"

lemma only_moved_refl [simp]: "only_moved s s"
  by (simp add: only_moved_def)

lemma only_moved_wal [simp]: "only_moved s (s'\<lparr>kv_wal := w\<rparr>) = only_moved s s'" "only_moved (s\<lparr>kv_wal := w\<rparr>) s' = only_moved s s'"
  "nothing_at (s\<lparr>kv_wal := w\<rparr>) = nothing_at s"
  by (simp_all add: only_moved_def nothing_at_def fun_eq_iff)

lemma only_moved_trans:
  assumes "only_moved s s1" "only_moved s1 s2" "unat (tm_bytes_used (kv_t2 s)) \<le> unat (tm_bytes_used (kv_t2 s1))"
  shows "only_moved s s2"
  using assms unfolding only_moved_def by (meson le_trans)

lemma nothing_at_keep:
  assumes "nothing_at s off" "only_moved s s'" "off < unat (tm_bytes_used (kv_t2 s))"
  shows "nothing_at s' off"
  using assms unfolding nothing_at_def only_moved_def by (metis not_le)

lemma relocate_offset_moves:
  assumes inv: "kv_inv s recs" and uq: "unique_prefixes (si_view (kv_t1 s))" and room: "unat (tm_bytes_used (kv_t2 s)) < 2 ^ 63"
    and off: "unat (off AND kPayloadOffsetMask) < unat (tm_bytes_used (kv_t2 s))"
    and res: "relocate_offset waits off s = Some (Inr p, s')"
  shows "only_moved s s' \<and> nothing_at s' (unat (off AND kPayloadOffsetMask))"
proof -
  let ?o = "off AND kPayloadOffsetMask"
  define fr where "fr = t2_at ?o (kv_t2 s)"
  let ?k = "rv_key fr" and ?v = "rv_value fr"
  let ?cur = "si_lookup (kv_t1 s) ?k"
  note lk = lookup_map [OF inv, of ?k]
  have here: "x = ident_of ?k \<and> r = ?cur" if x: "si_view (kv_t1 s) x = Some r" "\<not> is_inline (lr_raw_hash r)" "entry_off r = unat ?o" for x r
  proof -
    have "ident_of (fst (t2_read (kv_t2 s) (entry_off r))) = x" by (rule t2_entryD [OF inv x(1,2)])
    then have "x = ident_of ?k" by (simp add: x(3) t2_read_def fr_def Let_def)
    then show ?thesis using lk(5) x(1) by (auto simp: kv_map_def)
  qed
  show ?thesis
  proof (cases "lr_payload_bits ?cur = STORE_NOT_FOUND \<or> is_inline (lr_raw_hash ?cur) \<or> lr_payload_bits ?cur AND kPayloadOffsetMask \<noteq> ?o")
    case True
    have "s' = s" using res lk(1) True by (auto simp: relocate_offset_def fr_def [symmetric] Let_def)
    moreover have "nothing_at s (unat ?o)" unfolding nothing_at_def
    proof (intro allI impI notI)
      fix x r
      assume xr: "si_view (kv_t1 s) x = Some r \<and> \<not> is_inline (lr_raw_hash r)" and eq: "entry_off r = unat ?o"
      then have "r = ?cur" using here by blast
      then have "is_live (lr_payload_bits ?cur)" "lr_payload_bits ?cur AND kPayloadOffsetMask = ?o"
        using si.view_live [OF kv_invD(1) [OF inv], of x r] xr eq by (simp_all add: entry_off_def word_unat_eq_iff)
      then show False using True xr \<open>r = ?cur\<close> by (simp add: is_live_def)
    qed
    ultimately show ?thesis by simp
  next
    case False
    have len: "length ?k + length ?v < 2 ^ 63"
      using unat_less_2p [of "vh_key_len (rv_header fr)"] unat_less_2p [of "vh_value_len (rv_header fr)"]
      by (simp add: fr_def t2_at_def make_record_view_def Let_def mem_read_def)
    have w: "waits_ok waits s" using uq by (simp add: waits_ok_def)
    obtain s1 where we: "write_entry_lockfree maybe_reorganize_if_needed waits ?k ?v (Some ?cur) s = Some (Inr (), s1)" and s': "kv_t1 s' = kv_t1 s1"
      using res False lk(1) by (auto simp: relocate_offset_def fr_def [symmetric] Let_def split: option.splits sum.splits prod.splits)
    note wv = write_entry_view [OF inv w lk(4) len room we, folded s']
    have "only_moved s s'" unfolding only_moved_def using wv by (metis order_refl)
    moreover have "nothing_at s' (unat ?o)" unfolding nothing_at_def using wv here off by (metis less_irrefl)
    ultimately show ?thesis by blast
  qed
qed

lemma relocate_loop_moves:
  assumes "kv_inv s recs" "unique_prefixes (si_view (kv_t1 s))" "unat (tm_bytes_used (kv_t2 s)) + length wss * 2 ^ 20 < 2 ^ 63"
    and "\<forall>off \<in> set offs. off AND kPayloadOffsetMask = off \<and> off < tm_bytes_used (kv_t2 s)"
    and "relocate_loop max_move wss ioss offs moved aw s = Some (Inr m, ioss', aw', s')" "m < max_move"
  shows "only_moved s s' \<and> (\<forall>off \<in> set offs. nothing_at s' (unat off))"
  using assms
proof (induction max_move wss ioss offs moved aw s arbitrary: recs rule: relocate_loop.induct)
  case (1 max_move wss ioss moved aw s)
  then show ?case by auto
next
  case (2 max_move ioss off offs moved aw s)
  then show ?case by simp
next
  case (3 max_move waits wss ioss off offs moved aw s)
  note run = "3.prems"(5)
  obtain b pending s1 where ro: "relocate_offset waits off s = Some (Inr (b, pending), s1)"
    using run by (auto split: option.splits sum.splits prod.splits)
  have room: "unat (tm_bytes_used (kv_t2 s)) < 2 ^ 63" using "3.prems"(3) by simp
  have one: "relocated s 1 s1" by (rule relocate_offset_ok [OF "3.prems"(1,2) room ro])
  have mask: "off AND kPayloadOffsetMask = off" and below: "unat off < unat (tm_bytes_used (kv_t2 s))"
    using "3.prems"(4) by (auto simp: word_less_nat_alt)
  have mv: "only_moved s s1" "nothing_at s1 (unat off)"
    using relocate_offset_moves [OF "3.prems"(1,2) room _ ro] below by (simp_all add: mask)
  define aw1 where "aw1 = (case pending of None \<Rightarrow> aw | Some p \<Rightarrow> awaiter_add p aw)"
  define dr where "dr = (if awaiter_size aw1 \<ge> kDefragAwaitEveryNRelocates then awaiter_drain ioss aw1 (kv_wal s1) else Some (Inr (), ioss, aw1, kv_wal s1))"
  note run1 = run [unfolded relocate_loop.simps, unfolded ro, simplified, folded aw1_def, unfolded Let_def, folded dr_def]
  obtain ioss1 aw2 w where dr: "dr = Some (Inr (), ioss1, aw2, w)" using run1 by (auto split: option.splits sum.splits)
  have nb: "\<not> moved + b \<ge> max_move"
  proof
    assume "moved + b \<ge> max_move"
    then have "m = moved + b" using run1 by (simp add: dr)
    then show False using \<open>moved + b \<ge> max_move\<close> "3.prems"(6) by simp
  qed
  have go: "relocate_loop max_move wss ioss1 offs (moved + b) aw2 (s1\<lparr>kv_wal := w\<rparr>) = Some (Inr m, ioss', aw', s')"
    using run1 nb by (simp add: dr)
  obtain recs1 where i1: "kv_inv (s1\<lparr>kv_wal := w\<rparr>) recs1" using one by (auto simp: relocated_def)
  have up: "unat (tm_bytes_used (kv_t2 s)) \<le> unat (tm_bytes_used (kv_t2 s1))" using one by (simp add: relocated_def)
  have "only_moved (s1\<lparr>kv_wal := w\<rparr>) s' \<and> (\<forall>off \<in> set offs. nothing_at s' (unat off))"
  proof (rule "3.IH" [OF ro refl refl refl refl aw1_def dr [unfolded dr_def] refl refl refl refl nb i1 _ _ _ go "3.prems"(6)])
    show "unique_prefixes (si_view (kv_t1 (s1\<lparr>kv_wal := w\<rparr>)))" using unique_same_map [OF "3.prems"(2), of s1] one by (simp add: relocated_def)
    show "unat (tm_bytes_used (kv_t2 (s1\<lparr>kv_wal := w\<rparr>))) + length wss * 2 ^ 20 < 2 ^ 63" using one "3.prems"(3) by (simp add: relocated_def)
    show "\<forall>off \<in> set offs. off AND kPayloadOffsetMask = off \<and> off < tm_bytes_used (kv_t2 (s1\<lparr>kv_wal := w\<rparr>))"
      using "3.prems"(4) up by (auto simp: word_less_nat_alt)
  qed
  then show ?case using mv only_moved_trans [of s s1 s'] nothing_at_keep [of s1 "unat off" s'] up below by simp
qed

lemma relocate_phase_moves:
  assumes "kv_inv s recs" "unique_prefixes (si_view (kv_t1 s))" "unat (tm_bytes_used (kv_t2 s)) + length wss * 2 ^ 20 < 2 ^ 63"
    and col: "collect_victim_offsets vs (tm_bytes_used (kv_t2 s)) s = Some offs"
    and run: "relocate_phase max_move wss ioss vs (tm_bytes_used (kv_t2 s)) s = Some (Inr moved, s')" and cut: "moved < max_move"
  shows "only_moved s s' \<and> (\<forall>off \<in> set offs. nothing_at s' (unat off))"
proof -
  note run1 = run [unfolded relocate_phase_def, unfolded col option.case]
  obtain ioss1 aw s1 w where lp: "relocate_loop max_move wss ioss offs 0 \<lparr>ga_pendings = []\<rparr> s = Some (Inr moved, ioss1, aw, s1)"
    and s': "s' = s1\<lparr>kv_wal := w\<rparr>"
    using run1 by (auto split: option.splits sum.splits prod.splits)
  have "off AND kPayloadOffsetMask = off \<and> off < tm_bytes_used (kv_t2 s)" if off: "off \<in> set offs" for off
  proof -
    obtain k p h where "victim_offset (kv_own s) vs (tm_bytes_used (kv_t2 s)) (kv_t2 s) (k, p, h) = Some off"
      using col off by (auto simp: collect_victim_offsets_def map_filter_def)
    then show ?thesis by (auto simp: victim_offset_def Let_def and.assoc split: if_splits)
  qed
  then show ?thesis using relocate_loop_moves [OF assms(1-3) _ lp cut] by (simp add: s')
qed

section \<open>Victims are evacuated\<close>

lemma take_victims_set: "set (take_victims max_move own est vs) \<subseteq> vi_seg ` set vs"
  by (induction vs arbitrary: est) auto

lemma select_victims_frozen:
  assumes "\<forall>vs. mset (order vs) = mset vs" "seg \<in> set (select_victims order max_move own base used)" and lay: "seg_layout own"
  shows "unat seg < segment_count own" "(seg + 1) * own_segment_bytes own \<le> base"
proof -
  let ?vs = "List.map_filter (victim_of own base used) (map word_of_nat [0..<segment_count own])"
  have "set (order ?vs) = set ?vs" using assms(1) mset_eq_setD by blast
  then obtain v where "v \<in> set ?vs" "vi_seg v = seg"
    using assms(2) take_victims_set [of max_move own 0 "order ?vs"] by (auto simp: select_victims_def)
  then obtain i where i: "i < segment_count own" "victim_of own base used (word_of_nat i) = Some v" by (auto simp: map_filter_def)
  have seg: "seg = word_of_nat i" using i(2) \<open>vi_seg v = seg\<close> by (auto simp: victim_of_def Let_def split: if_splits)
  have "0 < unat (own_segment_bytes own)" using lay by (simp add: seg_layout_def word_less_nat_alt)
  then have "i < segment_count own * unat (own_segment_bytes own)" using i(1) by (metis less_le_trans mult.right_neutral mult_le_mono2 Suc_leI One_nat_def)
  also have "\<dots> < 2 ^ 64" using lay by (simp add: seg_layout_def)
  finally have "i < 2 ^ 64" .
  then have "unat seg = i" by (simp add: seg unat_small)
  then show "unat seg < segment_count own" using i(1) by simp
  have "seg * own_segment_bytes own + own_segment_bytes own = (seg + 1) * own_segment_bytes own" by (simp add: algebra_simps)
  then show "(seg + 1) * own_segment_bytes own \<le> base"
    using i(2) by (auto simp: seg victim_of_def Let_def not_less split: if_splits)
qed

text \<open>No live entry in a segment means a counter of zero.\<close>

lemma empty_segment:
  assumes inv: "kv_inv s recs" and n: "n < segment_count (kv_own s)"
    and none: "\<And>x r. si_view (kv_t1 s) x = Some r \<Longrightarrow> \<not> is_inline (lr_raw_hash r) \<Longrightarrow> unat (seg_index (kv_own s) (lr_payload_bits r AND kPayloadOffsetMask)) \<noteq> n"
  shows "seg_live (kv_own s) n = 0"
proof -
  have "contrib (kv_own s) n (the (si_view (kv_t1 s) x)) = 0" if "x \<in> dom (si_view (kv_t1 s))" for x
    using that none [of x] by (auto simp: contrib_def in_segment_def)
  then show ?thesis using kv_invD(3) [OF inv] n by (simp add: own_inv_def)
qed

lemma collected:
  assumes inv: "kv_inv s recs" and un: "scannable (kv_t1 s)"
    and x: "si_view (kv_t1 s) x = Some r"
    and v: "victim_offset (kv_own s) vs used (kv_t2 s) (fst x, lr_payload_bits r, lr_raw_hash r) = Some off"
    and col: "collect_victim_offsets vs used s = Some offs"
  shows "off \<in> set offs"
proof -
  obtain hits where "si_scan (kv_t1 s) kDefragScanLo kDefragScanHi = Some hits" "(fst x, lr_payload_bits r, lr_raw_hash r) \<in> set hits"
    using scan_covers [OF inv un] x by metis
  then show ?thesis using col v by (force simp: collect_victim_offsets_def map_filter_def)
qed

text \<open>An entry below the old frontier that was collected is no longer there.\<close>

lemma moved_away:
  assumes "kv_inv s recs" "scannable (kv_t1 s)" "collect_victim_offsets victims (tm_bytes_used (kv_t2 s)) s = Some offs"
    and mv: "only_moved s s' \<and> (\<forall>off \<in> set offs. nothing_at s' (unat off))"
    and x: "si_view (kv_t1 s') x = Some r" "\<not> is_inline (lr_raw_hash r)" and below: "entry_off r < unat (tm_bytes_used (kv_t2 s))"
    and v: "si_view (kv_t1 s) x = Some r \<Longrightarrow> victim_offset (kv_own s) victims (tm_bytes_used (kv_t2 s)) (kv_t2 s) (fst x, lr_payload_bits r, lr_raw_hash r) = Some (lr_payload_bits r AND kPayloadOffsetMask)"
  shows False
proof -
  have "si_view (kv_t1 s) x = Some r \<or> unat (tm_bytes_used (kv_t2 s)) \<le> entry_off r" using mv x unfolding only_moved_def by blast
  then have o: "si_view (kv_t1 s) x = Some r" using below by simp
  have "nothing_at s' (entry_off r)" using mv collected [OF assms(1,2) o v [OF o] assms(3)] by (auto simp: entry_off_def)
  then show False using x unfolding nothing_at_def by blast
qed

text \<open>What is left after a relocation that ran to its end, for one victim.\<close>

lemma victim_counter:
  assumes inv: "kv_inv s recs" "scannable (kv_t1 s)" "collect_victim_offsets victims (tm_bytes_used (kv_t2 s)) s = Some offs"
      "only_moved s s' \<and> (\<forall>off \<in> set offs. nothing_at s' (unat off))"
    and inv': "kv_inv s' recs'" and sg: "same_segs s s'" and lay: "seg_layout (kv_own s)"
    and seg: "seg \<in> set victims" "unat seg < segment_count (kv_own s)" "unat ((seg + 1) * own_segment_bytes (kv_own s)) \<le> unat (tm_bytes_used (kv_t2 s))"
  shows "seg_live (kv_own s') (unat seg) = 0"
proof (rule empty_segment [OF inv'])
  let ?b = "own_segment_bytes (kv_own s)"
  have own: "own_segment_bytes (kv_own s') = ?b" "segment_count (kv_own s') = segment_count (kv_own s)" using sg by (simp_all add: same_segs_def)
  show "unat seg < segment_count (kv_own s')" using seg(2) own(2) by simp
  fix x r
  assume x: "si_view (kv_t1 s') x = Some r" "\<not> is_inline (lr_raw_hash r)"
  show "unat (seg_index (kv_own s') (lr_payload_bits r AND kPayloadOffsetMask)) \<noteq> unat seg"
  proof
    assume at: "unat (seg_index (kv_own s') (lr_payload_bits r AND kPayloadOffsetMask)) = unat seg"
    then have "entry_off r div unat ?b = unat seg" by (simp add: seg_index_def unat_div entry_off_def own)
    moreover have "0 < unat ?b" using lay by (simp add: seg_layout_def word_less_nat_alt)
    ultimately have below: "entry_off r < unat (tm_bytes_used (kv_t2 s))"
      using seg_span(2) [OF lay seg(2)] seg(3) by (metis div_less_iff_less_mult lessI less_le_trans)
    have eq: "seg_index (kv_own s) (lr_payload_bits r AND kPayloadOffsetMask) = seg" using at by (simp add: seg_index_def own word_unat_eq_iff)
    show False
      by (rule moved_away [OF inv x below]) (rule in_victim_collected [OF si.view_live [OF kv_invD(1) [OF inv(1)]] x(2) below seg(1) eq])
  qed
qed

lemma victim_clear:
  assumes inv: "kv_inv s recs" "scannable (kv_t1 s)" "collect_victim_offsets victims (tm_bytes_used (kv_t2 s)) s = Some offs"
      "only_moved s s' \<and> (\<forall>off \<in> set offs. nothing_at s' (unat off))"
    and inv': "kv_inv s' recs'" and sg: "same_segs s s'" and long: "long_segments s" and map: "kv_map s' = kv_map s"
    and seg: "seg \<in> set victims" "unat seg < segment_count (kv_own s)" "unat ((seg + 1) * own_segment_bytes (kv_own s)) \<le> unat (tm_bytes_used (kv_t2 s))"
  shows "no_overhang s' seg"
proof -
  let ?b = "own_segment_bytes (kv_own s)"
  have own: "own_segment_bytes (kv_own s') = ?b" using sg by (simp add: same_segs_def)
  have lay: "seg_layout (kv_own s)" using long by (simp add: long_segments_def)
  show ?thesis unfolding no_overhang_def own
  proof (intro allI impI, elim conjE, rule ccontr)
    fix x r
    assume x: "si_view (kv_t1 s') x = Some r" "\<not> is_inline (lr_raw_hash r)" and lt: "entry_off r < unat (seg * ?b)"
      and over: "\<not> record_end (kv_t2 s') (entry_off r) \<le> unat (seg * ?b)"
    have below: "entry_off r < unat (tm_bytes_used (kv_t2 s))" using lt seg_span [OF lay seg(2)] seg(3) by simp
    show False
    proof (rule moved_away [OF inv x below])
      assume o: "si_view (kv_t1 s) x = Some r"
      obtain k v where kv: "kv_map s x = Some (k, v)" using o by (cases "entry_kv (kv_t2 s) x r") (simp add: kv_map_def)
      have "record_end (kv_t2 s) (entry_off r) = record_end (kv_t2 s') (entry_off r)"
        using record_end_kv [OF inv(1) o x(2) kv] record_end_kv [OF inv' x] kv map by (simp add: record_end_def)
      then show "victim_offset (kv_own s) victims (tm_bytes_used (kv_t2 s)) (kv_t2 s) (fst x, lr_payload_bits r, lr_raw_hash r) = Some (lr_payload_bits r AND kPayloadOffsetMask)"
        using over below by (intro overhang_collected [OF inv(1) long o x(2) _ seg(1,2) lt]) auto
    qed
  qed
qed


text \<open>A store of one mebibyte of garbage, all of it in one frozen segment.\<close>

definition garbage_store :: VMemKV where
  "garbage_store = VMemKV_init (demo_config\<lparr>cfg_segment_bytes := 1048576\<rparr>) 2097152 (T2Memory_new (replicate 2097152 0) 2097152 1048576) (Wal_start 1 [])"

lemma garbage_state:
  "kv_inv garbage_store Map.empty" "kv_map garbage_store = Map.empty" "si_view (kv_t1 garbage_store) = Map.empty"
  "tm_bytes_used (kv_t2 garbage_store) = 1048576" "tm_base_boundary (kv_t2 garbage_store) = 1048576"
  "kv_own garbage_store = T2Ownership_new 1048576 2" "scannable (kv_t1 garbage_store)" "long_segments garbage_store"
proof -
  let ?m = "T2Memory_new (replicate 2097152 0) 2097152 1048576 :: T2Memory"
  have m: "t2_inv ?m Map.empty" "tm_capacity ?m = 2097152" "tm_bytes_used ?m = 1048576" "tm_base_boundary ?m = 1048576"
    by (simp_all add: t2_inv_def T2Memory_new_def)
  have cap: "0 < cfg_append_cap (demo_config\<lparr>cfg_segment_bytes := 1048576\<rparr>)" by (simp add: demo_config_def)
  note i = init_inv [OF cap m(1), of 2097152 "Wal_start 1 []", folded garbage_store_def, simplified m, simplified]
  show "kv_inv garbage_store Map.empty" "kv_map garbage_store = Map.empty" "si_view (kv_t1 garbage_store) = Map.empty" by (rule i)+
  show "tm_bytes_used (kv_t2 garbage_store) = 1048576" "tm_base_boundary (kv_t2 garbage_store) = 1048576" by (simp_all add: i(6) m)
  show own: "kv_own garbage_store = T2Ownership_new 1048576 2" by (simp add: garbage_store_def VMemKV_init_def)
  show "long_segments garbage_store" by (simp add: long_segments_def seg_layout_def own T2Ownership_new_def segment_count_def i(2))
  show "scannable (kv_t1 garbage_store)"
    by (simp add: scannable_def garbage_store_def VMemKV_init_def ShardedT1Index_new_def slot_def ShardSlot_new_def prefix_unique_def shard_new(3))
qed

lemma garbage_victims:
  "select_victims (\<lambda>vs. vs) 4096 (kv_own garbage_store) (tm_base_boundary (kv_t2 garbage_store)) (tm_bytes_used (kv_t2 garbage_store)) = [0]"
  unfolding garbage_state(4,5,6) by code_simp

lemma garbage_relocation:
  "relocate_phase 4096 [] [] [0] (tm_bytes_used (kv_t2 garbage_store)) garbage_store = Some (Inr 0, garbage_store)"
proof -
  obtain hits where h: "si_scan (kv_t1 garbage_store) kDefragScanLo kDefragScanHi = Some hits"
    "\<And>k p h. (k, p, h) \<in> set hits \<Longrightarrow> \<exists>x. si_view (kv_t1 garbage_store) x = Some \<lparr>lr_payload_bits = p, lr_raw_hash = h\<rparr>"
    by (rule scan_covers [OF garbage_state(1,7)]) blast
  have "hits = []" using h(2) by (cases hits) (auto simp: garbage_state(3))
  then show ?thesis using h(1) by (simp add: relocate_phase_def collect_victim_offsets_def awaiter_drain_def awaiter_destroy_def map_filter_def)
qed


end
