(* ===== verification/Reference_Tracker.thy ===== *)
theory Reference_Tracker
  imports VM_Prelude
begin

text \<open>
  \<^verbatim>\<open>core/reference_tracker.hpp\<close> and \<^verbatim>\<open>core/single_flight.hpp\<close>, and the protocols built on the tracker: the
  barrier of in-place updates (\<^verbatim>\<open>vmemkv/hooks.hpp\<close>, \<^verbatim>\<open>try_in_place_update\<close> against
  \<^verbatim>\<open>checkpoint_internal\<close>), the writer gate of the T2 file (\<^verbatim>\<open>t2_flat_file/t2_flat_file.hpp\<close>) and
  the epochs that guard the buffers of an index shard (\<^verbatim>\<open>t1_index/t1_index.hpp\<close>). A thread
  registers, then checks, then acts; the other side closes, then waits slot by slot. Shown for every
  interleaving of these atomic steps, growth of the slot array included: once the wait is over, nobody is
  inside whom the closed gate would refuse, and no reader of buffers that were replaced.
\<close>

section \<open>The tracker\<close>

definition kChunkSize :: nat where
  "kChunkSize = 64"

definition kMaxChunks :: nat where
  "kMaxChunks = 1024"

record ThreadReferenceTracker =
  tr_chunks :: "nat \<Rightarrow> u64 list option"
  tr_high_chunk :: nat

definition ThreadReferenceTracker_new :: ThreadReferenceTracker where
  "ThreadReferenceTracker_new = \<lparr>tr_chunks = (\<lambda>_. None), tr_high_chunk = 0\<rparr>"

datatype TrackerError = ThreadIdSpaceExhausted

definition ensure_chunk :: "nat \<Rightarrow> ThreadReferenceTracker \<Rightarrow> ThreadReferenceTracker" where
  "ensure_chunk chunk_index tr =
     (case tr_chunks tr chunk_index of
        Some chunk \<Rightarrow> tr
      | None \<Rightarrow> tr\<lparr>tr_chunks := (tr_chunks tr)(chunk_index \<mapsto> replicate kChunkSize 0),
                   tr_high_chunk := (if chunk_index + 1 > tr_high_chunk tr then chunk_index + 1 else tr_high_chunk tr)\<rparr>)"

text \<open>A store into the slot of a thread.\<close>

definition store_slot :: "nat \<Rightarrow> u64 \<Rightarrow> ThreadReferenceTracker \<Rightarrow> TrackerError + ThreadReferenceTracker" where
  "store_slot thread_id val tr =
     (let chunk_index = thread_id div kChunkSize
      in if chunk_index \<ge> kMaxChunks then Inl ThreadIdSpaceExhausted
         else let tr1 = ensure_chunk chunk_index tr
              in Inr (tr1\<lparr>tr_chunks := (tr_chunks tr1)(chunk_index := map_option (\<lambda>c. c[thread_id mod kChunkSize := val]) (tr_chunks tr1 chunk_index))\<rparr>))"

definition tracker_acquire :: "nat \<Rightarrow> u64 \<Rightarrow> ThreadReferenceTracker \<Rightarrow> TrackerError + ThreadReferenceTracker" where
  "tracker_acquire thread_id val tr = store_slot thread_id val tr"

definition tracker_release :: "nat \<Rightarrow> ThreadReferenceTracker \<Rightarrow> TrackerError + ThreadReferenceTracker" where
  "tracker_release thread_id tr = store_slot thread_id 0 tr"

text \<open>What a waiter still waits for when it loads a slot.\<close>

definition retired_pending :: "u64 \<Rightarrow> u64 \<Rightarrow> bool" where
  "retired_pending old_val slot_val \<longleftrightarrow> slot_val = old_val"

definition epoch_pending :: "u64 \<Rightarrow> u64 \<Rightarrow> bool" where
  "epoch_pending target_epoch epoch_val \<longleftrightarrow> \<not> (epoch_val = 0 \<or> epoch_val \<ge> target_epoch)"

section \<open>Register, check, act; close, wait\<close>

text \<open>
  \<open>Inside v g\<close>: the thread registered \<open>v\<close> and its check read \<open>g\<close> from the gate.
\<close>

datatype 'g thread_pc = Out | Registered u64 | Inside u64 'g

datatype 'w wait_pc = NoWait | Closed 'w | Scanning 'w nat nat | Drained 'w

record ('g, 'w) DrainState =
  ds_tracker :: ThreadReferenceTracker
  ds_gate :: 'g
  ds_pc :: "nat \<Rightarrow> 'g thread_pc"
  ds_wait :: "'w wait_pc"

inductive drain_step :: "(u64 \<Rightarrow> 'g \<Rightarrow> bool) \<Rightarrow> ('w \<Rightarrow> u64 \<Rightarrow> bool) \<Rightarrow> ('w \<Rightarrow> 'g) \<Rightarrow> ('g, 'w) DrainState \<Rightarrow> ('g, 'w) DrainState \<Rightarrow> bool"
  for refuse pending close where
  enter: "ds_pc s t = Out \<Longrightarrow> v \<noteq> 0 \<Longrightarrow> tracker_acquire t v (ds_tracker s) = Inr tr \<Longrightarrow>
    drain_step refuse pending close s (s\<lparr>ds_tracker := tr, ds_pc := (ds_pc s)(t := Registered v)\<rparr>)"
| check: "ds_pc s t = Registered v \<Longrightarrow> \<not> refuse v (ds_gate s) \<Longrightarrow>
    drain_step refuse pending close s (s\<lparr>ds_pc := (ds_pc s)(t := Inside v (ds_gate s))\<rparr>)"
| give_up: "ds_pc s t = Registered v \<Longrightarrow> tracker_release t (ds_tracker s) = Inr tr \<Longrightarrow>
    drain_step refuse pending close s (s\<lparr>ds_tracker := tr, ds_pc := (ds_pc s)(t := Out)\<rparr>)"
| leave: "ds_pc s t = Inside v g \<Longrightarrow> tracker_release t (ds_tracker s) = Inr tr \<Longrightarrow>
    drain_step refuse pending close s (s\<lparr>ds_tracker := tr, ds_pc := (ds_pc s)(t := Out)\<rparr>)"
| shut: "ds_wait s = NoWait \<Longrightarrow> drain_step refuse pending close s (s\<lparr>ds_gate := close w, ds_wait := Closed w\<rparr>)"
| scan: "ds_wait s = Closed w \<Longrightarrow>
    drain_step refuse pending close s (s\<lparr>ds_wait := Scanning w (tr_high_chunk (ds_tracker s)) 0\<rparr>)"
| skip: "ds_wait s = Scanning w n p \<Longrightarrow> p < n * kChunkSize \<Longrightarrow> p mod kChunkSize = 0 \<Longrightarrow> tr_chunks (ds_tracker s) (p div kChunkSize) = None \<Longrightarrow>
    drain_step refuse pending close s (s\<lparr>ds_wait := Scanning w n (p + kChunkSize)\<rparr>)"
| pass: "ds_wait s = Scanning w n p \<Longrightarrow> p < n * kChunkSize \<Longrightarrow> tr_chunks (ds_tracker s) (p div kChunkSize) = Some c \<Longrightarrow>
    \<not> pending w (c ! (p mod kChunkSize)) \<Longrightarrow> drain_step refuse pending close s (s\<lparr>ds_wait := Scanning w n (Suc p)\<rparr>)"
| drained: "ds_wait s = Scanning w n (n * kChunkSize) \<Longrightarrow> drain_step refuse pending close s (s\<lparr>ds_wait := Drained w\<rparr>)"
| reopen: "ds_wait s = Drained w \<Longrightarrow> drain_step refuse pending close s (s\<lparr>ds_gate := g, ds_wait := NoWait\<rparr>)"

definition DrainState_init :: "'g \<Rightarrow> ('g, 'w) DrainState" where
  "DrainState_init g = \<lparr>ds_tracker = ThreadReferenceTracker_new, ds_gate = g, ds_pc = (\<lambda>_. Out), ds_wait = NoWait\<rparr>"

inductive drain_run :: "(u64 \<Rightarrow> 'g \<Rightarrow> bool) \<Rightarrow> ('w \<Rightarrow> u64 \<Rightarrow> bool) \<Rightarrow> ('w \<Rightarrow> 'g) \<Rightarrow> ('g, 'w) DrainState \<Rightarrow> bool"
  for refuse pending close where
  start: "drain_run refuse pending close (DrainState_init g)"
| more: "drain_run refuse pending close s \<Longrightarrow> drain_step refuse pending close s s' \<Longrightarrow> drain_run refuse pending close s'"

text \<open>
  The barrier: a thread registers its offset plus one and is refused below the watermark; the
  checkpoint claims the watermark and waits for the epoch after it. The gate: a thread registers the
  memory and is refused while writers are stopped; the checkpoint stops them and waits until the
  memory is in no slot.
\<close>

definition barrier_refuse :: "u64 \<Rightarrow> u64 \<Rightarrow> bool" where
  "barrier_refuse registered watermark \<longleftrightarrow> registered - 1 < watermark"

definition barrier_pending :: "u64 \<Rightarrow> u64 \<Rightarrow> bool" where
  "barrier_pending boundary = epoch_pending (boundary + 1)"

definition barrier_run :: "(u64, u64) DrainState \<Rightarrow> bool" where
  "barrier_run = drain_run barrier_refuse barrier_pending (\<lambda>target. target)"

definition gate_refuse :: "u64 \<Rightarrow> bool \<Rightarrow> bool" where
  "gate_refuse registered stop \<longleftrightarrow> stop"

definition gate_run :: "(bool, u64) DrainState \<Rightarrow> bool" where
  "gate_run = drain_run gate_refuse retired_pending (\<lambda>mem. True)"

section \<open>Single flight\<close>

text \<open>The answer and the flag after the compare-exchange; the flag after the guard is destroyed.\<close>

definition try_acquire :: "bool \<Rightarrow> bool \<times> bool" where
  "try_acquire running = (if running then (False, running) else (True, True))"

definition guard_destroy :: "bool \<Rightarrow> bool \<Rightarrow> bool" where
  "guard_destroy holds running = (if holds then False else running)"

inductive flight_run :: "bool \<Rightarrow> (nat \<Rightarrow> bool) \<Rightarrow> bool" where
  flight_start: "flight_run False (\<lambda>_. False)"
| flight_acquire: "flight_run running holds \<Longrightarrow> \<not> holds t \<Longrightarrow> try_acquire running = (got, running') \<Longrightarrow> flight_run running' (holds(t := got))"
| flight_destroy: "flight_run running holds \<Longrightarrow> flight_run (guard_destroy (holds t) running) (holds(t := False))"

lemma single_flight_exclusive:
  assumes "flight_run running holds"
  shows "(running \<longleftrightarrow> (\<exists>t. holds t)) \<and> (\<forall>t t'. holds t \<longrightarrow> holds t' \<longrightarrow> t = t')"
  using assms
proof (induction rule: flight_run.induct)
  case (flight_acquire running holds t got running')
  then show ?case by (auto simp: try_acquire_def split: if_splits)
next
  case (flight_destroy running holds t)
  then show ?case by (cases "holds t") (auto simp: guard_destroy_def fun_upd_idem)
qed simp

section \<open>The invariant\<close>

definition slot_of :: "ThreadReferenceTracker \<Rightarrow> nat \<Rightarrow> u64 option" where
  "slot_of tr t = map_option (\<lambda>c. c ! (t mod kChunkSize)) (tr_chunks tr (t div kChunkSize))"

definition tracker_wf :: "ThreadReferenceTracker \<Rightarrow> bool" where
  "tracker_wf tr \<longleftrightarrow> (\<forall>i c. tr_chunks tr i = Some c \<longrightarrow> length c = kChunkSize \<and> i < tr_high_chunk tr)"

lemma store_slot_ok:
  assumes "tracker_wf tr" "store_slot t v tr = Inr tr'"
  shows "tracker_wf tr'" "slot_of tr' t = Some v" "t' \<noteq> t \<Longrightarrow> slot_of tr t' = Some u \<Longrightarrow> slot_of tr' t' = Some u"
    "tr_high_chunk tr \<le> tr_high_chunk tr'"
proof -
  let ?i = "t div kChunkSize"
  define tr1 where "tr1 = ensure_chunk ?i tr"
  have wf1: "tracker_wf tr1" and hi: "tr_high_chunk tr \<le> tr_high_chunk tr1" and keep: "\<And>j c. tr_chunks tr j = Some c \<Longrightarrow> tr_chunks tr1 j = Some c"
    using assms(1) by (auto simp: tr1_def ensure_chunk_def tracker_wf_def less_Suc_eq split: option.splits) (meson less_trans)
  obtain c where c: "tr_chunks tr1 ?i = Some c" by (cases "tr_chunks tr ?i") (auto simp: tr1_def ensure_chunk_def)
  have tr': "tr' = tr1\<lparr>tr_chunks := (tr_chunks tr1)(?i \<mapsto> c[t mod kChunkSize := v])\<rparr>"
    using assms(2) c by (auto simp: store_slot_def Let_def tr1_def split: if_splits)
  have lc: "length c = kChunkSize" "0 < kChunkSize" using wf1 c by (simp_all add: tracker_wf_def kChunkSize_def)
  show "tracker_wf tr'" using wf1 c by (auto simp: tr' tracker_wf_def)
  show "slot_of tr' t = Some v" using lc by (simp add: slot_of_def tr')
  show "tr_high_chunk tr \<le> tr_high_chunk tr'" using hi by (simp add: tr')
  show "slot_of tr' t' = Some u" if ne: "t' \<noteq> t" and u: "slot_of tr t' = Some u"
  proof -
    obtain c' where c': "tr_chunks tr1 (t' div kChunkSize) = Some c'" "c' ! (t' mod kChunkSize) = u"
      using u keep by (auto simp: slot_of_def)
    have "t' div kChunkSize = ?i \<Longrightarrow> t' mod kChunkSize \<noteq> t mod kChunkSize" using ne by (metis div_mult_mod_eq)
    then show ?thesis using c c' by (auto simp: slot_of_def tr')
  qed
qed

definition pc_ok :: "(u64 \<Rightarrow> 'g \<Rightarrow> bool) \<Rightarrow> ThreadReferenceTracker \<Rightarrow> nat \<Rightarrow> 'g thread_pc \<Rightarrow> bool" where
  "pc_ok refuse tr t pc \<longleftrightarrow> (case pc of Out \<Rightarrow> True | Registered v \<Rightarrow> v \<noteq> 0 \<and> slot_of tr t = Some v
     | Inside v g \<Rightarrow> v \<noteq> 0 \<and> slot_of tr t = Some v \<and> \<not> refuse v g)"

text \<open>Those who passed their check before the gate was closed.\<close>

definition early :: "('w \<Rightarrow> u64 \<Rightarrow> bool) \<Rightarrow> ('g, 'w) DrainState \<Rightarrow> 'w \<Rightarrow> nat \<Rightarrow> bool" where
  "early pending s w t \<longleftrightarrow> (\<exists>v g. ds_pc s t = Inside v g \<and> pending w v \<and> g \<noteq> ds_gate s)"

definition wait_ok :: "('w \<Rightarrow> u64 \<Rightarrow> bool) \<Rightarrow> ('w \<Rightarrow> 'g) \<Rightarrow> ('g, 'w) DrainState \<Rightarrow> bool" where
  "wait_ok pending close s \<longleftrightarrow> (case ds_wait s of NoWait \<Rightarrow> True | Closed w \<Rightarrow> ds_gate s = close w
     | Scanning w n p \<Rightarrow> ds_gate s = close w \<and> (\<forall>t. early pending s w t \<longrightarrow> p \<le> t \<and> t < n * kChunkSize)
     | Drained w \<Rightarrow> ds_gate s = close w \<and> (\<forall>t. \<not> early pending s w t))"

definition drain_inv :: "(u64 \<Rightarrow> 'g \<Rightarrow> bool) \<Rightarrow> ('w \<Rightarrow> u64 \<Rightarrow> bool) \<Rightarrow> ('w \<Rightarrow> 'g) \<Rightarrow> ('g, 'w) DrainState \<Rightarrow> bool" where
  "drain_inv refuse pending close s \<longleftrightarrow> tracker_wf (ds_tracker s) \<and> (\<forall>t. pc_ok refuse (ds_tracker s) t (ds_pc s t)) \<and> wait_ok pending close s"

lemma wait_ok_cong:
  assumes "ds_wait s' = ds_wait s" "ds_gate s' = ds_gate s" "\<And>w t. early pending s' w t \<Longrightarrow> early pending s w t"
    and "wait_ok pending close s"
  shows "wait_ok pending close s'"
  using assms unfolding wait_ok_def by (auto split: wait_pc.splits)

text \<open>A step of one thread that stores into its slot.\<close>

lemma thread_store:
  assumes inv: "drain_inv refuse pending close s" and st: "store_slot t v (ds_tracker s) = Inr tr"
    and pc: "pc_ok refuse tr t pc" "\<forall>v g. pc \<noteq> Inside v g"
  shows "drain_inv refuse pending close (s\<lparr>ds_tracker := tr, ds_pc := (ds_pc s)(t := pc)\<rparr>)"
proof -
  let ?s = "s\<lparr>ds_tracker := tr, ds_pc := (ds_pc s)(t := pc)\<rparr>"
  have wf: "tracker_wf (ds_tracker s)" and ok: "\<And>t. pc_ok refuse (ds_tracker s) t (ds_pc s t)" and wt: "wait_ok pending close s"
    using inv by (simp_all add: drain_inv_def)
  note ss = store_slot_ok [OF wf st]
  have "pc_ok refuse tr t' (((ds_pc s)(t := pc)) t')" for t'
    using pc(1) ok [of t'] ss(3) [of t'] by (auto simp: pc_ok_def split: thread_pc.splits)
  moreover have "wait_ok pending close ?s"
    by (rule wait_ok_cong [OF _ _ _ wt]) (use pc(2) in \<open>auto simp: early_def split: if_splits\<close>)
  ultimately show ?thesis using ss(1) by (simp add: drain_inv_def)
qed

text \<open>A thread inside is found in its slot.\<close>

lemma early_slot:
  assumes "drain_inv refuse pending close s" "early pending s w t"
  obtains c where "tr_chunks (ds_tracker s) (t div kChunkSize) = Some c" "pending w (c ! (t mod kChunkSize))" "t < tr_high_chunk (ds_tracker s) * kChunkSize"
proof -
  obtain v g where v: "ds_pc s t = Inside v g" "pending w v" using assms(2) by (auto simp: early_def)
  have "pc_ok refuse (ds_tracker s) t (ds_pc s t)" using assms(1) by (simp add: drain_inv_def)
  then obtain c where c: "tr_chunks (ds_tracker s) (t div kChunkSize) = Some c" "c ! (t mod kChunkSize) = v"
    by (auto simp: pc_ok_def v slot_of_def)
  then have "t div kChunkSize < tr_high_chunk (ds_tracker s)" using assms(1) by (simp add: drain_inv_def tracker_wf_def)
  then have "t < tr_high_chunk (ds_tracker s) * kChunkSize" by (simp add: div_less_iff_less_mult kChunkSize_def)
  then show ?thesis using that c v(2) by blast
qed

lemma drain_step_inv:
  assumes inv: "drain_inv refuse pending close s" and step: "drain_step refuse pending close s s'"
  shows "drain_inv refuse pending close s'"
  using step
proof cases
  case (enter t v tr)
  have "slot_of tr t = Some v" by (rule store_slot_ok(2)) (use inv enter in \<open>auto simp: drain_inv_def tracker_acquire_def\<close>)
  then show ?thesis unfolding enter(1) by (intro thread_store [OF inv]) (use enter in \<open>auto simp: tracker_acquire_def pc_ok_def\<close>)
next
  case (check t v)
  have "pc_ok refuse (ds_tracker s) t (Inside v (ds_gate s))" using inv check by (auto simp: drain_inv_def pc_ok_def dest: spec [of _ t])
  moreover have "wait_ok pending close s'"
    by (rule wait_ok_cong [where s = s]) (use inv in \<open>auto simp: check early_def drain_inv_def split: if_splits\<close>)
  ultimately show ?thesis using inv by (simp add: drain_inv_def check)
next
  case (give_up t v tr)
  show ?thesis unfolding give_up(1) by (intro thread_store [OF inv]) (use give_up in \<open>auto simp: tracker_release_def pc_ok_def\<close>)
next
  case (leave t v g tr)
  show ?thesis unfolding leave(1) by (intro thread_store [OF inv]) (use leave in \<open>auto simp: tracker_release_def pc_ok_def\<close>)
next
  case (shut w)
  then show ?thesis using inv by (simp add: drain_inv_def wait_ok_def)
next
  case (scan w)
  have "t < tr_high_chunk (ds_tracker s) * kChunkSize" if "early pending s w t" for t
    by (rule early_slot [OF inv that])
  moreover have "early pending s' w t = early pending s w t" for t by (simp add: scan(1) early_def)
  ultimately show ?thesis using inv scan by (simp add: drain_inv_def wait_ok_def)
next
  case (skip w n p)
  have sc: "ds_gate s = close w" "\<And>t. early pending s w t \<Longrightarrow> p \<le> t \<and> t < n * kChunkSize" using inv skip(2) by (auto simp: drain_inv_def wait_ok_def)
  have "p + kChunkSize \<le> t" if e: "early pending s w t" for t
  proof -
    have "t div kChunkSize \<noteq> p div kChunkSize" by (rule early_slot [OF inv e]) (use skip(5) in auto)
    moreover have "p div kChunkSize \<le> t div kChunkSize" using sc(2) [OF e] by (simp add: div_le_mono)
    ultimately have "Suc (p div kChunkSize) \<le> t div kChunkSize" by simp
    then have "Suc (p div kChunkSize) * kChunkSize \<le> t" by (meson div_times_less_eq_dividend le_trans mult_le_mono1)
    moreover have "p = p div kChunkSize * kChunkSize" using skip(4) by (simp add: mod_0_imp_dvd)
    ultimately show ?thesis by simp
  qed
  moreover have "early pending s' w t = early pending s w t" for t by (simp add: skip(1) early_def)
  ultimately show ?thesis using inv skip sc by (simp add: drain_inv_def wait_ok_def)
next
  case (pass w n p c)
  have sc: "ds_gate s = close w" "\<And>t. early pending s w t \<Longrightarrow> p \<le> t \<and> t < n * kChunkSize" using inv pass(2) by (auto simp: drain_inv_def wait_ok_def)
  have "Suc p \<le> t" if e: "early pending s w t" for t
  proof -
    have "t \<noteq> p" by (rule early_slot [OF inv e]) (use pass(4,5) in auto)
    then show ?thesis using sc(2) [OF e] by simp
  qed
  moreover have "early pending s' w t = early pending s w t" for t by (simp add: pass(1) early_def)
  ultimately show ?thesis using inv pass sc by (simp add: drain_inv_def wait_ok_def)
next
  case (drained w n)
  have "\<not> early pending s w t" "ds_gate s = close w" for t using inv drained(2) by (auto simp: drain_inv_def wait_ok_def)
  moreover have "early pending s' w t = early pending s w t" for t by (simp add: drained(1) early_def)
  ultimately show ?thesis using inv by (simp add: drain_inv_def wait_ok_def drained)
next
  case (reopen w g)
  then show ?thesis using inv by (simp add: drain_inv_def wait_ok_def)
qed

lemma drain_run_inv: "drain_run refuse pending close s \<Longrightarrow> drain_inv refuse pending close s"
proof (induction rule: drain_run.induct)
  case (start g)
  then show ?case by (simp add: drain_inv_def DrainState_init_def ThreadReferenceTracker_new_def tracker_wf_def pc_ok_def wait_ok_def)
qed (rule drain_step_inv)

section \<open>The contract of a gate\<close>

text \<open>Whoever the waiter waits for is refused by the closed gate.\<close>

locale drain_gate =
  fixes refuse :: "u64 \<Rightarrow> 'g \<Rightarrow> bool" and pending :: "'w \<Rightarrow> u64 \<Rightarrow> bool" and close :: "'w \<Rightarrow> 'g"
  assumes closes: "v \<noteq> 0 \<Longrightarrow> pending w v \<Longrightarrow> refuse v (close w)"
begin

lemma drained_empty:
  assumes "drain_run refuse pending close s" "ds_wait s = Drained w" "ds_pc s t = Inside v g"
  shows "v \<noteq> 0 \<and> \<not> pending w v"
proof -
  have inv: "drain_inv refuse pending close s" by (rule drain_run_inv [OF assms(1)])
  have in_: "v \<noteq> 0" "\<not> refuse v g" using inv assms(3) by (auto simp: drain_inv_def pc_ok_def dest: spec [of _ t])
  have gate: "ds_gate s = close w" "\<not> early pending s w t" using inv assms(2) by (auto simp: drain_inv_def wait_ok_def)
  have "\<not> pending w v"
  proof
    assume p: "pending w v"
    then have "g = ds_gate s" using gate(2) assms(3) by (auto simp: early_def)
    then show False using closes [OF in_(1) p] in_(2) gate(1) by simp
  qed
  then show ?thesis using in_(1) by blast
qed

end

interpretation barrier: drain_gate barrier_refuse barrier_pending "\<lambda>target. target"
proof
  fix v w :: u64
  assume v: "v \<noteq> 0" "barrier_pending w v"
  then have "v < w + 1" by (simp add: barrier_pending_def epoch_pending_def)
  moreover have "unat (w + 1) \<le> unat w + 1" by (simp add: unat_word_ariths)
  moreover have "unat (v - 1) = unat v - 1" "0 < unat v" using v(1) by (simp_all add: unat_minus_one unat_eq_0 [symmetric])
  ultimately have "v - 1 < w" by (simp add: word_less_nat_alt)
  then show "barrier_refuse v w" by (simp add: barrier_refuse_def)
qed

interpretation writer_gate: drain_gate gate_refuse retired_pending "\<lambda>mem. True"
  by unfold_locales (simp add: gate_refuse_def)

section \<open>Epochs\<close>

text \<open>
  Readers of the index load the epoch, register it and then load the buffers; a reorganisation publishes
  new buffers, advances the epoch, waits for it and deletes the old ones. The target of a wait is the
  new epoch with the buffers published before it. An epoch counter that wraps is left out.
\<close>

record 'b EpochState =
  ep_epoch :: u64
  ep_loaded :: "nat \<Rightarrow> u64"
  ep_ds :: "('b, u64 \<times> 'b) DrainState"

definition epoch_wait :: "u64 \<times> 'b \<Rightarrow> u64 \<Rightarrow> bool" where
  "epoch_wait w = epoch_pending (fst w)"

abbreviation ep_with :: "'b EpochState \<Rightarrow> ('b, u64 \<times> 'b) DrainState \<Rightarrow> 'b EpochState" where
  "ep_with e s \<equiv> e\<lparr>ep_ds := s\<rparr>"

inductive epoch_step :: "'b EpochState \<Rightarrow> 'b EpochState \<Rightarrow> bool" where
  load_epoch: "ds_pc (ep_ds e) t = Out \<Longrightarrow> epoch_step e (e\<lparr>ep_loaded := (ep_loaded e)(t := ep_epoch e)\<rparr>)"
| register: "ep_ds e = s \<Longrightarrow> ds_pc s t = Out \<Longrightarrow> tracker_acquire t (ep_loaded e t) (ds_tracker s) = Inr tr \<Longrightarrow>
    epoch_step e (ep_with e (s\<lparr>ds_tracker := tr, ds_pc := (ds_pc s)(t := Registered (ep_loaded e t))\<rparr>))"
| load_buffers: "ep_ds e = s \<Longrightarrow> ds_pc s t = Registered v \<Longrightarrow> epoch_step e (ep_with e (s\<lparr>ds_pc := (ds_pc s)(t := Inside v (ds_gate s))\<rparr>))"
| unregister: "ep_ds e = s \<Longrightarrow> ds_pc s t = Inside v b \<Longrightarrow> tracker_release t (ds_tracker s) = Inr tr \<Longrightarrow>
    epoch_step e (ep_with e (s\<lparr>ds_tracker := tr, ds_pc := (ds_pc s)(t := Out)\<rparr>))"
| publish: "ep_ds e = s \<Longrightarrow> ds_wait s = NoWait \<Longrightarrow> ep_epoch e + 1 \<noteq> 0 \<Longrightarrow>
    epoch_step e (ep_with e (s\<lparr>ds_gate := b, ds_wait := Closed (ep_epoch e + 1, b)\<rparr>))"
| advance: "ds_wait (ep_ds e) = Closed w \<Longrightarrow> ep_epoch e + 1 = fst w \<Longrightarrow> epoch_step e (e\<lparr>ep_epoch := ep_epoch e + 1\<rparr>)"
| wait_begins: "ep_ds e = s \<Longrightarrow> ds_wait s = Closed w \<Longrightarrow> ep_epoch e = fst w \<Longrightarrow> epoch_step e (ep_with e (s\<lparr>ds_wait := Scanning w (tr_high_chunk (ds_tracker s)) 0\<rparr>))"
| wait_skips: "ep_ds e = s \<Longrightarrow> ds_wait s = Scanning w n p \<Longrightarrow> p < n * kChunkSize \<Longrightarrow> p mod kChunkSize = 0 \<Longrightarrow> tr_chunks (ds_tracker s) (p div kChunkSize) = None \<Longrightarrow>
    epoch_step e (ep_with e (s\<lparr>ds_wait := Scanning w n (p + kChunkSize)\<rparr>))"
| wait_passes: "ep_ds e = s \<Longrightarrow> ds_wait s = Scanning w n p \<Longrightarrow> p < n * kChunkSize \<Longrightarrow> tr_chunks (ds_tracker s) (p div kChunkSize) = Some c \<Longrightarrow>
    \<not> epoch_wait w (c ! (p mod kChunkSize)) \<Longrightarrow> epoch_step e (ep_with e (s\<lparr>ds_wait := Scanning w n (Suc p)\<rparr>))"
| wait_ends: "ep_ds e = s \<Longrightarrow> ds_wait s = Scanning w n (n * kChunkSize) \<Longrightarrow> epoch_step e (ep_with e (s\<lparr>ds_wait := Drained w\<rparr>))"
| next_cycle: "ep_ds e = s \<Longrightarrow> ds_wait s = Drained w \<Longrightarrow> epoch_step e (ep_with e (s\<lparr>ds_gate := ds_gate s, ds_wait := NoWait\<rparr>))"

definition EpochState_init :: "'b \<Rightarrow> 'b EpochState" where
  "EpochState_init b = \<lparr>ep_epoch = 1, ep_loaded = (\<lambda>_. 1), ep_ds = DrainState_init b\<rparr>"

inductive epoch_run :: "'b EpochState \<Rightarrow> bool" where
  epoch_start: "epoch_run (EpochState_init b)"
| epoch_more: "epoch_run e \<Longrightarrow> epoch_step e e' \<Longrightarrow> epoch_run e'"

text \<open>Under the epochs the tracker runs as in the other protocols, with a gate that refuses nobody.\<close>

lemma epoch_step_drain:
  assumes "epoch_step e e'" "\<And>t. ep_loaded e t \<noteq> 0"
  shows "ep_ds e' = ep_ds e \<or> drain_step (\<lambda>_ _. False) epoch_wait snd (ep_ds e) (ep_ds e')"
  using assms(1)
proof cases
  case (publish s b)
  then show ?thesis using drain_step.shut [of s "\<lambda>_ _. False" epoch_wait snd "(ep_epoch e + 1, b)"] by simp
next
  case (register s t tr)
  then show ?thesis using drain_step.enter [of s t "ep_loaded e t" tr "\<lambda>_ _. False" epoch_wait snd] assms(2) by simp
next
  case (next_cycle s w)
  then show ?thesis using drain_step.reopen [of s w "\<lambda>_ _. False" epoch_wait snd "ds_gate s"] by simp
qed (auto intro: drain_step.intros)

definition target_of :: "'w wait_pc \<Rightarrow> 'w option" where
  "target_of wt = (case wt of NoWait \<Rightarrow> None | Closed w \<Rightarrow> Some w | Scanning w n p \<Rightarrow> Some w | Drained w \<Rightarrow> Some w)"

definition epoch_inv :: "'b EpochState \<Rightarrow> bool" where
  "epoch_inv e \<longleftrightarrow> drain_inv (\<lambda>_ _. False) epoch_wait snd (ep_ds e)
     \<and> (\<forall>t. ep_loaded e t \<noteq> 0 \<and> ep_loaded e t \<le> ep_epoch e)
     \<and> (\<forall>t v. ds_pc (ep_ds e) t = Registered v \<or> (\<exists>b. ds_pc (ep_ds e) t = Inside v b) \<longrightarrow> v \<le> ep_epoch e)
     \<and> (\<forall>w t v b. target_of (ds_wait (ep_ds e)) = Some w \<longrightarrow> ds_pc (ep_ds e) t = Inside v b \<longrightarrow> b \<noteq> ds_gate (ep_ds e) \<longrightarrow> v < fst w)
     \<and> (\<forall>w. target_of (ds_wait (ep_ds e)) = Some w \<longrightarrow> fst w \<noteq> 0 \<and> (ep_epoch e = fst w \<or> ep_epoch e + 1 = fst w))"

lemma epoch_step_inv:
  assumes inv: "epoch_inv e" and step: "epoch_step e e'"
  shows "epoch_inv e'"
proof -
  have d: "drain_inv (\<lambda>_ _. False) epoch_wait snd (ep_ds e')"
    using epoch_step_drain [OF step] inv drain_step_inv [of "\<lambda>_ _. False" epoch_wait snd "ep_ds e" "ep_ds e'"] by (auto simp: epoch_inv_def)
  have nx: "v \<le> w \<Longrightarrow> w + 1 \<noteq> 0 \<Longrightarrow> v < w + 1" "v \<le> w \<Longrightarrow> w + 1 \<noteq> 0 \<Longrightarrow> v \<le> w + 1" for v w :: u64
    using unat_less_2p [of w] by (auto simp: word_less_nat_alt word_le_nat_alt unat_word_ariths unat_eq_0 [symmetric] mod_Suc split: if_splits)
  have le: "\<And>t. ep_loaded e t \<le> ep_epoch e" "\<And>t v. ds_pc (ep_ds e) t = Registered v \<Longrightarrow> v \<le> ep_epoch e"
    "\<And>t v b. ds_pc (ep_ds e) t = Inside v b \<Longrightarrow> v \<le> ep_epoch e" using inv unfolding epoch_inv_def by blast+
  from step show ?thesis
  proof cases
    case (publish s b)
    then show ?thesis using inv d le(3) [THEN nx(1)] by (auto simp: epoch_inv_def target_of_def)
  next
    case (advance w)
    have "ep_epoch e + 1 \<noteq> 0" using inv advance by (auto simp: epoch_inv_def target_of_def)
    then show ?thesis using inv d advance le [THEN nx(2)] by (auto simp: epoch_inv_def target_of_def)
  qed (use inv d in \<open>auto simp: epoch_inv_def target_of_def split: if_splits wait_pc.splits\<close>)
qed

lemma epoch_run_inv: "epoch_run e \<Longrightarrow> epoch_inv e"
proof (induction rule: epoch_run.induct)
  case (epoch_start b)
  have "drain_inv (\<lambda>_ _. False) epoch_wait snd (DrainState_init b)" by (rule drain_run_inv [OF drain_run.start])
  then show ?case by (simp add: epoch_inv_def EpochState_init_def) (simp add: DrainState_init_def target_of_def)
qed (rule epoch_step_inv)

section \<open>A wait that meets nobody ends\<close>

lemma scan_through:
  assumes "drain_run refuse pending close s" "ds_wait s = Scanning w n k" "k \<le> n * kChunkSize"
    and "\<And>q. k \<le> q \<Longrightarrow> q < n * kChunkSize \<Longrightarrow> \<exists>c. tr_chunks (ds_tracker s) (q div kChunkSize) = Some c \<and> \<not> pending w (c ! (q mod kChunkSize))"
  shows "drain_run refuse pending close (s\<lparr>ds_wait := Drained w\<rparr>)"
  using assms
proof (induction "n * kChunkSize - k" arbitrary: s k)
  case 0
  then have "ds_wait s = Scanning w n (n * kChunkSize)" by simp
  from drain_run.more [OF "0.prems"(1) drain_step.drained [OF this]] show ?case .
next
  case (Suc m)
  then have k: "k < n * kChunkSize" by simp
  obtain c where c: "tr_chunks (ds_tracker s) (k div kChunkSize) = Some c" "\<not> pending w (c ! (k mod kChunkSize))" using Suc.prems(4) k by blast
  let ?s = "s\<lparr>ds_wait := Scanning w n (Suc k)\<rparr>"
  have "drain_run refuse pending close ?s" by (rule drain_run.more [OF Suc.prems(1) drain_step.pass [where pending = pending, OF Suc.prems(2) k c]])
  then have "drain_run refuse pending close (?s\<lparr>ds_wait := Drained w\<rparr>)"
    by (rule Suc.hyps(1) [rotated]) (use Suc.hyps(2) k Suc.prems(4) in auto)
  then show ?case by simp
qed

text \<open>Thread 0 registers \<open>v\<close> and passes its check; then the gate is closed and scanned.\<close>

lemma one_inside_drained:
  assumes v: "v \<noteq> 0" "\<not> refuse v g" and free: "\<not> pending w v" "\<not> pending w 0"
  shows "\<exists>s. drain_run refuse pending close s \<and> ds_wait s = Drained w \<and> ds_pc s 0 = Inside v g"
proof -
  define chunk where "chunk = (replicate kChunkSize 0)[0 := v]"
  define tr where "tr = \<lparr>tr_chunks = [0 \<mapsto> chunk], tr_high_chunk = 1\<rparr>"
  have acq: "tracker_acquire 0 v ThreadReferenceTracker_new = Inr tr"
    by (simp add: tracker_acquire_def store_slot_def ensure_chunk_def ThreadReferenceTracker_new_def tr_def chunk_def kChunkSize_def kMaxChunks_def Let_def)
  let ?st = "\<lambda>g pc wt. \<lparr>ds_tracker = tr, ds_gate = g, ds_pc = (\<lambda>_. Out)(0 := pc), ds_wait = wt\<rparr>"
  have r1: "drain_run refuse pending close (?st g (Registered v) NoWait)"
    using drain_run.more [OF drain_run.start drain_step.enter [of "DrainState_init g" 0 v tr]] v(1) acq by (simp add: DrainState_init_def)
  have r2: "drain_run refuse pending close (?st g (Inside v g) NoWait)"
    using drain_run.more [OF r1 drain_step.check [of _ 0 v]] v(2) by simp
  have r3: "drain_run refuse pending close (?st (close w) (Inside v g) (Closed w))"
    using drain_run.more [OF r2 drain_step.shut [of _ _ _ _ w]] by simp
  have r4: "drain_run refuse pending close (?st (close w) (Inside v g) (Scanning w 1 0))"
    using drain_run.more [OF r3 drain_step.scan [of _ w]] by (simp add: tr_def)
  have "\<exists>c. tr_chunks tr (q div kChunkSize) = Some c \<and> \<not> pending w (c ! (q mod kChunkSize))" if "q < kChunkSize" for q
    using that free by (auto simp: tr_def chunk_def nth_list_update)
  then have "drain_run refuse pending close ((?st (close w) (Inside v g) (Scanning w 1 0))\<lparr>ds_wait := Drained w\<rparr>)"
    by (intro scan_through [OF r4]) auto
  then show ?thesis by (intro exI [of _ "?st (close w) (Inside v g) (Drained w)"]) simp
qed

section \<open>Properties\<close>

text \<open>
  C11: a drained barrier is empty. In every interleaving of threads that register, check the
  watermark, write and leave with a checkpoint that claims the watermark and waits: when the wait for
  a boundary is over, every in-place write still in flight targets an offset at or above it, so the
  range below may be synced and frozen.
\<close>

theorem in_place_drained:
  assumes "barrier_run s" "ds_wait s = Drained boundary" "boundary + 1 \<noteq> 0" "ds_pc s t = Inside v watermark"
  shows "boundary \<le> v - 1"
proof -
  have v: "v \<noteq> 0" "\<not> barrier_pending boundary v" using barrier.drained_empty [OF _ assms(2,4)] assms(1) by (simp_all add: barrier_run_def)
  then have "boundary + 1 \<le> v" by (simp add: barrier_pending_def epoch_pending_def)
  moreover have "unat (boundary + 1) = Suc (unat boundary)" using assms(3) unat_less_2p [of boundary]
    by (auto simp: unat_word_ariths unat_eq_0 [symmetric] mod_Suc split: if_splits)
  ultimately show ?thesis using v(1) by (simp add: word_le_nat_alt unat_minus_one)
qed

theorem in_place_drained_witness:
  "\<exists>s. barrier_run s \<and> ds_wait s = Drained 64 \<and> ds_pc s 0 = Inside 101 0 \<and> (64 :: u64) \<le> 101 - 1"
proof -
  have "\<not> barrier_refuse 101 0" "\<not> barrier_pending 64 101" "\<not> barrier_pending 64 0" by (simp_all add: barrier_refuse_def barrier_pending_def epoch_pending_def)
  then obtain s where s: "barrier_run s" "ds_wait s = Drained 64" "ds_pc s 0 = Inside 101 0"
    using one_inside_drained [of 101 barrier_refuse 0 barrier_pending 64 "\<lambda>target. target"] by (auto simp: barrier_run_def)
  from in_place_drained [OF s(1,2) _ s(3)] s show ?thesis by auto
qed

text \<open>
  C13: stopped writers are gone. In every interleaving of appenders that register the memory, check
  the stop flag and append, with a checkpoint that stops them and waits: when the wait is over, no
  appender of that memory holds a handle, so the frontier read before they resume is fully written.
\<close>

theorem writers_quiesced:
  assumes "gate_run s" "ds_wait s = Drained mem"
  shows "ds_pc s t \<noteq> Inside mem stop"
  using writer_gate.drained_empty [OF _ assms(2), of t mem stop] assms(1) by (auto simp: gate_run_def retired_pending_def)

theorem writers_quiesced_witness:
  "\<exists>s. gate_run s \<and> ds_wait s = Drained 5 \<and> ds_pc s 0 = Inside 7 False \<and> ds_pc s 0 \<noteq> Inside 5 False"
proof -
  have "\<not> gate_refuse 7 False" "\<not> retired_pending 5 7" "\<not> retired_pending 5 0" by (simp_all add: gate_refuse_def retired_pending_def)
  then obtain s where s: "gate_run s" "ds_wait s = Drained 5" "ds_pc s 0 = Inside 7 False"
    using one_inside_drained [of 7 gate_refuse False retired_pending 5 "\<lambda>mem. True"] by (auto simp: gate_run_def)
  from writers_quiesced [OF s(1,2), of 0 False] s show ?thesis by blast
qed

text \<open>
  C12: retired buffers are unused. In every interleaving of readers that load the epoch, register it,
  load the buffers and leave, with reorganisations that publish new buffers, advance the epoch and
  wait: when the wait is over, every reader inside uses the new buffers, so the old ones may be
  deleted.
\<close>

theorem retired_buffers_unused:
  assumes "epoch_run e" "ds_wait (ep_ds e) = Drained (target, fresh)" "ds_pc (ep_ds e) t = Inside v buffers"
  shows "buffers = fresh"
proof -
  have inv: "epoch_inv e" by (rule epoch_run_inv [OF assms(1)])
  have d: "drain_inv (\<lambda>_ _. False) epoch_wait snd (ep_ds e)" using inv by (simp add: epoch_inv_def)
  have gate: "ds_gate (ep_ds e) = fresh" "\<not> early epoch_wait (ep_ds e) (target, fresh) t" using d assms(2) by (auto simp: drain_inv_def wait_ok_def)
  have nz: "v \<noteq> 0" using d assms(3) by (auto simp: drain_inv_def pc_ok_def dest: spec [of _ t])
  show ?thesis
  proof (rule ccontr)
    assume "buffers \<noteq> fresh"
    then have "v < target" using inv assms(2,3) gate(1) by (auto simp: epoch_inv_def target_of_def)
    then show False using gate assms(3) nz \<open>buffers \<noteq> fresh\<close> by (auto simp: early_def epoch_wait_def epoch_pending_def)
  qed
qed

theorem retired_buffers_unused_witness:
  "\<exists>e. epoch_run e \<and> ds_wait (ep_ds e) = Drained (2, 20 :: nat) \<and> ds_pc (ep_ds e) 0 = Inside 1 20"
proof -
  let ?st = "\<lambda>ep tr g pc wt. \<lparr>ep_epoch = ep, ep_loaded = (\<lambda>_. 1), ep_ds = \<lparr>ds_tracker = tr, ds_gate = g, ds_pc = (\<lambda>_. Out)(0 := pc), ds_wait = wt\<rparr>\<rparr>"
  let ?n = ThreadReferenceTracker_new
  have "tracker_acquire 0 1 ?n \<noteq> Inl ThreadIdSpaceExhausted" by (simp add: tracker_acquire_def store_slot_def kMaxChunks_def Let_def)
  then obtain tr where tr: "tracker_acquire 0 1 ?n = Inr tr" by (metis (full_types) TrackerError.exhaust sum.exhaust)
  have "epoch_run (?st 1 ?n (10 :: nat) Out NoWait)" using epoch_run.epoch_start [of "10 :: nat"] by (simp add: EpochState_init_def DrainState_init_def fun_upd_idem)
  from epoch_run.epoch_more [OF this epoch_step.publish [OF refl, of _ 20]] have "epoch_run (?st 1 ?n (20 :: nat) Out (Closed (2, 20)))" by simp
  from epoch_run.epoch_more [OF this epoch_step.advance [of _ "(2, 20)"]] have "epoch_run (?st 2 ?n (20 :: nat) Out (Closed (2, 20)))" by simp
  from epoch_run.epoch_more [OF this epoch_step.wait_begins [OF refl, of _ "(2, 20)"]] have "epoch_run (?st 2 ?n (20 :: nat) Out (Scanning (2, 20) 0 0))"
    by (simp add: ThreadReferenceTracker_new_def)
  from epoch_run.epoch_more [OF this epoch_step.wait_ends [OF refl, of _ "(2, 20)" 0]] have "epoch_run (?st 2 ?n (20 :: nat) Out (Drained (2, 20)))" by simp
  from epoch_run.epoch_more [OF this epoch_step.register [OF refl, of _ 0 tr]] tr have "epoch_run (?st 2 tr (20 :: nat) (Registered 1) (Drained (2, 20)))" by simp
  from epoch_run.epoch_more [OF this epoch_step.load_buffers [OF refl, of _ 0 1]] have run: "epoch_run (?st 2 tr (20 :: nat) (Inside 1 20) (Drained (2, 20)))" by simp
  from retired_buffers_unused [OF run, of 2 20 0 1 20] show ?thesis using run by (intro exI [of _ "?st 2 tr (20 :: nat) (Inside 1 20) (Drained (2, 20))"]) simp
qed

end
