(* ===== verification/Spec2Isabelle.thy ===== *)
theory Spec2Isabelle
  imports T1_Scan Key_Codec Checkpoint_Failure Defrag_Evacuate Reference_Tracker
begin

text \<open>
  VMemKV, a persistent key-value store: a sharded in-memory index (T1), a memory-mapped file of
  records (T2), a write-ahead log, checkpoints and the store that composes them. All paths below are
  under \<^verbatim>\<open>src/implementation/vmemkv/src/\<close>.

  \<^bold>\<open>How the parts interact.\<close> A write takes the stripe of its key, stores the value inline in the
  index entry or appends a record to T2 and publishes its offset in the index, counts the change in
  the per-segment accounting, reserves a log record and waits until a group commit has synced it. A
  lookup reads the index and then T2. Index shards merge their append region into their sorted region
  in the background and split when they grow. A checkpoint syncs T2, writes the index to a file,
  commits both with a manifest, moves the base boundary and rotates the log. Defragmentation moves
  live records out of frozen segments that are mostly garbage and punches the segments evacuated by
  the cycle before. Opening loads the checkpoint and replays the log. The state of a component is a record, an operation is a function
  that returns the new state; an exception is a value (\<open>Inl\<close>), and a call that is still waiting for
  another thread is \<open>None\<close>.

  \<^bold>\<open>Theories.\<close>
  \<^item> \<open>VM_Prelude\<close>: little-endian codecs, reads and writes of byte lists, partition points, powers of two.
  \<^item> \<open>Bytes_Util\<close> (\<^verbatim>\<open>core/bytes.hpp\<close>, \<^verbatim>\<open>api/utils.hpp\<close>), \<open>Key_Codec\<close> (\<^verbatim>\<open>api/serializer.hpp\<close>),
    \<open>T1_Keys\<close> (the key and hash codecs of \<^verbatim>\<open>t1_index/t1_index.hpp\<close>), \<open>Bloom_Filter\<close>
    (\<^verbatim>\<open>optimizations/bloom_filter.hpp\<close>), \<open>Hash_Table\<close> (\<^verbatim>\<open>core/lock_free_hash_table.hpp\<close>).
  \<^item> \<open>T1_Index\<close>, \<open>T1_Reorg\<close>, \<open>T1_Scan\<close>, \<open>Live_Index\<close>: one shard (\<^verbatim>\<open>t1_index/t1_index.hpp\<close>): both
    regions, lookup and put with its retry loop, the nine stages of \<^verbatim>\<open>reorganize\<close> interleaved with
    whole writes, range scans, load and dump. \<open>Live_Index\<close> states the contract of an index of live entries
    as a locale and interprets it on the shard.
  \<^item> \<open>Sharded_T1\<close> (\<^verbatim>\<open>t1_index/sharded_t1_index.hpp\<close>): routing, puts that wait for maintenance, the
    maintenance cycle, splits, scans, checkpoint and load; a second interpretation of the contract.
  \<^item> \<open>T2_Flat_File\<close> (\<^verbatim>\<open>t2_flat_file/\<close>), \<open>T2_Ownership\<close> (\<^verbatim>\<open>vmemkv/t2_ownership.hpp\<close>), \<open>Read_Path\<close>
    (\<^verbatim>\<open>vmemkv/read_path.hpp\<close>), \<open>Write_Path\<close> (\<^verbatim>\<open>vmemkv/write_path.hpp\<close>).
  \<^item> \<open>Wal_Format\<close>, \<open>Wal_Group\<close>, \<open>Wal_Single\<close> (\<^verbatim>\<open>wal/\<close>): the record format, torn tails and replay; the
    group commit of any number of records in flight as a step relation over the atomic operations of
    the code, with the failures of every system call and of the leader's allocation; the same operations
    as whole calls.
  \<^item> \<open>File_Io\<close> (\<^verbatim>\<open>core/io.hpp\<close>), \<open>Checkpoint_File\<close> (\<^verbatim>\<open>checkpoint/\<close>): exact reads and writes over
    system calls that are interrupted, short or fail; the checkpoint file and the manifest.
  \<^item> \<open>Durable_Map\<close>: the specification, a finite map with a log, as locales. \<open>Store\<close>
    (\<^verbatim>\<open>vmemkv_impl.hpp\<close>): the operations of the store and their refinement of the map; \<open>Store_Recovery\<close>:
    construction from a directory. \<open>Checkpoint_Cycle\<close> (\<^verbatim>\<open>vmemkv/checkpoint_coordinator.hpp\<close>): one
    cycle over the store and its files, and lives of calls and checkpoints, in which calls also run
    between the publication of a checkpoint and the rotation of the log; \<open>Checkpoint_Failure\<close>:
    what a failed cycle leaves.
  \<^item> \<open>Defrag\<close>, \<open>Defrag_Evacuate\<close> (\<^verbatim>\<open>vmemkv/defrag_controller.hpp\<close>, the group awaiter of
    \<^verbatim>\<open>vmemkv/write_path.hpp\<close>, \<^verbatim>\<open>defragment\<close> of \<^verbatim>\<open>vmemkv_impl.hpp\<close>): triggers, victim selection, relocation,
    queueing and punching; what a cycle preserves, what a complete relocation achieves.
  \<^item> \<open>Reference_Tracker\<close> (\<^verbatim>\<open>core/reference_tracker.hpp\<close>, \<^verbatim>\<open>core/single_flight.hpp\<close>): the slot array of active
    references and the protocols over it as step relations: the in-place barrier (\<^verbatim>\<open>vmemkv/hooks.hpp\<close>), the
    writer gate (\<^verbatim>\<open>t2_flat_file.hpp\<close>) and the epochs of the index; the contract of a gate is a locale,
    interpreted on the barrier and the writer gate.

  \<^bold>\<open>What is shown.\<close> The store refines a finite map, call by call and on every error, and every call
  returns once the index workers have caught up; what it acknowledged survives a crash at any byte of
  the log, also through any number of checkpoints, as long as the records to replay fit T2; no
  acknowledged record is lost or invented by the group commit, as long as the length of its segment can
  be read and cut back; reorganisation, maintenance and splits preserve every lookup, as long as no
  tombstone hides a live copy and no two live keys share a prefix; the index, the T2 file,
  the checkpoint file and the manifest read back what was written; the base region of T2 is immutable;
  a defragmentation cycle changes no contents, and a relocation within its budget evacuates its victims;
  in every interleaving, a drained barrier, a stopped writer gate and a passed epoch leave nobody behind
  who could still write the captured range or read the retired buffers.
  Where the code does not do what it means to, the theorem says so: deletions that come back after a
  merge, scans and splits that lose a key with a shared prefix, batches that are acknowledged but not
  written or truncated away, a checkpoint reader that runs past its mapping, a store that cannot be
  opened again, a failed checkpoint after which data is lost, a segment that is punched although a live
  record reaches into it, and a forced defragmentation that waits for ever.

  \<^bold>\<open>Bounds.\<close> T2 capacities are at most \<open>2 ^ 48\<close>, the width of the offset field; runs are shorter than
  \<open>2 ^ 40\<close> calls, so that the used length of T2 and the log numbers stay below \<open>2 ^ 64\<close>. Machine
  integers are words of their width wherever the code computes with them. The lists of waits say how
  many maintenance cycles the workers complete in each pause; a list that is long enough always lets
  the call return. Two keys with the same 16-byte prefix and hash are one key for the index; the
  theorems about maintenance ask that no two live keys share a prefix, which the findings show to be
  needed. The order in which \<^verbatim>\<open>std::sort\<close> leaves equal victims is an argument of the selection that
  permutes its list. A forced defragmentation has one element of its list of turns per cycle it tries.
  The group commit bounds the records outstanding at once by the 4096 slots of the ring, whoever
  reserved them: a relocating thread holds up to 1024 of them before it awaits any.

  \<^bold>\<open>Simplifications.\<close> A put into a shard is one step between the stages of a reorganisation, so that
  \<^verbatim>\<open>wait_until_epoch\<close> has nothing to wait for there; what the epochs guarantee is shown on their own in
  \<open>Reference_Tracker\<close>. A slot whose seqlock is odd is never met, so \<^verbatim>\<open>load_slot_consistent\<close> is one read.
  Slot indices of the hash table and of the append region are naturals, and log numbers in \<open>Wal_Group\<close>
  are not bounded. A rotation of the log is not interleaved with a group commit, and no call runs
  between the capture of a checkpoint and its publication. A rename or unlink is durable at once,
  as the code syncs no directory.

  \<^bold>\<open>Not modelled.\<close> The worker loops and back-off, which only decide when an operation
  runs; the reference counts of slots that delay freeing a shard, since the model never frees one; weak
  memory orders, every atomic step being sequentially consistent; the memory throttle, the swap check,
  \<^verbatim>\<open>madvise\<close> and the timing statistics, which do not change contents; the rival stores and the benchmarks, which measure third-party engines.
\<close>

end
